(* ===== verification/Runtime_Types.thy ===== *)
theory Runtime_Types
  imports Rust_Prelude
begin

text \<open>
  Types that several pallets share, at the instances of the node runtime
  (\<open>bin/node/runtime\<close>): balances are \<open>u128\<close>, block numbers and nonces \<open>u32\<close>, the
  account data kept by the System pallet is that of the Balances pallet. Account identifiers stay a
  type variable. The errors are those of \<open>sp_runtime\<close>, the events the enumerations of the
  modelled pallets.
\<close>

section \<open>Account data\<close>

record account_data =
  free :: u128
  reserved :: u128
  misc_frozen :: u128
  fee_frozen :: u128

definition default_account_data :: account_data where
  "default_account_data = \<lparr>free = 0, reserved = 0, misc_frozen = 0, fee_frozen = 0\<rparr>"

section \<open>Errors\<close>

datatype token_error =
    TokNoFunds
  | TokWouldDie
  | TokBelowMinimum
  | TokCannotCreate
  | TokUnknownAsset
  | TokFrozen
  | TokUnsupported

datatype arithmetic_error = Underflow | Overflow | DivisionByZero

datatype stored_map_error = SmNoProviders | SmConsumerRemaining

datatype balances_error =
    VestingBalance
  | LiquidityRestrictions
  | InsufficientBalance
  | ExistentialDepositErr
  | KeepAliveErr
  | ExistingVestingSchedule
  | DeadAccount
  | TooManyReserves

datatype dispatch_error =
    OtherErr string
  | CannotLookup
  | BadOrigin
  | BalancesModule balances_error
  | ConsumerRemaining
  | NoProviders
  | Token token_error
  | Arithmetic arithmetic_error

text \<open>\<open>From<StoredMapError> for DispatchError\<close>.\<close>

fun stored_map_to_dispatch :: "stored_map_error \<Rightarrow> dispatch_error" where
  "stored_map_to_dispatch SmConsumerRemaining = ConsumerRemaining"
| "stored_map_to_dispatch SmNoProviders = NoProviders"

section \<open>Events and origins\<close>

datatype balance_status = StatusFree | StatusReserved

datatype 'acc balances_event =
    Endowed 'acc u128
  | DustLost 'acc u128
  | Transfer 'acc 'acc u128
  | BalanceSet 'acc u128 u128
  | Deposit 'acc u128
  | Reserved 'acc u128
  | Unreserved 'acc u128
  | ReserveRepatriated 'acc 'acc u128 balance_status

datatype 'acc runtime_event =
    NewAccount 'acc
  | KilledAccount 'acc
  | BalancesEvent "'acc balances_event"

datatype 'acc raw_origin = Root | Signed 'acc | NoOrigin

fun ensure_signed :: "'acc raw_origin \<Rightarrow> dispatch_error + 'acc" where
  "ensure_signed (Signed t) = Inr t"
| "ensure_signed _ = Inl BadOrigin"

fun ensure_root :: "'acc raw_origin \<Rightarrow> dispatch_error + unit" where
  "ensure_root Root = Inr ()"
| "ensure_root _ = Inl BadOrigin"

end
