(* ===== verification/Frame_System.thy ===== *)
theory Frame_System
  imports Runtime_Types
begin

text \<open>
  The System pallet (\<open>frame/system/src/lib.rs\<close>): the account registry with its three
  reference counters, the event log, and the \<open>StoredMap\<close> implementation through which the
  Balances pallet keeps its data in the registry. The storage of the pallet is an extensible record,
  so that every pallet above it adds its own storage items and every operation here runs on the
  larger state. The counters are \<open>u32\<close> and wrap where the code uses the plain operators.
  \<open>OnNewAccount\<close> and \<open>OnKilledAccount\<close> are \<open>()\<close> in the node runtime.
\<close>

section \<open>Storage\<close>

record account_info =
  nonce :: u32
  consumers :: u32
  providers :: u32
  sufficients :: u32
  data :: account_data

definition default_account_info :: account_info where
  "default_account_info =
     \<lparr>nonce = 0, consumers = 0, providers = 0, sufficients = 0, data = default_account_data\<rparr>"

datatype phase = ApplyExtrinsic u32 | Finalization | Initialization

record 'acc event_record =
  phase_of :: phase
  event :: "'acc runtime_event"
  topics :: "hash256 list"

record 'acc system =
  Account :: "'acc \<rightharpoonup> account_info"
  Number :: u32
  ExecutionPhase :: "phase option"
  EventCount :: u32
  Events :: "'acc event_record list"
  EventTopics :: "hash256 \<Rightarrow> (u32 \<times> u32) list"

section \<open>Events\<close>

fun append_topics :: "hash256 list \<Rightarrow> u32 \<times> u32 \<Rightarrow> (hash256 \<Rightarrow> (u32 \<times> u32) list)
    \<Rightarrow> hash256 \<Rightarrow> (u32 \<times> u32) list" where
  "append_topics [] entry m = m"
| "append_topics (t # ts) entry m = append_topics ts entry (m(t := m t @ [entry]))"

definition deposit_event_indexed ::
    "hash256 list \<Rightarrow> 'acc runtime_event \<Rightarrow> ('acc, 'm) system_scheme \<Rightarrow> ('acc, 'm) system_scheme" where
  "deposit_event_indexed tps ev s =
     (let block_number = Number s in
      if block_number = 0 then s
      else
        let ph = unwrap_or_default Initialization (ExecutionPhase s);
            rec = \<lparr>phase_of = ph, event = ev, topics = tps\<rparr>;
            old_event_count = EventCount s
        in case checked_add old_event_count 1 of
             None \<Rightarrow> s
           | Some new_event_count \<Rightarrow>
               s\<lparr>EventCount := new_event_count,
                 Events := Events s @ [rec],
                 EventTopics := append_topics tps (block_number, old_event_count) (EventTopics s)\<rparr>)"

definition deposit_event ::
    "'acc runtime_event \<Rightarrow> ('acc, 'm) system_scheme \<Rightarrow> ('acc, 'm) system_scheme" where
  "deposit_event ev s = deposit_event_indexed [] ev s"

definition on_created_account ::
    "'acc \<Rightarrow> ('acc, 'm) system_scheme \<Rightarrow> ('acc, 'm) system_scheme" where
  "on_created_account who s = deposit_event (NewAccount who) s"

definition on_killed_account ::
    "'acc \<Rightarrow> ('acc, 'm) system_scheme \<Rightarrow> ('acc, 'm) system_scheme" where
  "on_killed_account who s = deposit_event (KilledAccount who) s"

section \<open>The account map\<close>

text \<open>
  \<open>Account\<close> is a \<open>ValueQuery\<close> map: reading an absent key gives the default value, and
  \<open>mutate\<close> always writes the entry back.
\<close>

definition account_get :: "('acc, 'm) system_scheme \<Rightarrow> 'acc \<Rightarrow> account_info" where
  "account_get s who = unwrap_or_default default_account_info (Account s who)"

definition account_put ::
    "'acc \<Rightarrow> account_info option \<Rightarrow> ('acc, 'm) system_scheme \<Rightarrow> ('acc, 'm) system_scheme" where
  "account_put who a s = s\<lparr>Account := (Account s)(who := a)\<rparr>"

definition account_exists :: "('acc, 'm) system_scheme \<Rightarrow> 'acc \<Rightarrow> bool" where
  "account_exists s who = (Account s who \<noteq> None)"

definition is_provider_required :: "('acc, 'm) system_scheme \<Rightarrow> 'acc \<Rightarrow> bool" where
  "is_provider_required s who = (consumers (account_get s who) \<noteq> 0)"

definition can_dec_provider :: "('acc, 'm) system_scheme \<Rightarrow> 'acc \<Rightarrow> bool" where
  "can_dec_provider s who =
     (let a = account_get s who in consumers a = 0 \<or> providers a > 1)"

definition can_inc_consumer :: "('acc, 'm) system_scheme \<Rightarrow> 'acc \<Rightarrow> bool" where
  "can_inc_consumer s who = (providers (account_get s who) > 0)"

definition reference_count :: "('acc, 'm) system_scheme \<Rightarrow> 'acc \<Rightarrow> u32" where
  "reference_count s who = (let a = account_get s who in providers a + sufficients a)"

definition account_nonce :: "('acc, 'm) system_scheme \<Rightarrow> 'acc \<Rightarrow> u32" where
  "account_nonce s who = nonce (account_get s who)"

definition inc_account_nonce ::
    "'acc \<Rightarrow> ('acc, 'm) system_scheme \<Rightarrow> ('acc, 'm) system_scheme" where
  "inc_account_nonce who s =
     (let a = account_get s who in account_put who (Some (a\<lparr>nonce := nonce a + 1\<rparr>)) s)"

section \<open>Reference counters\<close>

datatype inc_ref_status = Created | Existed
datatype dec_ref_status = Reaped | Exists
datatype dec_ref_error = DecConsumerRemaining
datatype inc_ref_error = IncNoProviders

definition inc_providers ::
    "'acc \<Rightarrow> ('acc, 'm) system_scheme \<Rightarrow> inc_ref_status \<times> ('acc, 'm) system_scheme" where
  "inc_providers who s =
     (let a = account_get s who in
      if providers a = 0 \<and> sufficients a = 0 then
        (Created, account_put who (Some (a\<lparr>providers := 1\<rparr>)) (on_created_account who s))
      else
        (Existed, account_put who (Some (a\<lparr>providers := saturating_add (providers a) 1\<rparr>)) s))"

definition dec_providers ::
    "'acc \<Rightarrow> ('acc, 'm) system_scheme
      \<Rightarrow> (dec_ref_error + dec_ref_status) \<times> ('acc, 'm) system_scheme" where
  "dec_providers who s =
     (case Account s who of
        None \<Rightarrow> (Inr Reaped, account_put who None s)
      | Some a \<Rightarrow>
          (let account = (if providers a = 0 then a\<lparr>providers := 1\<rparr> else a) in
           if providers account = 1 \<and> consumers account = 0 \<and> sufficients account = 0 then
             (Inr Reaped, account_put who None (on_killed_account who s))
           else if providers account = 1 \<and> consumers account > 0 then
             (Inl DecConsumerRemaining, s)
           else
             (Inr Exists,
              account_put who (Some (account\<lparr>providers := providers account - 1\<rparr>)) s)))"

definition inc_sufficients ::
    "'acc \<Rightarrow> ('acc, 'm) system_scheme \<Rightarrow> inc_ref_status \<times> ('acc, 'm) system_scheme" where
  "inc_sufficients who s =
     (let a = account_get s who in
      if providers a + sufficients a = 0 then
        (Created, account_put who (Some (a\<lparr>sufficients := 1\<rparr>)) (on_created_account who s))
      else
        (Existed, account_put who (Some (a\<lparr>sufficients := saturating_add (sufficients a) 1\<rparr>)) s))"

definition dec_sufficients ::
    "'acc \<Rightarrow> ('acc, 'm) system_scheme \<Rightarrow> dec_ref_status \<times> ('acc, 'm) system_scheme" where
  "dec_sufficients who s =
     (case Account s who of
        None \<Rightarrow> (Reaped, account_put who None s)
      | Some account \<Rightarrow>
          if (sufficients account = 0 \<or> sufficients account = 1) \<and> providers account = 0 then
            (Reaped, account_put who None (on_killed_account who s))
          else
            (Exists,
             account_put who (Some (account\<lparr>sufficients := sufficients account - 1\<rparr>)) s))"

definition inc_consumers ::
    "'acc \<Rightarrow> ('acc, 'm) system_scheme \<Rightarrow> (inc_ref_error + unit) \<times> ('acc, 'm) system_scheme" where
  "inc_consumers who s =
     (let a = account_get s who in
      if providers a > 0 then
        (Inr (), account_put who (Some (a\<lparr>consumers := saturating_add (consumers a) 1\<rparr>)) s)
      else (Inl IncNoProviders, s))"

definition dec_consumers ::
    "'acc \<Rightarrow> ('acc, 'm) system_scheme \<Rightarrow> ('acc, 'm) system_scheme" where
  "dec_consumers who s =
     (let a = account_get s who in
      account_put who (Some (if consumers a > 0 then a\<lparr>consumers := consumers a - 1\<rparr> else a)) s)"

section \<open>The registry as a StoredMap of account data\<close>

definition is_providing :: "account_data \<Rightarrow> bool" where
  "is_providing d = (d \<noteq> default_account_data)"

definition stored_get :: "('acc, 'm) system_scheme \<Rightarrow> 'acc \<Rightarrow> account_data" where
  "stored_get s k = data (account_get s k)"

definition account_set_data ::
    "'acc \<Rightarrow> account_data option \<Rightarrow> ('acc, 'm) system_scheme \<Rightarrow> ('acc, 'm) system_scheme" where
  "account_set_data k d s =
     account_put k (Some ((account_get s k)\<lparr>data := unwrap_or_default default_account_data d\<rparr>)) s"

text \<open>
  The closure \<open>f\<close> gets the current value and the state, since it may itself read and write
  storage; \<open>frm\<close> is the conversion \<open>E: From<StoredMapError>\<close>. When the provider
  reference cannot be given up, the function returns early and the closure's \<open>result\<close> goes out
  of scope: \<open>drp\<close> is the drop glue of its type, which for types that carry an imbalance writes to
  storage.
\<close>

definition try_mutate_exists ::
    "(stored_map_error \<Rightarrow> 'e) \<Rightarrow> ('r \<Rightarrow> ('acc, 'm) system_scheme \<Rightarrow> ('acc, 'm) system_scheme) \<Rightarrow> 'acc
      \<Rightarrow> (account_data option \<Rightarrow> ('acc, 'm) system_scheme
            \<Rightarrow> ('e + 'r \<times> account_data option) \<times> ('acc, 'm) system_scheme)
      \<Rightarrow> ('acc, 'm) system_scheme \<Rightarrow> ('e + 'r) \<times> ('acc, 'm) system_scheme" where
  "try_mutate_exists frm drp k f s =
     (let account = account_get s k;
          was_providing = is_providing (data account);
          some_data = (if was_providing then Some (data account) else None)
      in case f some_data s of
           (Inl e, s1) \<Rightarrow> (Inl e, s1)
         | (Inr (result, some_data'), s1) \<Rightarrow>
             (let now_providing = (some_data' \<noteq> None) in
              if \<not> was_providing \<and> now_providing then
                (Inr result, account_set_data k some_data' (snd (inc_providers k s1)))
              else if was_providing \<and> \<not> now_providing then
                (case dec_providers k s1 of
                   (Inl DecConsumerRemaining, s2) \<Rightarrow> (Inl (frm SmConsumerRemaining), drp result s2)
                 | (Inr Reaped, s2) \<Rightarrow> (Inr result, s2)
                 | (Inr Exists, s2) \<Rightarrow> (Inr result, account_set_data k some_data' s2))
              else if \<not> was_providing \<and> \<not> now_providing then (Inr result, s1)
              else (Inr result, account_set_data k some_data' s1)))"

section \<open>The pallet as a transition system\<close>

text \<open>
  Every operation other pallets may call on the registry, in any order and on any account. A
  mutation through the \<open>StoredMap\<close> interface may use any closure on the account data.
\<close>

inductive sys_step :: "('acc, 'm) system_scheme \<Rightarrow> ('acc, 'm) system_scheme \<Rightarrow> bool" where
  inc_provider: "inc_providers who s = (r, t) \<Longrightarrow> sys_step s t"
| dec_provider: "dec_providers who s = (r, t) \<Longrightarrow> sys_step s t"
| inc_sufficient: "inc_sufficients who s = (r, t) \<Longrightarrow> sys_step s t"
| dec_sufficient: "dec_sufficients who s = (r, t) \<Longrightarrow> sys_step s t"
| inc_consumer: "inc_consumers who s = (r, t) \<Longrightarrow> sys_step s t"
| dec_consumer: "sys_step s (dec_consumers who s)"
| inc_nonce: "sys_step s (inc_account_nonce who s)"
| event: "sys_step s (deposit_event ev s)"
| mutate: "try_mutate_exists frm (\<lambda>_ st. st) who (\<lambda>d st. (g d, st)) s = ((r :: dispatch_error + unit), t) \<Longrightarrow> sys_step s t"

inductive sys_reachable :: "('acc, 'm) system_scheme \<Rightarrow> bool" where
  start: "Account s = Map.empty \<Longrightarrow> sys_reachable s"
| step: "sys_reachable s \<Longrightarrow> sys_step s t \<Longrightarrow> sys_reachable t"

text \<open>A consumer reference never stands without a provider reference.\<close>

definition refs_ok :: "account_info \<Rightarrow> bool" where
  "refs_ok a = (consumers a > 0 \<longrightarrow> providers a > 0)"

definition refs_sound :: "('acc, 'm) system_scheme \<Rightarrow> bool" where
  "refs_sound s = (\<forall>who. refs_ok (account_get s who))"

section \<open>Frame lemmas\<close>

lemma Account_deposit_event [simp]: "Account (deposit_event ev s) = Account s"
  by (simp add: deposit_event_def deposit_event_indexed_def Let_def split: option.split)

lemma Account_on_created [simp]: "Account (on_created_account who s) = Account s"
  by (simp add: on_created_account_def)

lemma Account_on_killed [simp]: "Account (on_killed_account who s) = Account s"
  by (simp add: on_killed_account_def)

lemma Account_put [simp]: "Account (account_put who a s) = (Account s)(who := a)"
  by (simp add: account_put_def)

lemma account_get_cong: "Account s = Account t \<Longrightarrow> account_get s = account_get t"
  by (simp add: account_get_def fun_eq_iff)

lemma account_get_put [simp]:
  "account_get (account_put who a s) k =
     (if k = who then unwrap_or_default default_account_info a else account_get s k)"
  by (simp add: account_get_def)

lemma account_get_deposit_event [simp]: "account_get (deposit_event ev s) = account_get s"
  by (rule account_get_cong) simp

lemma account_get_on_created [simp]: "account_get (on_created_account who s) = account_get s"
  by (rule account_get_cong) simp

lemma account_get_on_killed [simp]: "account_get (on_killed_account who s) = account_get s"
  by (rule account_get_cong) simp

lemma account_get_Some: "Account s who = Some a \<Longrightarrow> account_get s who = a"
  by (simp add: account_get_def)

lemma account_get_None: "Account s who = None \<Longrightarrow> account_get s who = default_account_info"
  by (simp add: account_get_def)

lemma account_set_data_get [simp]:
  "account_get (account_set_data k d s) who =
     (if who = k then (account_get s k)\<lparr>data := unwrap_or_default default_account_data d\<rparr>
      else account_get s who)"
  by (simp add: account_set_data_def)

lemma default_info_simps [simp]:
  "nonce default_account_info = 0" "consumers default_account_info = 0"
  "providers default_account_info = 0" "sufficients default_account_info = 0"
  "data default_account_info = default_account_data"
  by (simp_all add: default_account_info_def)

section \<open>Reference counting\<close>

lemma refs_ok_default [simp]: "refs_ok default_account_info"
  by (simp add: refs_ok_def)

lemma refs_ok_data [simp]: "refs_ok (a\<lparr>data := d\<rparr>) = refs_ok a"
  by (simp add: refs_ok_def)

lemma refs_sound_get: "refs_sound s \<Longrightarrow> refs_ok (account_get s who)"
  by (simp add: refs_sound_def)

lemma refs_sound_cong: "Account t = Account s \<Longrightarrow> refs_sound t = refs_sound s"
  by (simp add: refs_sound_def account_get_def)

lemma refs_sound_put:
  "refs_sound s \<Longrightarrow> refs_ok (unwrap_or_default default_account_info a)
    \<Longrightarrow> refs_sound (account_put who a s)"
  by (simp add: refs_sound_def)

lemma refs_sound_events [simp]:
  "refs_sound (deposit_event ev s) = refs_sound s"
  "refs_sound (on_created_account who s) = refs_sound s"
  "refs_sound (on_killed_account who s) = refs_sound s"
  by (rule refs_sound_cong, simp)+

lemma refs_sound_set_data: "refs_sound s \<Longrightarrow> refs_sound (account_set_data k d s)"
  by (simp add: account_set_data_def refs_sound_put refs_sound_get)

lemma refs_sound_inc_providers:
  "refs_sound s \<Longrightarrow> refs_sound (snd (inc_providers who s))"
  using refs_sound_get [of s who]
  by (auto simp: inc_providers_def Let_def saturating_add_one_pos refs_ok_def intro!: refs_sound_put)

lemma word_gt_one_minus: "(x :: u32) \<noteq> 0 \<Longrightarrow> x \<noteq> 1 \<Longrightarrow> 0 < x - 1"
  by (metis diff_eq_eq add_0 word_neq_0_conv)

lemma refs_sound_dec_providers:
  "refs_sound s \<Longrightarrow> refs_sound (snd (dec_providers who s))"
  using refs_sound_get [of s who]
  by (auto simp: dec_providers_def Let_def refs_ok_def account_get_Some word_gt_one_minus
      split: option.split intro!: refs_sound_put)

lemma refs_sound_inc_sufficients:
  "refs_sound s \<Longrightarrow> refs_sound (snd (inc_sufficients who s))"
  using refs_sound_get [of s who]
  by (auto simp: inc_sufficients_def Let_def refs_ok_def intro!: refs_sound_put)

lemma refs_sound_dec_sufficients:
  "refs_sound s \<Longrightarrow> refs_sound (snd (dec_sufficients who s))"
  using refs_sound_get [of s who]
  by (auto simp: dec_sufficients_def refs_ok_def account_get_Some split: option.split
      intro!: refs_sound_put)

lemma refs_sound_inc_consumers:
  "refs_sound s \<Longrightarrow> refs_sound (snd (inc_consumers who s))"
  by (auto simp: inc_consumers_def Let_def refs_ok_def intro!: refs_sound_put)

lemma refs_sound_dec_consumers: "refs_sound s \<Longrightarrow> refs_sound (dec_consumers who s)"
  using refs_sound_get [of s who]
  by (auto simp: dec_consumers_def Let_def refs_ok_def intro!: refs_sound_put)

lemma refs_sound_inc_account_nonce: "refs_sound s \<Longrightarrow> refs_sound (inc_account_nonce who s)"
  using refs_sound_get [of s who]
  by (auto simp: inc_account_nonce_def Let_def refs_ok_def intro!: refs_sound_put)

lemma refs_sound_try_mutate_exists:
  assumes "refs_sound s" and drp: "\<And>r st. refs_sound st \<Longrightarrow> refs_sound (drp r st)" and "refs_sound (snd (f (if is_providing (stored_get s k) then Some (stored_get s k) else None) s))"
  shows "refs_sound (snd (try_mutate_exists frm drp k f s))"
proof -
  obtain r s1 where f: "f (if is_providing (stored_get s k) then Some (stored_get s k) else None) s = (r, s1)"
    by fastforce
  with assms have s1: "refs_sound s1" by simp
  note rs = refs_sound_inc_providers [OF s1, of k] refs_sound_dec_providers [OF s1, of k]
  obtain d s2 where dp: "dec_providers k s1 = (d, s2)" by fastforce
  with rs(2) have s2: "refs_sound s2" by simp
  show ?thesis
    using f s1 s2 rs(1) dp drp
    by (auto simp: try_mutate_exists_def stored_get_def Let_def refs_sound_set_data
        split: sum.split prod.split dec_ref_error.split dec_ref_status.split)
qed

lemmas refs_sound_ops =
  refs_sound_inc_providers refs_sound_dec_providers refs_sound_inc_sufficients
  refs_sound_dec_sufficients refs_sound_inc_consumers refs_sound_dec_consumers
  refs_sound_inc_account_nonce refs_sound_try_mutate_exists

lemma refs_sound_step: "sys_step s t \<Longrightarrow> refs_sound s \<Longrightarrow> refs_sound t"
proof (induction rule: sys_step.induct)
  case (mutate frm who g s r t)
  then show ?case
    using refs_sound_try_mutate_exists [of s "\<lambda>_ st. st" "\<lambda>d st. (g d, st)" who frm] by simp
qed (use refs_sound_ops(1-7) refs_sound_events(1) in \<open>metis snd_conv\<close>)+

lemma refs_sound_reachable: "sys_reachable s \<Longrightarrow> refs_sound s"
proof (induction rule: sys_reachable.induct)
  case (start s)
  then show ?case by (simp add: refs_sound_def account_get_None)
next
  case (step s t)
  then show ?case by (blast intro: refs_sound_step)
qed

section \<open>Referenced accounts stay\<close>

text \<open>\<open>provided s who\<close>: the account is in the registry and has a provider.\<close>

definition provided :: "('acc, 'm) system_scheme \<Rightarrow> 'acc \<Rightarrow> bool" where
  "provided s who = (\<exists>a. Account s who = Some a \<and> providers a > 0)"

lemma provided_get: "provided s who \<Longrightarrow> \<exists>a. Account s who = Some a \<and> account_get s who = a \<and> providers a > 0"
  by (auto simp: provided_def account_get_def)

lemma provided_events [simp]:
  "provided (deposit_event ev s) who = provided s who"
  "provided (on_created_account k s) who = provided s who"
  "provided (on_killed_account k s) who = provided s who"
  by (simp_all add: provided_def)

lemma provided_put:
  "provided (account_put k a s) who =
     (if who = k then (\<exists>b. a = Some b \<and> providers b > 0) else provided s who)"
  by (auto simp: provided_def)

lemma provided_set_data [simp]:
  "provided s who \<Longrightarrow> provided (account_set_data k d s) who"
  by (auto simp: account_set_data_def provided_put dest: provided_get)

lemma provided_inc_providers: "provided s who \<Longrightarrow> provided (snd (inc_providers k s)) who"
  by (auto simp: inc_providers_def Let_def provided_put saturating_add_one_pos)

lemma provided_dec_providers:
  assumes "provided s who" and "consumers (account_get s who) > 0"
  shows "provided (snd (dec_providers k s)) who"
  using assms provided_get [OF assms(1)]
  by (auto simp: dec_providers_def Let_def provided_put word_gt_one_minus split: option.split)

lemma provided_inc_sufficients: "provided s who \<Longrightarrow> provided (snd (inc_sufficients k s)) who"
  by (auto simp: inc_sufficients_def Let_def provided_put dest: provided_get)

lemma provided_dec_sufficients: "provided s who \<Longrightarrow> provided (snd (dec_sufficients k s)) who"
  by (auto simp: dec_sufficients_def provided_put split: option.split dest: provided_get)

lemma provided_inc_consumers: "provided s who \<Longrightarrow> provided (snd (inc_consumers k s)) who"
  by (auto simp: inc_consumers_def Let_def provided_put dest: provided_get)

lemma provided_dec_consumers: "provided s who \<Longrightarrow> provided (dec_consumers k s) who"
  by (auto simp: dec_consumers_def Let_def provided_put dest: provided_get)

lemma provided_inc_account_nonce: "provided s who \<Longrightarrow> provided (inc_account_nonce k s) who"
  by (auto simp: inc_account_nonce_def Let_def provided_put dest: provided_get)

lemma provided_try_mutate_exists:
  assumes "provided s who" and "consumers (account_get s who) > 0"
  shows "provided (snd (try_mutate_exists frm (\<lambda>_ st. st) k (\<lambda>d st. (g d, st)) s)) who"
proof -
  obtain d s2 where dp: "dec_providers k s = (d, s2)" by fastforce
  with provided_dec_providers [OF assms, of k] have "provided s2 who" by simp
  then show ?thesis
    using assms(1) dp provided_inc_providers [OF assms(1), of k]
    by (auto simp: try_mutate_exists_def Let_def
        split: sum.split prod.split dec_ref_error.split dec_ref_status.split)
qed

lemmas provided_ops =
  provided_inc_providers provided_dec_providers provided_inc_sufficients
  provided_dec_sufficients provided_inc_consumers provided_dec_consumers
  provided_inc_account_nonce

lemma provided_step:
  "sys_step s t \<Longrightarrow> provided s who \<Longrightarrow> consumers (account_get s who) > 0 \<Longrightarrow> provided t who"
proof (induction rule: sys_step.induct)
  case (mutate frm k g s r t)
  then show ?case
    using provided_try_mutate_exists [of s who frm k g] by simp
qed (use provided_ops provided_events(1) in \<open>metis snd_conv\<close>)+

section \<open>The StoredMap contract\<close>

text \<open>
  What a pallet relies on when it keeps its per-account data behind \<open>StoredMap\<close>
  (\<open>frame/support/src/traits/stored_map.rs\<close>): an error leaves the store alone, a success stores
  exactly what the closure left behind, the default standing for absence, and touches no other key.
  The derived operations \<open>insert\<close> and \<open>remove\<close> of the trait follow from it.
\<close>

locale stored_map =
  fixes get :: "'s \<Rightarrow> 'k \<Rightarrow> 'v"
    and default_value :: 'v
    and try_mutate :: "'k \<Rightarrow> ('v option \<Rightarrow> 'e + 'r \<times> 'v option) \<Rightarrow> 's \<Rightarrow> ('e + 'r) \<times> 's"
  assumes mutate_err: "try_mutate k g s = (Inl e, t) \<Longrightarrow> t = s"
    and mutate_ok: "try_mutate k g s = (Inr r, t) \<Longrightarrow>
          \<exists>v. g (if get s k = default_value then None else Some (get s k)) = Inr (r, v)
            \<and> get t = (get s)(k := unwrap_or_default default_value v)"
begin

lemma insert_get:
  assumes "try_mutate k (\<lambda>_. Inr (r0, Some v)) s = (Inr r, t)"
  shows "get t k = v" and "k' \<noteq> k \<Longrightarrow> get t k' = get s k'"
  using mutate_ok [OF assms] by auto

lemma remove_get:
  assumes "try_mutate k (\<lambda>_. Inr (r0, None)) s = (Inr r, t)"
  shows "get t k = default_value" and "k' \<noteq> k \<Longrightarrow> get t k' = get s k'"
  using mutate_ok [OF assms] by auto

lemma others_unchanged: "k' \<noteq> k \<Longrightarrow> get (snd (try_mutate k g s)) k' = get s k'"
  using mutate_err [of k g s] mutate_ok [of k g s]
  by (cases "try_mutate k g s"; cases "fst (try_mutate k g s)") auto

end

text \<open>The value the closure of \<open>try_mutate_exists\<close> is given.\<close>

definition stored_query :: "('acc, 'm) system_scheme \<Rightarrow> 'acc \<Rightarrow> account_data option" where
  "stored_query s k = (if is_providing (stored_get s k) then Some (stored_get s k) else None)"

lemma stored_get_put:
  "stored_get (account_put k a s) =
     (stored_get s)(k := data (unwrap_or_default default_account_info a))"
  by (simp add: stored_get_def fun_eq_iff)

lemma stored_get_events [simp]:
  "stored_get (deposit_event ev s) = stored_get s"
  "stored_get (on_created_account who s) = stored_get s"
  "stored_get (on_killed_account who s) = stored_get s"
  by (simp_all add: stored_get_def fun_eq_iff)

lemma stored_get_set_data:
  "stored_get (account_set_data k d s) =
     (stored_get s)(k := unwrap_or_default default_account_data d)"
  by (simp add: account_set_data_def stored_get_put)

lemma stored_get_inc_providers [simp]: "stored_get (snd (inc_providers k s)) = stored_get s"
  by (auto simp: inc_providers_def Let_def stored_get_put stored_get_def fun_eq_iff)

lemma dec_providers_err: "dec_providers k s = (Inl e, t) \<Longrightarrow> t = s"
  by (auto simp: dec_providers_def Let_def split: option.splits if_splits)

lemma dec_providers_err_iff:
  "(\<exists>e. fst (dec_providers k s) = Inl e) \<longleftrightarrow>
     (\<exists>a. Account s k = Some a \<and> providers a \<le> 1 \<and> consumers a > 0)"
  by (auto simp: dec_providers_def Let_def word_le_one_iff split: option.splits)

lemma dec_providers_reaped:
  "dec_providers k s = (Inr Reaped, t) \<Longrightarrow> stored_get t = (stored_get s)(k := default_account_data)"
  by (auto simp: dec_providers_def Let_def stored_get_put split: option.splits if_splits)

lemma dec_providers_exists:
  "dec_providers k s = (Inr Exists, t) \<Longrightarrow> stored_get t = stored_get s"
  by (auto simp: dec_providers_def Let_def stored_get_put fun_eq_iff stored_get_def account_get_Some
      split: option.splits if_splits)

text \<open>
  The general form: the closure may change the state (it reads and writes other accounts), as long
  as it leaves the entry of \<open>k\<close> alone.
\<close>

lemma try_mutate_exists_alt:
  "try_mutate_exists frm drp k f s =
     (case f (stored_query s k) s of
        (Inl e, s1) \<Rightarrow> (Inl e, s1)
      | (Inr (result, d), s1) \<Rightarrow>
          if stored_query s k = None then
            (Inr result, if d = None then s1 else account_set_data k d (snd (inc_providers k s1)))
          else if d = None then
            (case dec_providers k s1 of
               (Inl DecConsumerRemaining, s2) \<Rightarrow> (Inl (frm SmConsumerRemaining), drp result s2)
             | (Inr Reaped, s2) \<Rightarrow> (Inr result, s2)
             | (Inr Exists, s2) \<Rightarrow> (Inr result, account_set_data k d s2))
          else (Inr result, account_set_data k d s1))"
  by (cases "is_providing (data (account_get s k))")
     (simp_all add: try_mutate_exists_def stored_query_def stored_get_def Let_def
        split: prod.split sum.split)

lemma try_mutate_exists_closure_err:
  "f (stored_query s k) s = (Inl e, s1) \<Longrightarrow> try_mutate_exists frm drp k f s = (Inl e, s1)"
  by (simp add: try_mutate_exists_alt)

lemma try_mutate_exists_ok:
  assumes f: "f (stored_query s k) s = (Inr (r, d), s1)" and keep: "stored_get s1 k = stored_get s k"
  shows "(try_mutate_exists frm drp k f s = (Inl (frm SmConsumerRemaining), drp r s1) \<and> d = None
            \<and> stored_query s k \<noteq> None \<and> (\<exists>e. fst (dec_providers k s1) = Inl e))
         \<or> (\<exists>t. try_mutate_exists frm drp k f s = (Inr r, t)
              \<and> stored_get t = (stored_get s1)(k := unwrap_or_default default_account_data d))"
proof -
  obtain x s2 where dp: "dec_providers k s1 = (x, s2)" by fastforce
  note dec = dec_providers_err [of k s1 _ s2] dec_providers_reaped [of k s1 s2]
    dec_providers_exists [of k s1 s2]
  have dflt: "stored_query s k = None \<Longrightarrow> stored_get s1 k = default_account_data"
    using keep by (simp add: stored_query_def is_providing_def split: if_splits)
  show ?thesis
    using f dp dec dflt
    by (cases x)
       (auto simp: try_mutate_exists_alt stored_get_set_data fun_upd_idem
          split: dec_ref_error.splits dec_ref_status.splits)
qed

lemma try_mutate_exists_ok_Some:
  assumes "f (stored_query s k) s = (Inr (r, Some d), s1)" and "stored_get s1 k = stored_get s k"
  shows "\<exists>t. try_mutate_exists frm drp k f s = (Inr r, t) \<and> stored_get t = (stored_get s1)(k := d)"
  using try_mutate_exists_ok [where f = f and s = s and k = k and r = r and d = "Some d" and frm = frm and drp = drp, OF assms]
  by simp

text \<open>Closures that only compute on the value.\<close>

lemma try_mutate_exists_pure_err:
  assumes "try_mutate_exists frm (\<lambda>_ st. st) k (\<lambda>d st. (g d, st)) s = (Inl e, t)"
  shows "t = s"
  using assms try_mutate_exists_ok [of "\<lambda>d st. (g d, st)" s k _ _ s frm "\<lambda>_ st. st"]
    try_mutate_exists_closure_err [of "\<lambda>d st. (g d, st)" s k _ s frm "\<lambda>_ st. st"]
  by (cases "g (stored_query s k)") auto

lemma try_mutate_exists_pure_ok:
  assumes "try_mutate_exists frm (\<lambda>_ st. st) k (\<lambda>d st. (g d, st)) s = (Inr r, t)"
  shows "\<exists>v. g (stored_query s k) = Inr (r, v)
      \<and> stored_get t = (stored_get s)(k := unwrap_or_default default_account_data v)"
  using assms try_mutate_exists_ok [of "\<lambda>d st. (g d, st)" s k _ _ s frm "\<lambda>_ st. st"]
    try_mutate_exists_closure_err [of "\<lambda>d st. (g d, st)" s k _ s frm "\<lambda>_ st. st"]
  by (cases "g (stored_query s k)") auto

interpretation sys_store: stored_map stored_get default_account_data
    "\<lambda>k g. try_mutate_exists frm (\<lambda>_ st. st) k (\<lambda>d st. (g d, st))"
proof (unfold_locales, goal_cases)
  case 1
  then show ?case by (rule try_mutate_exists_pure_err)
next
  case 2
  from try_mutate_exists_pure_ok [OF 2] show ?case
    by (auto simp: stored_query_def is_providing_def split: if_splits)
qed

section \<open>Properties\<close>

text \<open>An empty registry, for the witnesses.\<close>

definition sys_empty :: "nat system" where
  "sys_empty = \<lparr>Account = Map.empty, Number = 0, ExecutionPhase = None, EventCount = 0,
                Events = [], EventTopics = (\<lambda>_. [])\<rparr>"

text \<open>
  C17. Whatever operation runs next, in any reachable state of the registry, an account that a
  pallet holds a consumer reference on is still there afterwards, with a provider.
\<close>

theorem referenced_account_stays:
  assumes "sys_reachable s" and "Account s who = Some a" and "consumers a > 0" and "sys_step s t"
  shows "\<exists>b. Account t who = Some b \<and> providers b > 0"
proof -
  have "refs_ok a"
    using refs_sound_get [OF refs_sound_reachable [OF assms(1)], of who] assms(2)
    by (simp add: account_get_Some)
  with assms(2,3) have "provided s who" by (simp add: provided_def refs_ok_def)
  with assms(2-4) have "provided t who"
    by (intro provided_step [of s t who]) (simp_all add: account_get_Some)
  then show ?thesis by (simp add: provided_def)
qed

lemma sys_reachable_example:
  "sys_reachable (snd (inc_consumers 7 (snd (inc_providers 7 sys_empty))))"
proof -
  have s1: "sys_reachable (snd (inc_providers 7 sys_empty))"
    by (rule sys_reachable.step [OF sys_reachable.start sys_step.inc_provider])
       (simp_all add: sys_empty_def prod_eq_iff)
  show ?thesis
    by (rule sys_reachable.step [OF s1 sys_step.inc_consumer]) (simp add: prod_eq_iff)
qed

theorem referenced_account_stays_witness:
  "\<exists>b. Account (snd (dec_providers 7 (snd (inc_consumers 7 (snd (inc_providers (7::nat) sys_empty)))))) 7
     = Some b \<and> providers b > 0"
proof -
  let ?s = "snd (inc_consumers 7 (snd (inc_providers (7::nat) sys_empty)))"
  let ?a = "default_account_info\<lparr>providers := 1, consumers := 1\<rparr>"
  have a: "Account ?s 7 = Some ?a"
    by (simp add: inc_consumers_def inc_providers_def Let_def sys_empty_def account_get_def
        saturating_add_def)
  have step: "sys_step ?s (snd (dec_providers 7 ?s))"
    by (rule sys_step.dec_provider) (simp add: prod_eq_iff)
  show ?thesis
    by (rule referenced_account_stays [OF sys_reachable_example a _ step]) simp
qed

text \<open>
  Taking a provider reference and giving it back restores the registry: an account that
  did not exist is reaped again, one that existed keeps all its counters and data.
\<close>

theorem providers_round_trip:
  assumes "refs_sound s" and "Account s who = Some a \<longrightarrow> providers a + sufficients a \<noteq> 0"
    and "Account s who = Some a \<longrightarrow> providers a < - 1"
    and "Account s who = None \<or> Account s who = Some a"
    and "inc_providers who s = (st, s1)" and "dec_providers who s1 = (r, s2)"
  shows "Account s2 = Account s \<and> r = Inr (if Account s who = None then Reaped else Exists)"
proof (cases "Account s who")
  case None
  with assms(5,6) show ?thesis
    by (auto simp: inc_providers_def dec_providers_def Let_def account_get_None fun_eq_iff)
next
  case (Some b)
  with assms(4) have a: "Account s who = Some a" by simp
  have ok: "refs_ok a" using refs_sound_get [OF assms(1), of who] a by (simp add: account_get_Some)
  have p: "saturating_add (providers a) 1 = providers a + 1"
    using assms(3) a by (simp add: saturating_add_def word_less_nat_alt unat_max_word)
  have "providers a + 1 \<noteq> 0" using assms(3) a by (simp add: eq_neg_iff_add_eq_0 [symmetric])
  with a p ok assms(2,5,6) show ?thesis
    by (auto simp: inc_providers_def dec_providers_def Let_def account_get_Some refs_ok_def fun_eq_iff
        split: if_splits)
qed

theorem providers_round_trip_witness:
  "Account (snd (dec_providers (7::nat) (snd (inc_providers 7 sys_empty)))) = Account sys_empty
   \<and> fst (dec_providers 7 (snd (inc_providers 7 sys_empty))) = Inr Reaped"
proof -
  have "refs_sound sys_empty" by (rule refs_sound_reachable, rule sys_reachable.start) (simp add: sys_empty_def)
  then show ?thesis
    using providers_round_trip [of sys_empty 7 default_account_info
        "fst (inc_providers 7 sys_empty)" "snd (inc_providers 7 sys_empty)"
        "fst (dec_providers 7 (snd (inc_providers 7 sys_empty)))"
        "snd (dec_providers 7 (snd (inc_providers 7 sys_empty)))"]
    by (simp add: sys_empty_def)
qed

text \<open>
  The registry keeps the StoredMap contract for closures that only compute on the value and
  return a result without drop glue: a failed mutation changes nothing at all, a successful one
  stores exactly what the closure left, with the default value standing for absence, and no other
  account's data changes.
\<close>

theorem stored_map_contract:
  "case try_mutate_exists frm (\<lambda>_ st. st) k (\<lambda>d st. (g d, st)) s of
     (Inl e, t) \<Rightarrow> t = s
   | (Inr r, t) \<Rightarrow> \<exists>v. g (stored_query s k) = Inr (r, v)
       \<and> stored_get t = (stored_get s)(k := unwrap_or_default default_account_data v)"
  using sys_store.mutate_err [of frm k g s] try_mutate_exists_pure_ok [of frm k g s]
  by (auto split: prod.split sum.split)

text \<open>
  \<open>dec_sufficients\<close> on an account with no sufficient reference but some provider wraps
  the counter to \<open>u32::MAX\<close> instead of refusing.
\<close>

theorem dec_sufficients_underflow:
  assumes "Account s who = Some a" and "sufficients a = 0" and "providers a > 0"
  shows "fst (dec_sufficients who s) = Exists
    \<and> sufficients (account_get (snd (dec_sufficients who s)) who) = 4294967295"
  using assms by (simp add: dec_sufficients_def)

theorem dec_sufficients_underflow_witness:
  "sufficients (account_get (snd (dec_sufficients 7 (snd (inc_providers (7::nat) sys_empty)))) 7)
     = 4294967295"
  using dec_sufficients_underflow [of "snd (inc_providers (7::nat) sys_empty)" 7
      "default_account_info\<lparr>providers := 1\<rparr>"]
  by (simp add: inc_providers_def sys_empty_def account_get_def Let_def)

end
