(* ===== verification/Balances_Model.thy ===== *)
theory Balances_Model
  imports Frame_System
begin

text \<open>
  The Balances pallet (\<open>frame/balances/src/lib.rs\<close>) over the System pallet: its storage, the
  mutation of accounts with the existential deposit and its dust, the imbalances and what dropping
  them does to the total issuance, and the operations of the traits \<open>Currency\<close>,
  \<open>ReservableCurrency\<close>, \<open>NamedReservableCurrency\<close>, \<open>LockableCurrency\<close> and of the
  \<open>fungible\<close> family, then the dispatchable calls. \<open>DustRemoval\<close> is \<open>()\<close> as in the
  node runtime, so dust is burned. Dispatch does not roll storage back on an error, so the state
  an operation leaves on its error paths is part of its result. Plain \<open>+\<close> and \<open>-\<close> wrap.
\<close>

unbundle bit_operations_syntax

section \<open>Configuration and storage\<close>

record balances_config =
  ExistentialDeposit :: u128
  MaxLocks :: u32
  MaxReserves :: u32

datatype reasons = Fee | Misc | All

type_synonym lock_identifier = u64
type_synonym reserve_identifier = u64
type_synonym withdraw_reasons = u8

record balance_lock =
  lock_id :: lock_identifier
  lock_amount :: u128
  lock_reasons :: reasons

record reserve_data =
  reserve_id :: reserve_identifier
  reserve_amount :: u128

datatype releases = V1_0_0 | V2_0_0

record 'acc balances = "'acc system" +
  TotalIssuance :: u128
  Locks :: "'acc \<rightharpoonup> balance_lock list"
  Reserves :: "'acc \<rightharpoonup> reserve_data list"
  StorageVersion :: releases

datatype existence_requirement = KeepAlive | AllowDeath

definition TRANSACTION_PAYMENT :: withdraw_reasons where "TRANSACTION_PAYMENT = 1"
definition TRANSFER :: withdraw_reasons where "TRANSFER = 2"
definition RESERVE :: withdraw_reasons where "RESERVE = 4"

definition reasons_from :: "withdraw_reasons \<Rightarrow> reasons" where
  "reasons_from r =
     (if r = TRANSACTION_PAYMENT then Fee
      else if r AND TRANSACTION_PAYMENT = TRANSACTION_PAYMENT then All
      else Misc)"

definition reasons_bitor :: "reasons \<Rightarrow> reasons \<Rightarrow> reasons" where
  "reasons_bitor a b = (if a = b then a else All)"

section \<open>Account data\<close>

fun frozen :: "reasons \<Rightarrow> account_data \<Rightarrow> u128" where
  "frozen All a = max (misc_frozen a) (fee_frozen a)"
| "frozen Misc a = misc_frozen a"
| "frozen Fee a = fee_frozen a"

definition usable :: "reasons \<Rightarrow> account_data \<Rightarrow> u128" where
  "usable r a = saturating_sub (free a) (frozen r a)"

definition total :: "account_data \<Rightarrow> u128" where
  "total a = saturating_add (free a) (reserved a)"

definition free_balance :: "('acc, 'm) system_scheme \<Rightarrow> 'acc \<Rightarrow> u128" where
  "free_balance s who = free (stored_get s who)"

definition usable_balance :: "('acc, 'm) system_scheme \<Rightarrow> 'acc \<Rightarrow> u128" where
  "usable_balance s who = usable Misc (stored_get s who)"

definition usable_balance_for_fees :: "('acc, 'm) system_scheme \<Rightarrow> 'acc \<Rightarrow> u128" where
  "usable_balance_for_fees s who = usable Fee (stored_get s who)"

definition reserved_balance :: "('acc, 'm) system_scheme \<Rightarrow> 'acc \<Rightarrow> u128" where
  "reserved_balance s who = reserved (stored_get s who)"

definition total_balance :: "('acc, 'm) system_scheme \<Rightarrow> 'acc \<Rightarrow> u128" where
  "total_balance s who = total (stored_get s who)"

section \<open>Imbalances\<close>

datatype positive_imbalance = PositiveImbalance u128
datatype negative_imbalance = NegativeImbalance u128

datatype signed_imbalance = SignedPositive positive_imbalance | SignedNegative negative_imbalance

datatype ('a, 'b) same_or_other = SooNone | SooSame 'a | SooOther 'b

fun drop_positive ::
    "positive_imbalance \<Rightarrow> ('acc, 'm) balances_scheme \<Rightarrow> ('acc, 'm) balances_scheme" where
  "drop_positive (PositiveImbalance n) s = s\<lparr>TotalIssuance := saturating_add (TotalIssuance s) n\<rparr>"

fun drop_negative ::
    "negative_imbalance \<Rightarrow> ('acc, 'm) balances_scheme \<Rightarrow> ('acc, 'm) balances_scheme" where
  "drop_negative (NegativeImbalance n) s = s\<lparr>TotalIssuance := saturating_sub (TotalIssuance s) n\<rparr>"

fun drop_signed ::
    "signed_imbalance \<Rightarrow> ('acc, 'm) balances_scheme \<Rightarrow> ('acc, 'm) balances_scheme" where
  "drop_signed (SignedPositive p) s = drop_positive p s"
| "drop_signed (SignedNegative n) s = drop_negative n s"

fun positive_split :: "positive_imbalance \<Rightarrow> u128 \<Rightarrow> positive_imbalance \<times> positive_imbalance" where
  "positive_split (PositiveImbalance n) amount =
     (let first = min n amount; second = n - first
      in (PositiveImbalance first, PositiveImbalance second))"

fun positive_merge :: "positive_imbalance \<Rightarrow> positive_imbalance \<Rightarrow> positive_imbalance" where
  "positive_merge (PositiveImbalance a) (PositiveImbalance b) = PositiveImbalance (saturating_add a b)"

fun positive_offset :: "positive_imbalance \<Rightarrow> negative_imbalance
    \<Rightarrow> (positive_imbalance, negative_imbalance) same_or_other" where
  "positive_offset (PositiveImbalance a) (NegativeImbalance b) =
     (if a > b then SooSame (PositiveImbalance (a - b))
      else if b > a then SooOther (NegativeImbalance (b - a))
      else SooNone)"

fun negative_split :: "negative_imbalance \<Rightarrow> u128 \<Rightarrow> negative_imbalance \<times> negative_imbalance" where
  "negative_split (NegativeImbalance n) amount =
     (let first = min n amount; second = n - first
      in (NegativeImbalance first, NegativeImbalance second))"

fun negative_merge :: "negative_imbalance \<Rightarrow> negative_imbalance \<Rightarrow> negative_imbalance" where
  "negative_merge (NegativeImbalance a) (NegativeImbalance b) = NegativeImbalance (saturating_add a b)"

fun negative_offset :: "negative_imbalance \<Rightarrow> positive_imbalance
    \<Rightarrow> (negative_imbalance, positive_imbalance) same_or_other" where
  "negative_offset (NegativeImbalance a) (PositiveImbalance b) =
     (if a > b then SooSame (NegativeImbalance (a - b))
      else if b > a then SooOther (PositiveImbalance (b - a))
      else SooNone)"

section \<open>Mutating an account\<close>

definition post_mutation ::
    "balances_config \<Rightarrow> account_data \<Rightarrow> account_data option \<times> negative_imbalance option" where
  "post_mutation cfg new =
     (let tot = total new in
      if tot < ExistentialDeposit cfg then
        if tot = 0 then (None, None) else (None, Some (NegativeImbalance tot))
      else (Some new, None))"

text \<open>A \<open>DustCleaner\<close> holds the dust of one account until it is dropped.\<close>

type_synonym 'acc dust_cleaner = "('acc \<times> negative_imbalance) option"

fun drop_dust ::
    "'acc dust_cleaner \<Rightarrow> ('acc, 'm) balances_scheme \<Rightarrow> ('acc, 'm) balances_scheme" where
  "drop_dust None s = s"
| "drop_dust (Some (who, NegativeImbalance d)) s =
     drop_negative (NegativeImbalance d) (deposit_event (BalancesEvent (DustLost who d)) s)"

fun drop_negative_option ::
    "negative_imbalance option \<Rightarrow> ('acc, 'm) balances_scheme \<Rightarrow> ('acc, 'm) balances_scheme" where
  "drop_negative_option None s = s"
| "drop_negative_option (Some n) s = drop_negative n s"

text \<open>Drop glue of the results that carry nothing to drop.\<close>

definition no_drop :: "'r \<Rightarrow> 's \<Rightarrow> 's" where
  "no_drop r s = s"

definition try_mutate_account_with_dust ::
    "balances_config \<Rightarrow> (stored_map_error \<Rightarrow> 'e)
      \<Rightarrow> ('r \<Rightarrow> ('acc, 'm) balances_scheme \<Rightarrow> ('acc, 'm) balances_scheme) \<Rightarrow> 'acc
      \<Rightarrow> (account_data \<Rightarrow> bool \<Rightarrow> ('acc, 'm) balances_scheme
            \<Rightarrow> ('e + 'r \<times> account_data) \<times> ('acc, 'm) balances_scheme)
      \<Rightarrow> ('acc, 'm) balances_scheme
      \<Rightarrow> ('e + 'r \<times> 'acc dust_cleaner) \<times> ('acc, 'm) balances_scheme" where
  "try_mutate_account_with_dust cfg frm drp who f s =
     (case try_mutate_exists frm
             (\<lambda>(maybe_endowed, maybe_dust, r) st. drp r (drop_negative_option maybe_dust st))
             who
             (\<lambda>maybe_account st.
                let is_new = (maybe_account = None);
                    account = unwrap_or_default default_account_data maybe_account
                in case f account is_new st of
                     (Inl e, st') \<Rightarrow> (Inl e, st')
                   | (Inr (result, account'), st') \<Rightarrow>
                       (let maybe_endowed = (if is_new then Some (free account') else None);
                            (acc, dust) = post_mutation cfg account'
                        in (Inr ((maybe_endowed, dust, result), acc), st')))
             s of
        (Inl e, s') \<Rightarrow> (Inl e, s')
      | (Inr (maybe_endowed, maybe_dust, result), s') \<Rightarrow>
          (Inr (result, map_option (Pair who) maybe_dust),
           case maybe_endowed of
             None \<Rightarrow> s'
           | Some endowed \<Rightarrow> deposit_event (BalancesEvent (Endowed who endowed)) s'))"

definition try_mutate_account ::
    "balances_config \<Rightarrow> (stored_map_error \<Rightarrow> 'e)
      \<Rightarrow> ('r \<Rightarrow> ('acc, 'm) balances_scheme \<Rightarrow> ('acc, 'm) balances_scheme) \<Rightarrow> 'acc
      \<Rightarrow> (account_data \<Rightarrow> bool \<Rightarrow> ('acc, 'm) balances_scheme
            \<Rightarrow> ('e + 'r \<times> account_data) \<times> ('acc, 'm) balances_scheme)
      \<Rightarrow> ('acc, 'm) balances_scheme \<Rightarrow> ('e + 'r) \<times> ('acc, 'm) balances_scheme" where
  "try_mutate_account cfg frm drp who f s =
     (case try_mutate_account_with_dust cfg frm drp who f s of
        (Inl e, s') \<Rightarrow> (Inl e, s')
      | (Inr (result, dust_cleaner), s') \<Rightarrow> (Inr result, drop_dust dust_cleaner s'))"

definition mutate_account ::
    "balances_config \<Rightarrow> ('r \<Rightarrow> ('acc, 'm) balances_scheme \<Rightarrow> ('acc, 'm) balances_scheme) \<Rightarrow> 'acc
      \<Rightarrow> (account_data \<Rightarrow> ('acc, 'm) balances_scheme
            \<Rightarrow> ('r \<times> account_data) \<times> ('acc, 'm) balances_scheme)
      \<Rightarrow> ('acc, 'm) balances_scheme
      \<Rightarrow> (stored_map_error + 'r) \<times> ('acc, 'm) balances_scheme" where
  "mutate_account cfg drp who f s =
     try_mutate_account cfg id drp who
       (\<lambda>a is_new st. case f a st of (ra, st') \<Rightarrow> (Inr ra, st')) s"

text \<open>Closures that may read the storage but leave it alone.\<close>

definition reading :: "('s \<Rightarrow> account_data \<Rightarrow> bool \<Rightarrow> 'e + 'r \<times> account_data)
    \<Rightarrow> account_data \<Rightarrow> bool \<Rightarrow> 's \<Rightarrow> ('e + 'r \<times> account_data) \<times> 's" where
  "reading g = (\<lambda>a is_new st. (g st a is_new, st))"

section \<open>Consequences of a deposit or a withdrawal\<close>

datatype dep_consequence =
  DcBelowMinimum | DcCannotCreate | DcUnknownAsset | DcOverflow | DcSuccess

datatype wd_consequence =
    WcNoFunds | WcWouldDie | WcUnknownAsset | WcUnderflow | WcOverflow | WcFrozen
  | WcReducedToZero u128 | WcSuccess

fun deposit_into_result :: "dep_consequence \<Rightarrow> dispatch_error + unit" where
  "deposit_into_result DcBelowMinimum = Inl (Token TokBelowMinimum)"
| "deposit_into_result DcCannotCreate = Inl (Token TokCannotCreate)"
| "deposit_into_result DcUnknownAsset = Inl (Token TokUnknownAsset)"
| "deposit_into_result DcOverflow = Inl (Arithmetic Overflow)"
| "deposit_into_result DcSuccess = Inr ()"

fun withdraw_into_result :: "wd_consequence \<Rightarrow> dispatch_error + u128" where
  "withdraw_into_result WcNoFunds = Inl (Token TokNoFunds)"
| "withdraw_into_result WcWouldDie = Inl (Token TokWouldDie)"
| "withdraw_into_result WcUnknownAsset = Inl (Token TokUnknownAsset)"
| "withdraw_into_result WcUnderflow = Inl (Arithmetic Underflow)"
| "withdraw_into_result WcOverflow = Inl (Arithmetic Overflow)"
| "withdraw_into_result WcFrozen = Inl (Token TokFrozen)"
| "withdraw_into_result (WcReducedToZero r) = Inr r"
| "withdraw_into_result WcSuccess = Inr 0"

definition deposit_consequence ::
    "balances_config \<Rightarrow> ('acc, 'm) balances_scheme \<Rightarrow> u128 \<Rightarrow> account_data \<Rightarrow> dep_consequence" where
  "deposit_consequence cfg s amount account =
     (if amount = 0 then DcSuccess
      else if checked_add (TotalIssuance s) amount = None then DcOverflow
      else case checked_add (total account) amount of
             None \<Rightarrow> DcOverflow
           | Some new_total_balance \<Rightarrow>
               if new_total_balance < ExistentialDeposit cfg then DcBelowMinimum else DcSuccess)"

definition withdraw_consequence ::
    "balances_config \<Rightarrow> ('acc, 'm) balances_scheme \<Rightarrow> 'acc \<Rightarrow> u128 \<Rightarrow> account_data
      \<Rightarrow> wd_consequence" where
  "withdraw_consequence cfg s who amount account =
     (if amount = 0 then WcSuccess
      else if checked_sub (TotalIssuance s) amount = None then WcUnderflow
      else case checked_sub (total account) amount of
             None \<Rightarrow> WcNoFunds
           | Some new_total_balance \<Rightarrow>
               (let ed = ExistentialDeposit cfg in
                if new_total_balance < ed \<and> \<not> can_dec_provider s who then WcWouldDie
                else
                  let success = (if new_total_balance < ed then WcReducedToZero new_total_balance
                                 else WcSuccess)
                  in case checked_sub (free account) amount of
                       None \<Rightarrow> WcNoFunds
                     | Some new_free_balance \<Rightarrow>
                         if new_free_balance < frozen All account then WcFrozen else success))"

section \<open>Currency\<close>

definition can_slash :: "('acc, 'm) system_scheme \<Rightarrow> 'acc \<Rightarrow> u128 \<Rightarrow> bool" where
  "can_slash s who value = (value = 0 \<or> free_balance s who \<ge> value)"

definition burn ::
    "u128 \<Rightarrow> ('acc, 'm) balances_scheme \<Rightarrow> positive_imbalance \<times> ('acc, 'm) balances_scheme" where
  "burn amount s =
     (if amount = 0 then (PositiveImbalance 0, s)
      else case checked_sub (TotalIssuance s) amount of
             Some issued \<Rightarrow> (PositiveImbalance amount, s\<lparr>TotalIssuance := issued\<rparr>)
           | None \<Rightarrow> (PositiveImbalance (TotalIssuance s), s\<lparr>TotalIssuance := 0\<rparr>))"

definition issue ::
    "u128 \<Rightarrow> ('acc, 'm) balances_scheme \<Rightarrow> negative_imbalance \<times> ('acc, 'm) balances_scheme" where
  "issue amount s =
     (if amount = 0 then (NegativeImbalance 0, s)
      else case checked_add (TotalIssuance s) amount of
             Some issued \<Rightarrow> (NegativeImbalance amount, s\<lparr>TotalIssuance := issued\<rparr>)
           | None \<Rightarrow> (NegativeImbalance (- 1 - TotalIssuance s), s\<lparr>TotalIssuance := - 1\<rparr>))"

definition ensure_can_withdraw ::
    "('acc, 'm) system_scheme \<Rightarrow> 'acc \<Rightarrow> u128 \<Rightarrow> withdraw_reasons \<Rightarrow> u128
      \<Rightarrow> dispatch_error + unit" where
  "ensure_can_withdraw s who amount rs new_balance =
     (if amount = 0 then Inr ()
      else ensure (new_balance \<ge> frozen (reasons_from rs) (stored_get s who))
             (BalancesModule LiquidityRestrictions))"

text \<open>
  The innermost closure of \<open>transfer\<close>: it returns the two accounts as it leaves them, the
  receiving one being the variable captured from the enclosing closure.
\<close>

definition transfer_closure ::
    "balances_config \<Rightarrow> 'acc \<Rightarrow> u128 \<Rightarrow> existence_requirement \<Rightarrow> account_data \<Rightarrow> account_data
      \<Rightarrow> ('acc, 'm) balances_scheme \<Rightarrow> dispatch_error + account_data \<times> account_data" where
  "transfer_closure cfg transactor value er to_account from_account st =
     and_then (ok_or (checked_sub (free from_account) value) (BalancesModule InsufficientBalance))
       (\<lambda>from_free.
     and_then (ok_or (checked_add (free to_account) value) (Arithmetic Overflow))
       (\<lambda>to_free.
        let from' = from_account\<lparr>free := from_free\<rparr>;
            to' = to_account\<lparr>free := to_free\<rparr>;
            ed = ExistentialDeposit cfg
        in
     and_then (ensure (total to' \<ge> ed) (BalancesModule ExistentialDepositErr)) (\<lambda>_.
     and_then (map_err (\<lambda>_. BalancesModule LiquidityRestrictions)
         (ensure_can_withdraw st transactor value TRANSFER from_free)) (\<lambda>_.
        let allow_death = (er = AllowDeath \<and> \<not> is_provider_required st transactor)
        in
     and_then (ensure (allow_death \<or> total from' \<ge> ed) (BalancesModule KeepAliveErr)) (\<lambda>_.
        Inr (to', from'))))))"

definition transfer ::
    "balances_config \<Rightarrow> 'acc \<Rightarrow> 'acc \<Rightarrow> u128 \<Rightarrow> existence_requirement
      \<Rightarrow> ('acc, 'm) balances_scheme \<Rightarrow> (dispatch_error + unit) \<times> ('acc, 'm) balances_scheme" where
  "transfer cfg transactor dest value er s =
     (if value = 0 \<or> transactor = dest then (Inr (), s)
      else
        case try_mutate_account_with_dust cfg stored_map_to_dispatch drop_dust dest
               (\<lambda>to_account _ st.
                  case try_mutate_account_with_dust cfg stored_map_to_dispatch no_drop transactor
                         (reading (\<lambda>st1 from_account _.
                            transfer_closure cfg transactor value er to_account from_account st1))
                         st of
                    (Inl e, st') \<Rightarrow> (Inl e, st')
                  | (Inr (to', maybe_dust_cleaner), st') \<Rightarrow> (Inr (maybe_dust_cleaner, to'), st'))
               s of
          (Inl e, s') \<Rightarrow> (Inl e, s')
        | (Inr (from_dust, to_dust), s') \<Rightarrow>
            (Inr (),
             deposit_event (BalancesEvent (Transfer transactor dest value))
               (drop_dust to_dust (drop_dust from_dust s'))))"

definition slash_closure ::
    "balances_config \<Rightarrow> u128 \<Rightarrow> nat \<Rightarrow> account_data
      \<Rightarrow> (negative_imbalance \<times> u128) \<times> account_data" where
  "slash_closure cfg value attempt account =
     (let best_value =
            (if attempt = 0 then value
             else min value (saturating_sub (free account + reserved account) (ExistentialDeposit cfg)));
          free_slash = min (free account) best_value;
          account1 = account\<lparr>free := free account - free_slash\<rparr>;
          remaining_slash = best_value - free_slash
      in if remaining_slash \<noteq> 0 then
           (let reserved_slash = min (reserved account1) remaining_slash
            in ((NegativeImbalance (free_slash + reserved_slash), value - free_slash - reserved_slash),
                account1\<lparr>reserved := reserved account1 - reserved_slash\<rparr>))
         else ((NegativeImbalance free_slash, value - free_slash), account1))"

definition drop_slash ::
    "negative_imbalance \<times> u128 \<Rightarrow> ('acc, 'm) balances_scheme \<Rightarrow> ('acc, 'm) balances_scheme" where
  "drop_slash r s = drop_negative (fst r) s"

fun slash_attempts ::
    "balances_config \<Rightarrow> 'acc \<Rightarrow> u128 \<Rightarrow> nat list \<Rightarrow> ('acc, 'm) balances_scheme
      \<Rightarrow> (negative_imbalance \<times> u128) \<times> ('acc, 'm) balances_scheme" where
  "slash_attempts cfg who value [] s = ((NegativeImbalance 0, value), s)"
| "slash_attempts cfg who value (attempt # rest) s =
     (case try_mutate_account cfg id drop_slash who
             (reading (\<lambda>_ account _. Inr (slash_closure cfg value attempt account))) s of
        (Inr r, s') \<Rightarrow> (r, s')
      | (Inl _, s') \<Rightarrow> slash_attempts cfg who value rest s')"

definition slash ::
    "balances_config \<Rightarrow> 'acc \<Rightarrow> u128 \<Rightarrow> ('acc, 'm) balances_scheme
      \<Rightarrow> (negative_imbalance \<times> u128) \<times> ('acc, 'm) balances_scheme" where
  "slash cfg who value s =
     (if value = 0 then ((NegativeImbalance 0, 0), s)
      else if total_balance s who = 0 then ((NegativeImbalance 0, value), s)
      else slash_attempts cfg who value [0, 1] s)"

definition deposit_into_existing_closure ::
    "u128 \<Rightarrow> account_data \<Rightarrow> bool \<Rightarrow> dispatch_error + positive_imbalance \<times> account_data" where
  "deposit_into_existing_closure value account is_new =
     and_then (ensure (\<not> is_new) (BalancesModule DeadAccount)) (\<lambda>_.
     and_then (ok_or (checked_add (free account) value) (Arithmetic Overflow)) (\<lambda>n.
       Inr (PositiveImbalance value, account\<lparr>free := n\<rparr>)))"

definition deposit_into_existing ::
    "balances_config \<Rightarrow> 'acc \<Rightarrow> u128 \<Rightarrow> ('acc, 'm) balances_scheme
      \<Rightarrow> (dispatch_error + positive_imbalance) \<times> ('acc, 'm) balances_scheme" where
  "deposit_into_existing cfg who value s =
     (if value = 0 then (Inr (PositiveImbalance 0), s)
      else try_mutate_account cfg stored_map_to_dispatch drop_positive who
             (reading (\<lambda>_. deposit_into_existing_closure value)) s)"

definition deposit_creating_closure ::
    "balances_config \<Rightarrow> u128 \<Rightarrow> account_data \<Rightarrow> bool
      \<Rightarrow> dispatch_error + positive_imbalance \<times> account_data" where
  "deposit_creating_closure cfg value account is_new =
     and_then (ensure (value \<ge> ExistentialDeposit cfg \<or> \<not> is_new)
         (BalancesModule ExistentialDepositErr)) (\<lambda>_.
       case checked_add (free account) value of
         Some x \<Rightarrow> Inr (PositiveImbalance value, account\<lparr>free := x\<rparr>)
       | None \<Rightarrow> Inr (PositiveImbalance 0, account))"

definition deposit_creating ::
    "balances_config \<Rightarrow> 'acc \<Rightarrow> u128 \<Rightarrow> ('acc, 'm) balances_scheme
      \<Rightarrow> positive_imbalance \<times> ('acc, 'm) balances_scheme" where
  "deposit_creating cfg who value s =
     (if value = 0 then (PositiveImbalance 0, s)
      else
        case try_mutate_account cfg stored_map_to_dispatch drop_positive who
               (reading (\<lambda>_. deposit_creating_closure cfg value)) s of
          (Inr r, s') \<Rightarrow> (r, s')
        | (Inl _, s') \<Rightarrow> (PositiveImbalance 0, s'))"

definition withdraw_closure ::
    "balances_config \<Rightarrow> 'acc \<Rightarrow> u128 \<Rightarrow> withdraw_reasons \<Rightarrow> existence_requirement
      \<Rightarrow> ('acc, 'm) balances_scheme \<Rightarrow> account_data
      \<Rightarrow> dispatch_error + negative_imbalance \<times> account_data" where
  "withdraw_closure cfg who value rs liveness st account =
     and_then (ok_or (checked_sub (free account) value) (BalancesModule InsufficientBalance))
       (\<lambda>new_free_account.
        let ed = ExistentialDeposit cfg;
            would_be_dead = (new_free_account + reserved account < ed);
            would_kill = (would_be_dead \<and> free account + reserved account \<ge> ed)
        in
     and_then (ensure (liveness = AllowDeath \<or> \<not> would_kill) (BalancesModule KeepAliveErr)) (\<lambda>_.
     and_then (ensure_can_withdraw st who value rs new_free_account) (\<lambda>_.
       Inr (NegativeImbalance value, account\<lparr>free := new_free_account\<rparr>))))"

definition withdraw ::
    "balances_config \<Rightarrow> 'acc \<Rightarrow> u128 \<Rightarrow> withdraw_reasons \<Rightarrow> existence_requirement
      \<Rightarrow> ('acc, 'm) balances_scheme
      \<Rightarrow> (dispatch_error + negative_imbalance) \<times> ('acc, 'm) balances_scheme" where
  "withdraw cfg who value rs liveness s =
     (if value = 0 then (Inr (NegativeImbalance 0), s)
      else try_mutate_account cfg stored_map_to_dispatch drop_negative who
             (reading (\<lambda>st account _. withdraw_closure cfg who value rs liveness st account)) s)"

definition make_free_balance_be_closure ::
    "balances_config \<Rightarrow> u128 \<Rightarrow> account_data \<Rightarrow> bool
      \<Rightarrow> dispatch_error + signed_imbalance \<times> account_data" where
  "make_free_balance_be_closure cfg value account is_new =
     (let ed = ExistentialDeposit cfg;
          tot = saturating_add value (reserved account)
      in and_then (ensure (tot \<ge> ed \<or> \<not> is_new) (BalancesModule ExistentialDepositErr)) (\<lambda>_.
        let imbalance =
          (if free account \<le> value
           then SignedPositive (PositiveImbalance (value - free account))
           else SignedNegative (NegativeImbalance (free account - value)))
        in Inr (imbalance, account\<lparr>free := value\<rparr>)))"

definition make_free_balance_be ::
    "balances_config \<Rightarrow> 'acc \<Rightarrow> u128 \<Rightarrow> ('acc, 'm) balances_scheme
      \<Rightarrow> signed_imbalance \<times> ('acc, 'm) balances_scheme" where
  "make_free_balance_be cfg who value s =
     (case try_mutate_account cfg stored_map_to_dispatch drop_signed who
             (reading (\<lambda>_. make_free_balance_be_closure cfg value)) s of
        (Inr r, s') \<Rightarrow> (r, s')
      | (Inl _, s') \<Rightarrow> (SignedPositive (PositiveImbalance 0), s'))"

section \<open>ReservableCurrency\<close>

definition can_reserve :: "('acc, 'm) system_scheme \<Rightarrow> 'acc \<Rightarrow> u128 \<Rightarrow> bool" where
  "can_reserve s who value =
     (value = 0 \<or>
      (case checked_sub (free (stored_get s who)) value of
         None \<Rightarrow> False
       | Some new_balance \<Rightarrow> is_ok (ensure_can_withdraw s who value RESERVE new_balance)))"

definition reserve_closure ::
    "'acc \<Rightarrow> u128 \<Rightarrow> ('acc, 'm) balances_scheme \<Rightarrow> account_data
      \<Rightarrow> dispatch_error + unit \<times> account_data" where
  "reserve_closure who value st account =
     and_then (ok_or (checked_sub (free account) value) (BalancesModule InsufficientBalance)) (\<lambda>f.
     and_then (ok_or (checked_add (reserved account) value) (Arithmetic Overflow)) (\<lambda>r.
     and_then (ensure_can_withdraw st who value RESERVE f) (\<lambda>u.
       Inr (u, account\<lparr>free := f, reserved := r\<rparr>))))"

definition reserve ::
    "balances_config \<Rightarrow> 'acc \<Rightarrow> u128 \<Rightarrow> ('acc, 'm) balances_scheme
      \<Rightarrow> (dispatch_error + unit) \<times> ('acc, 'm) balances_scheme" where
  "reserve cfg who value s =
     (if value = 0 then (Inr (), s)
      else
        case try_mutate_account cfg stored_map_to_dispatch no_drop who
               (reading (\<lambda>st account _. reserve_closure who value st account)) s of
          (Inl e, s') \<Rightarrow> (Inl e, s')
        | (Inr _, s') \<Rightarrow> (Inr (), deposit_event (BalancesEvent (Reserved who value)) s'))"

definition unreserve_closure :: "u128 \<Rightarrow> account_data \<Rightarrow> u128 \<times> account_data" where
  "unreserve_closure value account =
     (let actual = min (reserved account) value
      in (actual, account\<lparr>reserved := reserved account - actual,
                          free := saturating_add (free account) actual\<rparr>))"

definition unreserve ::
    "balances_config \<Rightarrow> 'acc \<Rightarrow> u128 \<Rightarrow> ('acc, 'm) balances_scheme
      \<Rightarrow> u128 \<times> ('acc, 'm) balances_scheme" where
  "unreserve cfg who value s =
     (if value = 0 then (0, s)
      else if total_balance s who = 0 then (value, s)
      else
        case mutate_account cfg no_drop who (\<lambda>account st. (unreserve_closure value account, st)) s of
          (Inl _, s') \<Rightarrow> (value, s')
        | (Inr actual, s') \<Rightarrow>
            (value - actual, deposit_event (BalancesEvent (Unreserved who actual)) s'))"

definition slash_reserved_closure ::
    "balances_config \<Rightarrow> u128 \<Rightarrow> nat \<Rightarrow> account_data
      \<Rightarrow> (negative_imbalance \<times> u128) \<times> account_data" where
  "slash_reserved_closure cfg value attempt account =
     (let best_value =
            (if attempt = 0 then value
             else min value (saturating_sub (free account + reserved account) (ExistentialDeposit cfg)));
          actual = min (reserved account) best_value
      in ((NegativeImbalance actual, value - actual),
          account\<lparr>reserved := reserved account - actual\<rparr>))"

fun slash_reserved_attempts ::
    "balances_config \<Rightarrow> 'acc \<Rightarrow> u128 \<Rightarrow> nat list \<Rightarrow> ('acc, 'm) balances_scheme
      \<Rightarrow> (negative_imbalance \<times> u128) \<times> ('acc, 'm) balances_scheme" where
  "slash_reserved_attempts cfg who value [] s = ((NegativeImbalance 0, value), s)"
| "slash_reserved_attempts cfg who value (attempt # rest) s =
     (case mutate_account cfg drop_slash who
             (\<lambda>account st. (slash_reserved_closure cfg value attempt account, st)) s of
        (Inr r, s') \<Rightarrow> (r, s')
      | (Inl _, s') \<Rightarrow> slash_reserved_attempts cfg who value rest s')"

definition slash_reserved ::
    "balances_config \<Rightarrow> 'acc \<Rightarrow> u128 \<Rightarrow> ('acc, 'm) balances_scheme
      \<Rightarrow> (negative_imbalance \<times> u128) \<times> ('acc, 'm) balances_scheme" where
  "slash_reserved cfg who value s =
     (if value = 0 then ((NegativeImbalance 0, 0), s)
      else if total_balance s who = 0 then ((NegativeImbalance 0, value), s)
      else slash_reserved_attempts cfg who value [0, 1] s)"

definition transfer_reserved_closure ::
    "u128 \<Rightarrow> bool \<Rightarrow> balance_status \<Rightarrow> account_data \<Rightarrow> account_data
      \<Rightarrow> dispatch_error + (u128 \<times> account_data) \<times> account_data" where
  "transfer_reserved_closure value best_effort status to_account from_account =
     (let actual = min (reserved from_account) value in
      and_then (ensure (best_effort \<or> actual = value) (BalancesModule InsufficientBalance)) (\<lambda>_.
      and_then
        (case status of
           StatusFree \<Rightarrow>
             and_then (ok_or (checked_add (free to_account) actual) (Arithmetic Overflow))
               (\<lambda>n. Inr (to_account\<lparr>free := n\<rparr>))
         | StatusReserved \<Rightarrow>
             and_then (ok_or (checked_add (reserved to_account) actual) (Arithmetic Overflow))
               (\<lambda>n. Inr (to_account\<lparr>reserved := n\<rparr>)))
        (\<lambda>to'. Inr ((actual, to'), from_account\<lparr>reserved := reserved from_account - actual\<rparr>))))"

text \<open>Drop glue of \<open>(Balance, DustCleaner)\<close>.\<close>

definition drop_moved ::
    "u128 \<times> 'acc dust_cleaner \<Rightarrow> ('acc, 'm) balances_scheme \<Rightarrow> ('acc, 'm) balances_scheme" where
  "drop_moved r s = drop_dust (snd r) s"

definition do_transfer_reserved ::
    "balances_config \<Rightarrow> 'acc \<Rightarrow> 'acc \<Rightarrow> u128 \<Rightarrow> bool \<Rightarrow> balance_status
      \<Rightarrow> ('acc, 'm) balances_scheme \<Rightarrow> (dispatch_error + u128) \<times> ('acc, 'm) balances_scheme" where
  "do_transfer_reserved cfg slashed beneficiary value best_effort status s =
     (if value = 0 then (Inr 0, s)
      else if slashed = beneficiary then
        (case status of
           StatusFree \<Rightarrow> (case unreserve cfg slashed value s of (r, s') \<Rightarrow> (Inr r, s'))
         | StatusReserved \<Rightarrow> (Inr (saturating_sub value (reserved_balance s slashed)), s))
      else
        case try_mutate_account_with_dust cfg stored_map_to_dispatch drop_moved beneficiary
               (\<lambda>to_account is_new st.
                  if is_new then (Inl (BalancesModule DeadAccount), st)
                  else
                    case try_mutate_account_with_dust cfg stored_map_to_dispatch no_drop slashed
                           (reading (\<lambda>_ from_account _.
                              transfer_reserved_closure value best_effort status to_account from_account))
                           st of
                      (Inl e, st') \<Rightarrow> (Inl e, st')
                    | (Inr ((actual, to'), dust), st') \<Rightarrow> (Inr ((actual, dust), to'), st'))
               s of
          (Inl e, s') \<Rightarrow> (Inl e, s')
        | (Inr ((actual, one_dust), other_dust), s') \<Rightarrow>
            (Inr actual,
             drop_dust one_dust (drop_dust other_dust
               (deposit_event (BalancesEvent (ReserveRepatriated slashed beneficiary actual status)) s'))))"

definition repatriate_reserved ::
    "balances_config \<Rightarrow> 'acc \<Rightarrow> 'acc \<Rightarrow> u128 \<Rightarrow> balance_status
      \<Rightarrow> ('acc, 'm) balances_scheme \<Rightarrow> (dispatch_error + u128) \<times> ('acc, 'm) balances_scheme" where
  "repatriate_reserved cfg slashed beneficiary value status s =
     (case do_transfer_reserved cfg slashed beneficiary value True status s of
        (Inl e, s') \<Rightarrow> (Inl e, s')
      | (Inr actual, s') \<Rightarrow> (Inr (saturating_sub value actual), s'))"

section \<open>NamedReservableCurrency\<close>

definition reserves :: "('acc, 'm) balances_scheme \<Rightarrow> 'acc \<Rightarrow> reserve_data list" where
  "reserves s who = unwrap_or_default [] (Reserves s who)"

definition put_reserves ::
    "'acc \<Rightarrow> reserve_data list option \<Rightarrow> ('acc, 'm) balances_scheme \<Rightarrow> ('acc, 'm) balances_scheme" where
  "put_reserves who rs s = s\<lparr>Reserves := (Reserves s)(who := rs)\<rparr>"

definition set_reserve_amount :: "nat \<Rightarrow> u128 \<Rightarrow> reserve_data list \<Rightarrow> reserve_data list" where
  "set_reserve_amount i n rs = rs[i := (rs ! i)\<lparr>reserve_amount := n\<rparr>]"

definition reserved_balance_named ::
    "reserve_identifier \<Rightarrow> ('acc, 'm) balances_scheme \<Rightarrow> 'acc \<Rightarrow> u128" where
  "reserved_balance_named rid s who =
     (let rs = reserves s who in
      case binary_search_by_key rid reserve_id rs of
        Inr index \<Rightarrow> reserve_amount (rs ! index)
      | Inl _ \<Rightarrow> 0)"

text \<open>\<open>BoundedVec::try_insert\<close> fails when the vector is full.\<close>

definition try_insert_reserve ::
    "balances_config \<Rightarrow> nat \<Rightarrow> reserve_data \<Rightarrow> reserve_data list
      \<Rightarrow> dispatch_error + reserve_data list" where
  "try_insert_reserve cfg index d rs =
     (if length rs < unat (MaxReserves cfg) then Inr (vec_insert index d rs)
      else Inl (BalancesModule TooManyReserves))"

definition reserve_named ::
    "balances_config \<Rightarrow> reserve_identifier \<Rightarrow> 'acc \<Rightarrow> u128 \<Rightarrow> ('acc, 'm) balances_scheme
      \<Rightarrow> (dispatch_error + unit) \<times> ('acc, 'm) balances_scheme" where
  "reserve_named cfg rid who value s =
     (if value = 0 then (Inr (), s)
      else
        let rs = reserves s who;
            rs' = (case binary_search_by_key rid reserve_id rs of
                     Inr index \<Rightarrow>
                       Inr (set_reserve_amount index (saturating_add (reserve_amount (rs ! index)) value) rs)
                   | Inl index \<Rightarrow>
                       try_insert_reserve cfg index \<lparr>reserve_id = rid, reserve_amount = value\<rparr> rs)
        in case rs' of
             Inl e \<Rightarrow> (Inl e, s)
           | Inr new \<Rightarrow>
               (case reserve cfg who value s of
                  (Inl e, s') \<Rightarrow> (Inl e, s')
                | (Inr _, s') \<Rightarrow> (Inr (), put_reserves who (Some new) s')))"

definition unreserve_named ::
    "balances_config \<Rightarrow> reserve_identifier \<Rightarrow> 'acc \<Rightarrow> u128 \<Rightarrow> ('acc, 'm) balances_scheme
      \<Rightarrow> u128 \<times> ('acc, 'm) balances_scheme" where
  "unreserve_named cfg rid who value s =
     (if value = 0 then (0, s)
      else
        case Reserves s who of
          None \<Rightarrow> (value, put_reserves who None s)
        | Some rs \<Rightarrow>
            (case binary_search_by_key rid reserve_id rs of
               Inl _ \<Rightarrow> (value, put_reserves who (Some rs) s)
             | Inr index \<Rightarrow>
                 (let to_change = min (reserve_amount (rs ! index)) value;
                      (remain, s') = unreserve cfg who to_change s;
                      actual = saturating_sub to_change remain;
                      left = reserve_amount (rs ! index) - actual;
                      new = (if left = 0 then
                               if length rs = 1 then None else Some (vec_remove index rs)
                             else Some (set_reserve_amount index left rs))
                  in (value - actual, put_reserves who new s'))))"

definition slash_reserved_named ::
    "balances_config \<Rightarrow> reserve_identifier \<Rightarrow> 'acc \<Rightarrow> u128 \<Rightarrow> ('acc, 'm) balances_scheme
      \<Rightarrow> (negative_imbalance \<times> u128) \<times> ('acc, 'm) balances_scheme" where
  "slash_reserved_named cfg rid who value s =
     (if value = 0 then ((NegativeImbalance 0, 0), s)
      else
        let rs = reserves s who in
        case binary_search_by_key rid reserve_id rs of
          Inl _ \<Rightarrow> ((NegativeImbalance 0, value), put_reserves who (Some rs) s)
        | Inr index \<Rightarrow>
            (let to_change = min (reserve_amount (rs ! index)) value;
                 ((imb, remain), s') = slash_reserved cfg who to_change s;
                 actual = saturating_sub to_change remain
             in ((imb, value - actual),
                 put_reserves who
                   (Some (set_reserve_amount index (reserve_amount (rs ! index) - actual) rs)) s')))"

text \<open>The part of \<open>repatriate_reserved_named\<close> that works on the beneficiary's named reserves.\<close>

definition repatriate_to_named ::
    "balances_config \<Rightarrow> reserve_identifier \<Rightarrow> 'acc \<Rightarrow> 'acc \<Rightarrow> u128
      \<Rightarrow> ('acc, 'm) balances_scheme \<Rightarrow> (dispatch_error + u128) \<times> ('acc, 'm) balances_scheme" where
  "repatriate_to_named cfg rid slashed beneficiary to_change s =
     (let rs = reserves s beneficiary in
      case binary_search_by_key rid reserve_id rs of
        Inr index \<Rightarrow>
          (case repatriate_reserved cfg slashed beneficiary to_change StatusReserved s of
             (Inl e, s') \<Rightarrow> (Inl e, s')
           | (Inr remain, s') \<Rightarrow>
               (let actual = saturating_sub to_change remain
                in (Inr actual,
                    put_reserves beneficiary
                      (Some (set_reserve_amount index
                         (saturating_add (reserve_amount (rs ! index)) actual) rs)) s')))
      | Inl index \<Rightarrow>
          (case repatriate_reserved cfg slashed beneficiary to_change StatusReserved s of
             (Inl e, s') \<Rightarrow> (Inl e, s')
           | (Inr remain, s') \<Rightarrow>
               (let actual = saturating_sub to_change remain
                in case try_insert_reserve cfg index \<lparr>reserve_id = rid, reserve_amount = actual\<rparr> rs of
                     Inl e \<Rightarrow> (Inl e, s')
                   | Inr new \<Rightarrow> (Inr actual, put_reserves beneficiary (Some new) s'))))"

definition repatriate_reserved_named ::
    "balances_config \<Rightarrow> reserve_identifier \<Rightarrow> 'acc \<Rightarrow> 'acc \<Rightarrow> u128 \<Rightarrow> balance_status
      \<Rightarrow> ('acc, 'm) balances_scheme \<Rightarrow> (dispatch_error + u128) \<times> ('acc, 'm) balances_scheme" where
  "repatriate_reserved_named cfg rid slashed beneficiary value status s =
     (if value = 0 then (Inr 0, s)
      else if slashed = beneficiary then
        (case status of
           StatusFree \<Rightarrow> (case unreserve_named cfg rid slashed value s of (r, s') \<Rightarrow> (Inr r, s'))
         | StatusReserved \<Rightarrow>
             (Inr (saturating_sub value (reserved_balance_named rid s slashed)), s))
      else
        let rs = reserves s slashed in
        case binary_search_by_key rid reserve_id rs of
          Inl _ \<Rightarrow> (Inr value, put_reserves slashed (Some rs) s)
        | Inr index \<Rightarrow>
            (let to_change = min (reserve_amount (rs ! index)) value
             in case (if status = StatusReserved then
                        repatriate_to_named cfg rid slashed beneficiary to_change s
                      else
                        case repatriate_reserved cfg slashed beneficiary to_change status s of
                          (Inl e, s') \<Rightarrow> (Inl e, s')
                        | (Inr remain, s') \<Rightarrow> (Inr (saturating_sub to_change remain), s')) of
                  (Inl e, s') \<Rightarrow> (Inl e, s')
                | (Inr actual, s') \<Rightarrow>
                    (Inr (value - actual),
                     put_reserves slashed
                       (Some (set_reserve_amount index (reserve_amount (rs ! index) - actual) rs)) s')))"

section \<open>LockableCurrency\<close>

definition locks :: "('acc, 'm) balances_scheme \<Rightarrow> 'acc \<Rightarrow> balance_lock list" where
  "locks s who = unwrap_or_default [] (Locks s who)"

fun frozen_by :: "balance_lock list \<Rightarrow> account_data \<Rightarrow> account_data" where
  "frozen_by [] b = b"
| "frozen_by (l # ls) b =
     (let b1 = (if lock_reasons l = All \<or> lock_reasons l = Misc
                then b\<lparr>misc_frozen := max (misc_frozen b) (lock_amount l)\<rparr> else b);
          b2 = (if lock_reasons l = All \<or> lock_reasons l = Fee
                then b1\<lparr>fee_frozen := max (fee_frozen b1) (lock_amount l)\<rparr> else b1)
      in frozen_by ls b2)"

definition update_locks ::
    "balances_config \<Rightarrow> 'acc \<Rightarrow> balance_lock list \<Rightarrow> ('acc, 'm) balances_scheme
      \<Rightarrow> ('acc, 'm) balances_scheme" where
  "update_locks cfg who lks s =
     (let s1 = snd (mutate_account cfg no_drop who
                 (\<lambda>b st. (((), frozen_by lks (b\<lparr>misc_frozen := 0, fee_frozen := 0\<rparr>)), st)) s);
          existed = (Locks s1 who \<noteq> None)
      in if lks = [] then
           (let s2 = s1\<lparr>Locks := (Locks s1)(who := None)\<rparr>
            in if existed then dec_consumers who s2 else s2)
         else
           (let s2 = s1\<lparr>Locks := (Locks s1)(who := Some lks)\<rparr>
            in if \<not> existed then snd (inc_consumers who s2) else s2))"

text \<open>The \<open>filter_map\<close> that takes \<open>new_lock\<close> at the first lock of the same identifier.\<close>

fun replace_lock ::
    "(balance_lock \<Rightarrow> balance_lock \<Rightarrow> balance_lock) \<Rightarrow> lock_identifier \<Rightarrow> balance_lock option
      \<Rightarrow> balance_lock list \<Rightarrow> balance_lock list \<times> balance_lock option" where
  "replace_lock comb i new [] = ([], new)"
| "replace_lock comb i new (l # ls) =
     (if lock_id l = i then
        (case new of
           None \<Rightarrow> replace_lock comb i None ls
         | Some nl \<Rightarrow> (case replace_lock comb i None ls of (r, w) \<Rightarrow> (comb l nl # r, w)))
      else (case replace_lock comb i new ls of (r, w) \<Rightarrow> (l # r, w)))"

definition with_lock ::
    "(balance_lock \<Rightarrow> balance_lock \<Rightarrow> balance_lock) \<Rightarrow> balance_lock \<Rightarrow> balance_lock list
      \<Rightarrow> balance_lock list" where
  "with_lock comb nl ls =
     (case replace_lock comb (lock_id nl) (Some nl) ls of
        (r, None) \<Rightarrow> r
      | (r, Some lock) \<Rightarrow> r @ [lock])"

definition set_lock ::
    "balances_config \<Rightarrow> lock_identifier \<Rightarrow> 'acc \<Rightarrow> u128 \<Rightarrow> withdraw_reasons
      \<Rightarrow> ('acc, 'm) balances_scheme \<Rightarrow> ('acc, 'm) balances_scheme" where
  "set_lock cfg i who amount rs s =
     (if amount = 0 \<or> rs = 0 then s
      else
        let new_lock = \<lparr>lock_id = i, lock_amount = amount, lock_reasons = reasons_from rs\<rparr>
        in update_locks cfg who (with_lock (\<lambda>l nl. nl) new_lock (locks s who)) s)"

definition extend_lock ::
    "balances_config \<Rightarrow> lock_identifier \<Rightarrow> 'acc \<Rightarrow> u128 \<Rightarrow> withdraw_reasons
      \<Rightarrow> ('acc, 'm) balances_scheme \<Rightarrow> ('acc, 'm) balances_scheme" where
  "extend_lock cfg i who amount rs s =
     (if amount = 0 \<or> rs = 0 then s
      else
        let new_lock = \<lparr>lock_id = i, lock_amount = amount, lock_reasons = reasons_from rs\<rparr>;
            comb = (\<lambda>l nl. \<lparr>lock_id = lock_id l, lock_amount = max (lock_amount l) (lock_amount nl),
                            lock_reasons = reasons_bitor (lock_reasons l) (lock_reasons nl)\<rparr>)
        in update_locks cfg who (with_lock comb new_lock (locks s who)) s)"

definition remove_lock ::
    "balances_config \<Rightarrow> lock_identifier \<Rightarrow> 'acc \<Rightarrow> ('acc, 'm) balances_scheme
      \<Rightarrow> ('acc, 'm) balances_scheme" where
  "remove_lock cfg i who s =
     update_locks cfg who (filter (\<lambda>l. lock_id l \<noteq> i) (locks s who)) s"

section \<open>The fungible traits\<close>

definition reducible_balance ::
    "balances_config \<Rightarrow> ('acc, 'm) balances_scheme \<Rightarrow> 'acc \<Rightarrow> bool \<Rightarrow> u128" where
  "reducible_balance cfg s who keep_alive =
     (let a = stored_get s who;
          liquid = saturating_sub (free a) (max (fee_frozen a) (misc_frozen a))
      in if can_dec_provider s who \<and> \<not> keep_alive then liquid
         else
           let must_remain_to_exist = saturating_sub (ExistentialDeposit cfg) (total a - liquid)
           in saturating_sub liquid must_remain_to_exist)"

definition can_deposit ::
    "balances_config \<Rightarrow> ('acc, 'm) balances_scheme \<Rightarrow> 'acc \<Rightarrow> u128 \<Rightarrow> dep_consequence" where
  "can_deposit cfg s who amount = deposit_consequence cfg s amount (stored_get s who)"

definition can_withdraw ::
    "balances_config \<Rightarrow> ('acc, 'm) balances_scheme \<Rightarrow> 'acc \<Rightarrow> u128 \<Rightarrow> wd_consequence" where
  "can_withdraw cfg s who amount = withdraw_consequence cfg s who amount (stored_get s who)"

definition mint_closure ::
    "balances_config \<Rightarrow> u128 \<Rightarrow> ('acc, 'm) balances_scheme \<Rightarrow> account_data
      \<Rightarrow> dispatch_error + unit \<times> account_data" where
  "mint_closure cfg amount st account =
     and_then (deposit_into_result (deposit_consequence cfg st amount account)) (\<lambda>u.
       Inr (u, account\<lparr>free := free account + amount\<rparr>))"

definition mint_into ::
    "balances_config \<Rightarrow> 'acc \<Rightarrow> u128 \<Rightarrow> ('acc, 'm) balances_scheme
      \<Rightarrow> (dispatch_error + unit) \<times> ('acc, 'm) balances_scheme" where
  "mint_into cfg who amount s =
     (if amount = 0 then (Inr (), s)
      else
        case try_mutate_account cfg stored_map_to_dispatch no_drop who
               (reading (\<lambda>st account _. mint_closure cfg amount st account)) s of
          (Inl e, s') \<Rightarrow> (Inl e, s')
        | (Inr _, s') \<Rightarrow> (Inr (), s'\<lparr>TotalIssuance := TotalIssuance s' + amount\<rparr>))"

definition burn_closure ::
    "balances_config \<Rightarrow> 'acc \<Rightarrow> u128 \<Rightarrow> ('acc, 'm) balances_scheme \<Rightarrow> account_data
      \<Rightarrow> dispatch_error + u128 \<times> account_data" where
  "burn_closure cfg who amount st account =
     and_then (withdraw_into_result (withdraw_consequence cfg st who amount account)) (\<lambda>extra.
       let actual = amount + extra
       in Inr (actual, account\<lparr>free := free account - actual\<rparr>))"

definition burn_from ::
    "balances_config \<Rightarrow> 'acc \<Rightarrow> u128 \<Rightarrow> ('acc, 'm) balances_scheme
      \<Rightarrow> (dispatch_error + u128) \<times> ('acc, 'm) balances_scheme" where
  "burn_from cfg who amount s =
     (if amount = 0 then (Inr 0, s)
      else
        case try_mutate_account cfg stored_map_to_dispatch no_drop who
               (reading (\<lambda>st account _. burn_closure cfg who amount st account)) s of
          (Inl e, s') \<Rightarrow> (Inl e, s')
        | (Inr actual, s') \<Rightarrow> (Inr actual, s'\<lparr>TotalIssuance := TotalIssuance s' - actual\<rparr>))"

definition fungible_transfer ::
    "balances_config \<Rightarrow> 'acc \<Rightarrow> 'acc \<Rightarrow> u128 \<Rightarrow> bool
      \<Rightarrow> ('acc, 'm) balances_scheme \<Rightarrow> (dispatch_error + u128) \<times> ('acc, 'm) balances_scheme" where
  "fungible_transfer cfg source dest amount keep_alive s =
     (case transfer cfg source dest amount (if keep_alive then KeepAlive else AllowDeath) s of
        (Inl e, s') \<Rightarrow> (Inl e, s')
      | (Inr _, s') \<Rightarrow> (Inr amount, s'))"

definition unbalanced_set_balance ::
    "balances_config \<Rightarrow> 'acc \<Rightarrow> u128 \<Rightarrow> ('acc, 'm) balances_scheme
      \<Rightarrow> (dispatch_error + unit) \<times> ('acc, 'm) balances_scheme" where
  "unbalanced_set_balance cfg who amount s =
     (case mutate_account cfg no_drop who (\<lambda>account st. (((), account\<lparr>free := amount\<rparr>), st)) s of
        (Inl e, s') \<Rightarrow> (Inl (stored_map_to_dispatch e), s')
      | (Inr _, s') \<Rightarrow> (Inr (), s'))"

definition set_total_issuance ::
    "u128 \<Rightarrow> ('acc, 'm) balances_scheme \<Rightarrow> ('acc, 'm) balances_scheme" where
  "set_total_issuance amount s = s\<lparr>TotalIssuance := amount\<rparr>"

definition can_hold :: "balances_config \<Rightarrow> ('acc, 'm) balances_scheme \<Rightarrow> 'acc \<Rightarrow> u128 \<Rightarrow> bool" where
  "can_hold cfg s who amount =
     (let a = stored_get s who;
          min_balance = max (ExistentialDeposit cfg) (frozen All a)
      in if checked_add (reserved a) amount = None then False
         else case checked_add min_balance amount of
                None \<Rightarrow> False
              | Some required_free \<Rightarrow> free a \<ge> required_free)"

definition hold ::
    "balances_config \<Rightarrow> 'acc \<Rightarrow> u128 \<Rightarrow> ('acc, 'm) balances_scheme
      \<Rightarrow> (dispatch_error + unit) \<times> ('acc, 'm) balances_scheme" where
  "hold cfg who amount s =
     (if amount = 0 then (Inr (), s)
      else if \<not> can_reserve s who amount then (Inl (BalancesModule InsufficientBalance), s)
      else
        case mutate_account cfg no_drop who
               (\<lambda>a st. (((), a\<lparr>free := free a - amount, reserved := reserved a + amount\<rparr>), st)) s of
          (Inl e, s') \<Rightarrow> (Inl (stored_map_to_dispatch e), s')
        | (Inr _, s') \<Rightarrow> (Inr (), s'))"

definition release_closure ::
    "u128 \<Rightarrow> bool \<Rightarrow> account_data \<Rightarrow> dispatch_error + u128 \<times> account_data" where
  "release_closure amount best_effort a =
     (let new_free = saturating_add (free a) (min amount (reserved a));
          actual = new_free - free a
      in and_then (ensure (best_effort \<or> actual = amount) (BalancesModule InsufficientBalance)) (\<lambda>_.
        Inr (actual, a\<lparr>free := new_free, reserved := saturating_sub (reserved a) actual\<rparr>)))"

definition release ::
    "balances_config \<Rightarrow> 'acc \<Rightarrow> u128 \<Rightarrow> bool \<Rightarrow> ('acc, 'm) balances_scheme
      \<Rightarrow> (dispatch_error + u128) \<times> ('acc, 'm) balances_scheme" where
  "release cfg who amount best_effort s =
     (if amount = 0 then (Inr amount, s)
      else try_mutate_account cfg stored_map_to_dispatch no_drop who
             (reading (\<lambda>_ a _. release_closure amount best_effort a)) s)"

definition transfer_held ::
    "balances_config \<Rightarrow> 'acc \<Rightarrow> 'acc \<Rightarrow> u128 \<Rightarrow> bool \<Rightarrow> bool
      \<Rightarrow> ('acc, 'm) balances_scheme \<Rightarrow> (dispatch_error + u128) \<times> ('acc, 'm) balances_scheme" where
  "transfer_held cfg source dest amount best_effort on_hold s =
     do_transfer_reserved cfg source dest amount best_effort
       (if on_hold then StatusReserved else StatusFree) s"

section \<open>Dispatchable calls\<close>

text \<open>\<open>lookup\<close> is the configured \<open>StaticLookup\<close> of account references.\<close>

definition call_transfer ::
    "balances_config \<Rightarrow> ('src \<Rightarrow> dispatch_error + 'acc) \<Rightarrow> 'acc raw_origin \<Rightarrow> 'src \<Rightarrow> u128
      \<Rightarrow> ('acc, 'm) balances_scheme \<Rightarrow> (dispatch_error + unit) \<times> ('acc, 'm) balances_scheme" where
  "call_transfer cfg lookup origin dest value s =
     (case ensure_signed origin of
        Inl e \<Rightarrow> (Inl e, s)
      | Inr transactor \<Rightarrow>
          (case lookup dest of
             Inl e \<Rightarrow> (Inl e, s)
           | Inr d \<Rightarrow> transfer cfg transactor d value AllowDeath s))"

definition call_transfer_keep_alive ::
    "balances_config \<Rightarrow> ('src \<Rightarrow> dispatch_error + 'acc) \<Rightarrow> 'acc raw_origin \<Rightarrow> 'src \<Rightarrow> u128
      \<Rightarrow> ('acc, 'm) balances_scheme \<Rightarrow> (dispatch_error + unit) \<times> ('acc, 'm) balances_scheme" where
  "call_transfer_keep_alive cfg lookup origin dest value s =
     (case ensure_signed origin of
        Inl e \<Rightarrow> (Inl e, s)
      | Inr transactor \<Rightarrow>
          (case lookup dest of
             Inl e \<Rightarrow> (Inl e, s)
           | Inr d \<Rightarrow> transfer cfg transactor d value KeepAlive s))"

definition call_force_transfer ::
    "balances_config \<Rightarrow> ('src \<Rightarrow> dispatch_error + 'acc) \<Rightarrow> 'acc raw_origin \<Rightarrow> 'src \<Rightarrow> 'src \<Rightarrow> u128
      \<Rightarrow> ('acc, 'm) balances_scheme \<Rightarrow> (dispatch_error + unit) \<times> ('acc, 'm) balances_scheme" where
  "call_force_transfer cfg lookup origin source dest value s =
     (case and_then (ensure_root origin) (\<lambda>_. and_then (lookup source) (\<lambda>a.
             and_then (lookup dest) (\<lambda>d. Inr (a, d)))) of
        Inl e \<Rightarrow> (Inl e, s)
      | Inr (a, d) \<Rightarrow> transfer cfg a d value AllowDeath s)"

definition call_transfer_all ::
    "balances_config \<Rightarrow> ('src \<Rightarrow> dispatch_error + 'acc) \<Rightarrow> 'acc raw_origin \<Rightarrow> 'src \<Rightarrow> bool
      \<Rightarrow> ('acc, 'm) balances_scheme \<Rightarrow> (dispatch_error + unit) \<times> ('acc, 'm) balances_scheme" where
  "call_transfer_all cfg lookup origin dest keep_alive s =
     (case ensure_signed origin of
        Inl e \<Rightarrow> (Inl e, s)
      | Inr transactor \<Rightarrow>
          (let amount = reducible_balance cfg s transactor keep_alive
           in case lookup dest of
                Inl e \<Rightarrow> (Inl e, s)
              | Inr d \<Rightarrow>
                  transfer cfg transactor d amount (if keep_alive then KeepAlive else AllowDeath) s))"

definition settle ::
    "u128 \<Rightarrow> u128 \<Rightarrow> ('acc, 'm) balances_scheme \<Rightarrow> ('acc, 'm) balances_scheme" where
  "settle new old s =
     (if new > old then drop_positive (PositiveImbalance (new - old)) s
      else if new < old then drop_negative (NegativeImbalance (old - new)) s
      else s)"

definition call_set_balance ::
    "balances_config \<Rightarrow> ('src \<Rightarrow> dispatch_error + 'acc) \<Rightarrow> 'acc raw_origin \<Rightarrow> 'src \<Rightarrow> u128 \<Rightarrow> u128
      \<Rightarrow> ('acc, 'm) balances_scheme \<Rightarrow> (dispatch_error + unit) \<times> ('acc, 'm) balances_scheme" where
  "call_set_balance cfg lookup origin who new_free new_reserved s =
     (case and_then (ensure_root origin) (\<lambda>_. lookup who) of
        Inl e \<Rightarrow> (Inl e, s)
      | Inr w \<Rightarrow>
          (let wipeout = (new_free + new_reserved < ExistentialDeposit cfg);
               nf = (if wipeout then 0 else new_free);
               nr = (if wipeout then 0 else new_reserved)
           in case mutate_account cfg no_drop w
                     (\<lambda>account st.
                        (((nf, nr), account\<lparr>free := nf, reserved := nr\<rparr>),
                         settle nr (reserved account) (settle nf (free account) st))) s of
                (Inl e, s') \<Rightarrow> (Inl (stored_map_to_dispatch e), s')
              | (Inr (f, r), s') \<Rightarrow> (Inr (), deposit_event (BalancesEvent (BalanceSet w f r)) s')))"

section \<open>Genesis\<close>

fun genesis_insert ::
    "('acc \<times> u128) list \<Rightarrow> ('acc, 'm) balances_scheme \<Rightarrow> ('acc, 'm) balances_scheme option" where
  "genesis_insert [] s = Some s"
| "genesis_insert ((who, f) # rest) s =
     (case try_mutate_exists id no_drop who
             (\<lambda>_ st. (Inr ((), Some (default_account_data\<lparr>free := f\<rparr>)), st)) s of
        (Inl _, s') \<Rightarrow> None
      | (Inr _, s') \<Rightarrow> genesis_insert rest s')"

text \<open>\<open>None\<close> is a failed assertion.\<close>

definition genesis_build ::
    "balances_config \<Rightarrow> ('acc \<times> u128) list \<Rightarrow> ('acc, 'm) balances_scheme
      \<Rightarrow> ('acc, 'm) balances_scheme option" where
  "genesis_build cfg bals s =
     (let s1 = s\<lparr>TotalIssuance := foldl (\<lambda>acc (_, n). acc + n) 0 bals,
                 StorageVersion := V2_0_0\<rparr>
      in if \<not> list_all (\<lambda>(_, b). b \<ge> ExistentialDeposit cfg) bals then None
         else if \<not> distinct (map fst bals) then None
         else genesis_insert bals s1)"

end
