(* ===== verification/Balances_Issuance.thy ===== *)
theory Balances_Issuance
  imports Balances_Model
begin

text \<open>
  The accounting of the Balances pallet: what the accounts hold together is the total issuance.
  First the effect of mutating one account (\<open>try_mutate_account\<close> and its variants) is
  reduced to the closure's effect on the account data, then every operation is shown to keep the
  ledger balanced once the imbalance it returns is dropped.
\<close>

declare of_nat_unat [simp del]

section \<open>Effect of mutating one account\<close>

text \<open>What is stored for an account the closure leaves as \<open>a\<close>, and the dust this gives.\<close>

definition settled :: "balances_config \<Rightarrow> account_data \<Rightarrow> account_data" where
  "settled cfg a = (if total a < ExistentialDeposit cfg then default_account_data else a)"

definition dust_of :: "balances_config \<Rightarrow> account_data \<Rightarrow> u128" where
  "dust_of cfg a = (if total a < ExistentialDeposit cfg then total a else 0)"

definition balance_frame ::
    "('acc, 'm) balances_scheme \<Rightarrow> ('acc, 'm) balances_scheme \<Rightarrow> bool" where
  "balance_frame s t = (TotalIssuance t = TotalIssuance s \<and> Locks t = Locks s \<and> Reserves t = Reserves s)"

lemma balance_frame_refl [simp]: "balance_frame s s"
  by (simp add: balance_frame_def)

lemma balance_frame_trans: "balance_frame s t \<Longrightarrow> balance_frame t u \<Longrightarrow> balance_frame s u"
  by (simp add: balance_frame_def)

lemma balance_frame_event [simp]: "balance_frame s (deposit_event ev s)"
  by (simp add: balance_frame_def deposit_event_def deposit_event_indexed_def Let_def split: option.split)

lemma balance_frame_put [simp]: "balance_frame s (account_put who a s)"
  by (simp add: balance_frame_def account_put_def)

lemma balance_frame_events [simp]:
  "balance_frame s (on_created_account who s)" "balance_frame s (on_killed_account who s)"
  by (simp_all add: on_created_account_def on_killed_account_def)

lemma balance_frame_set_data [simp]: "balance_frame s (account_set_data k d s)"
  by (simp add: account_set_data_def)

lemma balance_frame_inc_providers [simp]: "balance_frame s (snd (inc_providers k s))"
  by (auto simp: inc_providers_def Let_def intro: balance_frame_trans [of s "on_created_account k s"])

lemma balance_frame_dec_providers [simp]: "balance_frame s (snd (dec_providers k s))"
  by (auto simp: dec_providers_def Let_def split: option.split
      intro: balance_frame_trans [of s "on_killed_account k s"])

lemma event_fields [simp]:
  "TotalIssuance (deposit_event ev s) = TotalIssuance s"
  "Locks (deposit_event ev s) = Locks s"
  "Reserves (deposit_event ev s) = Reserves s"
  using balance_frame_event [of s ev] by (simp_all only: balance_frame_def)

lemma stored_query_None: "stored_query s k = None \<longleftrightarrow> stored_get s k = default_account_data"
  by (simp add: stored_query_def is_providing_def)

lemma stored_query_default [simp]:
  "unwrap_or_default default_account_data (stored_query s k) = stored_get s k"
  by (simp add: stored_query_def is_providing_def)

text \<open>The state a successful \<open>try_mutate_exists\<close> leaves, with the pallet's own items.\<close>

lemma balance_frame_try_mutate_exists:
  assumes "f (stored_query s k) s = (Inr (r, d), s1)"
    and "try_mutate_exists frm drp k f s = (Inr r', t)"
  shows "balance_frame s1 t"
proof -
  obtain x s2 where dp: "dec_providers k s1 = (x, s2)" by fastforce
  then have s2: "balance_frame s1 s2" using balance_frame_dec_providers [of s1 k] by simp
  have "balance_frame s1 (account_set_data k d (snd (inc_providers k s1)))"
    by (rule balance_frame_trans [OF balance_frame_inc_providers balance_frame_set_data])
  moreover have "balance_frame s1 (account_set_data k d s2)"
    by (rule balance_frame_trans [OF s2 balance_frame_set_data])
  ultimately show ?thesis
    using assms dp s2
    by (auto simp: try_mutate_exists_alt split: if_splits sum.splits dec_ref_error.splits
        dec_ref_status.splits)
qed

lemma can_dec_provider_iff:
  "can_dec_provider s k \<longleftrightarrow> (\<nexists>e. fst (dec_providers k s) = Inl e)"
proof (cases "Account s k")
  case None
  then show ?thesis by (simp add: can_dec_provider_def account_get_None dec_providers_err_iff Let_def)
next
  case (Some a)
  then show ?thesis
    by (auto simp: can_dec_provider_def account_get_Some dec_providers_err_iff Let_def not_le
        word_gt_0)
qed

definition dust_cleaner_of :: "balances_config \<Rightarrow> 'acc \<Rightarrow> account_data \<Rightarrow> 'acc dust_cleaner" where
  "dust_cleaner_of cfg who a = map_option (Pair who) (snd (post_mutation cfg a))"

lemma post_mutation_fst: "unwrap_or_default default_account_data (fst (post_mutation cfg a)) = settled cfg a"
  by (simp add: post_mutation_def settled_def Let_def)

lemma post_mutation_None: "fst (post_mutation cfg a) = None \<longleftrightarrow> total a < ExistentialDeposit cfg"
  by (simp add: post_mutation_def Let_def)

lemma with_dust_closure_err:
  assumes "f (stored_get s who) (stored_get s who = default_account_data) s = (Inl e, s1)"
  shows "try_mutate_account_with_dust cfg frm drp who f s = (Inl e, s1)"
  using assms
  by (simp add: try_mutate_account_with_dust_def try_mutate_exists_alt stored_query_None Let_def)

lemma with_dust_ok:
  assumes f: "f (stored_get s who) (stored_get s who = default_account_data) s = (Inr (r, a), s1)"
    and keep: "stored_get s1 who = stored_get s who"
  shows "(try_mutate_account_with_dust cfg frm drp who f s
            = (Inl (frm SmConsumerRemaining), drp r (drop_negative_option (snd (post_mutation cfg a)) s1))
          \<and> total a < ExistentialDeposit cfg \<and> stored_get s who \<noteq> default_account_data
          \<and> \<not> can_dec_provider s1 who)
       \<or> (\<exists>t. try_mutate_account_with_dust cfg frm drp who f s = (Inr (r, dust_cleaner_of cfg who a), t)
          \<and> stored_get t = (stored_get s1)(who := settled cfg a) \<and> balance_frame s1 t)"
    (is "?err \<or> ?ok")
proof -
  let ?g = "\<lambda>maybe_account st.
     let is_new = (maybe_account = None);
         account = unwrap_or_default default_account_data maybe_account
     in case f account is_new st of
          (Inl e, st') \<Rightarrow> (Inl e, st')
        | (Inr (result, account'), st') \<Rightarrow>
            (let maybe_endowed = (if is_new then Some (free account') else None);
                 (acc, dust) = post_mutation cfg account'
             in (Inr ((maybe_endowed, dust, result), acc), st'))"
  let ?drp = "\<lambda>(maybe_endowed, maybe_dust, r) st. drp r (drop_negative_option maybe_dust st)"
  let ?r = "(if stored_get s who = default_account_data then Some (free a) else None, snd (post_mutation cfg a), r)"
  have g: "?g (stored_query s who) s = (Inr (?r, fst (post_mutation cfg a)), s1)"
    using f by (simp add: stored_query_None Let_def split: prod.split)
  from try_mutate_exists_ok [where f = ?g and s = s and k = who and frm = frm and drp = ?drp, OF g keep]
  show ?thesis
  proof (elim disjE conjE exE)
    fix e
    assume a: "try_mutate_exists frm ?drp who ?g s = (Inl (frm SmConsumerRemaining), ?drp ?r s1)"
      and b: "fst (post_mutation cfg a) = None" "stored_query s who \<noteq> None"
      and c: "fst (dec_providers who s1) = Inl e"
    have ?err
      using a b c
      by (auto simp: try_mutate_account_with_dust_def post_mutation_None stored_query_None can_dec_provider_iff)
    then show ?thesis ..
  next
    fix t
    assume a: "try_mutate_exists frm ?drp who ?g s = (Inr ?r, t)"
      and b: "stored_get t = (stored_get s1)
          (who := unwrap_or_default default_account_data (fst (post_mutation cfg a)))"
    from balance_frame_try_mutate_exists [where f = ?g, OF g a] have "balance_frame s1 t" .
    then have ?ok
      using a b
      by (auto simp: try_mutate_account_with_dust_def dust_cleaner_of_def post_mutation_fst
          intro: balance_frame_trans)
    then show ?thesis ..
  qed
qed

lemma TotalIssuance_drop_dust:
  "TotalIssuance (drop_dust (dust_cleaner_of cfg who a) s) = saturating_sub (TotalIssuance s) (dust_of cfg a)"
  by (auto simp: dust_cleaner_of_def post_mutation_def Let_def dust_of_def saturating_sub_def)

lemma drop_dust_fields [simp]:
  "stored_get (drop_dust d s) = stored_get s" "Locks (drop_dust d s) = Locks s"
  "Reserves (drop_dust d s) = Reserves s"
  by (cases d; auto simp: stored_get_def account_get_def fun_eq_iff; case_tac b; simp add: stored_get_def account_get_def)+

lemma mutate_closure_err:
  assumes "f (stored_get s who) (stored_get s who = default_account_data) s = (Inl e, s1)"
  shows "try_mutate_account cfg frm drp who f s = (Inl e, s1)"
  using with_dust_closure_err [of f s who e s1 cfg frm drp] assms
  by (simp add: try_mutate_account_def)

lemma mutate_ok:
  assumes f: "f (stored_get s who) (stored_get s who = default_account_data) s = (Inr (r, a), s1)"
    and keep: "stored_get s1 who = stored_get s who"
  shows "(try_mutate_account cfg frm drp who f s
            = (Inl (frm SmConsumerRemaining), drp r (drop_negative_option (snd (post_mutation cfg a)) s1))
          \<and> total a < ExistentialDeposit cfg \<and> stored_get s who \<noteq> default_account_data
          \<and> \<not> can_dec_provider s1 who)
       \<or> (\<exists>t. try_mutate_account cfg frm drp who f s = (Inr r, t)
          \<and> stored_get t = (stored_get s1)(who := settled cfg a)
          \<and> TotalIssuance t = saturating_sub (TotalIssuance s1) (dust_of cfg a)
          \<and> Locks t = Locks s1 \<and> Reserves t = Reserves s1)"
  using with_dust_ok [where f = f and s = s and who = who and cfg = cfg and frm = frm and drp = drp, OF f keep]
  by (auto simp: try_mutate_account_def TotalIssuance_drop_dust balance_frame_def)

section \<open>The ledger\<close>

definition worth :: "account_data \<Rightarrow> nat" where
  "worth a = unat (free a) + unat (reserved a)"

definition held :: "('acc \<Rightarrow> account_data) \<Rightarrow> nat" where
  "held f = (\<Sum>k | worth (f k) \<noteq> 0. worth (f k))"

definition finite_ledger :: "('acc \<Rightarrow> account_data) \<Rightarrow> bool" where
  "finite_ledger f = finite {k. worth (f k) \<noteq> 0}"

text \<open>The balanced states: no account below the existential deposit, and issuance is what is held.\<close>

definition no_dust :: "balances_config \<Rightarrow> ('acc, 'm) balances_scheme \<Rightarrow> bool" where
  "no_dust cfg s = (\<forall>k. stored_get s k = default_account_data \<or> ExistentialDeposit cfg \<le> total (stored_get s k))"

definition gap :: "('acc, 'm) balances_scheme \<Rightarrow> int" where
  "gap s = int (held (stored_get s)) - int (unat (TotalIssuance s))"

definition balanced :: "balances_config \<Rightarrow> ('acc, 'm) balances_scheme \<Rightarrow> bool" where
  "balanced cfg s = (finite_ledger (stored_get s) \<and> no_dust cfg s \<and> gap s = 0)"

lemma worth_default [simp]: "worth default_account_data = 0"
  by (simp add: worth_def default_account_data_def)

lemma unat_total: "unat (total a) = min (worth a) (2 ^ 128 - 1)"
  by (simp add: total_def unat_saturating_add worth_def)

lemma total_default [simp]: "total default_account_data = 0"
  by (simp add: total_def default_account_data_def saturating_add_def)

lemma held_superset:
  assumes "finite S" and "{k. worth (f k) \<noteq> 0} \<subseteq> S"
  shows "held f = (\<Sum>k\<in>S. worth (f k))"
  unfolding held_def using assms by (intro sum.mono_neutral_left) auto

lemma finite_ledger_upd: "finite_ledger f \<Longrightarrow> finite_ledger (f(k := a))"
  unfolding finite_ledger_def
  by (rule finite_subset [of _ "insert k {k. worth (f k) \<noteq> 0}"]) auto

lemma held_upd:
  assumes "finite_ledger f"
  shows "held (f(k := a)) + worth (f k) = held f + worth a"
proof -
  let ?S = "insert k {k. worth (f k) \<noteq> 0}"
  have fin: "finite ?S" using assms by (simp add: finite_ledger_def)
  have "held (f(k := a)) = (\<Sum>j\<in>?S. worth ((f(k := a)) j))"
    by (rule held_superset [OF fin]) auto
  also have "\<dots> = (\<Sum>j\<in>?S. ((\<lambda>j. worth (f j))(k := worth a)) j)"
    by (rule sum.cong) auto
  finally have 1: "held (f(k := a)) = (\<Sum>j\<in>?S. ((\<lambda>j. worth (f j))(k := worth a)) j)" .
  have 2: "held f = (\<Sum>j\<in>?S. worth (f j))" by (rule held_superset [OF fin]) auto
  show ?thesis
    unfolding 1 2 by (rule sum_fun_upd_finite [OF fin]) simp
qed

lemma worth_le_held: "finite_ledger f \<Longrightarrow> worth (f k) \<le> held f"
  unfolding held_def finite_ledger_def
  by (cases "worth (f k) = 0") (auto intro: member_le_sum)

lemma worth_settled:
  "worth a < 2 ^ 128 \<Longrightarrow> worth (settled cfg a) + unat (dust_of cfg a) = worth a"
  by (simp add: settled_def dust_of_def unat_total)

lemma gap_0: "gap s = 0 \<longleftrightarrow> held (stored_get s) = unat (TotalIssuance s)"
  by (simp only: gap_def right_minus_eq of_nat_eq_iff)

lemma balanced_worth: "balanced cfg s \<Longrightarrow> worth (stored_get s k) \<le> unat (TotalIssuance s)"
  using worth_le_held [of "stored_get s" k] by (simp add: balanced_def gap_0)

lemma unat_u128_less: "unat (x :: u128) < 2 ^ 128"
  by (rule order.strict_trans2 [OF unsigned_less]) simp

lemma balanced_worth_less: "balanced cfg s \<Longrightarrow> worth (stored_get s k) < 2 ^ 128"
  using balanced_worth [of cfg s k] unat_u128_less [of "TotalIssuance s"] by simp

lemma balanced_alive:
  assumes "balanced cfg s" and "stored_get s k \<noteq> default_account_data"
  shows "unat (ExistentialDeposit cfg) \<le> worth (stored_get s k)"
  using assms balanced_worth_less [OF assms(1), of k]
  by (auto simp: balanced_def no_dust_def word_le_nat_alt unat_total)

text \<open>
  One account changes from what is stored to \<open>a\<close>, the dust is burned: the gap between holdings
  and issuance moves by exactly the change in the account's worth.
\<close>

lemma account_change:
  assumes bal: "balanced cfg s" and small: "worth a < 2 ^ 128"
    and t: "stored_get t = (stored_get s)(k := settled cfg a)"
    and ti: "TotalIssuance t = saturating_sub (TotalIssuance s) (dust_of cfg a)"
    and fresh: "stored_get s k = default_account_data \<Longrightarrow> worth a = 0 \<or> ExistentialDeposit cfg \<le> total a"
  shows "finite_ledger (stored_get t)" and "no_dust cfg t"
    and "gap t = int (worth a) - int (worth (stored_get s k))"
proof -
  have fin: "finite_ledger (stored_get s)" and nd: "no_dust cfg s"
    and g: "held (stored_get s) = unat (TotalIssuance s)"
    using bal by (auto simp: balanced_def gap_0)
  show "finite_ledger (stored_get t)" using fin t by (simp add: finite_ledger_upd)
  show "no_dust cfg t" using nd t by (auto simp: no_dust_def settled_def)
  have "unat (dust_of cfg a) \<le> unat (TotalIssuance s)"
  proof (cases "stored_get s k = default_account_data")
    case True
    with fresh show ?thesis by (auto simp: dust_of_def unat_total not_less)
  next
    case False
    from balanced_alive [OF bal False] small
    have "unat (dust_of cfg a) \<le> worth (stored_get s k)"
      by (auto simp: dust_of_def word_less_nat_alt unat_total)
    with balanced_worth [OF bal, of k] show ?thesis by simp
  qed
  then have "int (unat (TotalIssuance t)) = int (unat (TotalIssuance s)) - int (unat (dust_of cfg a))"
    using ti by (simp add: unat_saturating_sub)
  moreover have "int (held (stored_get t)) + int (worth (stored_get s k))
      = int (held (stored_get s)) + int (worth (settled cfg a))"
    using held_upd [OF fin, of k "settled cfg a"] t by (metis of_nat_add)
  moreover have "int (worth (settled cfg a)) + int (unat (dust_of cfg a)) = int (worth a)"
    using worth_settled [OF small, of cfg] by (metis of_nat_add)
  ultimately show "gap t = int (worth a) - int (worth (stored_get s k))"
    using g by (simp add: gap_def)
qed

lemma stored_get_own_items [simp]:
  "stored_get (s\<lparr>TotalIssuance := x\<rparr>) = stored_get s"
  "stored_get (s\<lparr>Locks := l\<rparr>) = stored_get s"
  "stored_get (s\<lparr>Reserves := r\<rparr>) = stored_get s"
  "stored_get (s\<lparr>StorageVersion := v\<rparr>) = stored_get s"
  by (simp_all add: stored_get_def account_get_def fun_eq_iff)

lemma drop_positive_fields [simp]:
  "stored_get (drop_positive p s) = stored_get s" "Locks (drop_positive p s) = Locks s"
  "Reserves (drop_positive p s) = Reserves s"
  by (cases p; simp)+

lemma drop_negative_fields [simp]:
  "stored_get (drop_negative n s) = stored_get s" "Locks (drop_negative n s) = Locks s"
  "Reserves (drop_negative n s) = Reserves s"
  by (cases n; simp)+

lemma balancedI:
  "finite_ledger (stored_get s) \<Longrightarrow> no_dust cfg s \<Longrightarrow> gap s = 0 \<Longrightarrow> balanced cfg s"
  by (simp add: balanced_def)

lemma balancedD:
  assumes "balanced cfg s"
  shows "finite_ledger (stored_get s)" "no_dust cfg s" "gap s = 0"
  using assms by (simp_all add: balanced_def)

lemma no_dust_cong: "stored_get t = stored_get s \<Longrightarrow> no_dust cfg t = no_dust cfg s"
  by (simp add: no_dust_def)

text \<open>Dropping an imbalance closes a gap of its size.\<close>

lemma gap_drop_positive:
  assumes "unat (TotalIssuance s) + unat n < 2 ^ 128"
  shows "gap (drop_positive (PositiveImbalance n) s) = gap s - int (unat n)"
  using assms by (simp add: gap_def unat_saturating_add)

lemma gap_drop_negative:
  assumes "unat n \<le> unat (TotalIssuance s)"
  shows "gap (drop_negative (NegativeImbalance n) s) = gap s + int (unat n)"
  using assms by (simp add: gap_def unat_saturating_sub)

lemma balanced_drop_positive:
  assumes "finite_ledger (stored_get s)" and "no_dust cfg s" and "gap s = int (unat n)"
    and "unat (TotalIssuance s) + unat n < 2 ^ 128"
  shows "balanced cfg (drop_positive (PositiveImbalance n) s)"
  using assms gap_drop_positive [of s n]
  by (simp add: balanced_def no_dust_def del: drop_positive.simps)

lemma balanced_drop_negative:
  assumes "finite_ledger (stored_get s)" and "no_dust cfg s" and "gap s = - int (unat n)"
  shows "balanced cfg (drop_negative (NegativeImbalance n) s)"
proof -
  have "unat n \<le> unat (TotalIssuance s)" using assms(3) by (simp add: gap_def)
  with assms gap_drop_negative [of n s] show ?thesis
    by (simp add: balanced_def no_dust_def del: drop_negative.simps)
qed

lemma drop_zero [simp]:
  "drop_positive (PositiveImbalance 0) s = s" "drop_negative (NegativeImbalance 0) s = s"
  by (simp_all add: saturating_add_def saturating_sub_def unat_u128_less [simplified])

lemma TotalIssuance_drop [simp]:
  "TotalIssuance (drop_positive (PositiveImbalance n) s) = saturating_add (TotalIssuance s) n"
  "TotalIssuance (drop_negative (NegativeImbalance n) s) = saturating_sub (TotalIssuance s) n"
  by simp_all

declare drop_positive.simps [simp del] drop_negative.simps [simp del]

lemma worth_upd [simp]:
  "worth (a\<lparr>free := x\<rparr>) = unat x + unat (reserved a)"
  "worth (a\<lparr>reserved := y\<rparr>) = unat (free a) + unat y"
  "worth (a\<lparr>free := x, reserved := y\<rparr>) = unat x + unat y"
  by (simp_all add: worth_def)

text \<open>An account that was alive and did not lose anything is still alive.\<close>

lemma grown_alive:
  assumes "balanced cfg s" and "worth (stored_get s k) \<le> worth a" and "worth a < 2 ^ 128"
    and "stored_get s k \<noteq> default_account_data \<or> unat (ExistentialDeposit cfg) \<le> worth a"
  shows "ExistentialDeposit cfg \<le> total a"
  using assms balanced_alive [OF assms(1), of k] by (auto simp: word_le_nat_alt unat_total)

section \<open>Closures that only read\<close>

text \<open>\<open>mutated cfg s who a t\<close>: in \<open>t\<close> the account has been set to \<open>a\<close>, its dust burned.\<close>

definition mutated ::
    "balances_config \<Rightarrow> ('acc, 'm) balances_scheme \<Rightarrow> 'acc \<Rightarrow> account_data
      \<Rightarrow> ('acc, 'm) balances_scheme \<Rightarrow> bool" where
  "mutated cfg s who a t =
     (stored_get t = (stored_get s)(who := settled cfg a)
      \<and> TotalIssuance t = saturating_sub (TotalIssuance s) (dust_of cfg a)
      \<and> Locks t = Locks s \<and> Reserves t = Reserves s)"

lemma reading_closure_err:
  assumes "g s (stored_get s who) (stored_get s who = default_account_data) = Inl e"
  shows "try_mutate_account cfg frm drp who (reading g) s = (Inl e, s)"
  by (rule mutate_closure_err) (simp add: reading_def assms)

lemma reading_closure_ok:
  assumes "g s (stored_get s who) (stored_get s who = default_account_data) = Inr (r, a)"
    and "can_dec_provider s who \<or> ExistentialDeposit cfg \<le> total a \<or> stored_get s who = default_account_data"
  shows "\<exists>t. try_mutate_account cfg frm drp who (reading g) s = (Inr r, t) \<and> mutated cfg s who a t"
  using mutate_ok [where f = "reading g" and s = s and who = who and r = r and a = a and cfg = cfg
      and frm = frm and drp = drp, OF _ refl] assms
  by (auto simp: reading_def mutated_def)

lemma reading_closure_refused:
  assumes "g s (stored_get s who) (stored_get s who = default_account_data) = Inr (r, a)"
    and "\<not> can_dec_provider s who" and "total a < ExistentialDeposit cfg"
    and "stored_get s who \<noteq> default_account_data"
  shows "try_mutate_account cfg frm drp who (reading g) s
     = (Inl (frm SmConsumerRemaining), drp r (drop_negative_option (snd (post_mutation cfg a)) s))"
proof -
  obtain e where e: "dec_providers who s = (Inl e, s)"
    using assms(2) dec_providers_err [of who s]
    by (auto simp: can_dec_provider_iff prod_eq_iff)
  have n: "fst (post_mutation cfg a) = None" using assms(3) by (simp add: post_mutation_None)
  show ?thesis
    using assms(1,4) e n
    by (cases e)
       (simp add: try_mutate_account_def try_mutate_account_with_dust_def try_mutate_exists_alt
          reading_def stored_query_None Let_def case_prod_beta)
qed

text \<open>Either way of reading \<open>try_mutate_account\<close>: the three outcomes.\<close>

lemma reading_cases:
  obtains (closure_err) e where
      "g s (stored_get s who) (stored_get s who = default_account_data) = Inl e"
      "try_mutate_account cfg frm drp who (reading g) s = (Inl e, s)"
  | (ok) r a t where
      "g s (stored_get s who) (stored_get s who = default_account_data) = Inr (r, a)"
      "try_mutate_account cfg frm drp who (reading g) s = (Inr r, t)" "mutated cfg s who a t"
  | (refused) r a where
      "g s (stored_get s who) (stored_get s who = default_account_data) = Inr (r, a)"
      "try_mutate_account cfg frm drp who (reading g) s
         = (Inl (frm SmConsumerRemaining), drp r (drop_negative_option (snd (post_mutation cfg a)) s))"
      "\<not> can_dec_provider s who" "total a < ExistentialDeposit cfg"
      "stored_get s who \<noteq> default_account_data"
proof (cases "g s (stored_get s who) (stored_get s who = default_account_data)")
  case (Inl e)
  show ?thesis by (rule closure_err [OF Inl reading_closure_err [of g, OF Inl]])
next
  case (Inr ra)
  obtain r a where ra: "g s (stored_get s who) (stored_get s who = default_account_data) = Inr (r, a)"
    using Inr by (metis surj_pair)
  show ?thesis
  proof (cases "can_dec_provider s who \<or> ExistentialDeposit cfg \<le> total a \<or> stored_get s who = default_account_data")
    case True
    obtain t where "try_mutate_account cfg frm drp who (reading g) s = (Inr r, t)" "mutated cfg s who a t"
      using reading_closure_ok [of g, OF ra True, of frm drp] by (elim exE conjE)
    then show ?thesis by (rule ok [OF ra])
  next
    case False
    then have f: "\<not> can_dec_provider s who" "total a < ExistentialDeposit cfg"
      "stored_get s who \<noteq> default_account_data" by auto
    show ?thesis by (rule refused [OF ra reading_closure_refused [of g, OF ra f] f])
  qed
qed

lemma mutate_account_reading:
  "mutate_account cfg drp who (\<lambda>a st. (g a, st)) s
     = try_mutate_account cfg id drp who (reading (\<lambda>_ a _. Inr (g a))) s"
  by (simp add: mutate_account_def reading_def)

text \<open>The ledger after such a mutation.\<close>

lemma mutated_change:
  assumes "balanced cfg s" and "mutated cfg s who a t" and "worth a < 2 ^ 128"
    and "stored_get s who = default_account_data \<Longrightarrow> worth a = 0 \<or> ExistentialDeposit cfg \<le> total a"
  shows "finite_ledger (stored_get t)" and "no_dust cfg t"
    and "gap t = int (worth a) - int (worth (stored_get s who))"
    and "unat (TotalIssuance t) \<le> unat (TotalIssuance s)"
  using account_change [of cfg s a t who] assms
  by (auto simp: mutated_def unat_saturating_sub)

lemma mutated_balanced:
  assumes "balanced cfg s" and "mutated cfg s who a t" and "worth a = worth (stored_get s who)"
  shows "balanced cfg t"
proof -
  have small: "worth a < 2 ^ 128" using assms(3) balanced_worth_less [OF assms(1)] by simp
  show ?thesis
    using mutated_change [OF assms(1,2) small] assms(3) by (auto intro!: balancedI)
qed

text \<open>
  What every operation on a single account does to a balanced ledger, given what its closure does to
  the account: an error changes nothing, a success opens a gap of exactly the change in worth.
\<close>

lemma run_reading:
  assumes bal: "balanced cfg s"
    and ok: "\<And>r b. g s (stored_get s who) (stored_get s who = default_account_data) = Inr (r, b) \<Longrightarrow>
        worth b < 2 ^ 128
        \<and> (stored_get s who = default_account_data \<longrightarrow> worth b = 0 \<or> ExistentialDeposit cfg \<le> total b)
        \<and> (can_dec_provider s who \<or> ExistentialDeposit cfg \<le> total b)"
    and run: "try_mutate_account cfg frm drp who (reading g) s = (x, t)"
  shows "(\<exists>e. x = Inl e \<and> t = s)
      \<or> (\<exists>r b. x = Inr r
        \<and> g s (stored_get s who) (stored_get s who = default_account_data) = Inr (r, b)
        \<and> mutated cfg s who b t \<and> finite_ledger (stored_get t) \<and> no_dust cfg t
        \<and> gap t = int (worth b) - int (worth (stored_get s who))
        \<and> unat (TotalIssuance t) \<le> unat (TotalIssuance s))"
proof (rule reading_cases [of g s who cfg frm drp])
  fix r b t'
  assume a: "g s (stored_get s who) (stored_get s who = default_account_data) = Inr (r, b)"
    "try_mutate_account cfg frm drp who (reading g) s = (Inr r, t')" "mutated cfg s who b t'"
  then show ?thesis
    using ok [OF a(1)] mutated_change [OF bal a(3)] run by auto
next
  fix r b
  assume a: "g s (stored_get s who) (stored_get s who = default_account_data) = Inr (r, b)"
    "\<not> can_dec_provider s who" "total b < ExistentialDeposit cfg"
  then show ?thesis using ok [OF a(1)] by auto
qed (use run in simp)

section \<open>Operations on one account\<close>

lemma deposit_creating_closure_ok:
  assumes bal: "balanced cfg s" and room: "unat (TotalIssuance s) + unat value < 2 ^ 128"
    and c: "deposit_creating_closure cfg value (stored_get s who) (stored_get s who = default_account_data)
        = Inr (r, b)"
  shows "r = PositiveImbalance value" and "worth b = worth (stored_get s who) + unat value"
    and "worth b < 2 ^ 128" and "ExistentialDeposit cfg \<le> total b"
proof -
  let ?a = "stored_get s who"
  have w: "worth ?a \<le> unat (TotalIssuance s)" using bal by (rule balanced_worth)
  then have nw: "unat (free ?a) + unat value < 2 ^ LENGTH(128)" using room by (simp add: worth_def)
  show "r = PositiveImbalance value"
    using c nw by (auto simp: deposit_creating_closure_def checked_add_def result_simps)
  have b: "b = ?a\<lparr>free := free ?a + value\<rparr>"
    and ed: "value \<ge> ExistentialDeposit cfg \<or> ?a \<noteq> default_account_data"
    using c nw by (auto simp: deposit_creating_closure_def checked_add_def result_simps)
  show wb: "worth b = worth ?a + unat value" using nw b by (simp add: unat_add_nowrap worth_def)
  then show small: "worth b < 2 ^ 128" using w room by simp
  show "ExistentialDeposit cfg \<le> total b"
    using bal wb small ed by (intro grown_alive [of cfg s who]) (auto simp: word_le_nat_alt)
qed

text \<open>Operations that return a positive, a negative, or no imbalance.\<close>

lemma run_positive:
  assumes bal: "balanced cfg s" and room: "unat (TotalIssuance s) + unat n < 2 ^ 128"
    and ok: "\<And>r b. g s (stored_get s who) (stored_get s who = default_account_data) = Inr (r, b) \<Longrightarrow>
        r = PositiveImbalance n \<and> worth b = worth (stored_get s who) + unat n
        \<and> ExistentialDeposit cfg \<le> total b"
    and run: "try_mutate_account cfg frm drp who (reading g) s = (x, t)"
  shows "(\<exists>e. x = Inl e \<and> t = s)
      \<or> (x = Inr (PositiveImbalance n) \<and> balanced cfg (drop_positive (PositiveImbalance n) t))"
proof -
  have pre: "worth b < 2 ^ 128
      \<and> (stored_get s who = default_account_data \<longrightarrow> worth b = 0 \<or> ExistentialDeposit cfg \<le> total b)
      \<and> (can_dec_provider s who \<or> ExistentialDeposit cfg \<le> total b)"
    if "g s (stored_get s who) (stored_get s who = default_account_data) = Inr (r, b)" for r b
    using ok [OF that] balanced_worth [OF bal, of who] room by simp
  show ?thesis
  proof (rule run_reading [OF bal pre run, THEN disjE], assumption)
    assume "\<exists>r b. x = Inr r
        \<and> g s (stored_get s who) (stored_get s who = default_account_data) = Inr (r, b)
        \<and> mutated cfg s who b t \<and> finite_ledger (stored_get t) \<and> no_dust cfg t
        \<and> gap t = int (worth b) - int (worth (stored_get s who))
        \<and> unat (TotalIssuance t) \<le> unat (TotalIssuance s)"
    then obtain r b where b: "x = Inr r"
      "g s (stored_get s who) (stored_get s who = default_account_data) = Inr (r, b)"
      "finite_ledger (stored_get t)" "no_dust cfg t"
      "gap t = int (worth b) - int (worth (stored_get s who))"
      "unat (TotalIssuance t) \<le> unat (TotalIssuance s)" by blast
    have "balanced cfg (drop_positive (PositiveImbalance n) t)"
      using b(3-6) ok [OF b(2)] room by (intro balanced_drop_positive) auto
    then show ?thesis using ok [OF b(2)] b(1) by blast
  qed blast
qed

lemma run_negative:
  assumes bal: "balanced cfg s" and alive: "can_dec_provider s who"
    and ok: "\<And>r b. g s (stored_get s who) (stored_get s who = default_account_data) = Inr (r, b) \<Longrightarrow>
        worth b + unat (amt r) = worth (stored_get s who)"
    and run: "try_mutate_account cfg frm drp who (reading g) s = (x, t)"
  shows "(\<exists>e. x = Inl e \<and> t = s)
      \<or> (\<exists>r. x = Inr r \<and> balanced cfg (drop_negative (NegativeImbalance (amt r)) t))"
proof -
  have pre: "worth b < 2 ^ 128
      \<and> (stored_get s who = default_account_data \<longrightarrow> worth b = 0 \<or> ExistentialDeposit cfg \<le> total b)
      \<and> (can_dec_provider s who \<or> ExistentialDeposit cfg \<le> total b)"
    if "g s (stored_get s who) (stored_get s who = default_account_data) = Inr (r, b)" for r b
    using ok [OF that] balanced_worth_less [OF bal, of who] alive by auto
  show ?thesis
  proof (rule run_reading [OF bal pre run, THEN disjE], assumption)
    assume "\<exists>r b. x = Inr r
        \<and> g s (stored_get s who) (stored_get s who = default_account_data) = Inr (r, b)
        \<and> mutated cfg s who b t \<and> finite_ledger (stored_get t) \<and> no_dust cfg t
        \<and> gap t = int (worth b) - int (worth (stored_get s who))
        \<and> unat (TotalIssuance t) \<le> unat (TotalIssuance s)"
    then obtain r b where b: "x = Inr r"
      "g s (stored_get s who) (stored_get s who = default_account_data) = Inr (r, b)"
      "finite_ledger (stored_get t)" "no_dust cfg t"
      "gap t = int (worth b) - int (worth (stored_get s who))" by blast
    have "balanced cfg (drop_negative (NegativeImbalance (amt r)) t)"
      using b(3-5) ok [OF b(2)] by (intro balanced_drop_negative) auto
    then show ?thesis using b(1) by blast
  qed blast
qed

lemma run_neutral:
  assumes bal: "balanced cfg s"
    and ok: "\<And>r b. g s (stored_get s who) (stored_get s who = default_account_data) = Inr (r, b) \<Longrightarrow>
        worth b = worth (stored_get s who)"
    and run: "try_mutate_account cfg frm drp who (reading g) s = (x, t)"
  shows "balanced cfg t"
proof (rule reading_cases [of g s who cfg frm drp])
  fix r b
  assume a: "g s (stored_get s who) (stored_get s who = default_account_data) = Inr (r, b)"
    "total b < ExistentialDeposit cfg" "stored_get s who \<noteq> default_account_data"
  then show ?thesis
    using grown_alive [OF bal, of who b] ok [OF a(1)] balanced_worth_less [OF bal, of who] by auto
next
  fix r b t'
  assume a: "g s (stored_get s who) (stored_get s who = default_account_data) = Inr (r, b)"
    "try_mutate_account cfg frm drp who (reading g) s = (Inr r, t')" "mutated cfg s who b t'"
  then show ?thesis using mutated_balanced [OF bal a(3) ok [OF a(1)]] run by simp
qed (use run bal in auto)

lemma deposit_creating_balanced:
  assumes bal: "balanced cfg s" and room: "unat (TotalIssuance s) + unat value < 2 ^ 128"
    and op: "deposit_creating cfg who value s = (imb, t)"
  shows "balanced cfg (drop_positive imb t)"
proof (cases "value = 0")
  case True
  then show ?thesis using op bal by (auto simp: deposit_creating_def)
next
  case False
  obtain x u where run: "try_mutate_account cfg stored_map_to_dispatch drop_positive who
      (reading (\<lambda>_. deposit_creating_closure cfg value)) s = (x, u)" by fastforce
  from run_positive [OF bal room _ run] deposit_creating_closure_ok [OF bal room]
  have "(\<exists>e. x = Inl e \<and> u = s)
      \<or> (x = Inr (PositiveImbalance value) \<and> balanced cfg (drop_positive (PositiveImbalance value) u))"
    by blast
  then show ?thesis
    using op bal run False by (auto simp: deposit_creating_def)
qed

lemma deposit_into_existing_closure_ok:
  assumes bal: "balanced cfg s" and room: "unat (TotalIssuance s) + unat value < 2 ^ 128"
    and c: "deposit_into_existing_closure value (stored_get s who) (stored_get s who = default_account_data)
        = Inr (r, b)"
  shows "r = PositiveImbalance value \<and> worth b = worth (stored_get s who) + unat value
    \<and> ExistentialDeposit cfg \<le> total b"
proof -
  let ?a = "stored_get s who"
  have w: "worth ?a \<le> unat (TotalIssuance s)" using bal by (rule balanced_worth)
  have r: "r = PositiveImbalance value" and n: "?a \<noteq> default_account_data"
    and wb: "worth b = worth ?a + unat value"
    using c by (auto simp: deposit_into_existing_closure_def result_simps worth_def dest: checked_add_SomeD)
  moreover have "ExistentialDeposit cfg \<le> total b"
    using bal wb w room n by (intro grown_alive [of cfg s who]) auto
  ultimately show ?thesis by simp
qed

lemma deposit_into_existing_balanced:
  assumes bal: "balanced cfg s" and room: "unat (TotalIssuance s) + unat value < 2 ^ 128"
    and op: "deposit_into_existing cfg who value s = (x, t)"
  shows "case x of Inl e \<Rightarrow> t = s | Inr imb \<Rightarrow> balanced cfg (drop_positive imb t)"
proof (cases "value = 0")
  case True
  then show ?thesis using op bal by (auto simp: deposit_into_existing_def)
next
  case False
  then have run: "try_mutate_account cfg stored_map_to_dispatch drop_positive who
      (reading (\<lambda>_. deposit_into_existing_closure value)) s = (x, t)"
    using op by (simp add: deposit_into_existing_def)
  from run_positive [OF bal room _ run] deposit_into_existing_closure_ok [OF bal room]
  show ?thesis by auto
qed

text \<open>The amount in a negative imbalance.\<close>

fun peek_negative :: "negative_imbalance \<Rightarrow> u128" where
  "peek_negative (NegativeImbalance n) = n"

lemma NegativeImbalance_peek [simp]: "NegativeImbalance (peek_negative n) = n"
  by (cases n) simp

lemma withdraw_closure_ok:
  assumes "withdraw_closure cfg who value rs liveness s a = Inr (r, b)"
  shows "r = NegativeImbalance value" and "b = a\<lparr>free := free a - value\<rparr>" and "value \<le> free a"
    and "worth b + unat value = worth a"
  using assms
  by (auto simp: withdraw_closure_def result_simps Let_def worth_def word_le_nat_alt dest!: checked_sub_SomeD)

lemma withdraw_balanced:
  assumes bal: "balanced cfg s" and alive: "can_dec_provider s who"
    and op: "withdraw cfg who value rs liveness s = (x, t)"
  shows "case x of Inl e \<Rightarrow> t = s | Inr imb \<Rightarrow> balanced cfg (drop_negative imb t)"
proof (cases "value = 0")
  case True
  then show ?thesis using op bal by (auto simp: withdraw_def)
next
  case False
  then have run: "try_mutate_account cfg stored_map_to_dispatch drop_negative who
      (reading (\<lambda>st account _. withdraw_closure cfg who value rs liveness st account)) s = (x, t)"
    using op by (simp add: withdraw_def)
  have c: "worth b + unat (peek_negative r) = worth (stored_get s who)"
    if "withdraw_closure cfg who value rs liveness s (stored_get s who) = Inr (r, b)" for r b
    using withdraw_closure_ok [OF that] by simp
  from run_negative [OF bal alive _ run, of peek_negative] c show ?thesis by auto
qed

lemma slash_closure_ok:
  assumes "slash_closure cfg value attempt a = (r, b)"
  shows "worth b + unat (peek_negative (fst r)) = worth a"
    and "unat (peek_negative (fst r)) + unat (snd r) = unat value"
    and "attempt = 0 \<Longrightarrow> unat (peek_negative (fst r)) = min (unat value) (worth a)"
proof -
  define best where "best = (if attempt = 0 then value
             else min value (saturating_sub (free a + reserved a) (ExistentialDeposit cfg)))"
  define fs where "fs = min (free a) best"
  define rs where "rs = min (reserved a) (best - fs)"
  have bv: "unat best \<le> unat value" by (auto simp: best_def unat_min)
  have fs: "unat fs = min (unat (free a)) (unat best)" by (simp add: fs_def unat_min)
  have rem: "unat (best - fs) = unat best - unat fs"
    by (rule unat_sub_nowrap) (simp add: fs_def)
  have rs: "unat rs = min (unat (reserved a)) (unat best - unat fs)"
    by (simp only: rs_def unat_min rem)
  have le: "unat fs + unat rs \<le> unat value" using bv fs rs by linarith
  then have "unat fs + unat rs < 2 ^ 128" using unat_u128_less [of "value"] by linarith
  then have sum: "unat (fs + rs) = unat fs + unat rs" by (intro unat_add_nowrap) simp
  have f1: "unat (free a - fs) = unat (free a) - unat fs"
    by (rule unat_sub_nowrap) (simp add: fs_def)
  have r1: "unat (reserved a - rs) = unat (reserved a) - unat rs"
    by (rule unat_sub_nowrap) (simp add: rs_def)
  have v1: "unat (value - fs) = unat value - unat fs"
    using bv fs by (intro unat_sub_nowrap) (simp add: word_le_nat_alt)
  have v2: "unat (value - fs - rs) = unat value - unat fs - unat rs"
    using le v1 by (subst unat_sub_nowrap) (simp_all add: word_le_nat_alt)
  have res: "reserved (a\<lparr>free := n\<rparr>) = reserved a" for n by simp
  have rs0: "best - fs = 0 \<Longrightarrow> rs = 0" by (simp add: rs_def)
  have c: "slash_closure cfg value attempt a = (if best - fs \<noteq> 0
      then ((NegativeImbalance (fs + rs), value - fs - rs),
            a\<lparr>free := free a - fs, reserved := reserved a - rs\<rparr>)
      else ((NegativeImbalance fs, value - fs), a\<lparr>free := free a - fs\<rparr>))"
    unfolding slash_closure_def Let_def best_def [symmetric] fs_def [symmetric]
    by (simp only: rs_def res cong: if_cong)
  have e: "peek_negative (fst r) = fs + rs" "snd r = value - fs - rs"
    "free b = free a - fs" "reserved b = reserved a - rs"
    using trans [OF assms [symmetric] c] rs0
    by (cases "best - fs = 0"; simp only: if_P if_not_P simp_thms prod.inject; clarsimp)+
  show "worth b + unat (peek_negative (fst r)) = worth a"
    using fs rs unfolding worth_def e sum f1 r1 by linarith
  show "unat (peek_negative (fst r)) + unat (snd r) = unat value"
    using le unfolding e sum v2 by linarith
  show "unat (peek_negative (fst r)) = min (unat value) (worth a)" if "attempt = 0"
  proof -
    have "unat best = unat value" using that by (simp add: best_def)
    then show ?thesis using fs rs unfolding worth_def e sum by linarith
  qed
qed

lemma slash_balanced:
  assumes bal: "balanced cfg s" and alive: "can_dec_provider s who"
    and op: "slash cfg who value s = ((imb, remaining), t)"
  shows "balanced cfg (drop_negative imb t)"
proof (cases "value = 0 \<or> total_balance s who = 0")
  case True
  then show ?thesis using op bal by (auto simp: slash_def split: if_splits)
next
  case False
  let ?g = "\<lambda>_ account _. Inr (slash_closure cfg value 0 account)"
  obtain x u where run: "try_mutate_account cfg id drop_slash who (reading ?g) s = (x, u)" by fastforce
  obtain r b where rb: "slash_closure cfg value 0 (stored_get s who) = (r, b)" by fastforce
  obtain v where v: "try_mutate_account cfg id drop_slash who (reading ?g) s = (Inr r, v)"
    using reading_closure_ok [of ?g s who r b cfg id drop_slash] rb alive by auto
  have c: "worth b' + unat (peek_negative (fst r')) = worth (stored_get s who)"
    if "?g s (stored_get s who) (stored_get s who = default_account_data) = Inr (r', b')" for r' b'
    using slash_closure_ok(1) [of cfg "value" 0 "stored_get s who" r' b'] that by auto
  have "balanced cfg (drop_negative (NegativeImbalance (peek_negative (fst r))) v)"
    using run_negative [OF bal alive _ v, of "\<lambda>r. peek_negative (fst r)"] c by auto
  moreover have "(imb, remaining) = r" "t = v" using op False v by (auto simp: slash_def)
  ultimately show ?thesis by auto
qed

lemma reserve_closure_ok:
  assumes "reserve_closure who value s a = Inr (r, b)"
  shows "worth b = worth a"
  using assms
  by (auto simp: reserve_closure_def result_simps worth_def word_le_nat_alt
      dest!: checked_sub_SomeD checked_add_SomeD)

lemma balanced_event [simp]: "balanced cfg (deposit_event ev s) = balanced cfg s"
  by (simp add: balanced_def no_dust_def gap_def)

lemma reserve_balanced:
  assumes bal: "balanced cfg s" and op: "reserve cfg who value s = (x, t)"
  shows "balanced cfg t"
proof (cases "value = 0")
  case True
  then show ?thesis using op bal by (auto simp: reserve_def)
next
  case False
  obtain y u where run: "try_mutate_account cfg stored_map_to_dispatch no_drop who
      (reading (\<lambda>st account _. reserve_closure who value st account)) s = (y, u)" by fastforce
  have "balanced cfg u"
    using run_neutral [OF bal _ run] reserve_closure_ok [of who "value" s "stored_get s who"] by blast
  then show ?thesis using op False run by (auto simp: reserve_def split: sum.splits)
qed

lemma unreserve_closure_ok:
  assumes "unreserve_closure value a = (r, b)" and "worth a < 2 ^ 128"
  shows "worth b = worth a" and "r = min (reserved a) value"
    and "unat (free b) = unat (free a) + unat r" and "unat (reserved b) + unat r = unat (reserved a)"
proof -
  define m where "m = min (reserved a) value"
  have m: "unat m \<le> unat (reserved a)" by (simp add: m_def unat_min)
  have f: "unat (saturating_add (free a) m) = unat (free a) + unat m"
    using m assms(2) by (simp add: unat_saturating_add worth_def)
  have r: "unat (reserved a - m) = unat (reserved a) - unat m"
    by (rule unat_sub_nowrap) (simp add: m_def)
  have e: "r = m" "b = a\<lparr>reserved := reserved a - m, free := saturating_add (free a) m\<rparr>"
    using assms(1) by (auto simp: unreserve_closure_def Let_def m_def)
  show "worth b = worth a" "unat (free b) = unat (free a) + unat r"
    "unat (reserved b) + unat r = unat (reserved a)"
    using e f r m by (simp_all add: worth_def)
  show "r = min (reserved a) value" using e by (simp add: m_def)
qed

lemma unreserve_balanced:
  assumes bal: "balanced cfg s" and op: "unreserve cfg who value s = (x, t)"
  shows "balanced cfg t"
proof (cases "value = 0 \<or> total_balance s who = 0")
  case True
  then show ?thesis using op bal by (auto simp: unreserve_def split: if_splits)
next
  case False
  let ?g = "\<lambda>_ a _. Inr (unreserve_closure value a)"
  obtain y u where run: "try_mutate_account cfg id no_drop who (reading ?g) s = (y, u)" by fastforce
  have c: "worth b = worth (stored_get s who)"
    if "?g s (stored_get s who) (stored_get s who = default_account_data) = Inr (r, b)" for r b
    using unreserve_closure_ok(1) [of "value" "stored_get s who" r b] balanced_worth_less [OF bal, of who] that
    by auto
  have "balanced cfg u" using run_neutral [OF bal _ run] c by blast
  then show ?thesis
    using op False run by (auto simp: unreserve_def mutate_account_reading split: sum.splits)
qed

lemma slash_reserved_closure_ok:
  assumes "slash_reserved_closure cfg value attempt a = (r, b)"
  shows "worth b + unat (peek_negative (fst r)) = worth a"
    and "unat (peek_negative (fst r)) + unat (snd r) = unat value"
proof -
  define best where "best = (if attempt = 0 then value
             else min value (saturating_sub (free a + reserved a) (ExistentialDeposit cfg)))"
  define m where "m = min (reserved a) best"
  have bv: "unat best \<le> unat value" by (auto simp: best_def unat_min)
  have m: "unat m = min (unat (reserved a)) (unat best)" by (simp add: m_def unat_min)
  have r1: "unat (reserved a - m) = unat (reserved a) - unat m"
    by (rule unat_sub_nowrap) (simp add: m_def)
  have v1: "unat (value - m) = unat value - unat m"
    using bv m by (intro unat_sub_nowrap) (simp add: word_le_nat_alt)
  have e: "r = (NegativeImbalance m, value - m)" "b = a\<lparr>reserved := reserved a - m\<rparr>"
    using assms unfolding slash_reserved_closure_def Let_def best_def [symmetric] m_def [symmetric]
    by auto
  show "worth b + unat (peek_negative (fst r)) = worth a"
    using e m r1 by (simp add: worth_def)
  show "unat (peek_negative (fst r)) + unat (snd r) = unat value"
    using e m v1 bv by simp
qed

lemma slash_reserved_balanced:
  assumes bal: "balanced cfg s" and alive: "can_dec_provider s who"
    and op: "slash_reserved cfg who value s = ((imb, remaining), t)"
  shows "balanced cfg (drop_negative imb t)"
proof (cases "value = 0 \<or> total_balance s who = 0")
  case True
  then show ?thesis using op bal by (auto simp: slash_reserved_def split: if_splits)
next
  case False
  let ?g = "\<lambda>_ a _. Inr (slash_reserved_closure cfg value 0 a)"
  obtain r b where rb: "slash_reserved_closure cfg value 0 (stored_get s who) = (r, b)" by fastforce
  obtain v where v: "try_mutate_account cfg id drop_slash who (reading ?g) s = (Inr r, v)"
    using reading_closure_ok [of ?g s who r b cfg id drop_slash] rb alive by auto
  have c: "worth b' + unat (peek_negative (fst r')) = worth (stored_get s who)"
    if "?g s (stored_get s who) (stored_get s who = default_account_data) = Inr (r', b')" for r' b'
    using slash_reserved_closure_ok(1) [of cfg "value" 0 "stored_get s who" r' b'] that by auto
  have "balanced cfg (drop_negative (NegativeImbalance (peek_negative (fst r))) v)"
    using run_negative [OF bal alive _ v, of "\<lambda>r. peek_negative (fst r)"] c by auto
  moreover have "(imb, remaining) = r" "t = v"
    using op False v by (auto simp: slash_reserved_def mutate_account_reading)
  ultimately show ?thesis by auto
qed

end
