(* ===== verification/Balances_Ops.thy ===== *)
theory Balances_Ops
  imports Balances_Issuance
begin

text \<open>
  The ledger through the operations of the Balances pallet that move funds between two accounts,
  through the \<open>fungible\<close> traits, the locks and the remaining single-account operations:
  each of them leads from a balanced ledger to a balanced one.
\<close>

section \<open>Two accounts at once\<close>

text \<open>
  \<open>transfer\<close> and \<open>do_transfer_reserved\<close> mutate the receiving account in a closure
  around the mutation of the sending one.  \<open>moved cfg s a x b y t\<close>: in \<open>t\<close> account
  \<open>a\<close> has been set to \<open>x\<close>, account \<open>b\<close> to \<open>y\<close> and the dust of both is burned.
\<close>

definition moved ::
    "balances_config \<Rightarrow> ('acc, 'm) balances_scheme \<Rightarrow> 'acc \<Rightarrow> account_data \<Rightarrow> 'acc \<Rightarrow> account_data
      \<Rightarrow> ('acc, 'm) balances_scheme \<Rightarrow> bool" where
  "moved cfg s a x b y t =
     (stored_get t = (stored_get s)(a := settled cfg x, b := settled cfg y)
      \<and> TotalIssuance t
          = saturating_sub (saturating_sub (TotalIssuance s) (dust_of cfg x)) (dust_of cfg y)
      \<and> Locks t = Locks s \<and> Reserves t = Reserves s)"

lemma saturating_sub_swap:
  "saturating_sub (saturating_sub n x) y = saturating_sub (saturating_sub n y) (x :: u128)"
  by (simp add: word_unat_eq_iff unat_saturating_sub)

lemma with_dust_reading_refused:
  assumes "g s (stored_get s who) (stored_get s who = default_account_data) = Inr (r, a)"
    and "try_mutate_account_with_dust cfg frm drp who (reading g) s = (Inl e, t)"
  shows "\<not> can_dec_provider s who" "total a < ExistentialDeposit cfg"
    "stored_get s who \<noteq> default_account_data"
  using with_dust_ok [where f = "reading g" and s = s and who = who and r = r and a = a and cfg = cfg
      and frm = frm and drp = drp, OF _ refl] assms
  by (auto simp: reading_def)

lemma with_dust_reading_ok:
  assumes "g s (stored_get s who) (stored_get s who = default_account_data) = Inr (r, a)"
    and "can_dec_provider s who \<or> ExistentialDeposit cfg \<le> total a"
  obtains t where
    "try_mutate_account_with_dust cfg frm drp who (reading g) s = (Inr (r, dust_cleaner_of cfg who a), t)"
    "stored_get t = (stored_get s)(who := settled cfg a)" "balance_frame s t"
proof -
  have "reading g (stored_get s who) (stored_get s who = default_account_data) s = (Inr (r, a), s)"
    using assms(1) by (simp add: reading_def)
  from with_dust_ok [where f = "reading g" and cfg = cfg and frm = frm and drp = drp, OF this refl]
  show ?thesis using assms(2) that by (auto simp: not_le)
qed

lemma with_dust_reading_err:
  assumes "g s (stored_get s who) (stored_get s who = default_account_data) = Inl e"
  shows "try_mutate_account_with_dust cfg frm drp who (reading g) s = (Inl e, s)"
  by (rule with_dust_closure_err) (simp add: reading_def assms)

lemma transfer_closure_ok:
  assumes "transfer_closure cfg from value er to_account from_account s = Inr (to', from')"
  shows "value \<le> free from_account" and "from' = from_account\<lparr>free := free from_account - value\<rparr>"
    and "unat (free to_account + value) = unat (free to_account) + unat value"
    and "to' = to_account\<lparr>free := free to_account + value\<rparr>"
    and "ExistentialDeposit cfg \<le> total to'"
    and "value = 0 \<or> frozen (reasons_from TRANSFER) (stored_get s from) \<le> free from'"
    and "ExistentialDeposit cfg \<le> total from' \<or> er = AllowDeath \<and> \<not> is_provider_required s from"
  using assms
  by (auto simp: transfer_closure_def result_simps Let_def ensure_can_withdraw_def
      dest!: checked_sub_SomeD checked_add_SomeD split: if_splits)

lemma unrequired_can_dec: "\<not> is_provider_required s k \<Longrightarrow> can_dec_provider s k"
  by (simp add: is_provider_required_def can_dec_provider_def Let_def)

text \<open>The two outcomes of a transfer between different accounts.\<close>

lemma transfer_cases:
  assumes "value \<noteq> 0" and "a \<noteq> b"
  obtains (err) e where "transfer cfg a b value er s = (Inl e, s)"
      "transfer_closure cfg a value er (stored_get s b) (stored_get s a) s = Inl e"
  | (ok) from' to' t where "transfer cfg a b value er s = (Inr (), t)"
      "transfer_closure cfg a value er (stored_get s b) (stored_get s a) s = Inr (to', from')"
      "moved cfg s a from' b to' t"
proof -
  let ?g = "\<lambda>st1 from_account _. transfer_closure cfg a value er (stored_get s b) from_account st1"
  let ?outer = "\<lambda>to_account _ st.
      case try_mutate_account_with_dust cfg stored_map_to_dispatch no_drop a
             (reading (\<lambda>st1 from_account _. transfer_closure cfg a value er to_account from_account st1))
             st of
        (Inl e, st') \<Rightarrow> (Inl e, st')
      | (Inr (to', maybe_dust_cleaner), st') \<Rightarrow> (Inr (maybe_dust_cleaner, to'), st')"
  show ?thesis
  proof (cases "transfer_closure cfg a value er (stored_get s b) (stored_get s a) s")
    case (Inl e)
    then have "try_mutate_account_with_dust cfg stored_map_to_dispatch no_drop a (reading ?g) s = (Inl e, s)"
      by (rule with_dust_reading_err [of ?g])
    then have "try_mutate_account_with_dust cfg stored_map_to_dispatch drop_dust b ?outer s = (Inl e, s)"
      by (intro with_dust_closure_err) simp
    then have "transfer cfg a b value er s = (Inl e, s)"
      unfolding transfer_def using assms by simp
    then show ?thesis using Inl by (rule err)
  next
    case (Inr tf)
    obtain to' from' where c: "transfer_closure cfg a value er (stored_get s b) (stored_get s a) s
        = Inr (to', from')" using Inr by (cases tf) simp
    note closure = transfer_closure_ok [OF c]
    have live: "can_dec_provider s a \<or> ExistentialDeposit cfg \<le> total from'"
      using closure(7) unrequired_can_dec [of s a] by auto
    obtain u where
      u: "try_mutate_account_with_dust cfg stored_map_to_dispatch no_drop a (reading ?g) s
            = (Inr (to', dust_cleaner_of cfg a from'), u)"
        "stored_get u = (stored_get s)(a := settled cfg from')" "balance_frame s u"
      by (rule with_dust_reading_ok [of ?g s a to' from' cfg stored_map_to_dispatch no_drop, OF c live])
    have o: "?outer (stored_get s b) (stored_get s b = default_account_data) s
        = (Inr (dust_cleaner_of cfg a from', to'), u)" using u(1) by simp
    have keep: "stored_get u b = stored_get s b" using u(2) assms(2) by simp
    obtain v where v: "try_mutate_account_with_dust cfg stored_map_to_dispatch drop_dust b ?outer s
          = (Inr (dust_cleaner_of cfg a from', dust_cleaner_of cfg b to'), v)"
        "stored_get v = (stored_get u)(b := settled cfg to')" "balance_frame u v"
      using with_dust_ok [where f = ?outer and cfg = cfg and frm = stored_map_to_dispatch
          and drp = drop_dust, OF o keep] closure(5) by auto
    have "transfer cfg a b value er s = (Inr (), deposit_event (BalancesEvent (Transfer a b value))
        (drop_dust (dust_cleaner_of cfg b to') (drop_dust (dust_cleaner_of cfg a from') v)))"
      unfolding transfer_def using assms v(1) by simp
    moreover have "moved cfg s a from' b to' (deposit_event (BalancesEvent (Transfer a b value))
        (drop_dust (dust_cleaner_of cfg b to') (drop_dust (dust_cleaner_of cfg a from') v)))"
      using u(2,3) v(2,3) by (simp add: moved_def balance_frame_def TotalIssuance_drop_dust)
    ultimately show ?thesis using c by (intro ok)
  qed
qed

text \<open>Moving funds between two accounts keeps the ledger balanced.\<close>

lemma two_worth:
  assumes fin: "finite_ledger f" and "a \<noteq> b"
  shows "worth (f a) + worth (f b) \<le> held f"
  using held_upd [OF fin, of a default_account_data] assms(2)
    worth_le_held [OF finite_ledger_upd [OF fin], of a default_account_data b]
  by simp

lemma dust_le_worth: "unat (dust_of cfg a) \<le> worth a"
  by (simp add: dust_of_def unat_total)

lemma moved_balanced:
  assumes bal: "balanced cfg s" and mv: "moved cfg s a x b y t" and "a \<noteq> b"
    and w: "worth x + worth y = worth (stored_get s a) + worth (stored_get s b)"
  shows "balanced cfg t"
proof -
  let ?f = "stored_get s"
  have fin: "finite_ledger ?f" and nd: "no_dust cfg s" and g: "held ?f = unat (TotalIssuance s)"
    using bal by (auto simp: balanced_def gap_0)
  have t: "stored_get t = ?f(a := settled cfg x, b := settled cfg y)"
    and ti: "unat (TotalIssuance t) = unat (TotalIssuance s) - unat (dust_of cfg x) - unat (dust_of cfg y)"
    using mv by (simp_all add: moved_def unat_saturating_sub)
  have le: "worth x + worth y \<le> unat (TotalIssuance s)" using two_worth [OF fin assms(3)] w g by simp
  then have small: "worth x < 2 ^ 128" "worth y < 2 ^ 128"
    using unat_u128_less [of "TotalIssuance s"] by linarith+
  have "held (stored_get t) + worth (?f a) + worth (?f b) = held ?f + worth (settled cfg x) + worth (settled cfg y)"
    using held_upd [OF fin, of a "settled cfg x"] assms(3)
      held_upd [OF finite_ledger_upd [OF fin], of a "settled cfg x" b "settled cfg y"] t by simp
  then have "held (stored_get t) = unat (TotalIssuance t)"
    using g w ti le worth_settled [OF small(1), of cfg] worth_settled [OF small(2), of cfg] by linarith
  moreover have "finite_ledger (stored_get t)" using fin t by (simp add: finite_ledger_upd)
  moreover have "no_dust cfg t" using nd t by (auto simp: no_dust_def settled_def)
  ultimately show ?thesis by (simp add: balanced_def gap_0)
qed

lemma transfer_balanced:
  assumes bal: "balanced cfg s" and op: "transfer cfg a b value er s = (x, t)"
  shows "balanced cfg t"
proof (cases "value = 0 \<or> a = b")
  case True
  then show ?thesis using op bal by (auto simp: transfer_def)
next
  case False
  then have "value \<noteq> 0" and ab: "a \<noteq> b" by auto
  then show ?thesis
  proof (cases rule: transfer_cases [of "value" a b cfg er s])
    case err
    then show ?thesis using op bal by simp
  next
    case (ok from' to' t')
    note c = transfer_closure_ok [OF ok(2)]
    have "worth from' + worth to' = worth (stored_get s a) + worth (stored_get s b)"
      using c(1-4) by (simp add: worth_def unat_sub_nowrap word_le_nat_alt)
    then show ?thesis using moved_balanced [OF bal ok(3) ab] ok(1) op by simp
  qed
qed

lemma transfer_reserved_closure_ok:
  assumes "transfer_reserved_closure value be status y x = Inr ((actual, y'), x')"
  shows "actual = min (reserved x) value" and "x' = x\<lparr>reserved := reserved x - actual\<rparr>"
    and "worth y' = worth y + unat actual" and "be \<or> actual = value"
    and "y' = (if status = StatusFree then y\<lparr>free := free y + actual\<rparr> else y\<lparr>reserved := reserved y + actual\<rparr>)"
    and "worth x' + unat actual = worth x"
proof -
  show a: "actual = min (reserved x) value" and x: "x' = x\<lparr>reserved := reserved x - actual\<rparr>"
    and "worth y' = worth y + unat actual" and "be \<or> actual = value"
    and "y' = (if status = StatusFree then y\<lparr>free := free y + actual\<rparr> else y\<lparr>reserved := reserved y + actual\<rparr>)"
    using assms
    by (auto simp: transfer_reserved_closure_def result_simps Let_def worth_def
        dest!: checked_add_SomeD split: balance_status.splits)
  have "actual \<le> reserved x" using a by simp
  then show "worth x' + unat actual = worth x"
    using x by (simp add: worth_def unat_sub_nowrap word_le_nat_alt)
qed

text \<open>
  The outcomes of moving reserved funds between different accounts, when the sending account may
  die: the funds move, or nothing happens.
\<close>

lemma do_transfer_reserved_cases:
  assumes "value \<noteq> 0" and ab: "a \<noteq> b" and bal: "balanced cfg s" and alive: "can_dec_provider s a"
  obtains (err) e where "do_transfer_reserved cfg a b value be status s = (Inl e, s)"
      "stored_get s b = default_account_data
        \<or> transfer_reserved_closure value be status (stored_get s b) (stored_get s a) = Inl e"
  | (ok) actual x' y' t where "do_transfer_reserved cfg a b value be status s = (Inr actual, t)"
      "transfer_reserved_closure value be status (stored_get s b) (stored_get s a) = Inr ((actual, y'), x')"
      "stored_get s b \<noteq> default_account_data" "moved cfg s a x' b y' t"
proof -
  let ?g = "\<lambda>_ from_account _. transfer_reserved_closure value be status (stored_get s b) from_account"
  let ?outer = "\<lambda>to_account is_new st.
      if is_new then (Inl (BalancesModule DeadAccount), st)
      else
        case try_mutate_account_with_dust cfg stored_map_to_dispatch no_drop a
               (reading (\<lambda>_ from_account _.
                  transfer_reserved_closure value be status to_account from_account))
               st of
          (Inl e, st') \<Rightarrow> (Inl e, st')
        | (Inr ((actual, to'), dust), st') \<Rightarrow> (Inr ((actual, dust), to'), st')"
  let ?run = "try_mutate_account_with_dust cfg stored_map_to_dispatch drop_moved b ?outer s"
  show ?thesis
  proof (cases "stored_get s b = default_account_data")
    case True
    then have "?run = (Inl (BalancesModule DeadAccount), s)" by (intro with_dust_closure_err) simp
    then have "do_transfer_reserved cfg a b value be status s = (Inl (BalancesModule DeadAccount), s)"
      unfolding do_transfer_reserved_def using assms(1) ab by simp
    then show ?thesis using True by (intro err) auto
  next
    case False
    show ?thesis
    proof (cases "transfer_reserved_closure value be status (stored_get s b) (stored_get s a)")
      case (Inl e)
      then have "try_mutate_account_with_dust cfg stored_map_to_dispatch no_drop a (reading ?g) s = (Inl e, s)"
        by (rule with_dust_reading_err [of ?g])
      then have "?run = (Inl e, s)" using False by (intro with_dust_closure_err) simp
      then have "do_transfer_reserved cfg a b value be status s = (Inl e, s)"
        unfolding do_transfer_reserved_def using assms(1) ab by simp
      then show ?thesis using Inl by (intro err) auto
    next
      case (Inr r)
      obtain actual y' x' where c: "transfer_reserved_closure value be status (stored_get s b) (stored_get s a)
          = Inr ((actual, y'), x')" using Inr by (cases r) auto
      note closure = transfer_reserved_closure_ok [OF c]
      obtain u where
        u: "try_mutate_account_with_dust cfg stored_map_to_dispatch no_drop a (reading ?g) s
              = (Inr ((actual, y'), dust_cleaner_of cfg a x'), u)"
          "stored_get u = (stored_get s)(a := settled cfg x')" "balance_frame s u"
        by (rule with_dust_reading_ok
            [of ?g s a "(actual, y')" x' cfg stored_map_to_dispatch no_drop, OF c disjI1 [OF alive]])
      have o: "?outer (stored_get s b) (stored_get s b = default_account_data) s
          = (Inr ((actual, dust_cleaner_of cfg a x'), y'), u)" using u(1) False by simp
      have keep: "stored_get u b = stored_get s b" using u(2) ab by simp
      have w: "worth (stored_get s a) + worth (stored_get s b) \<le> held (stored_get s)"
        using bal ab by (intro two_worth) (auto simp: balanced_def)
      have "worth y' < 2 ^ 128"
        using w closure(3,6) bal unat_u128_less [of "TotalIssuance s"] by (simp add: balanced_def gap_0)
      then have "ExistentialDeposit cfg \<le> total y'"
        using grown_alive [OF bal, of b y'] closure(3) False by simp
      then obtain v where v: "?run = (Inr ((actual, dust_cleaner_of cfg a x'), dust_cleaner_of cfg b y'), v)"
          "stored_get v = (stored_get u)(b := settled cfg y')" "balance_frame u v"
        using with_dust_ok [where f = ?outer and cfg = cfg and frm = stored_map_to_dispatch
            and drp = drop_moved, OF o keep] by auto
      let ?t = "drop_dust (dust_cleaner_of cfg a x') (drop_dust (dust_cleaner_of cfg b y')
          (deposit_event (BalancesEvent (ReserveRepatriated a b actual status)) v))"
      have "do_transfer_reserved cfg a b value be status s = (Inr actual, ?t)"
        unfolding do_transfer_reserved_def using assms(1) ab v(1) by simp
      moreover have "moved cfg s a x' b y' ?t"
        using u(2,3) v(2,3)
        by (simp add: moved_def balance_frame_def TotalIssuance_drop_dust saturating_sub_swap)
      ultimately show ?thesis using c False by (intro ok)
    qed
  qed
qed

lemma do_transfer_reserved_balanced:
  assumes bal: "balanced cfg s" and alive: "can_dec_provider s a"
    and op: "do_transfer_reserved cfg a b value be status s = (x, t)"
  shows "balanced cfg t"
proof (cases "value = 0 \<or> a = b")
  case True
  obtain r u where "unreserve cfg a value s = (r, u)" by fastforce
  with unreserve_balanced [OF bal this] True op bal show ?thesis
    by (auto simp: do_transfer_reserved_def split: if_splits balance_status.splits)
next
  case False
  then have nz: "value \<noteq> 0" and ab: "a \<noteq> b" by auto
  show ?thesis
  proof (rule do_transfer_reserved_cases [OF nz ab bal alive, of be status])
    fix actual x' y' t'
    assume a: "do_transfer_reserved cfg a b value be status s = (Inr actual, t')"
      "transfer_reserved_closure value be status (stored_get s b) (stored_get s a) = Inr ((actual, y'), x')"
      "moved cfg s a x' b y' t'"
    have "worth x' + worth y' = worth (stored_get s a) + worth (stored_get s b)"
      using transfer_reserved_closure_ok [OF a(2)] by simp
    then show ?thesis using moved_balanced [OF bal a(3) ab] a(1) op by simp
  qed (use op bal in auto)
qed

lemma repatriate_reserved_balanced:
  assumes "balanced cfg s" and "can_dec_provider s a"
    and "repatriate_reserved cfg a b value status s = (x, t)"
  shows "balanced cfg t"
  using assms do_transfer_reserved_balanced [OF assms(1,2), of b "value" True status]
  by (auto simp: repatriate_reserved_def split: prod.splits sum.splits)

section \<open>The remaining operations on one account\<close>

lemma balanced_own_items [simp]:
  "balanced cfg (s\<lparr>Locks := l\<rparr>) = balanced cfg s"
  "balanced cfg (s\<lparr>Reserves := r\<rparr>) = balanced cfg s"
  "balanced cfg (put_reserves who rs s) = balanced cfg s"
  by (simp_all add: balanced_def no_dust_def gap_def put_reserves_def)

lemma balanced_cong:
  "stored_get t = stored_get s \<Longrightarrow> TotalIssuance t = TotalIssuance s \<Longrightarrow> balanced cfg t = balanced cfg s"
  by (simp add: balanced_def no_dust_def gap_def)

lemma stored_get_consumers [simp]:
  "stored_get (snd (inc_consumers k s)) = stored_get s"
  "stored_get (dec_consumers k s) = stored_get s"
  by (auto simp: inc_consumers_def dec_consumers_def Let_def stored_get_put fun_eq_iff stored_get_def)

lemma balance_frame_consumers [simp]:
  "balance_frame s (snd (inc_consumers k s))" "balance_frame s (dec_consumers k s)"
  by (simp_all add: inc_consumers_def dec_consumers_def Let_def)

lemma balanced_consumers [simp]:
  "balanced cfg (snd (inc_consumers k s)) = balanced cfg s"
  "balanced cfg (dec_consumers k s) = balanced cfg s"
  using balance_frame_consumers [of s k] by (auto intro!: balanced_cong simp: balance_frame_def)

lemma make_free_closure_ok:
  assumes "make_free_balance_be_closure cfg value a is_new = Inr (r, b)"
  shows "b = a\<lparr>free := value\<rparr>"
    and "r = (if free a \<le> value then SignedPositive (PositiveImbalance (value - free a))
              else SignedNegative (NegativeImbalance (free a - value)))"
    and "is_new \<Longrightarrow> ExistentialDeposit cfg \<le> total b"
  using assms
  by (auto simp: make_free_balance_be_closure_def result_simps Let_def total_def split: if_splits)

lemma make_free_balance_be_balanced:
  assumes bal: "balanced cfg s" and alive: "can_dec_provider s who"
    and room: "unat (TotalIssuance s) + unat value < 2 ^ 128"
    and op: "make_free_balance_be cfg who value s = (imb, t)"
  shows "balanced cfg (drop_signed imb t)"
proof -
  let ?g = "\<lambda>_::('a, 'b) balances_scheme. make_free_balance_be_closure cfg value"
  let ?a = "stored_get s who"
  obtain x u where run: "try_mutate_account cfg stored_map_to_dispatch drop_signed who (reading ?g) s = (x, u)"
    by fastforce
  have w: "worth ?a \<le> unat (TotalIssuance s)" using bal by (rule balanced_worth)
  have pre: "worth b < 2 ^ 128
      \<and> (?a = default_account_data \<longrightarrow> worth b = 0 \<or> ExistentialDeposit cfg \<le> total b)
      \<and> (can_dec_provider s who \<or> ExistentialDeposit cfg \<le> total b)"
    if "?g s ?a (?a = default_account_data) = Inr (r, b)" for r b
    using make_free_closure_ok [OF that] w room alive by (auto simp: worth_def)
  show ?thesis
  proof (rule run_reading [of cfg s ?g, OF bal pre run, THEN disjE], assumption)
    assume "\<exists>e. x = Inl e \<and> u = s"
    then show ?thesis using op run bal by (auto simp: make_free_balance_be_def)
  next
    assume "\<exists>r b. x = Inr r \<and> ?g s ?a (?a = default_account_data) = Inr (r, b)
        \<and> mutated cfg s who b u \<and> finite_ledger (stored_get u) \<and> no_dust cfg u
        \<and> gap u = int (worth b) - int (worth ?a)
        \<and> unat (TotalIssuance u) \<le> unat (TotalIssuance s)"
    then obtain r b where b: "x = Inr r" "?g s ?a (?a = default_account_data) = Inr (r, b)"
      "finite_ledger (stored_get u)" "no_dust cfg u"
      "gap u = int (worth b) - int (worth ?a)" "unat (TotalIssuance u) \<le> unat (TotalIssuance s)"
      by blast
    note c = make_free_closure_ok [OF b(2)]
    have r: "imb = r" "t = u" using op run b(1) by (auto simp: make_free_balance_be_def)
    have g: "gap u = int (unat value) - int (unat (free ?a))" using b(5) c(1) by (simp add: worth_def)
    show ?thesis
    proof (cases "free ?a \<le> value")
      case True
      then have d: "unat (value - free ?a) = unat value - unat (free ?a)" "unat (free ?a) \<le> unat value"
        by (simp_all add: unat_sub_nowrap word_le_nat_alt)
      then have "balanced cfg (drop_positive (PositiveImbalance (value - free ?a)) u)"
        using b(3,4,6) g room by (intro balanced_drop_positive) auto
      then show ?thesis using r c(2) True by simp
    next
      case False
      then have d: "unat (free ?a - value) = unat (free ?a) - unat value" "unat value < unat (free ?a)"
        by (simp_all add: unat_sub_nowrap word_le_nat_alt)
      then have "balanced cfg (drop_negative (NegativeImbalance (free ?a - value)) u)"
        using b(3,4) g by (intro balanced_drop_negative) auto
      then show ?thesis using r c(2) False by simp
    qed
  qed
qed

lemma hold_balanced:
  assumes bal: "balanced cfg s" and op: "hold cfg who amount s = (x, t)"
  shows "balanced cfg t"
proof (cases "amount = 0 \<or> \<not> can_reserve s who amount")
  case True
  then show ?thesis using op bal by (auto simp: hold_def split: if_splits)
next
  case False
  let ?g = "\<lambda>a. ((), a\<lparr>free := free a - amount, reserved := reserved a + amount\<rparr>)"
  obtain y u where run: "try_mutate_account cfg id no_drop who (reading (\<lambda>_ a _. Inr (?g a))) s = (y, u)"
    by fastforce
  have le: "amount \<le> free (stored_get s who)"
    using False by (auto simp: can_reserve_def checked_sub_def split: if_splits)
  then have "unat (free (stored_get s who) - amount) = unat (free (stored_get s who)) - unat amount"
    "unat amount \<le> unat (free (stored_get s who))" by (simp_all add: unat_sub_nowrap word_le_nat_alt)
  moreover from this balanced_worth_less [OF bal, of who]
  have "unat (reserved (stored_get s who) + amount) = unat (reserved (stored_get s who)) + unat amount"
    by (intro unat_add_nowrap) (simp add: worth_def)
  ultimately have "worth (snd (?g (stored_get s who))) = worth (stored_get s who)" by (simp add: worth_def)
  then have "balanced cfg u"
    using run_neutral [OF bal _ run] by auto
  then show ?thesis
    using op False run by (auto simp: hold_def mutate_account_reading split: sum.splits)
qed

lemma release_closure_ok:
  assumes "release_closure amount be a = Inr (r, b)" and "worth a < 2 ^ 128"
  shows "r = min amount (reserved a)" and "worth b = worth a" and "be \<or> r = amount"
    and "unat (free b) = unat (free a) + unat r" and "unat (reserved b) + unat r = unat (reserved a)"
proof -
  define m where "m = min amount (reserved a)"
  have m: "unat m \<le> unat (reserved a)" by (simp add: m_def unat_min)
  have f: "unat (saturating_add (free a) m) = unat (free a) + unat m"
    using m assms(2) by (simp add: unat_saturating_add worth_def)
  then have "unat (free a + m) = unat (free a) + unat m"
    using m assms(2) by (intro unat_add_nowrap) (simp add: worth_def)
  then have s: "saturating_add (free a) m = free a + m" using f by (simp add: word_unat_eq_iff)
  have e: "r = m" "b = a\<lparr>free := saturating_add (free a) m, reserved := saturating_sub (reserved a) m\<rparr>"
    "be \<or> r = amount"
    using assms(1) unfolding release_closure_def Let_def m_def [symmetric] s
    by (auto simp: result_simps)
  show "r = min amount (reserved a)" "be \<or> r = amount" using e by (simp_all add: m_def)
  show "worth b = worth a" "unat (free b) = unat (free a) + unat r"
    "unat (reserved b) + unat r = unat (reserved a)"
    using e f m by (simp_all add: worth_def unat_saturating_sub)
qed

lemma release_balanced:
  assumes bal: "balanced cfg s" and op: "release cfg who amount be s = (x, t)"
  shows "balanced cfg t"
proof (cases "amount = 0")
  case True
  then show ?thesis using op bal by (auto simp: release_def)
next
  case False
  then have run: "try_mutate_account cfg stored_map_to_dispatch no_drop who
      (reading (\<lambda>_ a _. release_closure amount be a)) s = (x, t)" using op by (simp add: release_def)
  show ?thesis
    by (rule run_neutral [OF bal _ run])
       (rule release_closure_ok(2) [OF _ balanced_worth_less [OF bal]])
qed

lemma mint_closure_ok:
  assumes "mint_closure cfg amount s a = Inr (r, b)" and "amount \<noteq> 0" and "worth a < 2 ^ 128"
  shows "b = a\<lparr>free := free a + amount\<rparr>" and "unat (TotalIssuance s) + unat amount < 2 ^ 128"
    and "worth b = worth a + unat amount" and "ExistentialDeposit cfg \<le> total b"
proof -
  have b: "b = a\<lparr>free := free a + amount\<rparr>" and ti: "checked_add (TotalIssuance s) amount \<noteq> None"
    and tot: "\<exists>n. checked_add (total a) amount = Some n \<and> ExistentialDeposit cfg \<le> n"
    using assms
    by (auto simp: mint_closure_def deposit_consequence_def result_simps not_less
        split: if_splits option.splits)
  show "b = a\<lparr>free := free a + amount\<rparr>" by (rule b)
  show "unat (TotalIssuance s) + unat amount < 2 ^ 128"
    using ti by (auto simp: checked_add_def split: if_splits)
  obtain n where n: "unat (total a) + unat amount < 2 ^ 128" "n = total a + amount"
    "ExistentialDeposit cfg \<le> n" using tot by (auto simp: checked_add_def split: if_splits)
  have ta: "unat (total a) = worth a" using assms(3) by (simp add: unat_total)
  have "unat (free a + amount) = unat (free a) + unat amount"
    using n(1) ta by (intro unat_add_nowrap) (simp add: worth_def)
  then show w: "worth b = worth a + unat amount" using b by (simp add: worth_def)
  have "unat n = worth a + unat amount" using n(1,2) ta by (simp add: unat_add_nowrap)
  then show "ExistentialDeposit cfg \<le> total b" using n w ta by (simp add: word_le_nat_alt unat_total)
qed

lemma mint_into_balanced:
  assumes bal: "balanced cfg s" and op: "mint_into cfg who amount s = (x, t)"
  shows "balanced cfg t"
proof (cases "amount = 0")
  case True
  then show ?thesis using op bal by (auto simp: mint_into_def)
next
  case False
  let ?a = "stored_get s who"
  let ?g = "\<lambda>st account (_::bool). mint_closure cfg amount st account"
  obtain y u where run: "try_mutate_account cfg stored_map_to_dispatch no_drop who (reading ?g) s = (y, u)"
    by fastforce
  note c = mint_closure_ok [OF _ False balanced_worth_less [OF bal, of who]]
  have pre: "worth b < 2 ^ 128
      \<and> (?a = default_account_data \<longrightarrow> worth b = 0 \<or> ExistentialDeposit cfg \<le> total b)
      \<and> (can_dec_provider s who \<or> ExistentialDeposit cfg \<le> total b)"
    if "?g s ?a (?a = default_account_data) = Inr (r, b)" for r b
    using c(2-4) [OF that] balanced_worth [OF bal, of who] by simp
  show ?thesis
  proof (rule run_reading [of cfg s ?g, OF bal pre run, THEN disjE], assumption)
    assume "\<exists>e. y = Inl e \<and> u = s"
    then show ?thesis using op run bal False by (auto simp: mint_into_def)
  next
    assume "\<exists>r b. y = Inr r \<and> ?g s ?a (?a = default_account_data) = Inr (r, b)
        \<and> mutated cfg s who b u \<and> finite_ledger (stored_get u) \<and> no_dust cfg u
        \<and> gap u = int (worth b) - int (worth ?a)
        \<and> unat (TotalIssuance u) \<le> unat (TotalIssuance s)"
    then obtain r b where b: "y = Inr r" "?g s ?a (?a = default_account_data) = Inr (r, b)"
      "finite_ledger (stored_get u)" "no_dust cfg u"
      "gap u = int (worth b) - int (worth ?a)" "unat (TotalIssuance u) \<le> unat (TotalIssuance s)"
      by blast
    have t: "t = u\<lparr>TotalIssuance := TotalIssuance u + amount\<rparr>"
      using op run b(1) False by (simp add: mint_into_def)
    have "unat (TotalIssuance u + amount) = unat (TotalIssuance u) + unat amount"
      using c(2) [OF b(2)] b(6) by (intro unat_add_nowrap) simp
    then show ?thesis using b(3-5) c(3) [OF b(2)] t by (simp add: balanced_def no_dust_def gap_def)
  qed
qed

text \<open>
  \<open>burn_from\<close> takes the whole remainder of an account it brings below the existential deposit
  from the free balance; this is right when nothing is reserved.
\<close>

lemma burn_closure_ok:
  assumes "burn_closure cfg who amount s a = Inr (r, b)" and "amount \<noteq> 0" and "reserved a = 0"
  shows "b = a\<lparr>free := free a - r\<rparr>" and "worth b + unat r = worth a" and "amount \<le> r"
    and "can_dec_provider s who \<or> ExistentialDeposit cfg \<le> total b"
proof -
  have ta: "total a = free a" using assms(3) by (simp add: total_def saturating_add_def unat_u128_less [simplified])
  have am: "amount \<le> free a" and d: "r = amount \<or> r = amount + (free a - amount)"
    and b: "b = a\<lparr>free := free a - r\<rparr>"
    and cd: "free a - amount < ExistentialDeposit cfg \<longrightarrow> can_dec_provider s who"
    and keep: "r = amount \<or> free a - amount < ExistentialDeposit cfg"
    using assms(1,2)
    by (auto simp: burn_closure_def withdraw_consequence_def result_simps Let_def ta checked_sub_def
        word_le_nat_alt word_less_nat_alt split: if_splits option.splits)
  show "b = a\<lparr>free := free a - r\<rparr>" by (rule b)
  have r: "r \<le> free a" "amount \<le> r" using d am by auto
  then show "worth b + unat r = worth a"
    using b by (simp add: worth_def unat_sub_nowrap word_le_nat_alt)
  show "amount \<le> r" by (rule r)
  have tb: "total b = free a - r"
    using b assms(3) by (simp add: total_def saturating_add_def unat_u128_less [simplified])
  show "can_dec_provider s who \<or> ExistentialDeposit cfg \<le> total b"
    using keep cd tb by (auto simp: not_less)
qed

lemma burn_from_balanced:
  assumes bal: "balanced cfg s" and res: "reserved (stored_get s who) = 0"
    and op: "burn_from cfg who amount s = (x, t)"
  shows "balanced cfg t"
proof (cases "amount = 0")
  case True
  then show ?thesis using op bal by (auto simp: burn_from_def)
next
  case False
  let ?a = "stored_get s who"
  let ?g = "\<lambda>st account (_::bool). burn_closure cfg who amount st account"
  obtain y u where run: "try_mutate_account cfg stored_map_to_dispatch no_drop who (reading ?g) s = (y, u)"
    by fastforce
  note c = burn_closure_ok [OF _ False res]
  have pre: "worth b < 2 ^ 128
      \<and> (?a = default_account_data \<longrightarrow> worth b = 0 \<or> ExistentialDeposit cfg \<le> total b)
      \<and> (can_dec_provider s who \<or> ExistentialDeposit cfg \<le> total b)"
    if "?g s ?a (?a = default_account_data) = Inr (r, b)" for r b
    using c(2,4) [OF that] balanced_worth_less [OF bal, of who] by auto
  show ?thesis
  proof (rule run_reading [of cfg s ?g, OF bal pre run, THEN disjE], assumption)
    assume "\<exists>e. y = Inl e \<and> u = s"
    then show ?thesis using op run bal False by (auto simp: burn_from_def)
  next
    assume "\<exists>r b. y = Inr r \<and> ?g s ?a (?a = default_account_data) = Inr (r, b)
        \<and> mutated cfg s who b u \<and> finite_ledger (stored_get u) \<and> no_dust cfg u
        \<and> gap u = int (worth b) - int (worth ?a)
        \<and> unat (TotalIssuance u) \<le> unat (TotalIssuance s)"
    then obtain r b where b: "y = Inr r" "?g s ?a (?a = default_account_data) = Inr (r, b)"
      "finite_ledger (stored_get u)" "no_dust cfg u" "gap u = int (worth b) - int (worth ?a)" by blast
    have t: "t = u\<lparr>TotalIssuance := TotalIssuance u - r\<rparr>"
      using op run b(1) False by (simp add: burn_from_def)
    have g: "gap u = - int (unat r)" using b(5) c(2) [OF b(2)] by simp
    then have "unat r \<le> unat (TotalIssuance u)" by (simp add: gap_def)
    then have "unat (TotalIssuance u - r) = unat (TotalIssuance u) - unat r" "unat r \<le> unat (TotalIssuance u)"
      by (simp_all add: unat_sub_nowrap word_le_nat_alt)
    then show ?thesis using b(3,4) g t by (simp add: balanced_def no_dust_def gap_def)
  qed
qed

section \<open>Locks\<close>

lemma frozen_by_fields [simp]:
  "free (frozen_by ls b) = free b" "reserved (frozen_by ls b) = reserved b"
  by (induction ls b rule: frozen_by.induct) (simp_all add: Let_def)

lemma frozen_by_fold:
  "misc_frozen (frozen_by ls b) = fold max (map lock_amount (filter (\<lambda>l. lock_reasons l \<noteq> Fee) ls)) (misc_frozen b)"
  "fee_frozen (frozen_by ls b) = fold max (map lock_amount (filter (\<lambda>l. lock_reasons l \<noteq> Misc) ls)) (fee_frozen b)"
proof (induction ls arbitrary: b)
  case (Cons l ls)
  { case 1 show ?case by (cases "lock_reasons l") (simp_all add: Let_def Cons.IH max.commute) }
  { case 2 show ?case by (cases "lock_reasons l") (simp_all add: Let_def Cons.IH max.commute) }
qed simp_all

lemma frozen_by_Max:
  "misc_frozen (frozen_by ls (b\<lparr>misc_frozen := 0, fee_frozen := 0\<rparr>))
     = Max (insert 0 (lock_amount ` {l \<in> set ls. lock_reasons l \<noteq> Fee}))"
  "fee_frozen (frozen_by ls (b\<lparr>misc_frozen := 0, fee_frozen := 0\<rparr>))
     = Max (insert 0 (lock_amount ` {l \<in> set ls. lock_reasons l \<noteq> Misc}))"
  unfolding frozen_by_fold
  using Max.set_eq_fold [of "0 :: u128" "map lock_amount (filter (\<lambda>l. lock_reasons l \<noteq> Fee) ls)"]
    Max.set_eq_fold [of "0 :: u128" "map lock_amount (filter (\<lambda>l. lock_reasons l \<noteq> Misc) ls)"]
  by simp_all

lemma update_locks_balanced:
  assumes "balanced cfg s"
  shows "balanced cfg (update_locks cfg who lks s)"
proof -
  let ?g = "\<lambda>_ b _. Inr ((), frozen_by lks (b\<lparr>misc_frozen := 0, fee_frozen := 0\<rparr>))"
  obtain y u where run: "try_mutate_account cfg id no_drop who (reading ?g) s = (y, u)" by fastforce
  have "balanced cfg u" by (rule run_neutral [OF assms _ run]) (auto simp: worth_def)
  then show ?thesis using run by (simp add: update_locks_def mutate_account_reading Let_def)
qed

lemma lock_ops_balanced:
  assumes "balanced cfg s"
  shows "balanced cfg (set_lock cfg i who amount rs s)" "balanced cfg (extend_lock cfg i who amount rs s)"
    "balanced cfg (remove_lock cfg i who s)"
  using assms by (auto simp: set_lock_def extend_lock_def remove_lock_def Let_def intro!: update_locks_balanced)

section \<open>Setting balances by root\<close>

lemma settle_fields [simp]: "stored_get (settle n m s) = stored_get s"
  "Locks (settle n m s) = Locks s" "Reserves (settle n m s) = Reserves s"
  by (simp_all add: settle_def)

lemma unat_settle:
  assumes "unat m \<le> unat (TotalIssuance s)" and "unat (TotalIssuance s) + unat n < 2 ^ 128"
  shows "unat (TotalIssuance (settle n m s)) + unat m = unat (TotalIssuance s) + unat n"
proof (cases n m rule: linorder_cases)
  case less
  then have "unat (m - n) = unat m - unat n" "unat n < unat m"
    by (auto intro: unat_sub_nowrap simp: word_less_nat_alt [symmetric])
  then show ?thesis using less assms by (auto simp add: settle_def unat_saturating_sub)
next
  case greater
  then have "unat (n - m) = unat n - unat m" "unat m < unat n"
    by (auto intro: unat_sub_nowrap simp: word_less_nat_alt [symmetric])
  then show ?thesis using greater assms by (auto simp add: settle_def unat_saturating_add)
qed (simp add: settle_def)

lemma can_dec_provider_own_items [simp]:
  "can_dec_provider (s\<lparr>TotalIssuance := x\<rparr>) who = can_dec_provider s who"
  by (simp add: can_dec_provider_def account_get_def Let_def is_provider_required_def)

lemma can_dec_provider_settle [simp]: "can_dec_provider (settle n m s) who = can_dec_provider s who"
  by (simp add: settle_def drop_positive.simps drop_negative.simps)

lemma set_balance_balanced:
  assumes bal: "balanced cfg s" and alive: "can_dec_provider s who"
    and room: "unat (TotalIssuance s) + unat f + unat r < 2 ^ 128"
    and fin: "f + r = 0 \<or> ExistentialDeposit cfg \<le> f + r"
    and run: "mutate_account cfg no_drop who
        (\<lambda>account st. (((f, r), account\<lparr>free := f, reserved := r\<rparr>),
           settle r (reserved account) (settle f (free account) st))) s = (x, t)"
  shows "balanced cfg t"
proof -
  let ?a = "stored_get s who"
  let ?b = "?a\<lparr>free := f, reserved := r\<rparr>"
  let ?s1 = "settle r (reserved ?a) (settle f (free ?a) s)"
  have w: "worth ?a \<le> unat (TotalIssuance s)" using bal by (rule balanced_worth)
  then have 1: "unat (TotalIssuance (settle f (free ?a) s)) + unat (free ?a) = unat (TotalIssuance s) + unat f"
    using room by (intro unat_settle) (auto simp: worth_def)
  then have 2: "unat (TotalIssuance ?s1) + unat (reserved ?a)
      = unat (TotalIssuance (settle f (free ?a) s)) + unat r"
    using room w by (intro unat_settle) (auto simp: worth_def)
  have wb: "worth ?b = unat f + unat r" by (simp add: worth_def)
  have fr: "unat (f + r) = unat f + unat r" using room by (intro unat_add_nowrap) simp
  have tb: "unat (total ?b) = unat f + unat r" using room by (simp add: unat_total wb)
  have d0: "dust_of cfg ?b = 0"
    using fin fr tb by (auto simp: dust_of_def word_le_nat_alt word_less_nat_alt word_unat_eq_iff)
  have "\<exists>y. (x, t) = (Inr y, t) \<and> stored_get t = (stored_get s)(who := settled cfg ?b)
      \<and> TotalIssuance t = TotalIssuance ?s1"
    using mutate_ok [where f = "\<lambda>a is_new st. (Inr ((f, r), a\<lparr>free := f, reserved := r\<rparr>),
           settle r (reserved a) (settle f (free a) st))"
        and s = s and who = who and cfg = cfg and frm = id and drp = no_drop, OF refl] alive run d0
    by (auto simp: mutate_account_def saturating_sub_def)
  then have t: "stored_get t = (stored_get s)(who := settled cfg ?b)" "TotalIssuance t = TotalIssuance ?s1"
    by auto
  have ws: "worth (settled cfg ?b) = unat f + unat r"
    using worth_settled [of ?b cfg] room d0 by (simp add: wb)
  have "held (stored_get t) + worth ?a = held (stored_get s) + (unat f + unat r)"
    using held_upd [of "stored_get s" who "settled cfg ?b"] bal t(1) ws by (simp add: balanced_def)
  then have "held (stored_get t) = unat (TotalIssuance t)"
    using 1 2 bal t(2) by (simp add: balanced_def gap_0 worth_def)
  moreover have "finite_ledger (stored_get t)" "no_dust cfg t"
    using bal t(1) by (auto simp: balanced_def finite_ledger_upd no_dust_def settled_def)
  ultimately show ?thesis by (simp add: balanced_def gap_0)
qed

lemma call_set_balance_balanced:
  assumes bal: "balanced cfg s"
    and w: "\<And>w. lookup who = Inr w \<Longrightarrow> can_dec_provider s w"
    and room: "unat (TotalIssuance s) + unat new_free + unat new_reserved < 2 ^ 128"
    and op: "call_set_balance cfg lookup origin who new_free new_reserved s = (x, t)"
  shows "balanced cfg t"
proof (cases "and_then (ensure_root origin) (\<lambda>_. lookup who)")
  case (Inl e)
  then show ?thesis using op bal by (simp add: call_set_balance_def)
next
  case (Inr k)
  let ?wipeout = "new_free + new_reserved < ExistentialDeposit cfg"
  define nf nr where "nf = (if ?wipeout then 0 else new_free)" and "nr = (if ?wipeout then 0 else new_reserved)"
  let ?f = "\<lambda>account st. (((nf, nr), account\<lparr>free := nf, reserved := nr\<rparr>),
      settle nr (reserved account) (settle nf (free account) st))"
  have k: "lookup who = Inr k" using Inr by (auto simp: result_simps)
  obtain y u where run: "mutate_account cfg no_drop k ?f s = (y, u)" by fastforce
  have "unat (TotalIssuance s) + unat nf + unat nr < 2 ^ 128" "nf + nr = 0 \<or> ExistentialDeposit cfg \<le> nf + nr"
    using room by (auto simp: nf_def nr_def not_less)
  from set_balance_balanced [OF bal w [OF k] this run] have "balanced cfg u" .
  moreover have "t = (case y of Inl e \<Rightarrow> u | Inr (f, r) \<Rightarrow> deposit_event (BalancesEvent (BalanceSet k f r)) u)"
    using op Inr run unfolding call_set_balance_def Let_def nf_def [symmetric] nr_def [symmetric]
    by (auto split: sum.splits)
  ultimately show ?thesis by (auto split: sum.splits)
qed

section \<open>Named reserves\<close>

lemma reserve_named_balanced:
  assumes bal: "balanced cfg s" and op: "reserve_named cfg rid who value s = (x, t)"
  shows "balanced cfg t"
proof -
  obtain y u where r: "reserve cfg who value s = (y, u)" by fastforce
  from reserve_balanced [OF bal this] show ?thesis
    using op bal r by (auto simp: reserve_named_def Let_def split: if_splits sum.splits)
qed

lemma unreserve_named_balanced:
  assumes bal: "balanced cfg s" and op: "unreserve_named cfg rid who value s = (x, t)"
  shows "balanced cfg t"
proof -
  have u: "balanced cfg (snd (unreserve cfg who n s))" for n
    by (rule unreserve_balanced [OF bal prod.collapse [symmetric]])
  show ?thesis
    using op bal u by (auto simp: unreserve_named_def Let_def case_prod_beta split: if_splits sum.splits option.splits)
qed

lemma slash_reserved_named_balanced:
  assumes bal: "balanced cfg s" and alive: "can_dec_provider s who"
    and op: "slash_reserved_named cfg rid who value s = ((imb, remaining), t)"
  shows "balanced cfg (drop_negative imb t)"
proof -
  have put: "balanced cfg (drop_negative n (put_reserves who rs u)) = balanced cfg (drop_negative n u)" for n rs u
    by (rule balanced_cong; cases n; simp add: put_reserves_def)
  have u: "balanced cfg (drop_negative (fst (fst (slash_reserved cfg who n s))) (snd (slash_reserved cfg who n s)))" for n
    by (rule slash_reserved_balanced [OF bal alive]) (auto simp: prod_eq_iff)
  show ?thesis
    using op bal u
    by (auto simp: slash_reserved_named_def Let_def case_prod_beta put split: if_splits sum.splits)
qed

lemma repatriate_to_named_balanced:
  assumes bal: "balanced cfg s" and alive: "can_dec_provider s a"
    and op: "repatriate_to_named cfg rid a b n s = (x, t)"
  shows "balanced cfg t"
proof -
  obtain y u where r: "repatriate_reserved cfg a b n StatusReserved s = (y, u)" by fastforce
  from repatriate_reserved_balanced [OF bal alive this] show ?thesis
    using op r by (auto simp: repatriate_to_named_def Let_def split: sum.splits)
qed

lemma repatriate_reserved_named_balanced:
  assumes bal: "balanced cfg s" and alive: "can_dec_provider s a"
    and op: "repatriate_reserved_named cfg rid a b value status s = (x, t)"
  shows "balanced cfg t"
proof -
  have "balanced cfg (snd (unreserve_named cfg rid a value s))"
    by (rule unreserve_named_balanced [OF bal prod.collapse [symmetric]])
  moreover have "balanced cfg (snd (repatriate_reserved cfg a b n status s))" for n
    by (rule repatriate_reserved_balanced [OF bal alive prod.collapse [symmetric]])
  moreover have "balanced cfg (snd (repatriate_to_named cfg rid a b n s))" for n
    by (rule repatriate_to_named_balanced [OF bal alive prod.collapse [symmetric]])
  ultimately show ?thesis
    using op bal
    by (auto simp: repatriate_reserved_named_def Let_def case_prod_beta split_beta
        split: if_splits sum.splits balance_status.splits prod.splits)
qed

end
