(* ===== verification/Balances_Safety.thy ===== *)
theory Balances_Safety
  imports Balances_Ops
begin

text \<open>
  The Balances pallet as a whole: genesis, the histories of operations starting from it, and the
  properties of the pallet.
\<close>

section \<open>Genesis\<close>

lemma genesis_insert_step:
  "\<exists>t. try_mutate_exists id no_drop who (\<lambda>_ st. (Inr ((), Some (default_account_data\<lparr>free := f\<rparr>)), st)) s
        = (Inr (), t)
     \<and> stored_get t = (stored_get s)(who := default_account_data\<lparr>free := f\<rparr>) \<and> balance_frame s t"
proof -
  let ?f = "\<lambda>_ st. (Inr ((), Some (default_account_data\<lparr>free := f\<rparr>)), st)"
  obtain t where t: "try_mutate_exists id no_drop who ?f s = (Inr (), t)"
    "stored_get t = (stored_get s)(who := default_account_data\<lparr>free := f\<rparr>)"
    using try_mutate_exists_ok_Some [where f = ?f and s = s and k = who and frm = id and drp = no_drop, OF refl refl]
    by auto
  moreover have "balance_frame s t"
    by (rule balance_frame_try_mutate_exists [where f = ?f, OF refl t(1)])
  ultimately show ?thesis by blast
qed

lemma genesis_insert_ok:
  assumes "finite_ledger (stored_get s)" and "distinct (map fst bals)"
    and "\<And>k. k \<in> fst ` set bals \<Longrightarrow> stored_get s k = default_account_data"
  shows "\<exists>t. genesis_insert bals s = Some t \<and> TotalIssuance t = TotalIssuance s
    \<and> finite_ledger (stored_get t)
    \<and> held (stored_get t) = held (stored_get s) + (\<Sum>(k, n) \<leftarrow> bals. unat n)
    \<and> (\<forall>k. stored_get t k = (case map_of bals k of None \<Rightarrow> stored_get s k
                                | Some n \<Rightarrow> default_account_data\<lparr>free := n\<rparr>))"
  using assms
proof (induction bals arbitrary: s)
  case (Cons kn bals)
  obtain k n where kn: "kn = (k, n)" by fastforce
  obtain u where u: "try_mutate_exists id no_drop k
        (\<lambda>_ st. (Inr ((), Some (default_account_data\<lparr>free := n\<rparr>)), st)) s = (Inr (), u)"
      "stored_get u = (stored_get s)(k := default_account_data\<lparr>free := n\<rparr>)" "balance_frame s u"
    using genesis_insert_step [of k n s] by blast
  have d: "stored_get s k = default_account_data" using Cons.prems(3) kn by simp
  have fin: "finite_ledger (stored_get u)" using u(2) Cons.prems(1) by (simp add: finite_ledger_upd)
  have h: "held (stored_get u) = held (stored_get s) + unat n"
    using held_upd [OF Cons.prems(1), of k "default_account_data\<lparr>free := n\<rparr>"] u(2) d
    by (simp add: default_account_data_def worth_def)
  have k: "k \<notin> fst ` set bals" using Cons.prems(2) kn by auto
  have pre: "j \<in> fst ` set bals \<Longrightarrow> stored_get u j = default_account_data" for j
    using Cons.prems(3) u(2) k by (auto simp: image_iff)
  have "distinct (map fst bals)" using Cons.prems(2) by simp
  from Cons.IH [OF fin this pre] obtain t where t: "genesis_insert bals u = Some t"
      "TotalIssuance t = TotalIssuance u" "finite_ledger (stored_get t)"
      "held (stored_get t) = held (stored_get u) + (\<Sum>(k, n) \<leftarrow> bals. unat n)"
      "\<forall>j. stored_get t j = (case map_of bals j of None \<Rightarrow> stored_get u j
          | Some n \<Rightarrow> default_account_data\<lparr>free := n\<rparr>)" by blast
  have "map_of bals k = None" using k by (simp add: map_of_eq_None_iff)
  then show ?case
    using t u kn h by (auto simp: balance_frame_def split: option.split)
qed simp

lemma foldl_word_sum:
  "unat (a :: u128) + (\<Sum>(k, n) \<leftarrow> bals. unat n) < 2 ^ 128 \<Longrightarrow>
   unat (foldl (\<lambda>acc (k, n). acc + n) a bals) = unat a + (\<Sum>(k, n) \<leftarrow> bals. unat n)"
proof (induction bals arbitrary: a)
  case (Cons kn bals)
  obtain k n where kn: "kn = (k, n)" by fastforce
  have "unat (a + n) = unat a + unat n" using Cons.prems kn by (intro unat_add_nowrap) simp
  then show ?case using Cons.IH [of "a + n"] Cons.prems kn by simp
qed simp

lemma genesis_balanced:
  assumes empty: "stored_get s = (\<lambda>_. default_account_data)"
    and room: "(\<Sum>(k, n) \<leftarrow> bals. unat n) < 2 ^ 128"
    and op: "genesis_build cfg bals s = Some t"
  shows "balanced cfg t"
proof -
  let ?s = "s\<lparr>TotalIssuance := foldl (\<lambda>acc (_, n). acc + n) 0 bals, StorageVersion := V2_0_0\<rparr>"
  have g: "list_all (\<lambda>(_, b). b \<ge> ExistentialDeposit cfg) bals" "distinct (map fst bals)"
    "genesis_insert bals ?s = Some t"
    using op by (auto simp: genesis_build_def Let_def split: if_splits)
  have e: "stored_get ?s = (\<lambda>_. default_account_data)" using empty by simp
  have h0: "held (\<lambda>_::'a. default_account_data) = 0" "finite_ledger (\<lambda>_::'a. default_account_data)"
    by (simp_all add: held_def finite_ledger_def)
  have t: "TotalIssuance t = TotalIssuance ?s" "finite_ledger (stored_get t)"
    "held (stored_get t) = (\<Sum>(k, n) \<leftarrow> bals. unat n)"
    "\<forall>k. stored_get t k = (case map_of bals k of None \<Rightarrow> default_account_data
        | Some n \<Rightarrow> default_account_data\<lparr>free := n\<rparr>)"
    using genesis_insert_ok [of ?s bals] g(2,3) e h0 by (auto split: option.split)
  have "no_dust cfg t"
    using t(4) g(1)
    by (auto simp: no_dust_def list_all_iff total_def default_account_data_def saturating_add_def
        unat_u128_less [simplified] split: option.splits dest!: map_of_SomeD)
  then show ?thesis
    using t(1-3) foldl_word_sum [of 0 bals] room by (simp add: balanced_def gap_0)
qed

section \<open>Every history of the pallet\<close>

text \<open>
  The calls callers may make of the pallet, each with its imbalance dropped, and the references the
  rest of the runtime takes and releases.  \<open>lookup\<close> is the configured \<open>StaticLookup\<close>.  What is left
  out are \<open>set_balance\<close> and \<open>set_total_issuance\<close> of the \<open>Unbalanced\<close> trait, which are meant to
  change one side only.
\<close>

datatype ('acc, 'src) balances_call =
    DoTransfer 'acc 'acc u128 existence_requirement
  | DoDepositCreating 'acc u128
  | DoDepositIntoExisting 'acc u128
  | DoWithdraw 'acc u128 withdraw_reasons existence_requirement
  | DoSlash 'acc u128
  | DoMakeFreeBalanceBe 'acc u128
  | DoBurn u128
  | DoIssue u128
  | DoReserve 'acc u128
  | DoUnreserve 'acc u128
  | DoSlashReserved 'acc u128
  | DoRepatriateReserved 'acc 'acc u128 balance_status
  | DoReserveNamed reserve_identifier 'acc u128
  | DoUnreserveNamed reserve_identifier 'acc u128
  | DoSlashReservedNamed reserve_identifier 'acc u128
  | DoRepatriateReservedNamed reserve_identifier 'acc 'acc u128 balance_status
  | DoSetLock lock_identifier 'acc u128 withdraw_reasons
  | DoExtendLock lock_identifier 'acc u128 withdraw_reasons
  | DoRemoveLock lock_identifier 'acc
  | DoMintInto 'acc u128
  | DoBurnFrom 'acc u128
  | DoHold 'acc u128
  | DoRelease 'acc u128 bool
  | DoTransferHeld 'acc 'acc u128 bool bool
  | CallTransfer "'acc raw_origin" 'src u128
  | CallTransferKeepAlive "'acc raw_origin" 'src u128
  | CallForceTransfer "'acc raw_origin" 'src 'src u128
  | CallTransferAll "'acc raw_origin" 'src bool
  | CallSetBalance "'acc raw_origin" 'src u128 u128
  | IncConsumers 'acc
  | DecConsumers 'acc
  | IncProviders 'acc

fun perform ::
    "balances_config \<Rightarrow> ('src \<Rightarrow> dispatch_error + 'acc) \<Rightarrow> ('acc, 'src) balances_call
      \<Rightarrow> ('acc, 'm) balances_scheme \<Rightarrow> ('acc, 'm) balances_scheme" where
  "perform cfg lookup (DoTransfer a b n er) s = snd (transfer cfg a b n er s)"
| "perform cfg lookup (DoDepositCreating a n) s = (case deposit_creating cfg a n s of (imb, t) \<Rightarrow> drop_positive imb t)"
| "perform cfg lookup (DoDepositIntoExisting a n) s =
     (case deposit_into_existing cfg a n s of (Inl e, t) \<Rightarrow> t | (Inr imb, t) \<Rightarrow> drop_positive imb t)"
| "perform cfg lookup (DoWithdraw a n rs er) s =
     (case withdraw cfg a n rs er s of (Inl e, t) \<Rightarrow> t | (Inr imb, t) \<Rightarrow> drop_negative imb t)"
| "perform cfg lookup (DoSlash a n) s = (case slash cfg a n s of ((imb, rem), t) \<Rightarrow> drop_negative imb t)"
| "perform cfg lookup (DoMakeFreeBalanceBe a n) s =
     (case make_free_balance_be cfg a n s of (imb, t) \<Rightarrow> drop_signed imb t)"
| "perform cfg lookup (DoBurn n) s = (case burn n s of (imb, t) \<Rightarrow> drop_positive imb t)"
| "perform cfg lookup (DoIssue n) s = (case issue n s of (imb, t) \<Rightarrow> drop_negative imb t)"
| "perform cfg lookup (DoReserve a n) s = snd (reserve cfg a n s)"
| "perform cfg lookup (DoUnreserve a n) s = snd (unreserve cfg a n s)"
| "perform cfg lookup (DoSlashReserved a n) s =
     (case slash_reserved cfg a n s of ((imb, rem), t) \<Rightarrow> drop_negative imb t)"
| "perform cfg lookup (DoRepatriateReserved a b n st) s = snd (repatriate_reserved cfg a b n st s)"
| "perform cfg lookup (DoReserveNamed i a n) s = snd (reserve_named cfg i a n s)"
| "perform cfg lookup (DoUnreserveNamed i a n) s = snd (unreserve_named cfg i a n s)"
| "perform cfg lookup (DoSlashReservedNamed i a n) s =
     (case slash_reserved_named cfg i a n s of ((imb, rem), t) \<Rightarrow> drop_negative imb t)"
| "perform cfg lookup (DoRepatriateReservedNamed i a b n st) s = snd (repatriate_reserved_named cfg i a b n st s)"
| "perform cfg lookup (DoSetLock i a n rs) s = set_lock cfg i a n rs s"
| "perform cfg lookup (DoExtendLock i a n rs) s = extend_lock cfg i a n rs s"
| "perform cfg lookup (DoRemoveLock i a) s = remove_lock cfg i a s"
| "perform cfg lookup (DoMintInto a n) s = snd (mint_into cfg a n s)"
| "perform cfg lookup (DoBurnFrom a n) s = snd (burn_from cfg a n s)"
| "perform cfg lookup (DoHold a n) s = snd (hold cfg a n s)"
| "perform cfg lookup (DoRelease a n be) s = snd (release cfg a n be s)"
| "perform cfg lookup (DoTransferHeld a b n be oh) s = snd (transfer_held cfg a b n be oh s)"
| "perform cfg lookup (CallTransfer org b n) s = snd (call_transfer cfg lookup org b n s)"
| "perform cfg lookup (CallTransferKeepAlive org b n) s = snd (call_transfer_keep_alive cfg lookup org b n s)"
| "perform cfg lookup (CallForceTransfer org a b n) s = snd (call_force_transfer cfg lookup org a b n s)"
| "perform cfg lookup (CallTransferAll org b ka) s = snd (call_transfer_all cfg lookup org b ka s)"
| "perform cfg lookup (CallSetBalance org a nf nr) s = snd (call_set_balance cfg lookup org a nf nr s)"
| "perform cfg lookup (IncConsumers a) s = snd (inc_consumers a s)"
| "perform cfg lookup (DecConsumers a) s = dec_consumers a s"
| "perform cfg lookup (IncProviders a) s = snd (inc_providers a s)"

text \<open>
  The calls that keep issuance and balances together.  What the code does not check itself is that a
  deposit leaves the issuance below \<open>2\<^sup>1\<^sup>2\<^sup>8\<close>, that an account whose balance is decreased by force can
  be reaped (no consumer needs its last provider reference), and that an account whose tokens are
  burned has nothing reserved.
\<close>

definition has_room :: "('acc, 'm) balances_scheme \<Rightarrow> nat \<Rightarrow> bool" where
  "has_room s n \<longleftrightarrow> unat (TotalIssuance s) + n < 2 ^ 128"

fun safe_call :: "('src \<Rightarrow> dispatch_error + 'acc) \<Rightarrow> ('acc, 'src) balances_call \<Rightarrow> ('acc, 'm) balances_scheme \<Rightarrow> bool" where
  "safe_call lookup (DoDepositCreating a n) s = has_room s (unat n)"
| "safe_call lookup (DoDepositIntoExisting a n) s = has_room s (unat n)"
| "safe_call lookup (DoMakeFreeBalanceBe a n) s = (can_dec_provider s a \<and> has_room s (unat n))"
| "safe_call lookup (DoWithdraw a n rs er) s = can_dec_provider s a"
| "safe_call lookup (DoSlash a n) s = can_dec_provider s a"
| "safe_call lookup (DoSlashReserved a n) s = can_dec_provider s a"
| "safe_call lookup (DoRepatriateReserved a b n st) s = can_dec_provider s a"
| "safe_call lookup (DoSlashReservedNamed i a n) s = can_dec_provider s a"
| "safe_call lookup (DoRepatriateReservedNamed i a b n st) s = can_dec_provider s a"
| "safe_call lookup (DoTransferHeld a b n be oh) s = can_dec_provider s a"
| "safe_call lookup (DoBurnFrom a n) s = (reserved (stored_get s a) = 0)"
| "safe_call lookup (CallSetBalance org a nf nr) s =
     (has_room s (unat nf + unat nr) \<and> (case lookup a of Inl e \<Rightarrow> True | Inr w \<Rightarrow> can_dec_provider s w))"
| "safe_call lookup call s = True"

fun perform_all ::
    "balances_config \<Rightarrow> ('src \<Rightarrow> dispatch_error + 'acc) \<Rightarrow> ('acc, 'src) balances_call list
      \<Rightarrow> ('acc, 'm) balances_scheme \<Rightarrow> ('acc, 'm) balances_scheme" where
  "perform_all cfg lookup [] s = s"
| "perform_all cfg lookup (call # calls) s = perform_all cfg lookup calls (perform cfg lookup call s)"

fun safe_calls ::
    "balances_config \<Rightarrow> ('src \<Rightarrow> dispatch_error + 'acc) \<Rightarrow> ('acc, 'src) balances_call list
      \<Rightarrow> ('acc, 'm) balances_scheme \<Rightarrow> bool" where
  "safe_calls cfg lookup [] s = True"
| "safe_calls cfg lookup (call # calls) s =
     (safe_call lookup call s \<and> safe_calls cfg lookup calls (perform cfg lookup call s))"

lemma balanced_inc_providers [simp]: "balanced cfg (snd (inc_providers k s)) = balanced cfg s"
  using balance_frame_inc_providers [of s k] by (intro balanced_cong) (auto simp: balance_frame_def)

lemma saturating_undo:
  fixes a b :: "'a::len word"
  shows "b \<le> a \<Longrightarrow> saturating_add (a - b) b = a" "saturating_add 0 a = a" "saturating_add a 0 = a"
    "unat a + unat b < 2 ^ LENGTH('a) \<Longrightarrow> saturating_sub (a + b) b = a" "saturating_sub (- 1) (- 1 - a) = a" "saturating_sub a 0 = a"
proof -
  show "saturating_add (a - b) b = a" if "b \<le> a"
    using that unsigned_less [of a] by (simp add: saturating_add_def unat_sub_nowrap word_le_nat_alt)
  show "saturating_add 0 a = a" "saturating_add a 0 = a" using unsigned_less [of a] by (simp_all add: saturating_add_def)
  show "saturating_sub (a + b) b = a" if "unat a + unat b < 2 ^ LENGTH('a)"
    using that by (simp add: saturating_sub_def word_le_nat_alt unat_add_nowrap)
  show "saturating_sub (- 1) (- 1 - a) = a" "saturating_sub a 0 = a" by (simp_all add: saturating_sub_def)
qed

lemma burn_undone: "(case burn n s of (imb, t) \<Rightarrow> drop_positive imb t) = s"
  by (simp add: burn_def checked_sub_def drop_positive.simps saturating_undo)

lemma issue_undone: "(case issue n s of (imb, t) \<Rightarrow> drop_negative imb t) = s"
  by (simp add: issue_def checked_add_def drop_negative.simps saturating_undo)

lemma snd_balanced: "(\<And>x t. r = (x, t) \<Longrightarrow> balanced cfg t) \<Longrightarrow> balanced cfg (snd r)"
  by (cases r) simp

lemma transfer_calls_balanced:
  assumes "balanced cfg s"
  shows "balanced cfg (snd (transfer cfg a b n er s))" "balanced cfg (snd (call_transfer cfg lookup org y n s))"
    "balanced cfg (snd (call_transfer_keep_alive cfg lookup org y n s))"
    "balanced cfg (snd (call_force_transfer cfg lookup org x y n s))"
    "balanced cfg (snd (call_transfer_all cfg lookup org y ka s))"
proof -
  have t: "balanced cfg (snd (transfer cfg a b n er s))" for a b n er
    using assms by (intro snd_balanced) (blast intro: transfer_balanced)
  show "balanced cfg (snd (transfer cfg a b n er s))" "balanced cfg (snd (call_transfer cfg lookup org y n s))"
    "balanced cfg (snd (call_transfer_keep_alive cfg lookup org y n s))"
    "balanced cfg (snd (call_force_transfer cfg lookup org x y n s))"
    "balanced cfg (snd (call_transfer_all cfg lookup org y ka s))"
    using assms t
    by (auto simp: call_transfer_def call_transfer_keep_alive_def call_force_transfer_def call_transfer_all_def Let_def
        split: sum.split prod.split)
qed

lemma perform_balanced:
  assumes "balanced cfg s" "safe_call lookup call s"
  shows "balanced cfg (perform cfg lookup call s)"
proof (cases call)
  case (DoDepositCreating a n)
  then show ?thesis using assms by (auto simp: has_room_def intro: deposit_creating_balanced split: prod.split)
next
  case (DoDepositIntoExisting a n)
  then show ?thesis
    using assms deposit_into_existing_balanced [of cfg s n a]
    by (fastforce simp: has_room_def split: prod.split sum.split)
next
  case (DoWithdraw a n rs er)
  then show ?thesis
    using assms withdraw_balanced [of cfg s a n rs er] by (fastforce split: prod.split sum.split)
next
  case (DoSlash a n)
  then show ?thesis using assms by (auto intro: slash_balanced split: prod.split)
next
  case (DoMakeFreeBalanceBe a n)
  then show ?thesis using assms by (auto simp: has_room_def intro: make_free_balance_be_balanced split: prod.split)
next
  case (DoSlashReserved a n)
  then show ?thesis using assms by (auto intro: slash_reserved_balanced split: prod.split)
next
  case (DoSlashReservedNamed i a n)
  then show ?thesis using assms by (auto intro: slash_reserved_named_balanced split: prod.split)
next
  case (DoTransferHeld a b n be oh)
  then show ?thesis
    using assms by (auto simp: transfer_held_def intro!: snd_balanced intro: do_transfer_reserved_balanced)
next
  case (CallSetBalance org a nf nr)
  then have r: "unat (TotalIssuance s) + unat nf + unat nr < 2 ^ 128" "\<And>w. lookup a = Inr w \<Longrightarrow> can_dec_provider s w"
    using assms(2) by (simp_all add: has_room_def add.assoc)
  have "balanced cfg (snd (call_set_balance cfg lookup org a nf nr s))"
    by (rule snd_balanced) (rule call_set_balance_balanced [OF assms(1) r(2,1)])
  then show ?thesis using CallSetBalance by simp
next
  case (DoReserve a n)
  then show ?thesis using assms(1) by (auto intro!: snd_balanced intro: reserve_balanced)
next
  case (DoUnreserve a n)
  then show ?thesis using assms(1) by (auto intro!: snd_balanced intro: unreserve_balanced)
next
  case (DoRepatriateReserved a b n st)
  then show ?thesis using assms by (auto intro!: snd_balanced intro: repatriate_reserved_balanced)
next
  case (DoReserveNamed i a n)
  then show ?thesis using assms(1) by (auto intro!: snd_balanced intro: reserve_named_balanced)
next
  case (DoUnreserveNamed i a n)
  then show ?thesis using assms(1) by (auto intro!: snd_balanced intro: unreserve_named_balanced)
next
  case (DoRepatriateReservedNamed i a b n st)
  then show ?thesis using assms by (auto intro!: snd_balanced intro: repatriate_reserved_named_balanced)
next
  case (DoMintInto a n)
  then show ?thesis using assms(1) by (auto intro!: snd_balanced intro: mint_into_balanced)
next
  case (DoBurnFrom a n)
  then show ?thesis using assms by (auto intro!: snd_balanced intro: burn_from_balanced)
next
  case (DoHold a n)
  then show ?thesis using assms(1) by (auto intro!: snd_balanced intro: hold_balanced)
next
  case (DoRelease a n be)
  then show ?thesis using assms(1) by (auto intro!: snd_balanced intro: release_balanced)
qed (use assms(1) in \<open>simp_all add: lock_ops_balanced transfer_calls_balanced burn_undone issue_undone\<close>)

lemma perform_all_balanced:
  "balanced cfg s \<Longrightarrow> safe_calls cfg lookup calls s \<Longrightarrow> balanced cfg (perform_all cfg lookup calls s)"
  by (induction calls arbitrary: s) (auto intro: perform_balanced)

section \<open>Locks, slashes and reserves in detail\<close>

lemma settled_alive [simp]:
  "ExistentialDeposit cfg \<le> total a \<Longrightarrow> settled cfg a = a"
  "ExistentialDeposit cfg \<le> total a \<Longrightarrow> dust_of cfg a = 0"
  by (auto simp: settled_def dust_of_def)

lemma locks_ops:
  "Locks (snd (inc_consumers k s)) = Locks s" "Locks (dec_consumers k s) = Locks s"
  using balance_frame_consumers [of s k] by (simp_all add: balance_frame_def)

lemma update_locks_frozen:
  assumes nd: "no_dust cfg s" and alive: "stored_get s who \<noteq> default_account_data"
  shows "stored_get (update_locks cfg who lks s)
     = (stored_get s)(who := frozen_by lks ((stored_get s who)\<lparr>misc_frozen := 0, fee_frozen := 0\<rparr>))"
proof -
  let ?b = "frozen_by lks ((stored_get s who)\<lparr>misc_frozen := 0, fee_frozen := 0\<rparr>)"
  let ?g = "\<lambda>_ b _. Inr ((), frozen_by lks (b\<lparr>misc_frozen := 0, fee_frozen := 0\<rparr>))"
  have "total ?b = total (stored_get s who)" by (simp add: total_def)
  then have ed: "ExistentialDeposit cfg \<le> total ?b" using nd alive by (auto simp: no_dust_def)
  obtain u where u: "try_mutate_account cfg id no_drop who (reading ?g) s = (Inr (), u)"
    "mutated cfg s who ?b u"
    using reading_closure_ok [of ?g s who "()" ?b cfg id no_drop] ed by auto
  have "settled cfg ?b = ?b" using ed by (simp add: settled_def)
  then have "stored_get u = (stored_get s)(who := ?b)" using u(2) by (simp add: mutated_def)
  then show ?thesis using u(1) by (simp add: update_locks_def mutate_account_reading Let_def)
qed

lemma replace_lock_mem:
  "new = Some nl \<Longrightarrow> replace_lock (\<lambda>l nl. nl) i new ls = (r, w) \<Longrightarrow> nl \<in> set r \<or> w = Some nl"
  by (induction "\<lambda>(l :: balance_lock) (nl :: balance_lock). nl" i new ls arbitrary: r w rule: replace_lock.induct)
     (auto split: if_splits prod.splits)

lemma with_lock_mem: "nl \<in> set (with_lock (\<lambda>l nl. nl) nl ls)"
proof -
  obtain r w where "replace_lock (\<lambda>l nl. nl) (lock_id nl) (Some nl) ls = (r, w)" by fastforce
  with replace_lock_mem [OF refl this] show ?thesis by (auto simp: with_lock_def split: option.split)
qed

lemma set_lock_frozen:
  assumes "no_dust cfg s" and "stored_get s a \<noteq> default_account_data"
    and "amount \<noteq> 0" and "reasons_from rs \<noteq> Fee" and "rs \<noteq> 0"
  shows "amount \<le> misc_frozen (stored_get (set_lock cfg i a amount rs s) a)
    \<and> free (stored_get (set_lock cfg i a amount rs s) a) = free (stored_get s a)"
proof -
  let ?nl = "\<lparr>lock_id = i, lock_amount = amount, lock_reasons = reasons_from rs\<rparr>"
  let ?ls = "with_lock (\<lambda>l nl. nl) ?nl (locks s a)"
  have "?nl \<in> {l \<in> set ?ls. lock_reasons l \<noteq> Fee}" using with_lock_mem assms(4) by simp
  then have "amount \<in> lock_amount ` {l \<in> set ?ls. lock_reasons l \<noteq> Fee}"
    by (metis (no_types, lifting) imageI balance_lock.select_convs(2))
  then have "amount \<le> Max (insert 0 (lock_amount ` {l \<in> set ?ls. lock_reasons l \<noteq> Fee}))"
    by (intro Max_ge) auto
  then show ?thesis
    using update_locks_frozen [OF assms(1,2)] assms(3,5)
    by (simp add: set_lock_def Let_def frozen_by_Max)
qed

lemma slash_attempts_sum:
  assumes "slash_attempts cfg who value attempts s = ((imb, rem), t)"
  shows "unat (peek_negative imb) + unat rem = unat value"
  using assms
proof (induction cfg who "value" attempts s rule: slash_attempts.induct)
  case (2 cfg who "value" attempt rest s)
  let ?g = "\<lambda>_ account _. Inr (slash_closure cfg value attempt account)"
  show ?case
  proof (cases rule: reading_cases [of ?g s who cfg id drop_slash])
    case (ok r a u)
    then show ?thesis using 2 slash_closure_ok(2) [of cfg "value" attempt "stored_get s who" r a] by auto
  next
    case (refused r a)
    then show ?thesis using 2 by auto
  qed simp
qed auto

lemma slash_sum:
  assumes "slash cfg who value s = ((imb, rem), t)"
  shows "unat (peek_negative imb) + unat rem = unat value"
  using assms slash_attempts_sum by (auto simp: slash_def simp del: slash_attempts.simps split: if_splits)

lemma total_0_worth: "total a = 0 \<longleftrightarrow> worth a = 0"
  by (simp add: word_unat_eq_iff unat_total min_def)

lemma slash_takes:
  assumes "slash cfg who value s = ((imb, rem), t)" and "can_dec_provider s who"
  shows "unat (peek_negative imb) = min (unat value) (worth (stored_get s who))"
proof (cases "value = 0 \<or> total_balance s who = 0")
  case True
  then show ?thesis
    using assms(1) by (auto simp: slash_def total_balance_def total_0_worth split: if_splits)
next
  case False
  let ?g = "\<lambda>_ account _. Inr (slash_closure cfg value 0 account)"
  obtain r b where rb: "slash_closure cfg value 0 (stored_get s who) = (r, b)" by fastforce
  obtain v where "try_mutate_account cfg id drop_slash who (reading ?g) s = (Inr r, v)"
    using reading_closure_ok [of ?g s who r b cfg id drop_slash] rb assms(2) by auto
  then show ?thesis using slash_closure_ok(3) [OF rb refl] assms(1) False by (auto simp: slash_def)
qed

lemma reserve_ok:
  assumes bal: "balanced cfg s" and op: "reserve cfg who value s = (Inr u, t)" and nz: "value \<noteq> 0"
  shows "\<exists>b. b = (stored_get s who)\<lparr>free := free (stored_get s who) - value,
        reserved := reserved (stored_get s who) + value\<rparr>
    \<and> value \<le> free (stored_get s who) \<and> ExistentialDeposit cfg \<le> total b
    \<and> ExistentialDeposit cfg \<le> total (stored_get s who)
    \<and> unat (reserved b) = unat (reserved (stored_get s who)) + unat value
    \<and> stored_get t = (stored_get s)(who := b)"
proof (cases rule: reading_cases [of "\<lambda>st account _. reserve_closure who value st account" s who cfg
      stored_map_to_dispatch no_drop])
  case (ok r b u)
  have b: "b = (stored_get s who)\<lparr>free := free (stored_get s who) - value,
        reserved := reserved (stored_get s who) + value\<rparr>" "value \<le> free (stored_get s who)"
    "unat (reserved b) = unat (reserved (stored_get s who)) + unat value"
    using ok(1)
    by (auto simp: reserve_closure_def result_simps dest!: checked_sub_SomeD checked_add_SomeD)
  have w: "worth b = worth (stored_get s who)" by (rule reserve_closure_ok [OF ok(1)])
  have nd: "stored_get s who \<noteq> default_account_data"
    using b(2) nz by (auto simp: default_account_data_def word_le_nat_alt word_unat_eq_iff)
  have ed: "ExistentialDeposit cfg \<le> total b"
    using grown_alive [OF bal, of who b] nd w balanced_worth_less [OF bal, of who] by simp
  have "ExistentialDeposit cfg \<le> total (stored_get s who)"
    using balancedD(2) [OF bal] nd by (auto simp: no_dust_def)
  moreover have "stored_get t = (stored_get s)(who := b)"
    using op ok(2,3) nz ed by (auto simp: reserve_def mutated_def settled_def)
  ultimately show ?thesis using b ed by blast
qed (use op nz in \<open>simp_all add: reserve_def\<close>)

lemma unreserve_closure_undo:
  assumes "b = a\<lparr>free := free a - value, reserved := reserved a + value\<rparr>"
    and "value \<le> free a" and "unat (reserved b) = unat (reserved a) + unat value"
  shows "unreserve_closure value b = (value, a)"
proof -
  have m: "min (reserved b) value = value"
    by (rule min.absorb2) (use assms(3) in \<open>simp add: word_le_nat_alt\<close>)
  have "unat (saturating_add (free a - value) value) = unat (free a)"
    using assms(2) unat_u128_less [of "free a"]
    by (simp add: unat_saturating_add unat_sub_nowrap word_le_nat_alt)
  then have f: "saturating_add (free a - value) value = free a" by (simp add: word_unat_eq_iff)
  show ?thesis
    unfolding unreserve_closure_def Let_def m using assms(1) f by (cases a) simp
qed

lemma unreserve_run:
  assumes "value \<noteq> 0" and "total_balance s who \<noteq> 0"
    and "unreserve_closure value (stored_get s who) = (r, b)" and "ExistentialDeposit cfg \<le> total b"
  shows "fst (unreserve cfg who value s) = value - r
    \<and> stored_get (snd (unreserve cfg who value s)) = (stored_get s)(who := b)"
proof -
  let ?g = "\<lambda>_ a _. Inr (unreserve_closure value a)"
  obtain u where "try_mutate_account cfg id no_drop who (reading ?g) s = (Inr r, u)" "mutated cfg s who b u"
    using reading_closure_ok [of ?g s who r b cfg id no_drop] assms(3,4) by auto
  then show ?thesis
    using assms by (simp add: unreserve_def mutate_account_reading mutated_def)
qed

lemma transfer_ok:
  assumes "value \<noteq> 0" and "a \<noteq> b"
    and "transfer_closure cfg a value er (stored_get s b) (stored_get s a) s = Inr (to', from')"
  shows "\<exists>t. transfer cfg a b value er s = (Inr (), t) \<and> moved cfg s a from' b to' t"
  using assms(1,2) by (cases rule: transfer_cases [of "value" a b cfg er s]) (use assms(3) in auto)

lemma unat_uminus_u128: "n \<noteq> 0 \<Longrightarrow> unat (- n :: u128) = 2 ^ 128 - unat n"
proof -
  assume n: "n \<noteq> 0"
  have 1: "unat (- 1 - n) = 2 ^ 128 - 1 - unat n"
    by (subst unat_sub_nowrap) (simp_all add: unat_max_word)
  have "unat (- 1 - n + 1) = unat (- 1 - n) + 1"
    using 1 n unat_u128_less [of n] by (subst unat_add_nowrap) (simp_all add: word_unat_eq_iff)
  then show ?thesis using 1 n unat_u128_less [of n] by (simp add: word_unat_eq_iff)
qed

lemma repatriate_reserved_all:
  assumes bal: "balanced cfg s" and alive: "can_dec_provider s a" and ab: "a \<noteq> b" and nz: "n \<noteq> 0"
    and n: "n \<le> reserved (stored_get s a)" and b: "stored_get s b \<noteq> default_account_data"
  shows "\<exists>t. repatriate_reserved cfg a b n StatusReserved s = (Inr 0, t)
    \<and> unat (reserved (stored_get t b)) = unat (reserved (stored_get s b)) + unat n
    \<and> Reserves t = Reserves s"
proof -
  have m: "min (reserved (stored_get s a)) n = n" using n by (rule min.absorb2)
  have "worth (stored_get s a) + worth (stored_get s b) < 2 ^ 128"
    using two_worth [of "stored_get s" a b] bal ab unat_u128_less [of "TotalIssuance s"]
    by (simp add: balanced_def gap_0)
  then have room: "unat (reserved (stored_get s b)) + unat n < 2 ^ 128"
    using n by (simp add: worth_def word_le_nat_alt)
  show ?thesis
  proof (rule do_transfer_reserved_cases [OF nz ab bal alive, of True StatusReserved])
    fix e
    assume "stored_get s b = default_account_data
      \<or> transfer_reserved_closure n True StatusReserved (stored_get s b) (stored_get s a) = Inl e"
    then show ?thesis
      using b room by (simp add: transfer_reserved_closure_def m Let_def ensure_def checked_add_def)
  next
    fix actual x' y' t
    assume r: "do_transfer_reserved cfg a b n True StatusReserved s = (Inr actual, t)"
      "transfer_reserved_closure n True StatusReserved (stored_get s b) (stored_get s a) = Inr ((actual, y'), x')"
      "moved cfg s a x' b y' t"
    note c = transfer_reserved_closure_ok [OF r(2)]
    have act: "actual = n" using c(1) m by simp
    have "worth y' < 2 ^ 128"
      using c(3) act room two_worth [of "stored_get s" a b] n bal ab unat_u128_less [of "TotalIssuance s"]
      by (simp add: balanced_def gap_0 worth_def word_le_nat_alt)
    then have "ExistentialDeposit cfg \<le> total y'" using grown_alive [OF bal, of b y'] c(3) b by simp
    then have "stored_get t b = y'" "Reserves t = Reserves s" using r(3) by (simp_all add: moved_def)
    moreover have "unat (reserved y') = unat (reserved (stored_get s b)) + unat n"
      using c(5) act room by (simp add: unat_add_nowrap)
    ultimately show ?thesis
      using r(1) act by (simp add: repatriate_reserved_def saturating_sub_def)
  qed
qed

lemma reducible_unat:
  fixes s :: "('acc, 'm) balances_scheme" and who :: 'acc
  defines "a \<equiv> stored_get s who"
  defines "L \<equiv> unat (free a) - max (unat (fee_frozen a)) (unat (misc_frozen a))"
  shows "unat (reducible_balance cfg s who ka)
    = (if can_dec_provider s who \<and> \<not> ka then L
       else L - (unat (ExistentialDeposit cfg) - (unat (total a) - L)))"
proof -
  define liquid where "liquid = saturating_sub (free a) (max (fee_frozen a) (misc_frozen a))"
  have L: "unat liquid = L" by (simp add: liquid_def L_def unat_saturating_sub unat_max)
  have "L \<le> unat (free a)" by (simp add: L_def)
  then have "unat liquid \<le> unat (total a)"
    using L unat_u128_less [of "free a"] by (auto simp: unat_total worth_def)
  then have "unat (total a - liquid) = unat (total a) - L"
    using L by (simp add: unat_sub_nowrap word_le_nat_alt)
  then show ?thesis
    unfolding reducible_balance_def Let_def a_def [symmetric] liquid_def [symmetric]
    using L by (simp add: unat_saturating_sub)
qed

lemma reducible_le:
  assumes "n = reducible_balance cfg s who ka" and "a = stored_get s who"
  shows "n \<le> free a" and "n \<noteq> 0 \<Longrightarrow> misc_frozen a \<le> free a - n"
proof -
  have n: "unat n \<le> unat (free a) - max (unat (fee_frozen a)) (unat (misc_frozen a))"
    unfolding assms reducible_unat by (simp only: diff_le_self split: if_split) simp
  then show le: "n \<le> free a" by (simp add: word_le_nat_alt)
  show "misc_frozen a \<le> free a - n" if "n \<noteq> 0"
    using n le that by (simp add: word_le_nat_alt unat_sub_nowrap word_unat_eq_iff)
qed

lemma reducible_keeps:
  assumes bal: "balanced cfg s" and n: "n = reducible_balance cfg s who ka" and nz: "n \<noteq> 0"
  shows "ExistentialDeposit cfg \<le> total ((stored_get s who)\<lparr>free := free (stored_get s who) - n\<rparr>)
    \<or> can_dec_provider s who \<and> \<not> ka"
proof (cases "can_dec_provider s who \<and> \<not> ka")
  case False
  let ?a = "stored_get s who"
  define L where "L = unat (free ?a) - max (unat (fee_frozen ?a)) (unat (misc_frozen ?a))"
  have small: "worth ?a < 2 ^ 128" by (rule balanced_worth_less [OF bal])
  then have tot: "unat (total ?a) = worth ?a" by (simp add: unat_total)
  have un: "unat n = L - (unat (ExistentialDeposit cfg) - (worth ?a - L))"
    using reducible_unat [of cfg s who ka] False unfolding n L_def tot by auto
  have le: "n \<le> free ?a" by (rule reducible_le [OF n refl])
  have "?a \<noteq> default_account_data" using le nz by (auto simp: default_account_data_def)
  then have ed: "unat (ExistentialDeposit cfg) \<le> worth ?a" by (rule balanced_alive [OF bal])
  have w: "worth (?a\<lparr>free := free ?a - n\<rparr>) + unat n = worth ?a"
    using le by (simp add: worth_def unat_sub_nowrap word_le_nat_alt)
  have "L \<le> unat (free ?a)" by (simp add: L_def)
  then have "unat n \<le> worth ?a - unat (ExistentialDeposit cfg)"
    using un ed by (simp add: worth_def)
  then have "unat (ExistentialDeposit cfg) \<le> worth (?a\<lparr>free := free ?a - n\<rparr>)" using w ed by linarith
  then show ?thesis using small w by (simp add: word_le_nat_alt unat_total)
qed simp

lemma deposit_fits:
  assumes "balanced cfg s" and "a \<noteq> b" and "n \<le> free (stored_get s a)"
    and "stored_get s b \<noteq> default_account_data"
  shows "unat (free (stored_get s b)) + unat n < 2 ^ 128"
    and "unat (free (stored_get s b) + n) = unat (free (stored_get s b)) + unat n"
    and "ExistentialDeposit cfg \<le> total ((stored_get s b)\<lparr>free := free (stored_get s b) + n\<rparr>)"
proof -
  let ?y = "stored_get s b"
  have "worth (stored_get s a) + worth ?y < 2 ^ 128"
    using two_worth [of "stored_get s" a b] assms(1,2) unat_u128_less [of "TotalIssuance s"]
    by (simp add: balanced_def gap_0)
  then have w: "worth ?y + unat n < 2 ^ 128" using assms(3) by (simp add: worth_def word_le_nat_alt)
  then show room: "unat (free ?y) + unat n < 2 ^ 128" by (simp add: worth_def)
  then show sum: "unat (free ?y + n) = unat (free ?y) + unat n" by (simp add: unat_add_nowrap)
  show "ExistentialDeposit cfg \<le> total (?y\<lparr>free := free ?y + n\<rparr>)"
    using grown_alive [OF assms(1), of b "?y\<lparr>free := free ?y + n\<rparr>"] assms(4) w sum by (simp add: worth_def)
qed

lemma update_locks_empty:
  assumes "stored_get s who = default_account_data" and "0 < ExistentialDeposit cfg" and "lks \<noteq> []"
  shows "stored_get (update_locks cfg who lks s) = stored_get s"
    and "Locks (update_locks cfg who lks s) who = Some lks"
proof -
  let ?b = "frozen_by lks ((stored_get s who)\<lparr>misc_frozen := 0, fee_frozen := 0\<rparr>)"
  let ?g = "\<lambda>_ b _. Inr ((), frozen_by lks (b\<lparr>misc_frozen := 0, fee_frozen := 0\<rparr>))"
  obtain u where u: "try_mutate_account cfg id no_drop who (reading ?g) s = (Inr (), u)"
    "mutated cfg s who ?b u"
    using reading_closure_ok [of ?g s who "()" ?b cfg id no_drop] assms(1) by auto
  have "total ?b = total (stored_get s who)" by (simp add: total_def)
  then have "settled cfg ?b = stored_get s who" using assms(1,2) by (simp add: settled_def)
  then have "stored_get u = stored_get s" using u(2) by (simp add: mutated_def)
  then show "stored_get (update_locks cfg who lks s) = stored_get s"
    and "Locks (update_locks cfg who lks s) who = Some lks"
    using u(1) assms(3) by (simp_all add: update_locks_def mutate_account_reading Let_def locks_ops)
qed

lemma deposit_creating_fresh:
  assumes "stored_get s who = default_account_data" and "n \<noteq> 0" and "ExistentialDeposit cfg \<le> n"
    and "deposit_creating cfg who n s = (imb, t)"
  shows "stored_get t who = default_account_data\<lparr>free := n\<rparr>" and "Locks t = Locks s"
proof -
  let ?g = "\<lambda>_. deposit_creating_closure cfg n"
  let ?b = "default_account_data\<lparr>free := n\<rparr>"
  have "total ?b = n"
    by (simp add: total_def default_account_data_def saturating_add_def unat_u128_less [simplified])
  then have b: "ExistentialDeposit cfg \<le> total ?b" using assms(3) by simp
  have "?g s (stored_get s who) (stored_get s who = default_account_data) = Inr (PositiveImbalance n, ?b)"
    using assms(1,3) unat_u128_less [of n]
    by (simp add: deposit_creating_closure_def ensure_def checked_add_def default_account_data_def)
  then obtain u where u: "try_mutate_account cfg stored_map_to_dispatch drop_positive who (reading ?g) s
      = (Inr (PositiveImbalance n), u)" "mutated cfg s who ?b u"
    using reading_closure_ok [of ?g s who "PositiveImbalance n" ?b cfg stored_map_to_dispatch drop_positive] b
    by auto
  then have "t = u" using assms(2,4) by (simp add: deposit_creating_def)
  then show "stored_get t who = default_account_data\<lparr>free := n\<rparr>" and "Locks t = Locks s"
    using u(2) b by (simp_all add: mutated_def)
qed

section \<open>Properties\<close>

text \<open>A small ledger for the witnesses: accounts 1 and 2 hold 100 and 50, the deposit is 10.\<close>

definition ex_cfg :: balances_config where
  "ex_cfg = \<lparr>ExistentialDeposit = 10, MaxLocks = 50, MaxReserves = 1\<rparr>"

definition ex_account :: "u32 \<Rightarrow> u32 \<Rightarrow> u128 \<Rightarrow> u128 \<Rightarrow> account_info" where
  "ex_account c p f r =
     default_account_info\<lparr>consumers := c, providers := p,
       data := default_account_data\<lparr>free := f, reserved := r\<rparr>\<rparr>"

definition ex_state :: "(nat \<rightharpoonup> account_info) \<Rightarrow> u128 \<Rightarrow> nat balances" where
  "ex_state accounts issuance =
     \<lparr>Account = accounts, Number = 0, ExecutionPhase = None, EventCount = 0, Events = [],
      EventTopics = (\<lambda>_. []), TotalIssuance = issuance, Locks = Map.empty,
      Reserves = Map.empty, StorageVersion = V2_0_0\<rparr>"

lemma stored_get_ex_state:
  "stored_get (ex_state m i) k = (case m k of None \<Rightarrow> default_account_data | Some a \<Rightarrow> data a)"
  by (simp add: stored_get_def account_get_def ex_state_def default_account_info_def
      split: option.split)

lemma data_ex_account [simp]:
  "data (ex_account c p f r) = default_account_data\<lparr>free := f, reserved := r\<rparr>"
  by (simp add: ex_account_def)

lemma ex_balanced:
  assumes "finite (dom m)" and "(\<Sum>k\<in>dom m. worth (data (the (m k)))) = unat i"
    and "\<And>k a. m k = Some a \<Longrightarrow> ExistentialDeposit ex_cfg \<le> total (data a)"
  shows "balanced ex_cfg (ex_state m i)"
proof -
  have w: "worth (stored_get (ex_state m i) k) = (if k \<in> dom m then worth (data (the (m k))) else 0)" for k
    by (auto simp: stored_get_ex_state split: option.split)
  have sub: "{k. worth (stored_get (ex_state m i) k) \<noteq> 0} \<subseteq> dom m" by (auto simp: w split: if_splits)
  have "held (stored_get (ex_state m i)) = unat i"
    using held_superset [OF assms(1) sub] assms(2) by (simp add: w)
  moreover have "TotalIssuance (ex_state m i) = i" by (simp add: ex_state_def)
  moreover have "finite_ledger (stored_get (ex_state m i))"
    using sub assms(1) by (auto simp: finite_ledger_def intro: finite_subset)
  moreover have "no_dust ex_cfg (ex_state m i)"
    using assms(3) by (auto simp: no_dust_def stored_get_ex_state split: option.split)
  ultimately show ?thesis by (simp add: balanced_def gap_0)
qed

text \<open>What evaluates an operation on such a ledger.\<close>

lemmas bal_exec =
  try_mutate_account_def try_mutate_account_with_dust_def reading_def try_mutate_exists_alt
  stored_query_def stored_get_ex_state ex_cfg_def is_providing_def default_account_data_def
  reserve_closure_def checked_sub_def checked_add_def ensure_can_withdraw_def ensure_def
  post_mutation_def total_def saturating_add_def saturating_sub_def Let_def

lemma reasons_from_simps [simp]: "reasons_from TRANSFER = Misc" "reasons_from RESERVE = Misc"
  by (simp_all add: reasons_from_def TRANSFER_def RESERVE_def TRANSACTION_PAYMENT_def)

text \<open>
  C15. A transfer either fails and leaves the whole state as it was, or moves exactly the amount:
  what stays with the sender covers its locks, the receiver ends at or above the existential
  deposit, no sum wraps, issuance falls by exactly the dust of a sender left below the existential
  deposit, and a keep-alive transfer leaves none.
\<close>

theorem transfer_all_or_nothing:
  "case transfer cfg a b value er s of
     (Inl e, t) \<Rightarrow> t = s
   | (Inr u, t) \<Rightarrow>
       if value = 0 \<or> a = b then t = s
       else
         let from = stored_get s a; to = stored_get s b;
             from' = from\<lparr>free := free from - value\<rparr>; to' = to\<lparr>free := free to + value\<rparr>
         in value \<le> free from \<and> misc_frozen from \<le> free from'
            \<and> unat (free to') = unat (free to) + unat value
            \<and> stored_get t = (stored_get s)(a := settled cfg from', b := to')
            \<and> ExistentialDeposit cfg \<le> total to'
            \<and> (if er = KeepAlive then dust_of cfg from' = 0 else True)
            \<and> TotalIssuance t = saturating_sub (TotalIssuance s) (dust_of cfg from')
            \<and> Locks t = Locks s \<and> Reserves t = Reserves s"
proof (cases "value = 0 \<or> a = b")
  case True
  then show ?thesis by (simp add: transfer_def)
next
  case False
  then have "value \<noteq> 0" "a \<noteq> b" by auto
  then show ?thesis
  proof (cases rule: transfer_cases [of "value" a b cfg er s])
    case (ok from' to' t)
    note c = transfer_closure_ok [OF ok(2)]
    from c(5) have "settled cfg to' = to'" "dust_of cfg to' = 0" by (auto simp: settled_def dust_of_def)
    with ok(3) have m: "stored_get t = (stored_get s)(a := settled cfg from', b := to')"
      "TotalIssuance t = saturating_sub (TotalIssuance s) (dust_of cfg from')"
      "Locks t = Locks s" "Reserves t = Reserves s"
      by (simp_all add: moved_def saturating_sub_def)
    have k: "er = KeepAlive \<longrightarrow> dust_of cfg from' = 0"
      using c(7) by (auto simp: dust_of_def)
    show ?thesis
      using False c m k unfolding ok(1) Let_def c(2) [symmetric] c(4) [symmetric] by (auto simp: c(2,4))
  qed simp
qed

text \<open>
  C16. A transfer between different accounts goes through exactly when the sender has the funds,
  free of locks, the receiver can take them and ends alive, and the sender either stays alive or
  may die: no other error of the nested mutations is ever returned.
\<close>

theorem transfer_succeeds_iff:
  "is_ok (fst (transfer cfg a b value er s))
     = (if value = 0 \<or> a = b then True
        else
          let from = stored_get s a; to = stored_get s b;
              from' = from\<lparr>free := free from - value\<rparr>; to' = to\<lparr>free := free to + value\<rparr>
          in value \<le> free from \<and> unat (free to) + unat value < 2 ^ 128
             \<and> ExistentialDeposit cfg \<le> total to' \<and> misc_frozen from \<le> free from'
             \<and> (ExistentialDeposit cfg \<le> total from'
                 \<or> er = AllowDeath \<and> consumers (account_get s a) = 0))"
proof (cases "value = 0 \<or> a = b")
  case True
  then show ?thesis by (simp add: transfer_def)
next
  case False
  then have "value \<noteq> 0" "a \<noteq> b" by auto
  then have "is_ok (fst (transfer cfg a b value er s))
      = is_ok (transfer_closure cfg a value er (stored_get s b) (stored_get s a) s)"
    by (cases rule: transfer_cases [of "value" a b cfg er s]) (simp_all add:)
  also have "\<dots> = (let from = stored_get s a; to = stored_get s b;
              from' = from\<lparr>free := free from - value\<rparr>; to' = to\<lparr>free := free to + value\<rparr>
          in value \<le> free from \<and> unat (free to) + unat value < 2 ^ 128
             \<and> ExistentialDeposit cfg \<le> total to' \<and> misc_frozen from \<le> free from'
             \<and> (ExistentialDeposit cfg \<le> total from'
                 \<or> er = AllowDeath \<and> consumers (account_get s a) = 0))"
    using False
    by (auto simp: transfer_closure_def checked_sub_def checked_add_def ensure_def ensure_can_withdraw_def is_provider_required_def Let_def)
  finally show ?thesis using False by simp
qed

text \<open>
  C1. After any history of calls from genesis, the total issuance is exactly the sum of all free and
  reserved balances, and no account exists below the existential deposit, provided that deposits
  leave the issuance below \<open>2\<^sup>1\<^sup>2\<^sup>8\<close>, that accounts decreased by force (withdrawals, slashes,
  repatriations, transfers of held funds, set balances) can give up a provider reference, and that
  tokens are burned only from accounts with nothing reserved.  Calls that are refused count as well.
\<close>

theorem issuance_is_held:
  assumes "stored_get s0 = (\<lambda>_. default_account_data)" and "(\<Sum>(k, n) \<leftarrow> bals. unat n) < 2 ^ 128"
    and "genesis_build cfg bals s0 = Some s" and "safe_calls cfg lookup calls s"
  defines "t \<equiv> perform_all cfg lookup calls s"
  shows "unat (TotalIssuance t) = held (stored_get t)
    \<and> (\<forall>k. stored_get t k = default_account_data \<or> ExistentialDeposit cfg \<le> total (stored_get t k))"
  using perform_all_balanced [OF genesis_balanced [OF assms(1-3)] assms(4)]
  by (simp add: t_def balanced_def gap_0 no_dust_def)

lemma ex_genesis:
  "\<exists>s. genesis_build ex_cfg [(1, 100), (2, 50)] (ex_state Map.empty 0) = Some s"
proof -
  let ?s = "(ex_state Map.empty 0)\<lparr>TotalIssuance := 150, StorageVersion := V2_0_0\<rparr>"
  have "stored_get ?s = (\<lambda>_. default_account_data)" by (simp add: stored_get_ex_state fun_eq_iff)
  then have "\<exists>s. genesis_insert [(1, 100), (2, 50)] ?s = Some s"
    using genesis_insert_ok [of ?s "[(1, 100), (2, 50)]"] by (auto simp: finite_ledger_def)
  then show ?thesis by (simp add: genesis_build_def ex_cfg_def)
qed

theorem issuance_is_held_witness:
  "\<exists>s t. genesis_build ex_cfg [(1, 100), (2, 50)] (ex_state Map.empty 0) = Some s
     \<and> t = perform_all ex_cfg Inr [DoTransfer 1 2 95 AllowDeath, DoReserve 2 30, CallTransferAll (Signed 2) 1 True] s
     \<and> unat (TotalIssuance t) = held (stored_get t)"
proof -
  obtain s where s: "genesis_build ex_cfg [(1, 100), (2, 50)] (ex_state Map.empty 0) = Some s"
    using ex_genesis by blast
  have e: "stored_get (ex_state Map.empty 0) = (\<lambda>_. default_account_data)"
    "(\<Sum>(k, n) \<leftarrow> [(1, 100), (2, 50)]. unat (n :: u128)) < 2 ^ 128"
    by (simp_all add: stored_get_ex_state fun_eq_iff)
  from issuance_is_held [OF e s, of Inr "[DoTransfer 1 2 95 AllowDeath, DoReserve 2 30, CallTransferAll (Signed 2) 1 True]"]
  show ?thesis using s by auto
qed

text \<open>
  C33. After a lock of a non-zero amount whose reasons are not transaction payment alone is set on an
  account that exists, a transfer of a non-zero value to another account succeeds only when the free
  balance it leaves is at least the locked amount.
\<close>

theorem lock_enforced:
  assumes "no_dust cfg s" and "stored_get s a \<noteq> default_account_data"
    and "amount \<noteq> 0" and "reasons_from rs \<noteq> Fee" and "rs \<noteq> 0"
    and "fst (transfer cfg a b value er (set_lock cfg i a amount rs s)) = Inr ()"
    and "value \<noteq> 0" and "a \<noteq> b"
  shows "unat value + unat amount \<le> unat (free (stored_get s a))"
proof -
  let ?t = "set_lock cfg i a amount rs s"
  have t: "amount \<le> misc_frozen (stored_get ?t a)" "free (stored_get ?t a) = free (stored_get s a)"
    using set_lock_frozen [OF assms(1-5)] by auto
  from assms(7,8) show ?thesis
  proof (cases rule: transfer_cases [of "value" a b cfg er ?t])
    case err
    then show ?thesis using assms(6) by simp
  next
    case (ok from' to' u)
    note c = transfer_closure_ok [OF ok(2)]
    have le: "value \<le> free (stored_get s a)" using c(1) t(2) by simp
    have "amount \<le> free (stored_get s a) - value" using c(2,6) t assms(7) by auto
    then show ?thesis using le by (simp add: word_le_nat_alt unat_sub_nowrap)
  qed
qed

theorem lock_enforced_witness:
  "let s = ex_state [1 \<mapsto> ex_account 0 1 100 0, 2 \<mapsto> ex_account 0 1 50 0] 150
   in fst (transfer ex_cfg 1 2 80 KeepAlive (set_lock ex_cfg 7 1 5 TRANSFER s)) = Inr ()
      \<and> unat (80 :: u128) + unat (5 :: u128) \<le> unat (free (stored_get s 1))"
proof -
  let ?s = "ex_state [1 \<mapsto> ex_account 0 1 100 0, 2 \<mapsto> ex_account 0 1 50 0] 150"
  let ?t = "set_lock ex_cfg 7 1 5 TRANSFER ?s"
  have "balanced ex_cfg ?s"
    by (rule ex_balanced) (auto simp: bal_exec worth_def split: if_splits)
  then have nd: "no_dust ex_cfg ?s" by (rule balancedD)
  have d: "stored_get ?s 1 \<noteq> default_account_data" by (simp add: bal_exec)
  have l: "?t = update_locks ex_cfg 1 [\<lparr>lock_id = 7, lock_amount = 5, lock_reasons = Misc\<rparr>] ?s"
    by (simp add: set_lock_def with_lock_def locks_def) (simp add: ex_state_def TRANSFER_def)
  have t: "stored_get ?t = (stored_get ?s)(1 := (stored_get ?s 1)\<lparr>misc_frozen := 5, fee_frozen := 0\<rparr>)"
    unfolding l update_locks_frozen [OF nd d] by (simp add: bal_exec)
  have "\<exists>from' to'. transfer_closure ex_cfg 1 80 KeepAlive (stored_get ?t 2) (stored_get ?t 1) ?t
      = Inr (to', from')"
    unfolding t transfer_closure_def ensure_can_withdraw_def by (simp add: t bal_exec)
  then have ok: "fst (transfer ex_cfg 1 2 80 KeepAlive ?t) = Inr ()"
    using transfer_ok [of 80 1 2 ex_cfg KeepAlive ?t] by fastforce
  have tr: "TRANSFER \<noteq> 0" by (simp add: TRANSFER_def)
  from lock_enforced [OF nd d _ _ tr ok] show ?thesis using ok by simp
qed

text \<open>
  A slash accounts for all of its amount: what the imbalance carries and what is reported as
  remaining add up to it; and if the account may die, the slash takes everything there is up to
  the amount, the free balance first.
\<close>

theorem slash_accounts_for_value:
  "case slash cfg who value s of
     ((imb, remaining), t) \<Rightarrow>
       unat (peek_negative imb) + unat remaining = unat value
       \<and> (if can_dec_provider s who
          then unat (peek_negative imb) = min (unat value) (worth (stored_get s who)) else True)"
proof -
  obtain imb rem t where op: "slash cfg who value s = ((imb, rem), t)" by (metis surj_pair)
  show ?thesis using slash_sum [OF op] slash_takes [OF op] op by simp
qed

text \<open>
  Reserving an amount and unreserving it again brings every account's data back and leaves
  nothing unaccounted.
\<close>

theorem reserve_unreserve:
  assumes "balanced cfg s" and "reserve cfg who value s = (Inr (), t)"
  shows "fst (unreserve cfg who value t) = 0
    \<and> stored_get (snd (unreserve cfg who value t)) = stored_get s"
proof (cases "value = 0")
  case True
  then show ?thesis using assms(2) by (simp add: reserve_def unreserve_def)
next
  case False
  obtain b where b: "b = (stored_get s who)\<lparr>free := free (stored_get s who) - value,
        reserved := reserved (stored_get s who) + value\<rparr>"
      "value \<le> free (stored_get s who)" "ExistentialDeposit cfg \<le> total b"
      "ExistentialDeposit cfg \<le> total (stored_get s who)"
      "unat (reserved b) = unat (reserved (stored_get s who)) + unat value"
      "stored_get t = (stored_get s)(who := b)"
    using reserve_ok [OF assms False] by blast
  have c: "unreserve_closure value b = (value, stored_get s who)"
    by (rule unreserve_closure_undo) (use b in auto)
  have z: "total_balance t who \<noteq> 0"
    using b(5,6) False unfolding total_balance_def total_0_worth
    by (simp add: worth_def word_unat_eq_iff [of "value"])
  show ?thesis
    using unreserve_run [OF False z, of _ _ cfg] c b(4,6) by (auto simp: settled_def)
qed

theorem reserve_unreserve_witness:
  "fst (unreserve ex_cfg 1 30 (snd (reserve ex_cfg 1 30 (ex_state [1 \<mapsto> ex_account 0 1 100 0] 100)))) = 0"
proof -
  let ?s = "ex_state [1 \<mapsto> ex_account 0 1 100 0] 100"
  have "balanced ex_cfg ?s"
    by (rule ex_balanced) (auto simp: bal_exec worth_def split: if_splits)
  moreover have "reserve ex_cfg 1 30 ?s = (Inr (), snd (reserve ex_cfg 1 30 ?s))"
    by (simp add: reserve_def bal_exec)
  ultimately show ?thesis by (rule reserve_unreserve [THEN conjunct1])
qed

text \<open>
  C35. A withdrawal that would kill an account some pallet still references is refused, and the
  account keeps its funds; yet the imbalance and the dust of the refused withdrawal are dropped,
  so issuance falls below what the accounts hold.
\<close>

theorem refused_withdraw_loses_issuance:
  fixes s :: "('acc, 'm) balances_scheme" and who :: 'acc
  defines "a \<equiv> stored_get s who"
  assumes "value \<noteq> 0" and "value \<le> free a" and "\<not> can_dec_provider s who"
    and "total (a\<lparr>free := free a - value\<rparr>) < ExistentialDeposit cfg"
    and "frozen (reasons_from rs) a \<le> free a - value"
  shows "\<exists>t. withdraw cfg who value rs AllowDeath s = (Inl (stored_map_to_dispatch SmConsumerRemaining), t)
    \<and> stored_get t = stored_get s
    \<and> unat (TotalIssuance t)
        = unat (TotalIssuance s) - unat value - unat (total (a\<lparr>free := free a - value\<rparr>))"
proof -
  let ?g = "\<lambda>st account (_::bool). withdraw_closure cfg who value rs AllowDeath st account"
  let ?b = "a\<lparr>free := free a - value\<rparr>"
  have c: "?g s a (a = default_account_data) = Inr (NegativeImbalance value, ?b)"
    using assms by (simp add: withdraw_closure_def checked_sub_def word_le_nat_alt ensure_can_withdraw_def
        ensure_def Let_def)
  have nd: "a \<noteq> default_account_data" using assms(2,3) by (auto simp: default_account_data_def)
  have dust: "snd (post_mutation cfg ?b) = (if total ?b = 0 then None else Some (NegativeImbalance (total ?b)))"
    using assms(5) by (simp add: post_mutation_def Let_def)
  have run: "withdraw cfg who value rs AllowDeath s = (Inl (stored_map_to_dispatch SmConsumerRemaining),
      drop_negative (NegativeImbalance value) (drop_negative_option (snd (post_mutation cfg ?b)) s))"
    using reading_closure_refused [of ?g s who "NegativeImbalance value" ?b cfg stored_map_to_dispatch drop_negative]
      c nd assms(2,4,5) by (simp add: withdraw_def a_def)
  show ?thesis unfolding run dust by (simp add: unat_saturating_sub add.commute)
qed

theorem refused_withdraw_loses_issuance_witness:
  "\<exists>t. withdraw ex_cfg 1 95 TRANSFER AllowDeath (ex_state [1 \<mapsto> ex_account 1 1 100 0] 100)
       = (Inl (stored_map_to_dispatch SmConsumerRemaining), t)
     \<and> stored_get t = stored_get (ex_state [1 \<mapsto> ex_account 1 1 100 0] 100) \<and> unat (TotalIssuance t) = 0"
proof -
  let ?s = "ex_state [1 \<mapsto> ex_account 1 1 100 0] 100"
  have "\<not> can_dec_provider ?s 1"
    by (simp add: can_dec_provider_def is_provider_required_def account_get_def ex_state_def ex_account_def)
  from refused_withdraw_loses_issuance [OF _ _ this, of 95 ex_cfg TRANSFER] show ?thesis
    by (simp add: bal_exec) (simp add: ex_state_def)
qed

text \<open>
  \<open>burn_from\<close> takes the remainder of an account it brings below the existential deposit
  out of the free balance even when part of the remainder is reserved: the free balance wraps
  around below zero.
\<close>

theorem burn_from_wraps:
  fixes s :: "('acc, 'm) balances_scheme" and who :: 'acc
  defines "a \<equiv> stored_get s who"
  assumes "amount \<noteq> 0" and "amount \<le> TotalIssuance s" and "amount \<le> free a" and "reserved a \<noteq> 0"
    and "worth a < 2 ^ 128" and "total a - amount < ExistentialDeposit cfg"
    and "can_dec_provider s who" and "frozen All a \<le> free a - amount"
  shows "\<exists>t. burn_from cfg who amount s = (Inr (total a), t)
    \<and> stored_get t who = a\<lparr>free := - reserved a\<rparr>"
proof -
  let ?g = "\<lambda>st account (_::bool). burn_closure cfg who amount st account"
  let ?b = "a\<lparr>free := - reserved a\<rparr>"
  have "unat (free a + reserved a) = unat (free a) + unat (reserved a)"
    using assms(6) by (intro unat_add_nowrap) (simp add: worth_def)
  then have ta: "total a = free a + reserved a"
    using assms(6) by (simp add: word_unat_eq_iff unat_total worth_def)
  have "unat amount \<le> unat (total a)" using assms(4,6) by (simp add: unat_total worth_def word_le_nat_alt)
  then have c: "?g s a (a = default_account_data) = Inr (total a, ?b)"
    using assms ta
    by (simp add: burn_closure_def withdraw_consequence_def checked_sub_def word_le_nat_alt Let_def not_less)
  have nz: "unat (reserved a) \<noteq> 0" using assms(5) by (simp add: word_unat_eq_iff)
  have "unat (- reserved a) = 2 ^ 128 - unat (reserved a)"
    using assms(5) by (simp add: unat_uminus_u128)
  then have "unat (total ?b) = 2 ^ 128 - 1"
    using unat_u128_less [of "reserved a"] by (simp add: unat_total worth_def)
  then have ed: "ExistentialDeposit cfg \<le> total ?b"
    using unat_u128_less [of "ExistentialDeposit cfg"] by (simp add: word_le_nat_alt)
  obtain u where "try_mutate_account cfg stored_map_to_dispatch no_drop who (reading ?g) s = (Inr (total a), u)"
    "mutated cfg s who ?b u"
    using reading_closure_ok [of ?g s who "total a" ?b cfg stored_map_to_dispatch no_drop] c ed
    unfolding a_def by auto
  then show ?thesis using assms(2) ed by (simp add: burn_from_def mutated_def)
qed

theorem burn_from_wraps_witness:
  "\<exists>t. burn_from ex_cfg 1 98 (ex_state [1 \<mapsto> ex_account 0 1 100 5] 105) = (Inr 105, t)
     \<and> free (stored_get t 1) = - 5"
proof -
  let ?s = "ex_state [1 \<mapsto> ex_account 0 1 100 5] 105"
  have "can_dec_provider ?s 1"
    by (simp add: can_dec_provider_def is_provider_required_def account_get_def ex_state_def ex_account_def)
  from burn_from_wraps [OF _ _ _ _ _ _ this, of 98 ex_cfg] show ?thesis
    by (simp add: bal_exec worth_def) (auto simp: ex_state_def)
qed

text \<open>
  Repatriating a named reserve to an account whose list of named reserves is full reports
  \<open>TooManyReserves\<close> only after the funds have moved: the beneficiary's reserved balance has
  grown while neither list of named reserves has changed.
\<close>

theorem repatriate_named_not_atomic:
  assumes "balanced cfg s" and "can_dec_provider s a" and "a \<noteq> b" and "value \<noteq> 0"
    and "binary_search_by_key rid reserve_id (reserves s a) = Inr i"
    and "binary_search_by_key rid reserve_id (reserves s b) = Inl j"
    and "unat (MaxReserves cfg) \<le> length (reserves s b)"
    and "n = min (reserve_amount (reserves s a ! i)) value" and "n \<noteq> 0"
    and "n \<le> reserved (stored_get s a)" and "stored_get s b \<noteq> default_account_data"
  shows "\<exists>t. repatriate_reserved_named cfg rid a b value StatusReserved s
        = (Inl (BalancesModule TooManyReserves), t)
    \<and> unat (reserved (stored_get t b)) = unat (reserved (stored_get s b)) + unat n
    \<and> Reserves t = Reserves s"
proof -
  obtain t where t: "repatriate_reserved cfg a b n StatusReserved s = (Inr 0, t)"
    "unat (reserved (stored_get t b)) = unat (reserved (stored_get s b)) + unat n" "Reserves t = Reserves s"
    using repatriate_reserved_all [OF assms(1-3,9-11)] by blast
  have "repatriate_to_named cfg rid a b n s = (Inl (BalancesModule TooManyReserves), t)"
    using t(1) assms(6,7) by (simp add: repatriate_to_named_def try_insert_reserve_def Let_def)
  then have "repatriate_reserved_named cfg rid a b value StatusReserved s
      = (Inl (BalancesModule TooManyReserves), t)"
    using assms(3-5) unfolding repatriate_reserved_named_def assms(8) by (simp add: Let_def)
  then show ?thesis using t by simp
qed

theorem repatriate_named_not_atomic_witness:
  "let s = (ex_state [1 \<mapsto> ex_account 0 1 100 20, 2 \<mapsto> ex_account 0 1 50 5] 175)
       \<lparr>Reserves := [1 \<mapsto> [\<lparr>reserve_id = 7, reserve_amount = 20\<rparr>],
                     2 \<mapsto> [\<lparr>reserve_id = 8, reserve_amount = 5\<rparr>]]\<rparr>
   in \<exists>t. repatriate_reserved_named ex_cfg 7 1 2 15 StatusReserved s
          = (Inl (BalancesModule TooManyReserves), t)
        \<and> unat (reserved (stored_get t 2)) = 20 \<and> Reserves t = Reserves s"
proof -
  let ?m = "[1 \<mapsto> ex_account 0 1 100 20, 2 \<mapsto> ex_account 0 1 50 5]"
  let ?s = "(ex_state ?m 175)\<lparr>Reserves := [1 \<mapsto> [\<lparr>reserve_id = 7, reserve_amount = 20\<rparr>],
      2 \<mapsto> [\<lparr>reserve_id = 8, reserve_amount = 5\<rparr>]]\<rparr>"
  have "balanced ex_cfg (ex_state ?m 175)"
    by (rule ex_balanced) (auto simp: bal_exec worth_def split: if_splits)
  then have bal: "balanced ex_cfg ?s" by simp
  have cd: "can_dec_provider ?s 1"
    by (simp add: can_dec_provider_def is_provider_required_def account_get_def ex_state_def ex_account_def)
  have s: "binary_search_by_key 7 reserve_id (reserves ?s 1) = Inr 0"
    "binary_search_by_key 7 reserve_id (reserves ?s 2) = Inl 0"
    "unat (MaxReserves ex_cfg) \<le> length (reserves ?s 2)"
    "15 = min (reserve_amount (reserves ?s 1 ! 0)) 15"
    by (simp_all add: reserves_def ex_cfg_def binary_search_by_key_def)
  from repatriate_named_not_atomic [OF bal cd _ _ s] show ?thesis
    by (simp add: bal_exec)
qed

text \<open>
  For an account with a consumer reference and a second provider, \<open>transfer_all\<close> without
  keep-alive asks for all of the liquid balance, and the transfer is then refused with
  \<open>KeepAlive\<close>: nothing moves.
\<close>

theorem transfer_all_refused:
  assumes "balanced cfg s" and "can_dec_provider s a" and "consumers (account_get s a) \<noteq> 0"
    and "a \<noteq> b" and "stored_get s b \<noteq> default_account_data"
    and "lookup dest = Inr b" and "n = reducible_balance cfg s a False" and "n \<noteq> 0"
    and "total ((stored_get s a)\<lparr>free := free (stored_get s a) - n\<rparr>) < ExistentialDeposit cfg"
  shows "call_transfer_all cfg lookup (Signed a) dest False s = (Inl (BalancesModule KeepAliveErr), s)"
proof -
  let ?x = "stored_get s a" and ?y = "stored_get s b"
  note n = reducible_le [OF assms(7) refl]
  have sum: "unat (free ?y + n) = unat (free ?y) + unat n" "ExistentialDeposit cfg \<le> total (?y\<lparr>free := free ?y + n\<rparr>)"
    "unat (free ?y) + unat n < 2 ^ 128"
    using deposit_fits [OF assms(1,4) n(1) assms(5)] by auto
  have "transfer_closure cfg a n AllowDeath ?y ?x s = Inl (BalancesModule KeepAliveErr)"
    using n sum assms(3,8,9)
    by (simp add: transfer_closure_def checked_sub_def checked_add_def word_le_nat_alt word_less_nat_alt
        ensure_def ensure_can_withdraw_def is_provider_required_def Let_def)
  then have "transfer cfg a b n AllowDeath s = (Inl (BalancesModule KeepAliveErr), s)"
    by (cases rule: transfer_cases [OF assms(8,4), of cfg AllowDeath s]) auto
  then show ?thesis using assms(6,7) by (simp add: call_transfer_all_def)
qed

theorem transfer_all_refused_witness:
  "let s = ex_state [1 \<mapsto> ex_account 1 2 100 0, 2 \<mapsto> ex_account 0 1 50 0] 150
   in call_transfer_all ex_cfg Inr (Signed 1) 2 False s = (Inl (BalancesModule KeepAliveErr), s)"
proof -
  let ?s = "ex_state [1 \<mapsto> ex_account 1 2 100 0, 2 \<mapsto> ex_account 0 1 50 0] 150"
  have bal: "balanced ex_cfg ?s"
    by (rule ex_balanced) (auto simp: bal_exec worth_def split: if_splits)
  have cd: "can_dec_provider ?s 1"
    by (simp add: can_dec_provider_def is_provider_required_def account_get_def ex_state_def ex_account_def)
  have c: "consumers (account_get ?s 1) \<noteq> 0" by (simp add: account_get_def ex_state_def ex_account_def)
  have n: "100 = reducible_balance ex_cfg ?s 1 False"
    using cd by (simp add: reducible_balance_def bal_exec)
  from transfer_all_refused [OF bal cd c _ _ _ n, of 2 Inr 2] show ?thesis by (simp add: bal_exec)
qed

text \<open>
  For every other account \<open>transfer_all\<close> does what its name says, if the destination
  exists: all of the liquid balance moves, less what keeps the account at the existential deposit
  when it must stay.
\<close>

theorem transfer_all_moves:
  assumes "balanced cfg s" and "can_dec_provider s a = (consumers (account_get s a) = 0)"
    and "a \<noteq> b" and "stored_get s b \<noteq> default_account_data" and "lookup dest = Inr b"
    and "n = reducible_balance cfg s a ka"
  shows "\<exists>t. call_transfer_all cfg lookup (Signed a) dest ka s = (Inr (), t)
    \<and> stored_get t b = (stored_get s b)\<lparr>free := free (stored_get s b) + n\<rparr>
    \<and> stored_get t a = settled cfg ((stored_get s a)\<lparr>free := free (stored_get s a) - n\<rparr>)"
proof (cases "n = 0")
  case True
  then show ?thesis
    using assms(5,6) balancedD(2) [OF assms(1)]
    by (auto simp: call_transfer_all_def transfer_def no_dust_def settled_def dest: spec [of _ a])
next
  case False
  let ?x = "stored_get s a" and ?y = "stored_get s b"
  let ?er = "if ka then KeepAlive else AllowDeath"
  note n = reducible_le [OF assms(6) refl]
  note fits = deposit_fits [OF assms(1,3) n(1) assms(4)]
  have alive: "ExistentialDeposit cfg \<le> total (?x\<lparr>free := free ?x - n\<rparr>)
      \<or> \<not> ka \<and> consumers (account_get s a) = 0"
    using reducible_keeps [OF assms(1) assms(6) False] assms(2) by auto
  have "transfer_closure cfg a n ?er ?y ?x s
      = Inr (?y\<lparr>free := free ?y + n\<rparr>, ?x\<lparr>free := free ?x - n\<rparr>)"
    using n fits alive False
    by (auto simp add: transfer_closure_def checked_sub_def checked_add_def word_le_nat_alt
        ensure_def ensure_can_withdraw_def is_provider_required_def Let_def)
  from transfer_ok [OF False assms(3) this] obtain t where
    t: "transfer cfg a b n ?er s = (Inr (), t)"
      "moved cfg s a (?x\<lparr>free := free ?x - n\<rparr>) b (?y\<lparr>free := free ?y + n\<rparr>) t" by blast
  then show ?thesis
    using assms(3,5,6) fits(3) by (auto simp: call_transfer_all_def moved_def)
qed

theorem transfer_all_moves_witness:
  "let s = ex_state [1 \<mapsto> ex_account 0 1 100 0, 2 \<mapsto> ex_account 0 1 50 0] 150
   in \<exists>t. call_transfer_all ex_cfg Inr (Signed 1) 2 True s = (Inr (), t)
        \<and> free (stored_get t 2) = 140 \<and> free (stored_get t 1) = 10"
proof -
  let ?s = "ex_state [1 \<mapsto> ex_account 0 1 100 0, 2 \<mapsto> ex_account 0 1 50 0] 150"
  have bal: "balanced ex_cfg ?s"
    by (rule ex_balanced) (auto simp: bal_exec worth_def split: if_splits)
  have cd: "can_dec_provider ?s 1 = (consumers (account_get ?s 1) = 0)"
    by (simp add: can_dec_provider_def is_provider_required_def account_get_def ex_state_def ex_account_def)
  have n: "90 = reducible_balance ex_cfg ?s 1 True"
    by (simp add: reducible_balance_def bal_exec)
  from transfer_all_moves [OF bal cd _ _ _ n, of 2 Inr 2] show ?thesis
    by (auto simp: bal_exec settled_def)
qed

text \<open>
  A lock set on an account that holds nothing is recorded but never enforced: when funds
  arrive later the account is created with nothing frozen, so all of them stay transferable.
\<close>

theorem lock_on_empty_account_ignored:
  assumes "stored_get s who = default_account_data" and "0 < ExistentialDeposit cfg"
    and "amount \<noteq> 0" and "rs \<noteq> 0" and "ExistentialDeposit cfg \<le> n"
    and "deposit_creating cfg who n (set_lock cfg i who amount rs s) = (imb, t)"
  shows "\<lparr>lock_id = i, lock_amount = amount, lock_reasons = reasons_from rs\<rparr> \<in> set (locks t who)
    \<and> stored_get t who = default_account_data\<lparr>free := n\<rparr>"
proof -
  let ?nl = "\<lparr>lock_id = i, lock_amount = amount, lock_reasons = reasons_from rs\<rparr>"
  let ?ls = "with_lock (\<lambda>l nl. nl) ?nl (locks s who)"
  let ?s1 = "set_lock cfg i who amount rs s"
  have ls: "?ls \<noteq> []" using with_lock_mem [of ?nl] by (metis empty_iff empty_set)
  have s1: "stored_get ?s1 = stored_get s" "Locks ?s1 who = Some ?ls"
    using update_locks_empty [OF assms(1,2) ls] assms(3,4) by (simp_all add: set_lock_def Let_def)
  have n: "n \<noteq> 0" using assms(2,5) by auto
  have "stored_get t who = default_account_data\<lparr>free := n\<rparr>" "Locks t = Locks ?s1"
    using deposit_creating_fresh [OF _ n assms(5,6)] s1(1) assms(1) by auto
  then show ?thesis using s1(2) with_lock_mem [of ?nl] by (simp add: locks_def)
qed

theorem lock_on_empty_account_ignored_witness:
  "let t = snd (deposit_creating ex_cfg 3 50 (set_lock ex_cfg 7 3 40 TRANSFER (ex_state Map.empty 0)))
   in \<lparr>lock_id = 7, lock_amount = 40, lock_reasons = Misc\<rparr> \<in> set (locks t 3)
      \<and> stored_get t 3 = default_account_data\<lparr>free := 50\<rparr>"
proof -
  have "stored_get (ex_state Map.empty 0) 3 = default_account_data" by (simp add: stored_get_ex_state)
  from lock_on_empty_account_ignored [OF this, of ex_cfg 40 TRANSFER 50 7] show ?thesis
    by (simp add: ex_cfg_def TRANSFER_def prod_eq_iff Let_def)
       (simp add: reasons_from_simps [unfolded TRANSFER_def])
qed

text \<open>
  Repatriating to the same account moves all of the amount from reserved to free, and then
  reports all of it as not moved.
\<close>

theorem repatriate_to_self_misreports:
  assumes "balanced cfg s" and "value \<noteq> 0" and "value \<le> reserved (stored_get s a)"
  shows "\<exists>t. repatriate_reserved cfg a a value StatusFree s = (Inr value, t)
    \<and> unat (free (stored_get t a)) = unat (free (stored_get s a)) + unat value
    \<and> unat (reserved (stored_get t a)) + unat value = unat (reserved (stored_get s a))"
proof -
  obtain r b where c: "unreserve_closure value (stored_get s a) = (r, b)" by fastforce
  note u = unreserve_closure_ok [OF c balanced_worth_less [OF assms(1)]]
  have r: "r = value" using u(2) assms(3) by (simp add: min.absorb2)
  have "worth (stored_get s a) \<noteq> 0"
    using assms(2,3) by (simp add: worth_def word_le_nat_alt word_unat_eq_iff)
  then have tb: "total_balance s a \<noteq> 0" and nd: "stored_get s a \<noteq> default_account_data"
    by (auto simp: total_balance_def total_0_worth)
  have ed: "ExistentialDeposit cfg \<le> total b"
    using grown_alive [OF assms(1), of a b] u(1) nd balanced_worth_less [OF assms(1), of a] by simp
  from unreserve_run [OF assms(2) tb c ed] r u(3,4) show ?thesis
    using assms(2)
    by (auto simp: repatriate_reserved_def do_transfer_reserved_def saturating_sub_def case_prod_beta)
qed

theorem repatriate_to_self_misreports_witness:
  "\<exists>t. repatriate_reserved ex_cfg 1 1 15 StatusFree (ex_state [1 \<mapsto> ex_account 0 1 100 20] 120) = (Inr 15, t)
     \<and> unat (free (stored_get t 1)) = 115"
proof -
  let ?s = "ex_state [1 \<mapsto> ex_account 0 1 100 20] 120"
  have "balanced ex_cfg ?s"
    by (rule ex_balanced) (auto simp: bal_exec worth_def split: if_splits)
  from repatriate_to_self_misreports [OF this, of 15 1] show ?thesis by (auto simp: bal_exec)
qed

end
