(* ===== verification/Rust_Collections.thy ===== *)
theory Rust_Collections
  imports Rust_Prelude
begin

text \<open>
  The ordered collections of the Rust standard library as the modelled code uses them: a
  \<open>BTreeMap\<close> is the association list of its entries in the order of its keys, which is the
  order its iterators run in.  The interface \<open>ordered_map\<close> states what clients rely on.
\<close>

section \<open>BTreeMap\<close>

type_synonym ('k, 'v) btree_map = "('k \<times> 'v) list"

abbreviation bt_get :: "('k, 'v) btree_map \<Rightarrow> 'k \<Rightarrow> 'v option" where
  "bt_get \<equiv> map_of"

fun bt_put :: "'k::linorder \<Rightarrow> 'v \<Rightarrow> ('k, 'v) btree_map \<Rightarrow> ('k, 'v) btree_map" where
  "bt_put k v [] = [(k, v)]"
| "bt_put k v ((k', v') # m) =
     (if k < k' then (k, v) # (k', v') # m
      else if k = k' then (k, v) # m
      else (k', v') # bt_put k v m)"

definition bt_del :: "'k \<Rightarrow> ('k, 'v) btree_map \<Rightarrow> ('k, 'v) btree_map" where
  "bt_del k m = filter (\<lambda>(k', _). k' \<noteq> k) m"

text \<open>\<open>range((Excluded(k), Unbounded))\<close>.\<close>

definition bt_after :: "'k::linorder \<Rightarrow> ('k, 'v) btree_map \<Rightarrow> ('k, 'v) btree_map" where
  "bt_after k m = filter (\<lambda>(k', _). k < k') m"

definition bt_inv :: "('k::linorder, 'v) btree_map \<Rightarrow> bool" where
  "bt_inv m = (sorted (map fst m) \<and> distinct (map fst m))"

section \<open>Reverse\<close>

text \<open>\<open>std::cmp::Reverse\<close>.\<close>

datatype 'n reverse = Reverse (unreverse: 'n)

instantiation reverse :: (linorder) linorder
begin

definition less_eq_reverse :: "'a reverse \<Rightarrow> 'a reverse \<Rightarrow> bool" where
  "less_eq_reverse a b = (unreverse b \<le> unreverse a)"

definition less_reverse :: "'a reverse \<Rightarrow> 'a reverse \<Rightarrow> bool" where
  "less_reverse a b = (unreverse b < unreverse a)"

instance
  by standard (auto simp: less_eq_reverse_def less_reverse_def reverse.expand)

end

lemma reverse_eq_iff: "(x :: 'n reverse) = y \<longleftrightarrow> unreverse x = unreverse y"
  by (cases x; cases y) simp

section \<open>What clients rely on\<close>

locale ordered_map =
  fixes get :: "'m \<Rightarrow> 'k::linorder \<Rightarrow> 'v option"
    and put :: "'k \<Rightarrow> 'v \<Rightarrow> 'm \<Rightarrow> 'm"
    and del :: "'k \<Rightarrow> 'm \<Rightarrow> 'm"
    and entries :: "'m \<Rightarrow> ('k \<times> 'v) list"
    and inv :: "'m \<Rightarrow> bool"
  assumes get_put: "get (put k v m) = (get m)(k \<mapsto> v)"
    and get_del: "get (del k m) = (get m)(k := None)"
    and put_inv: "inv m \<Longrightarrow> inv (put k v m)"
    and del_inv: "inv m \<Longrightarrow> inv (del k m)"
    and entries_get: "inv m \<Longrightarrow> (k, v) \<in> set (entries m) \<longleftrightarrow> get m k = Some v"
    and entries_sorted: "inv m \<Longrightarrow> sorted_wrt (<) (map fst (entries m))"
begin

lemma put_same: "get m k = Some v \<Longrightarrow> get (put k v m) = get m"
  by (simp add: get_put fun_upd_idem)

lemma del_absent: "get m k = None \<Longrightarrow> get (del k m) = get m"
  by (simp add: get_del fun_upd_idem)

lemma entries_cong:
  assumes "inv m" and "inv m'" and "get m = get m'"
  shows "entries m = entries m'"
proof -
  have st: "set (entries m) = set (entries m')"
    using entries_get [OF assms(1)] entries_get [OF assms(2)] assms(3) by (intro set_eqI) auto
  have d: "distinct (map fst (entries m))" "distinct (map fst (entries m'))"
    and s: "sorted (map fst (entries m))" "sorted (map fst (entries m'))"
    using entries_sorted [OF assms(1)] entries_sorted [OF assms(2)]
    by (auto simp: strict_sorted_iff)
  have "fst ` set (entries m) = fst ` set (entries m')" using st by simp
  then have keys: "map fst (entries m) = map fst (entries m')"
    using d s by (intro sorted_distinct_set_unique) auto
  show ?thesis
  proof (rule nth_equalityI)
    show len: "length (entries m) = length (entries m')" using keys by (metis length_map)
    fix i assume i: "i < length (entries m)"
    then have "entries m ! i \<in> set (entries m')" "entries m' ! i \<in> set (entries m')"
      using st len by (metis nth_mem)+
    moreover have "fst (entries m ! i) = fst (entries m' ! i)"
      using keys i len by (metis nth_map)
    ultimately show "entries m ! i = entries m' ! i"
      using d(2) by (metis eq_key_imp_eq_value prod.collapse)
  qed
qed

end

lemma map_of_bt_put [simp]: "map_of (bt_put k v m) = (map_of m)(k \<mapsto> v)"
  by (induction k v m rule: bt_put.induct) auto

lemma map_of_bt_del [simp]: "map_of (bt_del k m) = (map_of m)(k := None)"
  by (induction m) (auto simp: bt_del_def fun_eq_iff)

lemma set_bt_put_keys: "fst ` set (bt_put k v m) = insert k (fst ` set m)"
  by (induction k v m rule: bt_put.induct) auto

lemma bt_put_inv [simp]: "bt_inv m \<Longrightarrow> bt_inv (bt_put k v m)"
  by (induction k v m rule: bt_put.induct) (auto simp: bt_inv_def set_bt_put_keys image_iff less_le)

lemma map_fst_bt_del: "map fst (bt_del k m) = filter (\<lambda>k'. k' \<noteq> k) (map fst m)"
  by (induction m) (auto simp: bt_del_def)

lemma bt_del_inv [simp]: "bt_inv m \<Longrightarrow> bt_inv (bt_del k m)"
  unfolding bt_inv_def map_fst_bt_del
  by (simp add: sorted_wrt_filter)

lemma bt_inv_Nil [simp]: "bt_inv []"
  by (simp add: bt_inv_def)

interpretation bt: ordered_map bt_get bt_put bt_del id bt_inv
proof (unfold_locales, goal_cases)
  case (6 m)
  then show ?case by (simp add: bt_inv_def strict_sorted_iff)
next
  case (5 m k v)
  then show ?case by (simp add: bt_inv_def)
qed simp_all

end
