(* ===== verification/Overlayed_Changeset.thy ===== *)
theory Overlayed_Changeset
  imports Rust_Collections
begin

text \<open>
  The transactional overlay of the state machine
  (\<open>primitives/state-machine/src/overlayed_changes/changeset.rs\<close>): a map from keys to the
  versions of their values, one version per open transaction that wrote the key.  The vectors used
  as stacks (\<open>transactions\<close>, \<open>dirty_keys\<close>) are lists with the top first; a set of dirty
  keys is the list of its elements in the order a traversal visits them.  \<open>None\<close> as the result
  of an operation is a failed \<open>expect\<close> or \<open>assert\<close>.
\<close>

section \<open>Entries\<close>

text \<open>\<open>Extrinsics\<close> of \<open>overlayed_changes/mod.rs\<close>.\<close>

definition extrinsics_insert :: "u32 \<Rightarrow> u32 list \<Rightarrow> u32 list" where
  "extrinsics_insert ext xs = (if xs \<noteq> [] \<and> last xs = ext then xs else xs @ [ext])"

record 'v inner_value =
  iv_value :: 'v
  iv_extrinsics :: "u32 list"

record 'v overlayed_entry =
  transactions :: "'v inner_value list"

definition default_entry :: "'v overlayed_entry" where
  "default_entry = \<lparr>transactions = []\<rparr>"

definition value_ref :: "'v overlayed_entry \<Rightarrow> 'v option" where
  "value_ref e = (case transactions e of [] \<Rightarrow> None | t # _ \<Rightarrow> Some (iv_value t))"

definition entry_extrinsics :: "'v overlayed_entry \<Rightarrow> u32 set" where
  "entry_extrinsics e = (\<Union>t \<in> set (transactions e). set (iv_extrinsics t))"

definition note_extrinsic :: "u32 option \<Rightarrow> 'v inner_value list \<Rightarrow> 'v inner_value list" where
  "note_extrinsic at_extrinsic ts =
     (case (at_extrinsic, ts) of
        (Some ext, t # r) \<Rightarrow> t\<lparr>iv_extrinsics := extrinsics_insert ext (iv_extrinsics t)\<rparr> # r
      | _ \<Rightarrow> ts)"

definition entry_set :: "'v \<Rightarrow> bool \<Rightarrow> u32 option \<Rightarrow> 'v overlayed_entry \<Rightarrow> 'v overlayed_entry" where
  "entry_set v first_write_in_tx at_extrinsic e =
     \<lparr>transactions = note_extrinsic at_extrinsic
        (case transactions e of
           [] \<Rightarrow> [\<lparr>iv_value = v, iv_extrinsics = []\<rparr>]
         | t # r \<Rightarrow>
             if first_write_in_tx then \<lparr>iv_value = v, iv_extrinsics = []\<rparr> # t # r
             else t\<lparr>iv_value := v\<rparr> # r)\<rparr>"

section \<open>The overlay\<close>

datatype exec_mode = Client | Runtime

record ('k, 'v) overlayed_map =
  changes :: "('k, 'v overlayed_entry) btree_map"
  dirty_keys :: "'k list list"
  num_client_transactions :: nat
  execution_mode :: exec_mode

definition default_overlay :: "('k, 'v) overlayed_map" where
  "default_overlay =
     \<lparr>changes = [], dirty_keys = [], num_client_transactions = 0, execution_mode = Client\<rparr>"

datatype overlay_error = NoOpenTransaction | AlreadyInRuntime | NotInRuntime

fun insert_dirty :: "'k list list \<Rightarrow> 'k \<Rightarrow> bool \<times> 'k list list" where
  "insert_dirty [] key = (False, [])"
| "insert_dirty (dk # rest) key =
     (if key \<in> set dk then (False, dk # rest) else (True, (dk @ [key]) # rest))"

definition transaction_depth :: "('k, 'v) overlayed_map \<Rightarrow> nat" where
  "transaction_depth s = length (dirty_keys s)"

definition has_open_runtime_transactions :: "('k, 'v) overlayed_map \<Rightarrow> bool" where
  "has_open_runtime_transactions s = (transaction_depth s > num_client_transactions s)"

definition spawn_child :: "('k, 'v) overlayed_map \<Rightarrow> ('k2, 'v2) overlayed_map" where
  "spawn_child s =
     \<lparr>changes = [], dirty_keys = replicate (transaction_depth s) [],
      num_client_transactions = num_client_transactions s, execution_mode = execution_mode s\<rparr>"

definition is_empty :: "('k, 'v) overlayed_map \<Rightarrow> bool" where
  "is_empty s = (changes s = [])"

definition overlay_get :: "('k, 'v) overlayed_map \<Rightarrow> 'k \<Rightarrow> 'v overlayed_entry option" where
  "overlay_get s key = bt_get (changes s) key"

definition overlay_set ::
    "'k::linorder \<Rightarrow> 'v \<Rightarrow> u32 option \<Rightarrow> ('k, 'v) overlayed_map \<Rightarrow> ('k, 'v) overlayed_map" where
  "overlay_set key v at_extrinsic s =
     (let overlayed = unwrap_or_default default_entry (bt_get (changes s) key);
          (first_write, dk) = insert_dirty (dirty_keys s) key
      in s\<lparr>changes := bt_put key (entry_set v first_write at_extrinsic overlayed) (changes s),
           dirty_keys := dk\<rparr>)"

text \<open>Panics with open transactions.\<close>

definition drain_commited :: "('k, 'v) overlayed_map \<Rightarrow> ('k \<times> 'v) list option" where
  "drain_commited s =
     (if transaction_depth s \<noteq> 0 then None
      else those (map (\<lambda>(k, e). map_option (Pair k) (value_ref e)) (changes s)))"

definition enter_runtime ::
    "('k, 'v) overlayed_map \<Rightarrow> (overlay_error + unit) \<times> ('k, 'v) overlayed_map" where
  "enter_runtime s =
     (if execution_mode s = Runtime then (Inl AlreadyInRuntime, s)
      else (Inr (), s\<lparr>execution_mode := Runtime, num_client_transactions := transaction_depth s\<rparr>))"

definition start_transaction :: "('k, 'v) overlayed_map \<Rightarrow> ('k, 'v) overlayed_map" where
  "start_transaction s = s\<lparr>dirty_keys := [] # dirty_keys s\<rparr>"

text \<open>The body of the loop of \<open>close_transaction\<close> over the keys of the closed transaction.\<close>

definition rollback_key ::
    "'k::linorder \<Rightarrow> ('k, 'v) overlayed_map \<Rightarrow> ('k, 'v) overlayed_map option" where
  "rollback_key key s =
     (case bt_get (changes s) key of
        None \<Rightarrow> None
      | Some overlayed \<Rightarrow>
          (case transactions overlayed of
             [] \<Rightarrow> None
           | t # r \<Rightarrow>
               Some (if r = [] then s\<lparr>changes := bt_del key (changes s)\<rparr>
                     else s\<lparr>changes := bt_put key (overlayed\<lparr>transactions := r\<rparr>) (changes s)\<rparr>)))"

definition commit_key ::
    "'k::linorder \<Rightarrow> ('k, 'v) overlayed_map \<Rightarrow> ('k, 'v) overlayed_map option" where
  "commit_key key s =
     (case bt_get (changes s) key of
        None \<Rightarrow> None
      | Some overlayed \<Rightarrow>
          (let (has_predecessor, dk) =
                 (case dirty_keys s of
                    [] \<Rightarrow> (length (transactions overlayed) > 1, [])
                  | _ # _ \<Rightarrow> (case insert_dirty (dirty_keys s) key of (fresh, dk) \<Rightarrow> (\<not> fresh, dk)))
           in if has_predecessor then
                (case transactions overlayed of
                   dropped # t # r \<Rightarrow>
                     Some (s\<lparr>changes := bt_put key
                               (overlayed\<lparr>transactions :=
                                  t\<lparr>iv_value := iv_value dropped,
                                    iv_extrinsics := iv_extrinsics t @ iv_extrinsics dropped\<rparr> # r\<rparr>)
                               (changes s),
                             dirty_keys := dk\<rparr>)
                 | _ \<Rightarrow> None)
              else Some (s\<lparr>dirty_keys := dk\<rparr>)))"

fun close_keys ::
    "bool \<Rightarrow> 'k::linorder list \<Rightarrow> ('k, 'v) overlayed_map \<Rightarrow> ('k, 'v) overlayed_map option" where
  "close_keys rollback [] s = Some s"
| "close_keys rollback (key # keys) s =
     (case (if rollback then rollback_key key s else commit_key key s) of
        None \<Rightarrow> None
      | Some s' \<Rightarrow> close_keys rollback keys s')"

definition close_transaction ::
    "bool \<Rightarrow> ('k::linorder, 'v) overlayed_map
      \<Rightarrow> ((overlay_error + unit) \<times> ('k, 'v) overlayed_map) option" where
  "close_transaction rollback s =
     (if execution_mode s = Runtime \<and> \<not> has_open_runtime_transactions s
      then Some (Inl NoOpenTransaction, s)
      else
        case dirty_keys s of
          [] \<Rightarrow> Some (Inl NoOpenTransaction, s)
        | keys # rest \<Rightarrow> map_option (Pair (Inr ())) (close_keys rollback keys (s\<lparr>dirty_keys := rest\<rparr>)))"

definition rollback_transaction ::
    "('k::linorder, 'v) overlayed_map
      \<Rightarrow> ((overlay_error + unit) \<times> ('k, 'v) overlayed_map) option" where
  "rollback_transaction s = close_transaction True s"

definition commit_transaction ::
    "('k::linorder, 'v) overlayed_map
      \<Rightarrow> ((overlay_error + unit) \<times> ('k, 'v) overlayed_map) option" where
  "commit_transaction s = close_transaction False s"

lemma rollback_key_dirty: "rollback_key key s = Some t \<Longrightarrow> dirty_keys t = dirty_keys s"
  by (auto simp: rollback_key_def split: option.splits list.splits if_splits)

lemma close_keys_rollback_dirty: "close_keys True keys s = Some t \<Longrightarrow> dirty_keys t = dirty_keys s"
  by (induction keys arbitrary: s) (auto simp: rollback_key_dirty split: option.splits)

text \<open>The loop of \<open>exit_runtime\<close>: each round closes one transaction.\<close>

function rollback_open ::
    "('k::linorder, 'v) overlayed_map \<Rightarrow> ('k, 'v) overlayed_map option" where
  "rollback_open s =
     (if has_open_runtime_transactions s then
        (case rollback_transaction s of
           Some (Inr u, s') \<Rightarrow> rollback_open s'
         | _ \<Rightarrow> None)
      else Some s)"
  by pat_completeness auto
termination
  by (relation "measure (\<lambda>s. length (dirty_keys s))")
     (auto simp: rollback_transaction_def close_transaction_def dest: close_keys_rollback_dirty
       split: if_splits list.splits)

declare rollback_open.simps [simp del]

definition exit_runtime ::
    "('k::linorder, 'v) overlayed_map
      \<Rightarrow> ((overlay_error + unit) \<times> ('k, 'v) overlayed_map) option" where
  "exit_runtime s =
     (if execution_mode s = Client then Some (Inl NotInRuntime, s)
      else map_option (Pair (Inr ())) (rollback_open (s\<lparr>execution_mode := Client\<rparr>)))"

section \<open>Change sets of optional values\<close>

text \<open>
  \<open>modify\<close> hands out a reference to the current value; here the caller's use of the reference
  is the function \<open>upd\<close>.
\<close>

definition modify ::
    "'k::linorder \<Rightarrow> 'v \<Rightarrow> u32 option \<Rightarrow> ('v option \<Rightarrow> 'v option)
      \<Rightarrow> ('k, 'v option) overlayed_map \<Rightarrow> ('k, 'v option) overlayed_map" where
  "modify key init at_extrinsic upd s =
     (let overlayed = unwrap_or_default default_entry (bt_get (changes s) key);
          (first_write, dk) = insert_dirty (dirty_keys s) key;
          clone_into_new_tx =
            (case transactions overlayed of
               tx # _ \<Rightarrow> (if first_write then Some (iv_value tx) else None)
             | [] \<Rightarrow> Some (Some init));
          overlayed' =
            (case clone_into_new_tx of
               Some cloned \<Rightarrow> entry_set cloned first_write at_extrinsic overlayed
             | None \<Rightarrow> overlayed);
          overlayed'' =
            overlayed'\<lparr>transactions :=
              (case transactions overlayed' of
                 [] \<Rightarrow> [] | t # r \<Rightarrow> t\<lparr>iv_value := upd (iv_value t)\<rparr> # r)\<rparr>
      in s\<lparr>changes := bt_put key overlayed'' (changes s), dirty_keys := dk\<rparr>)"

fun clear_entries ::
    "('k \<Rightarrow> 'v option overlayed_entry \<Rightarrow> bool) \<Rightarrow> u32 option
      \<Rightarrow> ('k, 'v option overlayed_entry) btree_map \<Rightarrow> 'k list list
      \<Rightarrow> ('k, 'v option overlayed_entry) btree_map \<times> 'k list list" where
  "clear_entries predicate at_extrinsic [] dk = ([], dk)"
| "clear_entries predicate at_extrinsic ((key, val) # rest) dk =
     (if predicate key val then
        (let (first_write, dk') = insert_dirty dk key;
             (rest', dk'') = clear_entries predicate at_extrinsic rest dk'
         in ((key, entry_set None first_write at_extrinsic val) # rest', dk''))
      else
        (let (rest', dk'') = clear_entries predicate at_extrinsic rest dk
         in ((key, val) # rest', dk'')))"

definition clear_where ::
    "('k \<Rightarrow> 'v option overlayed_entry \<Rightarrow> bool) \<Rightarrow> u32 option
      \<Rightarrow> ('k, 'v option) overlayed_map \<Rightarrow> ('k, 'v option) overlayed_map" where
  "clear_where predicate at_extrinsic s =
     (let (cs, dk) = clear_entries predicate at_extrinsic (changes s) (dirty_keys s)
      in s\<lparr>changes := cs, dirty_keys := dk\<rparr>)"

definition changes_after ::
    "'k::linorder \<Rightarrow> ('k, 'v) overlayed_map \<Rightarrow> ('k, 'v overlayed_entry) btree_map" where
  "changes_after key s = bt_after key (changes s)"

end
