(* ===== verification/Overlay_Refinement.thy ===== *)
theory Overlay_Refinement
  imports Overlayed_Changeset
begin

text \<open>
  The overlay implements a stack of snapshots: a specification in which opening a transaction saves
  the current map, rolling back returns to the saved map and committing forgets it.  Each operation
  refines its specification on the well-formed overlays and keeps them well-formed, so no
  \<open>expect\<close> of the code can fail; the interface \<open>tx_store\<close> lifts this to sequences of
  operations.
\<close>

section \<open>The specification: a stack of snapshots\<close>

text \<open>
  What an overlay means: the map of values currently seen, and below it one saved map per open
  transaction, as it was when the transaction was opened.
\<close>

type_synonym ('k, 'v) snapshots = "('k \<rightharpoonup> 'v) list"

fun spec_write :: "'k \<Rightarrow> 'v \<Rightarrow> ('k, 'v) snapshots \<Rightarrow> ('k, 'v) snapshots" where
  "spec_write k v (m # ms) = m(k \<mapsto> v) # ms"
| "spec_write k v [] = []"

fun spec_start :: "('k, 'v) snapshots \<Rightarrow> ('k, 'v) snapshots" where
  "spec_start (m # ms) = m # m # ms"
| "spec_start [] = []"

fun spec_rollback :: "('k, 'v) snapshots \<Rightarrow> ('k, 'v) snapshots" where
  "spec_rollback (m # m' # ms) = m' # ms"
| "spec_rollback ms = ms"

fun spec_commit :: "('k, 'v) snapshots \<Rightarrow> ('k, 'v) snapshots" where
  "spec_commit (m # m' # ms) = m # ms"
| "spec_commit ms = ms"

section \<open>Abstraction and invariant\<close>

definition versions :: "('k, 'v) overlayed_map \<Rightarrow> 'k \<Rightarrow> 'v inner_value list" where
  "versions s k = (case bt_get (changes s) k of None \<Rightarrow> [] | Some e \<Rightarrow> transactions e)"

definition seen :: "('k \<Rightarrow> 'v inner_value list) \<Rightarrow> 'k \<rightharpoonup> 'v" where
  "seen f k = (case f k of [] \<Rightarrow> None | t # _ \<Rightarrow> Some (iv_value t))"

definition pop_level :: "'k list \<Rightarrow> ('k \<Rightarrow> 'v inner_value list) \<Rightarrow> 'k \<Rightarrow> 'v inner_value list" where
  "pop_level d f k = (if k \<in> set d then tl (f k) else f k)"

fun snaps :: "'k list list \<Rightarrow> ('k \<Rightarrow> 'v inner_value list) \<Rightarrow> ('k, 'v) snapshots" where
  "snaps [] f = [seen f]"
| "snaps (d # ds) f = seen f # snaps ds (pop_level d f)"

fun layered :: "'k list list \<Rightarrow> ('k \<Rightarrow> 'v inner_value list) \<Rightarrow> bool" where
  "layered [] f = (\<forall>k. length (f k) \<le> 1)"
| "layered (d # ds) f = (distinct d \<and> (\<forall>k\<in>set d. f k \<noteq> []) \<and> layered ds (pop_level d f))"

definition overlay_abs :: "('k, 'v) overlayed_map \<Rightarrow> ('k, 'v) snapshots" where
  "overlay_abs s = snaps (dirty_keys s) (versions s)"

definition no_empty_entry :: "('k, 'v overlayed_entry) btree_map \<Rightarrow> bool" where
  "no_empty_entry m = (\<forall>k e. bt_get m k = Some e \<longrightarrow> transactions e \<noteq> [])"

definition overlay_ok :: "('k::linorder, 'v) overlayed_map \<Rightarrow> bool" where
  "overlay_ok s = (bt_inv (changes s) \<and> no_empty_entry (changes s) \<and> layered (dirty_keys s) (versions s)
     \<and> (execution_mode s = Runtime \<longrightarrow> num_client_transactions s \<le> transaction_depth s))"

section \<open>Lemmas on layers\<close>

lemma snaps_hd: "\<exists>ms. snaps ds f = seen f # ms"
  by (cases ds) simp_all

lemma length_snaps [simp]: "length (snaps ds f) = Suc (length ds)"
  by (induction ds arbitrary: f) simp_all

lemma seen_upd: "ts \<noteq> [] \<Longrightarrow> seen (f(k := ts)) = (seen f)(k \<mapsto> iv_value (hd ts))"
  by (auto simp: seen_def fun_eq_iff split: list.split)

lemma pop_level_upd_in:
  "k \<in> set d \<Longrightarrow> tl ts = tl (f k) \<Longrightarrow> pop_level d (f(k := ts)) = pop_level d f"
  by (auto simp: pop_level_def fun_eq_iff)

lemma pop_level_add:
  "k \<notin> set d \<Longrightarrow> tl ts = f k \<Longrightarrow> pop_level (d @ [k]) (f(k := ts)) = pop_level d f"
  by (auto simp: pop_level_def fun_eq_iff)

text \<open>Replacing the versions of one key the way \<open>set\<close> does.\<close>

lemma layered_write:
  assumes "layered ds f" and "insert_dirty ds k = (fst_write, ds')"
    and "ts \<noteq> []" and "tl ts = (if fst_write then f k else tl (f k))"
  shows "layered ds' (f(k := ts))" and "snaps ds' (f(k := ts)) = spec_write k (iv_value (hd ts)) (snaps ds f)"
proof -
  have "layered ds' (f(k := ts)) \<and> snaps ds' (f(k := ts)) = spec_write k (iv_value (hd ts)) (snaps ds f)"
  proof (cases ds)
    case Nil
    then have "length (f k) \<le> 1" "tl ts = tl (f k)" using assms by auto
    then have "length ts \<le> 1" using assms(3) by (cases ts; cases "f k") auto
    then show ?thesis using Nil assms by (simp add: seen_upd)
  next
    case (Cons d rest)
    show ?thesis
    proof (cases "k \<in> set d")
      case True
      then have "pop_level d (f(k := ts)) = pop_level d f" and "ds' = ds"
        using assms(2,4) Cons by (auto intro: pop_level_upd_in)
      then show ?thesis using assms(1,3) Cons by (simp add: seen_upd)
    next
      case False
      then have "pop_level (d @ [k]) (f(k := ts)) = pop_level d f" and "ds' = (d @ [k]) # rest"
        using assms(2,4) Cons by (auto intro: pop_level_add)
      then show ?thesis using assms(1,3) Cons False by (auto simp: seen_upd)
    qed
  qed
  then show "layered ds' (f(k := ts))" and "snaps ds' (f(k := ts)) = spec_write k (iv_value (hd ts)) (snaps ds f)"
    by simp_all
qed

lemma versions_put [simp]: "versions (s\<lparr>changes := bt_put k e (changes s)\<rparr>) = (versions s)(k := transactions e)"
  by (simp add: versions_def fun_eq_iff)

lemma versions_del [simp]: "versions (s\<lparr>changes := bt_del k (changes s)\<rparr>) = (versions s)(k := [])"
  by (simp add: versions_def fun_eq_iff)

lemma versions_more [simp]:
  "versions (s\<lparr>dirty_keys := d\<rparr>) = versions s" "versions (s\<lparr>execution_mode := m\<rparr>) = versions s"
  "versions (s\<lparr>num_client_transactions := n\<rparr>) = versions s"
  "versions (s\<lparr>changes := c, dirty_keys := d\<rparr>) = versions (s\<lparr>changes := c\<rparr>)"
  by (simp_all add: versions_def fun_eq_iff)

lemma no_empty_put: "no_empty_entry m \<Longrightarrow> transactions e \<noteq> [] \<Longrightarrow> no_empty_entry (bt_put k e m)"
  by (simp add: no_empty_entry_def)

lemma no_empty_del: "no_empty_entry m \<Longrightarrow> no_empty_entry (bt_del k m)"
  by (simp add: no_empty_entry_def)

lemma length_insert_dirty [simp]: "length (snd (insert_dirty ds k)) = length ds"
  by (cases ds) auto

lemma note_extrinsic_simps [simp]:
  "note_extrinsic x ts = [] \<longleftrightarrow> ts = []" "tl (note_extrinsic x ts) = tl ts"
  "ts \<noteq> [] \<Longrightarrow> iv_value (hd (note_extrinsic x ts)) = iv_value (hd ts)"
  by (auto simp: note_extrinsic_def split: option.split list.split)

lemma entry_set_transactions:
  "transactions (entry_set v b x e) \<noteq> []"
  "tl (transactions (entry_set v b x e)) = (if b then transactions e else tl (transactions e))"
  "iv_value (hd (transactions (entry_set v b x e))) = v"
  by (simp_all add: entry_set_def split: list.split)

lemma versions_default: "transactions (unwrap_or_default default_entry (bt_get (changes s) k)) = versions s k"
  by (simp add: versions_def default_entry_def split: option.split)

section \<open>Every operation implements its specification\<close>

lemma overlay_set_ok:
  assumes "overlay_ok s"
  shows "overlay_ok (overlay_set k v x s)" and "overlay_abs (overlay_set k v x s) = spec_write k v (overlay_abs s)"
proof -
  obtain b ds where d: "insert_dirty (dirty_keys s) k = (b, ds)" by fastforce
  let ?e = "entry_set v b x (unwrap_or_default default_entry (bt_get (changes s) k))"
  have s': "overlay_set k v x s = s\<lparr>changes := bt_put k ?e (changes s), dirty_keys := ds\<rparr>"
    using d by (simp add: overlay_set_def Let_def)
  have l: "layered (dirty_keys s) (versions s)" using assms by (simp add: overlay_ok_def)
  have ts: "transactions ?e \<noteq> []" "tl (transactions ?e) = (if b then versions s k else tl (versions s k))"
    "iv_value (hd (transactions ?e)) = v"
    by (simp_all add: entry_set_transactions versions_default)
  note w = layered_write [OF l d ts(1,2)]
  have len: "length ds = length (dirty_keys s)" using d length_insert_dirty [of "dirty_keys s" k] by simp
  show "overlay_ok (overlay_set k v x s)"
    using assms w(1) ts(1) len unfolding s' overlay_ok_def
    by (simp add: no_empty_put transaction_depth_def)
  show "overlay_abs (overlay_set k v x s) = spec_write k v (overlay_abs s)"
    using w(2) ts(3) unfolding s' overlay_abs_def by simp
qed

lemma start_transaction_ok:
  assumes "overlay_ok s"
  shows "overlay_ok (start_transaction s)" and "overlay_abs (start_transaction s) = spec_start (overlay_abs s)"
proof -
  have p: "pop_level [] f = f" for f :: "'a \<Rightarrow> 'b inner_value list" by (simp add: pop_level_def fun_eq_iff)
  show "overlay_ok (start_transaction s)"
    using assms by (auto simp: overlay_ok_def start_transaction_def p transaction_depth_def)
  show "overlay_abs (start_transaction s) = spec_start (overlay_abs s)"
    using snaps_hd [of "dirty_keys s" "versions s"]
    by (auto simp: overlay_abs_def start_transaction_def p)
qed

text \<open>Rolling back the keys of a transaction removes its layer.\<close>

lemma rollback_keys:
  assumes "distinct keys" and "\<And>k. k \<in> set keys \<Longrightarrow> versions s k \<noteq> []"
    and "bt_inv (changes s)" and "no_empty_entry (changes s)"
  shows "\<exists>t. close_keys True keys s = Some t \<and> versions t = pop_level keys (versions s)
    \<and> bt_inv (changes t) \<and> no_empty_entry (changes t) \<and> dirty_keys t = dirty_keys s
    \<and> num_client_transactions t = num_client_transactions s \<and> execution_mode t = execution_mode s"
  using assms
proof (induction keys arbitrary: s)
  case Nil
  then show ?case by (simp add: pop_level_def fun_eq_iff)
next
  case (Cons k keys)
  obtain e where e: "bt_get (changes s) k = Some e"
    using Cons.prems(2) [of k] by (auto simp: versions_def split: option.splits)
  obtain t r where tr: "transactions e = t # r" "versions s k = t # r"
    using Cons.prems(4) e by (cases "transactions e") (auto simp: no_empty_entry_def versions_def)
  define s1 where "s1 = (if r = [] then s\<lparr>changes := bt_del k (changes s)\<rparr>
      else s\<lparr>changes := bt_put k (e\<lparr>transactions := r\<rparr>) (changes s)\<rparr>)"
  have r1: "rollback_key k s = Some s1" using e tr by (simp add: rollback_key_def s1_def)
  have v1: "versions s1 = (versions s)(k := r)" by (simp add: s1_def)
  have "bt_inv (changes s1)" "no_empty_entry (changes s1)"
    using Cons.prems(3,4) by (auto simp: s1_def no_empty_put no_empty_del)
  moreover have "distinct keys" and "j \<in> set keys \<Longrightarrow> versions s1 j \<noteq> []" for j
    using Cons.prems(1,2) v1 by auto
  ultimately obtain u where u: "close_keys True keys s1 = Some u" "versions u = pop_level keys (versions s1)"
      "bt_inv (changes u)" "no_empty_entry (changes u)" "dirty_keys u = dirty_keys s1"
      "num_client_transactions u = num_client_transactions s1" "execution_mode u = execution_mode s1"
    using Cons.IH [of s1] by blast
  have "pop_level keys (versions s1) = pop_level (k # keys) (versions s)"
    using v1 tr(2) Cons.prems(1) by (auto simp: pop_level_def fun_eq_iff)
  then show ?case using u r1 by (simp add: s1_def)
qed

text \<open>Committing merges the version of a transaction into that of its parent, where there is one.\<close>

fun merge :: "'v inner_value list \<Rightarrow> 'v inner_value list" where
  "merge (dropped # t # r) =
     t\<lparr>iv_value := iv_value dropped, iv_extrinsics := iv_extrinsics t @ iv_extrinsics dropped\<rparr> # r"
| "merge ts = ts"

definition recorded :: "'v inner_value list \<Rightarrow> u32 set" where
  "recorded ts = (\<Union>t \<in> set ts. set (iv_extrinsics t))"

lemma merge_simps:
  "merge ts = [] \<longleftrightarrow> ts = []" "length ts \<le> 2 \<Longrightarrow> length (merge ts) \<le> 1"
  "2 \<le> length ts \<Longrightarrow> tl (merge ts) = tl (tl ts)"
  "recorded (merge ts) = recorded ts"
  by (cases ts rule: merge.cases; auto simp: recorded_def)+

lemma seen_merge: "seen (\<lambda>k. if P k then merge (f k) else f k) = seen f"
proof
  fix k show "seen (\<lambda>k. if P k then merge (f k) else f k) k = seen f k"
    by (cases "f k" rule: merge.cases) (auto simp: seen_def)
qed

definition committed_dirty :: "'k list \<Rightarrow> 'k list list \<Rightarrow> 'k list list" where
  "committed_dirty keys ds = (case ds of [] \<Rightarrow> [] | d # rest \<Rightarrow> (d @ filter (\<lambda>k. k \<notin> set d) keys) # rest)"

definition merges :: "'k list list \<Rightarrow> 'k \<Rightarrow> bool" where
  "merges ds k = (case ds of [] \<Rightarrow> True | d # _ \<Rightarrow> k \<in> set d)"

lemma commit_key_step:
  assumes "bt_get (changes s) k = Some e" and "transactions e = versions s k" and "versions s k \<noteq> []"
    and "\<And>d rest. dirty_keys s = d # rest \<Longrightarrow> k \<in> set d \<Longrightarrow> 2 \<le> length (versions s k)"
    and "bt_inv (changes s)" and "no_empty_entry (changes s)"
  shows "\<exists>t. commit_key k s = Some t
    \<and> versions t = (versions s)(k := if merges (dirty_keys s) k then merge (versions s k) else versions s k)
    \<and> bt_inv (changes t) \<and> no_empty_entry (changes t)
    \<and> dirty_keys t = committed_dirty [k] (dirty_keys s)
    \<and> num_client_transactions t = num_client_transactions s \<and> execution_mode t = execution_mode s"
proof (cases "dirty_keys s")
  case Nil
  show ?thesis
    using assms Nil
    by (cases "versions s k" rule: merge.cases)
       (auto simp: commit_key_def merges_def committed_dirty_def no_empty_put fun_upd_idem)
next
  case (Cons d' rest')
  show ?thesis
  proof (cases "k \<in> set d'")
    case True
    then have "2 \<le> length (versions s k)" using assms(4) [OF Cons] by simp
    then show ?thesis
      using assms Cons True
      by (cases "versions s k" rule: merge.cases)
         (auto simp: commit_key_def merges_def committed_dirty_def no_empty_put)
  next
    case False
    then show ?thesis
      using assms Cons by (auto simp: commit_key_def merges_def committed_dirty_def fun_upd_idem)
  qed
qed

lemma committed_dirty_Cons:
  assumes "k \<notin> set keys"
  shows "committed_dirty keys (committed_dirty [k] ds) = committed_dirty (k # keys) ds"
    and "j \<in> set keys \<Longrightarrow> merges (committed_dirty [k] ds) j = merges ds j"
proof -
  have "filter (\<lambda>j. j \<notin> set d \<and> j \<noteq> k) keys = filter (\<lambda>j. j \<notin> set d) keys" for d
    using assms by (intro filter_cong) auto
  then show "committed_dirty keys (committed_dirty [k] ds) = committed_dirty (k # keys) ds"
    by (auto simp: committed_dirty_def split: list.split)
  show "j \<in> set keys \<Longrightarrow> merges (committed_dirty [k] ds) j = merges ds j"
    using assms by (auto simp: committed_dirty_def merges_def split: list.split)
qed

lemma commit_keys:
  assumes "distinct keys" and "\<And>k. k \<in> set keys \<Longrightarrow> versions s k \<noteq> []"
    and "\<And>k d rest. k \<in> set keys \<Longrightarrow> dirty_keys s = d # rest \<Longrightarrow> k \<in> set d \<Longrightarrow> 2 \<le> length (versions s k)"
    and "bt_inv (changes s)" and "no_empty_entry (changes s)"
  shows "\<exists>t. close_keys False keys s = Some t
    \<and> versions t = (\<lambda>k. if k \<in> set keys \<and> merges (dirty_keys s) k then merge (versions s k) else versions s k)
    \<and> bt_inv (changes t) \<and> no_empty_entry (changes t)
    \<and> dirty_keys t = committed_dirty keys (dirty_keys s)
    \<and> num_client_transactions t = num_client_transactions s \<and> execution_mode t = execution_mode s"
  using assms
proof (induction keys arbitrary: s)
  case Nil
  then show ?case by (simp add: committed_dirty_def split: list.split)
next
  case (Cons k keys)
  have k: "k \<notin> set keys" "distinct keys" using Cons.prems(1) by auto
  obtain e where e: "bt_get (changes s) k = Some e" "transactions e = versions s k"
    using Cons.prems(2) [of k] by (auto simp: versions_def split: option.splits)
  obtain s1 where s1: "commit_key k s = Some s1"
      "versions s1 = (versions s)(k := if merges (dirty_keys s) k then merge (versions s k) else versions s k)"
      "bt_inv (changes s1)" "no_empty_entry (changes s1)"
      "dirty_keys s1 = committed_dirty [k] (dirty_keys s)"
      "num_client_transactions s1 = num_client_transactions s" "execution_mode s1 = execution_mode s"
    using commit_key_step [OF e] Cons.prems by force
  have ne: "j \<in> set keys \<Longrightarrow> versions s1 j \<noteq> []" for j
    using Cons.prems(2) s1(2) k by (auto simp: fun_upd_def)
  have two: "2 \<le> length (versions s1 j)"
    if j: "j \<in> set keys" and d: "dirty_keys s1 = d # rest" "j \<in> set d" for j d rest
  proof -
    have jk: "j \<noteq> k" using j k by auto
    obtain d0 where "dirty_keys s = d0 # rest" "j \<in> set d0"
      using d s1(5) jk by (auto simp: committed_dirty_def split: list.splits if_splits)
    then show ?thesis using Cons.prems(3) [of j d0 rest] j jk s1(2) by simp
  qed
  obtain t where t: "close_keys False keys s1 = Some t"
      "versions t = (\<lambda>j. if j \<in> set keys \<and> merges (dirty_keys s1) j then merge (versions s1 j) else versions s1 j)"
      "bt_inv (changes t)" "no_empty_entry (changes t)" "dirty_keys t = committed_dirty keys (dirty_keys s1)"
      "num_client_transactions t = num_client_transactions s1" "execution_mode t = execution_mode s1"
    using Cons.IH [of s1] k(2) ne two s1(3,4) by blast
  have "versions t = (\<lambda>j. if j \<in> set (k # keys) \<and> merges (dirty_keys s) j then merge (versions s j) else versions s j)"
    using t(2) s1(2,5) k(1) committed_dirty_Cons(2) [OF k(1)] by (auto simp: fun_eq_iff)
  moreover have "dirty_keys t = committed_dirty (k # keys) (dirty_keys s)"
    using t(5) s1(5) committed_dirty_Cons(1) [OF k(1)] by simp
  ultimately show ?case using t s1 by simp
qed

lemma commit_layers:
  assumes l: "layered (d # ds) f"
  defines "g \<equiv> \<lambda>k. if k \<in> set d \<and> merges ds k then merge (f k) else f k"
  shows "layered (committed_dirty d ds) g" and "snaps (committed_dirty d ds) g = spec_commit (snaps (d # ds) f)"
proof -
  have sg: "seen g = seen f" unfolding g_def by (rule seen_merge)
  have "layered (committed_dirty d ds) g \<and> snaps (committed_dirty d ds) g = spec_commit (snaps (d # ds) f)"
  proof (cases ds)
    case Nil
    have "length (g k) \<le> 1" for k
    proof (cases "k \<in> set d")
      case True
      then have "length (tl (f k)) \<le> 1" using l Nil by (auto simp: pop_level_def dest: spec [of _ k])
      then have "length (merge (f k)) \<le> 1" by (intro merge_simps(2)) simp
      then show ?thesis using True Nil by (simp add: g_def merges_def)
    next
      case False
      then show ?thesis using l Nil by (auto simp: g_def pop_level_def dest: spec [of _ k])
    qed
    then show ?thesis using Nil sg by (simp add: committed_dirty_def)
  next
    case (Cons d2 rest)
    let ?d = "d2 @ filter (\<lambda>k. k \<notin> set d2) d"
    have two: "2 \<le> length (f k)" if "k \<in> set d" "k \<in> set d2" for k
      using l Cons that by (cases "f k" rule: merge.cases) (auto simp: pop_level_def)
    have p: "pop_level ?d g = pop_level d2 (pop_level d f)"
      using two by (auto simp: pop_level_def g_def merges_def Cons fun_eq_iff merge_simps(3))
    have "distinct ?d" and "\<forall>k\<in>set ?d. g k \<noteq> []"
      using l Cons by (auto simp: g_def merge_simps(1) pop_level_def merges_def)
    then show ?thesis using l Cons p sg by (simp add: committed_dirty_def)
  qed
  then show "layered (committed_dirty d ds) g" and "snaps (committed_dirty d ds) g = spec_commit (snaps (d # ds) f)"
    by simp_all
qed

text \<open>Closing a transaction.\<close>

lemma close_transaction_ok:
  assumes ok: "overlay_ok s"
    and open_tx: "dirty_keys s \<noteq> []" "execution_mode s = Runtime \<Longrightarrow> has_open_runtime_transactions s"
  obtains t where "close_transaction rollback s = Some (Inr (), t)"
    "overlay_abs t = (if rollback then spec_rollback (overlay_abs s) else spec_commit (overlay_abs s))"
    "bt_inv (changes t)" "no_empty_entry (changes t)" "layered (dirty_keys t) (versions t)"
    "Suc (transaction_depth t) = transaction_depth s"
    "num_client_transactions t = num_client_transactions s" "execution_mode t = execution_mode s"
    "\<not> rollback \<Longrightarrow> (\<forall>k. recorded (versions t k) = recorded (versions s k))"
proof -
  obtain d ds where d: "dirty_keys s = d # ds" using open_tx(1) by (cases "dirty_keys s") auto
  let ?s = "s\<lparr>dirty_keys := ds\<rparr>"
  have l: "layered (d # ds) (versions s)" and inv: "bt_inv (changes ?s)" "no_empty_entry (changes ?s)"
    using ok d by (simp_all add: overlay_ok_def)
  then have dist: "distinct d" and ne: "\<And>k. k \<in> set d \<Longrightarrow> versions ?s k \<noteq> []" by simp_all
  show thesis
  proof (cases rollback)
    case True
    obtain t where t: "close_keys True d ?s = Some t" "versions t = pop_level d (versions s)"
        "bt_inv (changes t)" "no_empty_entry (changes t)" "dirty_keys t = ds"
        "num_client_transactions t = num_client_transactions s" "execution_mode t = execution_mode s"
      using rollback_keys [OF dist ne inv] by auto
    show thesis
    proof (rule that [of t])
      show "overlay_abs t = (if rollback then spec_rollback (overlay_abs s) else spec_commit (overlay_abs s))"
        using t(2,5) d True snaps_hd [of ds "pop_level d (versions s)"] by (auto simp: overlay_abs_def)
    qed (use t d l True open_tx(2) in \<open>auto simp: close_transaction_def transaction_depth_def\<close>)
  next
    case False
    have two: "2 \<le> length (versions s k)" if "k \<in> set d" "ds = d2 # rest" "k \<in> set d2" for k d2 rest
      using l that by (cases "versions s k" rule: merge.cases) (auto simp: pop_level_def)
    have "\<exists>t. close_keys False d ?s = Some t
        \<and> versions t = (\<lambda>k. if k \<in> set d \<and> merges (dirty_keys ?s) k then merge (versions ?s k) else versions ?s k)
        \<and> bt_inv (changes t) \<and> no_empty_entry (changes t) \<and> dirty_keys t = committed_dirty d (dirty_keys ?s)
        \<and> num_client_transactions t = num_client_transactions ?s \<and> execution_mode t = execution_mode ?s"
      by (rule commit_keys [OF dist ne _ inv]) (auto intro: two)
    then obtain t where t: "close_keys False d ?s = Some t"
        "versions t = (\<lambda>k. if k \<in> set d \<and> merges ds k then merge (versions s k) else versions s k)"
        "bt_inv (changes t)" "no_empty_entry (changes t)" "dirty_keys t = committed_dirty d ds"
        "num_client_transactions t = num_client_transactions s" "execution_mode t = execution_mode s"
      by (auto cong: if_cong)
    note c = commit_layers [OF l]
    show thesis
    proof (rule that [of t])
      show "Suc (transaction_depth t) = transaction_depth s"
        using t(5) d by (simp add: transaction_depth_def committed_dirty_def split: list.split)
    qed (use t d c False open_tx(2) in \<open>auto simp: close_transaction_def overlay_abs_def merge_simps(4)\<close>)
  qed
qed

lemma close_transaction_refused:
  assumes "dirty_keys s = [] \<or> execution_mode s = Runtime \<and> \<not> has_open_runtime_transactions s"
  shows "close_transaction rollback s = Some (Inl NoOpenTransaction, s)"
  using assms by (auto simp: close_transaction_def)

text \<open>Leaving the runtime closes every transaction it left open, by rolling back.\<close>

lemma spec_rollback_drop: "2 \<le> length ms \<Longrightarrow> spec_rollback ms = drop 1 ms"
  by (cases ms rule: spec_rollback.cases) auto

lemma length_overlay_abs [simp]: "length (overlay_abs s) = Suc (transaction_depth s)"
  by (simp add: overlay_abs_def transaction_depth_def)

lemma rollback_open_ok:
  assumes "overlay_ok s" and "execution_mode s = Client"
  shows "\<exists>t. rollback_open s = Some t \<and> overlay_ok t \<and> execution_mode t = Client
    \<and> num_client_transactions t = num_client_transactions s
    \<and> overlay_abs t = drop (transaction_depth s - num_client_transactions s) (overlay_abs s)"
  using assms
proof (induction s rule: rollback_open.induct)
  case (1 s)
  show ?case
  proof (cases "has_open_runtime_transactions s")
    case False
    then show ?thesis
      using 1(2,3) by (simp add: rollback_open.simps [of s] has_open_runtime_transactions_def)
  next
    case True
    then have d: "dirty_keys s \<noteq> []" by (auto simp: has_open_runtime_transactions_def transaction_depth_def)
    show ?thesis
    proof (rule close_transaction_ok [OF 1(2) d True, of True])
      fix u
      assume u: "close_transaction True s = Some (Inr (), u)"
        "overlay_abs u = (if True then spec_rollback (overlay_abs s) else spec_commit (overlay_abs s))"
        "bt_inv (changes u)" "no_empty_entry (changes u)" "layered (dirty_keys u) (versions u)"
        "Suc (transaction_depth u) = transaction_depth s"
        "num_client_transactions u = num_client_transactions s" "execution_mode u = execution_mode s"
      have r: "rollback_transaction s = Some (Inr (), u)" using u(1) by (simp add: rollback_transaction_def)
      have "overlay_ok u" "execution_mode u = Client" using u 1(3) by (simp_all add: overlay_ok_def)
      then obtain t where t: "rollback_open u = Some t" "overlay_ok t" "execution_mode t = Client"
          "num_client_transactions t = num_client_transactions u"
          "overlay_abs t = drop (transaction_depth u - num_client_transactions u) (overlay_abs u)"
        using 1(1) [OF True r refl refl] by auto
      have a: "overlay_abs u = drop 1 (overlay_abs s)"
        using u(2,6) by (simp add: spec_rollback_drop)
      have n: "transaction_depth s - num_client_transactions s
          = Suc (transaction_depth u - num_client_transactions u)"
        using True u(6,7) by (auto simp: has_open_runtime_transactions_def)
      have "overlay_abs t = drop (transaction_depth s - num_client_transactions s) (overlay_abs s)"
        unfolding t(5) a n by simp
      moreover have "rollback_open s = Some t" by (subst rollback_open.simps) (simp add: True r t(1))
      ultimately show ?thesis using t(2-4) u(7) by simp
    qed
  qed
qed

lemma overlay_more [simp]:
  "overlay_abs (s\<lparr>execution_mode := m\<rparr>) = overlay_abs s"
  "overlay_abs (s\<lparr>num_client_transactions := n\<rparr>) = overlay_abs s"
  "transaction_depth (s\<lparr>execution_mode := m\<rparr>) = transaction_depth s"
  "transaction_depth (s\<lparr>num_client_transactions := n\<rparr>) = transaction_depth s"
  by (simp_all add: overlay_abs_def transaction_depth_def)

lemma exit_runtime_ok:
  assumes "overlay_ok s" and "execution_mode s = Runtime"
  shows "\<exists>t. exit_runtime s = Some (Inr (), t) \<and> overlay_ok t \<and> execution_mode t = Client
    \<and> num_client_transactions t = num_client_transactions s
    \<and> overlay_abs t = drop (transaction_depth s - num_client_transactions s) (overlay_abs s)"
proof -
  have "overlay_ok (s\<lparr>execution_mode := Client\<rparr>)" using assms(1) by (simp add: overlay_ok_def)
  from rollback_open_ok [OF this] assms(2) show ?thesis by (auto simp: exit_runtime_def)
qed

lemma enter_runtime_ok:
  assumes "overlay_ok s"
  shows "overlay_ok (snd (enter_runtime s))" and "overlay_abs (snd (enter_runtime s)) = overlay_abs s"
  using assms by (auto simp: enter_runtime_def overlay_ok_def)

lemma modify_ok:
  assumes "overlay_ok s"
  shows "overlay_ok (modify k init x upd s)"
    and "overlay_abs (modify k init x upd s) = spec_write k
        (upd (case hd (overlay_abs s) k of Some v \<Rightarrow> v | None \<Rightarrow> Some init)) (overlay_abs s)"
proof -
  let ?e = "unwrap_or_default default_entry (bt_get (changes s) k)"
  obtain b ds where d: "insert_dirty (dirty_keys s) k = (b, ds)" by fastforce
  define e1 where "e1 = (case (case transactions ?e of tx # _ \<Rightarrow> (if b then Some (iv_value tx) else None)
      | [] \<Rightarrow> Some (Some init)) of Some c \<Rightarrow> entry_set c b x ?e | None \<Rightarrow> ?e)"
  define ts where "ts = (case transactions e1 of [] \<Rightarrow> [] | t # r \<Rightarrow> t\<lparr>iv_value := upd (iv_value t)\<rparr> # r)"
  have s': "modify k init x upd s = s\<lparr>changes := bt_put k (e1\<lparr>transactions := ts\<rparr>) (changes s), dirty_keys := ds\<rparr>"
    unfolding modify_def Let_def d e1_def ts_def by simp
  have l: "layered (dirty_keys s) (versions s)" using assms by (simp add: overlay_ok_def)
  have e: "transactions ?e = versions s k" by (rule versions_default)
  let ?cur = "case seen (versions s) k of Some v \<Rightarrow> v | None \<Rightarrow> Some init"
  have e1: "transactions e1 \<noteq> []" "tl (transactions e1) = (if b then versions s k else tl (versions s k))"
    "iv_value (hd (transactions e1)) = ?cur"
    by (cases "versions s k"; simp add: e1_def e entry_set_transactions seen_def)+
  have ts: "ts \<noteq> []" "tl ts = (if b then versions s k else tl (versions s k))" "iv_value (hd ts) = upd ?cur"
    using e1 by (cases "transactions e1"; simp add: ts_def)+
  note w = layered_write [OF l d ts(1,2)]
  have len: "length ds = length (dirty_keys s)" using d length_insert_dirty [of "dirty_keys s" k] by simp
  show "overlay_ok (modify k init x upd s)"
    using assms w(1) ts(1) len unfolding s' overlay_ok_def
    by (simp add: no_empty_put transaction_depth_def)
  have "hd (overlay_abs s) = seen (versions s)"
    using snaps_hd [of "dirty_keys s" "versions s"] by (auto simp: overlay_abs_def)
  then show "overlay_abs (modify k init x upd s) = spec_write k
        (upd (case hd (overlay_abs s) k of Some v \<Rightarrow> v | None \<Rightarrow> Some init)) (overlay_abs s)"
    using w(2) ts(3) unfolding s' overlay_abs_def by simp
qed

text \<open>\<open>clear_where\<close> is a write of \<open>None\<close> to every matching key.\<close>

lemma bt_put_middle:
  "bt_inv (pre @ (k, e0) # rest) \<Longrightarrow> bt_put k e (pre @ (k, e0) # rest) = pre @ (k, e) # rest"
  by (induction pre) (auto simp: bt_inv_def less_le)

lemma clear_entries_fold:
  assumes "bt_inv (pre @ suf)" and "clear_entries predicate x suf dk = (suf', dk')"
  shows "fold (\<lambda>k. overlay_set k None x) (map fst (filter (case_prod predicate) suf))
      (s\<lparr>changes := pre @ suf, dirty_keys := dk\<rparr>) = s\<lparr>changes := pre @ suf', dirty_keys := dk'\<rparr>"
  using assms
proof (induction suf arbitrary: pre dk suf' dk')
  case (Cons kv suf)
  obtain k e where kv: "kv = (k, e)" by fastforce
  have get: "bt_get (pre @ (k, e) # suf) k = Some e"
    using Cons.prems(1) kv by (intro map_of_is_SomeI) (auto simp: bt_inv_def)
  show ?case
  proof (cases "predicate k e")
    case False
    obtain r d where r: "clear_entries predicate x suf dk = (r, d)" by fastforce
    then show ?thesis
      using Cons.IH [of "pre @ [(k, e)]" dk r d] Cons.prems False kv by simp
  next
    case True
    obtain b dk1 where b: "insert_dirty dk k = (b, dk1)" by fastforce
    obtain r d where r: "clear_entries predicate x suf dk1 = (r, d)" by fastforce
    let ?e = "entry_set None b x e"
    have inv: "bt_inv ((pre @ [(k, ?e)]) @ suf)" using Cons.prems(1) kv by (simp add: bt_inv_def)
    have "overlay_set k None x (s\<lparr>changes := pre @ (k, e) # suf, dirty_keys := dk\<rparr>)
        = s\<lparr>changes := pre @ (k, ?e) # suf, dirty_keys := dk1\<rparr>"
      using b get bt_put_middle [of pre k e suf ?e] Cons.prems(1) kv by (simp add: overlay_set_def Let_def)
    then show ?thesis
      using Cons.IH [OF inv r] Cons.prems(2) True kv b r by simp
  qed
qed simp

lemma clear_where_fold:
  assumes "bt_inv (changes s)"
  shows "clear_where predicate x s
     = fold (\<lambda>k. overlay_set k None x) (map fst (filter (case_prod predicate) (changes s))) s"
  using clear_entries_fold [of "[]" "changes s" predicate x "dirty_keys s" _ _ s] assms
  by (cases "clear_entries predicate x (changes s) (dirty_keys s)") (simp add: clear_where_def)

section \<open>Sequences of operations\<close>

datatype ('k, 'v) tx_op = Write 'k 'v | Start | Commit | Rollback

text \<open>\<open>p\<close> transactions at the bottom are protected from being closed.\<close>

fun spec_op :: "nat \<Rightarrow> ('k, 'v) tx_op \<Rightarrow> ('k, 'v) snapshots \<Rightarrow> ('k, 'v) snapshots" where
  "spec_op p (Write k v) ms = spec_write k v ms"
| "spec_op p Start ms = spec_start ms"
| "spec_op p Commit ms = (if Suc p < length ms then spec_commit ms else ms)"
| "spec_op p Rollback ms = (if Suc p < length ms then spec_rollback ms else ms)"

fun spec_run :: "nat \<Rightarrow> ('k, 'v) tx_op list \<Rightarrow> ('k, 'v) snapshots \<Rightarrow> ('k, 'v) snapshots" where
  "spec_run p [] ms = ms"
| "spec_run p (op # ops) ms = spec_run p ops (spec_op p op ms)"

fun tx_run :: "('op \<Rightarrow> 's \<Rightarrow> 's option) \<Rightarrow> 'op list \<Rightarrow> 's \<Rightarrow> 's option" where
  "tx_run exec [] s = Some s"
| "tx_run exec (op # ops) s = (case exec op s of None \<Rightarrow> None | Some t \<Rightarrow> tx_run exec ops t)"

text \<open>Every transaction opened in the sequence is closed in it, and no other.\<close>

fun nested :: "nat \<Rightarrow> ('k, 'v) tx_op list \<Rightarrow> bool" where
  "nested d [] = (d = 0)"
| "nested d (Write k v # ops) = nested d ops"
| "nested d (Start # ops) = nested (Suc d) ops"
| "nested d (Commit # ops) = (0 < d \<and> nested (d - 1) ops)"
| "nested d (Rollback # ops) = (0 < d \<and> nested (d - 1) ops)"

lemma spec_run_append: "spec_run p (xs @ ys) ms = spec_run p ys (spec_run p xs ms)"
  by (induction xs arbitrary: ms) simp_all

lemma tx_run_append:
  "tx_run exec (xs @ ys) s = (case tx_run exec xs s of None \<Rightarrow> None | Some t \<Rightarrow> tx_run exec ys t)"
  by (induction xs arbitrary: s) (simp_all split: option.split)

text \<open>A nested sequence touches only the top, and what it makes of it depends on nothing below.\<close>

lemma nested_run:
  assumes "nested d ops" and "length xs = Suc d" and "p \<le> length base" and "q \<le> length base'"
  shows "\<exists>m. spec_run p ops (xs @ base) = m # base \<and> spec_run q ops (xs @ base') = m # base'"
  using assms
proof (induction d ops arbitrary: xs rule: nested.induct)
  case (1 d)
  then show ?case by (cases xs) auto
next
  case (2 d k v ops)
  obtain m ms where xs: "xs = m # ms" using 2(3) by (cases xs) auto
  show ?case using 2(1) [of "m(k \<mapsto> v) # ms"] 2(2-) xs by simp
next
  case (3 d ops)
  obtain m ms where xs: "xs = m # ms" using 3(3) by (cases xs) auto
  show ?case using 3(1) [of "m # m # ms"] 3(2-) xs by simp
next
  case (4 d ops)
  obtain m m' ms where xs: "xs = m # m' # ms" using 4(2,3) by (cases xs rule: spec_commit.cases) auto
  show ?case using 4(1) [of "m # ms"] 4(2-) xs by simp
next
  case (5 d ops)
  obtain m m' ms where xs: "xs = m # m' # ms" using 5(2,3) by (cases xs rule: spec_commit.cases) auto
  show ?case using 5(1) [of "m' # ms"] 5(2-) xs by simp
qed

text \<open>The interface of a transactional store, and what holds of every sequence of its operations.\<close>

locale tx_store =
  fixes exec :: "('k, 'v) tx_op \<Rightarrow> 's \<Rightarrow> 's option"
    and abs :: "'s \<Rightarrow> ('k, 'v) snapshots"
    and ok :: "'s \<Rightarrow> bool"
    and prot :: "'s \<Rightarrow> nat"
  assumes exec_refines: "ok s \<Longrightarrow>
      \<exists>t. exec op s = Some t \<and> ok t \<and> abs t = spec_op (prot s) op (abs s) \<and> prot t = prot s"
    and prot_depth: "ok s \<Longrightarrow> prot s < length (abs s)"
begin

lemma run_refines:
  "ok s \<Longrightarrow> \<exists>t. tx_run exec ops s = Some t \<and> ok t \<and> abs t = spec_run (prot s) ops (abs s) \<and> prot t = prot s"
proof (induction ops arbitrary: s)
  case (Cons op ops)
  from exec_refines [OF Cons.prems, of op] obtain u where
    u: "exec op s = Some u" "ok u" "abs u = spec_op (prot s) op (abs s)" "prot u = prot s" by blast
  from Cons.IH [OF u(2)] u show ?case by auto
qed simp

lemma abs_nonempty: "ok s \<Longrightarrow> \<exists>m ms. abs s = m # ms \<and> prot s \<le> length ms"
  using prot_depth [of s] by (cases "abs s") auto

lemma rolled_back:
  assumes "ok s" and "nested 0 ops"
  shows "\<exists>t. tx_run exec (Start # ops @ [Rollback]) s = Some t \<and> ok t \<and> abs t = abs s"
proof -
  obtain m ms where m: "abs s = m # ms" "prot s \<le> length ms" using abs_nonempty [OF assms(1)] by blast
  obtain n where "spec_run (prot s) ops ([m] @ m # ms) = n # m # ms"
    using nested_run [OF assms(2), of "[m]" "prot s" "m # ms" 0 "[]"] m by auto
  then have "spec_run (prot s) (Start # ops @ [Rollback]) (abs s) = abs s"
    using m by (simp add: spec_run_append)
  then show ?thesis using run_refines [OF assms(1), of "Start # ops @ [Rollback]"] by auto
qed

lemma committed:
  assumes "ok s" and "nested 0 ops"
  shows "\<exists>t u. tx_run exec (Start # ops @ [Commit]) s = Some t \<and> tx_run exec ops s = Some u \<and> abs t = abs u"
proof -
  obtain m ms where m: "abs s = m # ms" "prot s \<le> length ms" using abs_nonempty [OF assms(1)] by blast
  obtain n where "spec_run (prot s) ops ([m] @ m # ms) = n # m # ms" "spec_run (prot s) ops ([m] @ ms) = n # ms"
    using nested_run [OF assms(2), of "[m]" "prot s" "m # ms" "prot s" "ms"] m by auto
  then have "spec_run (prot s) (Start # ops @ [Commit]) (abs s) = spec_run (prot s) ops (abs s)"
    using m by (simp add: spec_run_append)
  then show ?thesis
    using run_refines [OF assms(1), of "Start # ops @ [Commit]"] run_refines [OF assms(1), of ops] by auto
qed

end

text \<open>What is saved for protected transactions is never touched.\<close>

lemma spec_op_protected:
  assumes "p < length ms"
  shows "p < length (spec_op p op ms)
    \<and> drop (length (spec_op p op ms) - p) (spec_op p op ms) = drop (length ms - p) ms"
proof -
  obtain m ms' where ms: "ms = m # ms'" "p \<le> length ms'" using assms by (cases ms) auto
  show ?thesis
  proof (cases op)
    case Commit
    then show ?thesis using ms by (cases ms') (auto simp: Suc_diff_le)
  next
    case Rollback
    then show ?thesis using ms by (cases ms') (auto simp: Suc_diff_le)
  qed (use ms in \<open>auto simp: Suc_diff_le\<close>)
qed

lemma spec_run_protected:
  "p < length ms \<Longrightarrow> p < length (spec_run p ops ms)
    \<and> drop (length (spec_run p ops ms) - p) (spec_run p ops ms) = drop (length ms - p) ms"
proof (induction ops arbitrary: ms)
  case (Cons op ops)
  show ?case using spec_op_protected [OF Cons.prems, of op] Cons.IH [of "spec_op p op ms"] by simp
qed simp

section \<open>The overlay is such a store\<close>

fun tx_exec :: "('k::linorder, 'v) tx_op \<Rightarrow> ('k, 'v) overlayed_map \<Rightarrow> ('k, 'v) overlayed_map option" where
  "tx_exec (Write k v) s = Some (overlay_set k v None s)"
| "tx_exec Start s = Some (start_transaction s)"
| "tx_exec Commit s = map_option snd (commit_transaction s)"
| "tx_exec Rollback s = map_option snd (rollback_transaction s)"

definition protected_transactions :: "('k, 'v) overlayed_map \<Rightarrow> nat" where
  "protected_transactions s = (if execution_mode s = Runtime then num_client_transactions s else 0)"

lemma tx_exec_close:
  assumes ok: "overlay_ok s"
  shows "\<exists>t. map_option snd (close_transaction rb s) = Some t \<and> overlay_ok t
    \<and> overlay_abs t = (if Suc (protected_transactions s) < length (overlay_abs s)
        then (if rb then spec_rollback (overlay_abs s) else spec_commit (overlay_abs s)) else overlay_abs s)
    \<and> protected_transactions t = protected_transactions s"
proof (cases "protected_transactions s < transaction_depth s")
  case True
  then have d: "dirty_keys s \<noteq> []" "execution_mode s = Runtime \<Longrightarrow> has_open_runtime_transactions s"
    by (auto simp: transaction_depth_def protected_transactions_def has_open_runtime_transactions_def)
  show ?thesis
  proof (rule close_transaction_ok [OF ok d, of rb])
    fix t
    assume t: "close_transaction rb s = Some (Inr (), t)"
      "overlay_abs t = (if rb then spec_rollback (overlay_abs s) else spec_commit (overlay_abs s))"
      "bt_inv (changes t)" "no_empty_entry (changes t)" "layered (dirty_keys t) (versions t)"
      "Suc (transaction_depth t) = transaction_depth s"
      "num_client_transactions t = num_client_transactions s" "execution_mode t = execution_mode s"
    have "overlay_ok t" using t True by (auto simp: overlay_ok_def protected_transactions_def)
    then show ?thesis using t True by (simp add: protected_transactions_def)
  qed
next
  case False
  then have "dirty_keys s = [] \<or> execution_mode s = Runtime \<and> \<not> has_open_runtime_transactions s"
    using ok by (auto simp: overlay_ok_def transaction_depth_def protected_transactions_def
        has_open_runtime_transactions_def split: if_splits)
  from close_transaction_refused [OF this] ok False show ?thesis by simp
qed

interpretation overlay: tx_store tx_exec overlay_abs overlay_ok protected_transactions
proof (unfold_locales, goal_cases)
  case (1 s op)
  show ?case
  proof (cases op)
    case (Write k v)
    have "protected_transactions (overlay_set k v None s) = protected_transactions s"
      by (simp add: overlay_set_def protected_transactions_def Let_def split: prod.split)
    then show ?thesis using overlay_set_ok [OF 1, of k v None] Write by simp
  next
    case Start
    then show ?thesis
      using start_transaction_ok [OF 1] by (simp add: start_transaction_def protected_transactions_def)
  next
    case Commit
    then show ?thesis using tx_exec_close [OF 1, of False] by (auto simp: commit_transaction_def split: if_splits)
  next
    case Rollback
    then show ?thesis using tx_exec_close [OF 1, of True] by (auto simp: rollback_transaction_def split: if_splits)
  qed
next
  case (2 s)
  then show ?case by (auto simp: protected_transactions_def overlay_ok_def)
qed

lemma overlay_get_abs:
  "hd (overlay_abs s) k = Option.bind (overlay_get s k) value_ref"
  using snaps_hd [of "dirty_keys s" "versions s"]
  by (auto simp: overlay_abs_def overlay_get_def seen_def versions_def value_ref_def split: option.split list.split)

section \<open>Operations keep the execution mode\<close>

lemma close_keys_mode:
  "close_keys rb keys s = Some t \<Longrightarrow> execution_mode t = execution_mode s
     \<and> num_client_transactions t = num_client_transactions s"
proof (induction keys arbitrary: s)
  case (Cons k keys)
  obtain u where "(if rb then rollback_key k s else commit_key k s) = Some u" "close_keys rb keys u = Some t"
    using Cons.prems by (auto split: option.splits)
  moreover from this(1) have "execution_mode u = execution_mode s
      \<and> num_client_transactions u = num_client_transactions s"
    by (auto simp: rollback_key_def commit_key_def Let_def split: if_splits option.splits list.splits prod.splits)
  ultimately show ?case using Cons.IH by auto
qed simp

lemma tx_exec_mode:
  "tx_exec op s = Some t \<Longrightarrow> execution_mode t = execution_mode s
     \<and> num_client_transactions t = num_client_transactions s"
  by (cases op) (auto simp: overlay_set_def start_transaction_def commit_transaction_def
      rollback_transaction_def close_transaction_def Let_def dest!: close_keys_mode
      split: prod.splits if_splits list.splits)

lemma those_map_Some: "those (map Some xs) = Some xs"
  by (induction xs) auto

lemma tx_run_mode:
  "tx_run tx_exec ops s = Some t \<Longrightarrow> execution_mode t = execution_mode s
     \<and> num_client_transactions t = num_client_transactions s"
  by (induction ops arbitrary: s) (auto dest: tx_exec_mode split: option.splits)

section \<open>Properties\<close>

text \<open>An overlay for the witnesses: key 1 is committed, key 2 written in an open transaction.\<close>

definition ex_overlay :: "(nat, nat option) overlayed_map" where
  "ex_overlay = overlay_set 2 (Some 20) None (start_transaction (overlay_set 1 (Some 10) None default_overlay))"

lemma default_overlay_ok: "overlay_ok default_overlay"
  by (simp add: overlay_ok_def default_overlay_def versions_def no_empty_entry_def)

lemma ex_overlay_ok: "overlay_ok ex_overlay"
  unfolding ex_overlay_def by (intro overlay_set_ok start_transaction_ok default_overlay_ok)

text \<open>
  C8. Rolling back undoes everything: whatever well-nested sequence of writes and transactions runs
  inside a transaction, no step panics, and after the rollback every key has the value it had, and
  so has every snapshot saved for the transactions around it.
\<close>

theorem overlay_rollback_restores:
  assumes "overlay_ok s" and "nested 0 ops"
  shows "\<exists>t. tx_run tx_exec (Start # ops @ [Rollback]) s = Some t
    \<and> overlay_ok t \<and> overlay_abs t = overlay_abs s"
  by (rule overlay.rolled_back [OF assms])

theorem overlay_rollback_restores_witness:
  "\<exists>t. tx_run tx_exec [Start, Write 1 (Some 11), Start, Write 2 None, Commit, Rollback] ex_overlay = Some t
     \<and> overlay_abs t = overlay_abs ex_overlay"
  using overlay_rollback_restores [OF ex_overlay_ok, of "[Write 1 (Some 11), Start, Write 2 None, Commit]"]
  by auto

text \<open>
  C18. Committing keeps everything: running a well-nested sequence inside a transaction that is then
  committed leaves the same values, at every level, as running it without the transaction.
\<close>

theorem overlay_commit_flattens:
  assumes "overlay_ok s" and "nested 0 ops"
  shows "\<exists>t u. tx_run tx_exec (Start # ops @ [Commit]) s = Some t \<and> tx_run tx_exec ops s = Some u
    \<and> overlay_abs t = overlay_abs u"
  by (rule overlay.committed [OF assms])

theorem overlay_commit_flattens_witness:
  "\<exists>t u. tx_run tx_exec [Start, Write 1 (Some 11), Commit] ex_overlay = Some t
     \<and> tx_run tx_exec [Write 1 (Some 11)] ex_overlay = Some u \<and> overlay_abs t = overlay_abs u"
  using overlay_commit_flattens [OF ex_overlay_ok, of "[Write 1 (Some 11)]"] by simp

text \<open>
  C34. The runtime cannot close the client's transactions: whatever it does between entering and
  leaving, exactly the client's transactions are open afterwards, with what was saved for them.
\<close>

theorem runtime_cannot_close_client_transactions:
  assumes "overlay_ok s" and "execution_mode s = Client"
  shows "\<exists>s1 s2 s3. enter_runtime s = (Inr (), s1) \<and> tx_run tx_exec ops s1 = Some s2
    \<and> exit_runtime s2 = Some (Inr (), s3)
    \<and> transaction_depth s3 = transaction_depth s \<and> tl (overlay_abs s3) = tl (overlay_abs s)"
proof -
  let ?p = "transaction_depth s"
  let ?s1 = "s\<lparr>execution_mode := Runtime, num_client_transactions := ?p\<rparr>"
  have e: "enter_runtime s = (Inr (), ?s1)" using assms(2) by (simp add: enter_runtime_def)
  have ok1: "overlay_ok ?s1" using enter_runtime_ok(1) [OF assms(1)] e by simp
  have a1: "overlay_abs ?s1 = overlay_abs s" "protected_transactions ?s1 = ?p"
    by (simp_all add: protected_transactions_def overlay_abs_def)
  obtain s2 where s2: "tx_run tx_exec ops ?s1 = Some s2" "overlay_ok s2"
      "overlay_abs s2 = spec_run ?p ops (overlay_abs s)" "protected_transactions s2 = ?p"
      "execution_mode s2 = Runtime"
    using overlay.run_refines [OF ok1, of ops] tx_run_mode [of ops ?s1] a1 by auto
  then have num: "num_client_transactions s2 = ?p" by (simp add: protected_transactions_def)
  obtain s3 where s3: "exit_runtime s2 = Some (Inr (), s3)" "overlay_abs s3 = drop (transaction_depth s2 - ?p) (overlay_abs s2)"
    using exit_runtime_ok [OF s2(2,5)] num by auto
  have "?p \<le> transaction_depth s2" using s2(2,5) num by (simp add: overlay_ok_def)
  moreover have "drop (length (overlay_abs s2) - ?p) (overlay_abs s2) = drop 1 (overlay_abs s)"
    using spec_run_protected [of ?p "overlay_abs s" ops] s2(3) by simp
  ultimately have "tl (overlay_abs s3) = tl (overlay_abs s)" and "length (overlay_abs s3) = Suc ?p"
    using s3(2) by (simp_all add: tl_drop drop_Suc Suc_diff_le)
  then show ?thesis using e s2(1) s3(1) by auto
qed

theorem runtime_cannot_close_client_transactions_witness:
  "\<exists>s1 s2 s3. enter_runtime ex_overlay = (Inr (), s1)
     \<and> tx_run tx_exec [Rollback, Start, Write 1 None, Commit, Commit] s1 = Some s2
     \<and> exit_runtime s2 = Some (Inr (), s3) \<and> transaction_depth s3 = 1"
proof -
  have "execution_mode ex_overlay = Client" "transaction_depth ex_overlay = 1"
    by (simp_all add: ex_overlay_def default_overlay_def overlay_set_def start_transaction_def
        transaction_depth_def Let_def)
  then show ?thesis
    using runtime_cannot_close_client_transactions [OF ex_overlay_ok, of "[Rollback, Start, Write 1 None, Commit, Commit]"]
    by auto
qed

text \<open>
  Without an open transaction the overlay drains to exactly the values it shows, in the order of
  the keys; with one open, draining panics.
\<close>

theorem drain_gives_current_values:
  assumes "overlay_ok s"
  shows "if transaction_depth s = 0
    then \<exists>kvs. drain_commited s = Some kvs \<and> map_of kvs = hd (overlay_abs s)
           \<and> sorted_wrt (<) (map fst kvs)
    else drain_commited s = None"
proof (cases "transaction_depth s = 0")
  case True
  let ?kvs = "map (\<lambda>(k, e). (k, the (value_ref e))) (changes s)"
  have inv: "bt_inv (changes s)" "no_empty_entry (changes s)" using assms by (simp_all add: overlay_ok_def)
  have ne: "transactions e \<noteq> []" if "(k, e) \<in> set (changes s)" for k e
    using that inv by (auto simp: no_empty_entry_def bt_inv_def)
  have e: "map (\<lambda>(k, e). map_option (Pair k) (value_ref e)) (changes s) = map Some ?kvs"
    using ne by (auto simp: value_ref_def split: list.split)
  have d: "drain_commited s = Some ?kvs"
    unfolding drain_commited_def e those_map_Some using True by simp
  have m: "map_of ?kvs k = map_option (\<lambda>e. the (value_ref e)) (map_of (changes s) k)" for k
    by (induction "changes s") (auto simp: map_of_map)
  have v: "map_of ?kvs k = hd (overlay_abs s) k" for k
    using inv(2) unfolding m overlay_get_abs overlay_get_def
    by (cases "map_of (changes s) k") (auto simp: value_ref_def no_empty_entry_def split: list.split)
  have keys: "map fst ?kvs = map fst (changes s)" by auto
  have "sorted_wrt (<) (map fst ?kvs)"
    unfolding keys using inv(1) by (simp add: bt_inv_def strict_sorted_iff)
  moreover have "map_of ?kvs = hd (overlay_abs s)" using v by (intro ext)
  ultimately show ?thesis using True d by auto
qed (simp add: drain_commited_def)

theorem drain_gives_current_values_witness:
  "drain_commited (overlay_set 1 (Some 10) None default_overlay) = Some [(1 :: nat, Some (10 :: nat))]
   \<and> drain_commited ex_overlay = None"
proof -
  let ?s = "overlay_set 1 (Some 10) None default_overlay :: (nat, nat option) overlayed_map"
  have "transaction_depth ?s = 0" "transaction_depth ex_overlay = 1"
    by (simp_all add: ex_overlay_def default_overlay_def overlay_set_def start_transaction_def
        transaction_depth_def Let_def)
  moreover have "overlay_ok ?s" by (intro overlay_set_ok default_overlay_ok)
  ultimately have "drain_commited ?s \<noteq> None" "drain_commited ex_overlay = None"
    using drain_gives_current_values [of ?s] drain_gives_current_values [OF ex_overlay_ok] by auto
  then show ?thesis
    by (auto simp: drain_commited_def default_overlay_def overlay_set_def entry_set_def default_entry_def
        note_extrinsic_def value_ref_def Let_def split: if_splits)
qed

text \<open>
  Committing a transaction loses no extrinsic index: every key has the set of indices recorded
  for it before.
\<close>

theorem commit_keeps_extrinsics:
  assumes "overlay_ok s" and "commit_transaction s = Some (Inr (), t)"
  shows "map_option entry_extrinsics (overlay_get t k) = map_option entry_extrinsics (overlay_get s k)"
proof -
  have d: "dirty_keys s \<noteq> []" "execution_mode s = Runtime \<Longrightarrow> has_open_runtime_transactions s"
    using assms(2) by (auto simp: commit_transaction_def close_transaction_def split: if_splits)
  show ?thesis
  proof (rule close_transaction_ok [OF assms(1) d, of False])
    fix u
    assume u: "close_transaction False s = Some (Inr (), u)" "no_empty_entry (changes u)"
      "overlay_abs u = (if False then spec_rollback (overlay_abs s) else spec_commit (overlay_abs s))"
      "\<not> False \<Longrightarrow> (\<forall>k. recorded (versions u k) = recorded (versions s k))"
    have t: "t = u" using assms(2) u(1) by (simp add: commit_transaction_def)
    have "hd (overlay_abs u) = hd (overlay_abs s)"
      using u(3) by (cases "overlay_abs s" rule: spec_commit.cases) auto
    then have "overlay_get u k = None \<longleftrightarrow> overlay_get s k = None"
      using overlay_get_abs [of u k] overlay_get_abs [of s k] u(2) assms(1)
      by (auto simp: overlay_get_def overlay_ok_def no_empty_entry_def value_ref_def
          split: bind_splits list.splits option.splits)
    moreover have "recorded (versions u k) = recorded (versions s k)" using u(4) by simp
    ultimately show ?thesis
      using t by (auto simp: overlay_get_def versions_def recorded_def entry_extrinsics_def split: option.splits)
  qed
qed

theorem commit_keeps_extrinsics_witness:
  "\<exists>t. commit_transaction (overlay_set 1 (Some (7 :: nat)) (Some 3) (start_transaction
           (overlay_set 1 (Some 10) (Some 2) default_overlay))) = Some (Inr (), t)
     \<and> map_option entry_extrinsics (overlay_get t (1 :: nat)) = Some {2, 3}"
proof -
  let ?s = "overlay_set 1 (Some 7) (Some 3) (start_transaction
      (overlay_set 1 (Some 10) (Some 2) default_overlay)) :: (nat, nat option) overlayed_map"
  have ok: "overlay_ok ?s" by (intro overlay_set_ok start_transaction_ok default_overlay_ok)
  obtain t where t: "commit_transaction ?s = Some (Inr (), t)"
    by (simp add: commit_transaction_def close_transaction_def commit_key_def overlay_set_def
        start_transaction_def default_overlay_def entry_set_def default_entry_def note_extrinsic_def
        extrinsics_insert_def Let_def)
  moreover have "map_option entry_extrinsics (overlay_get ?s 1) = Some {2, 3}"
    by (auto simp: overlay_get_def overlay_set_def start_transaction_def default_overlay_def entry_set_def
        default_entry_def note_extrinsic_def extrinsics_insert_def entry_extrinsics_def Let_def)
  ultimately show ?thesis using commit_keeps_extrinsics [OF ok t, of 1] by auto
qed

text \<open>
  Leaving the runtime rolls dangling transactions back: the values seen afterwards are those
  saved when the first of them was opened.
\<close>

theorem exit_runtime_rolls_back:
  assumes "overlay_ok s" and "execution_mode s = Runtime"
  shows "\<exists>t. exit_runtime s = Some (Inr (), t) \<and> execution_mode t = Client
    \<and> hd (overlay_abs t) = overlay_abs s ! (transaction_depth s - num_client_transactions s)"
proof -
  obtain t where t: "exit_runtime s = Some (Inr (), t)" "execution_mode t = Client"
      "overlay_abs t = drop (transaction_depth s - num_client_transactions s) (overlay_abs s)"
    using exit_runtime_ok [OF assms] by blast
  have "transaction_depth s - num_client_transactions s < length (overlay_abs s)" by simp
  then have "hd (overlay_abs t) = overlay_abs s ! (transaction_depth s - num_client_transactions s)"
    unfolding t(3) by (rule hd_drop_conv_nth)
  then show ?thesis using t(1,2) by blast
qed

theorem exit_runtime_rolls_back_witness:
  "\<exists>t. exit_runtime (overlay_set 2 (Some 21) None (start_transaction (snd (enter_runtime ex_overlay))))
       = Some (Inr (), t) \<and> hd (overlay_abs t) 2 = Some (Some 20)"
proof -
  let ?r = "snd (enter_runtime ex_overlay)"
  let ?s = "overlay_set 2 (Some 21) None (start_transaction ?r)"
  have ok: "overlay_ok ?s"
    by (intro overlay_set_ok start_transaction_ok enter_runtime_ok ex_overlay_ok)
  have m: "execution_mode ?s = Runtime" "transaction_depth ?s - num_client_transactions ?s = 1"
    by (simp_all add: ex_overlay_def default_overlay_def overlay_set_def start_transaction_def
        enter_runtime_def transaction_depth_def Let_def)
  have "overlay_abs ?s = spec_write 2 (Some 21) (spec_start (overlay_abs ex_overlay))"
    by (simp add: overlay_set_ok start_transaction_ok enter_runtime_ok ex_overlay_ok)
  moreover have "overlay_abs ex_overlay = spec_write 2 (Some 20) (spec_start
      (spec_write 1 (Some 10) (overlay_abs default_overlay)))"
    unfolding ex_overlay_def by (simp add: overlay_set_ok start_transaction_ok default_overlay_ok)
  ultimately have "(overlay_abs ?s ! 1) 2 = Some (Some 20)"
    by (simp add: overlay_abs_def default_overlay_def)
  then show ?thesis using exit_runtime_rolls_back [OF ok m(1)] m(2) by auto
qed

text \<open>
  \<open>modify\<close> records the extrinsic index only with the first write of a transaction: a later
  extrinsic that modifies the value again is not recorded for the key.
\<close>

theorem modify_again_not_recorded:
  assumes "overlay_ok s" and "overlay_get s k = Some e"
    and "\<not> fst (insert_dirty (dirty_keys s) k)"
  shows "map_option entry_extrinsics (overlay_get (modify k init (Some ext) upd s) k)
    = Some (entry_extrinsics e)"
proof -
  obtain t r where "transactions e = t # r"
    using assms(1,2) by (cases "transactions e") (auto simp: overlay_ok_def no_empty_entry_def overlay_get_def)
  then show ?thesis
    using assms(2,3)
    by (auto simp: modify_def overlay_get_def entry_extrinsics_def Let_def split: prod.split)
qed

theorem modify_again_not_recorded_witness:
  "map_option entry_extrinsics (overlay_get (modify 1 0 (Some 5) id
       (overlay_set 1 (Some (10 :: nat)) (Some 2) default_overlay)) (1 :: nat)) = Some {2}"
proof -
  let ?s = "overlay_set 1 (Some (10 :: nat)) (Some 2) default_overlay :: (nat, nat option) overlayed_map"
  have ok: "overlay_ok ?s" by (intro overlay_set_ok default_overlay_ok)
  have "overlay_get ?s 1 = Some \<lparr>transactions = [\<lparr>iv_value = Some 10, iv_extrinsics = [2]\<rparr>]\<rparr>"
    "\<not> fst (insert_dirty (dirty_keys ?s) 1)"
    by (simp_all add: overlay_get_def overlay_set_def default_overlay_def entry_set_def default_entry_def
        note_extrinsic_def extrinsics_insert_def Let_def)
  from modify_again_not_recorded [OF ok this, of 0 5 id] show ?thesis
    by (simp add: entry_extrinsics_def)
qed

end
