(* ===== verification/Overlayed_Changes.thy ===== *)
theory Overlayed_Changes
  imports Overlay_Refinement "HOL-Library.List_Lexorder" "HOL-Library.Product_Lexorder"
begin

text \<open>
  The changes a block makes to the storage, as the state machine collects them before they reach
  the backend (\<open>primitives/state-machine/src/overlayed_changes/mod.rs\<close> and
  \<open>offchain.rs\<close>): one transactional overlay for the main storage, one for each child storage and
  one for the offchain index, which open and close their transactions in lockstep.  The usage
  counters (\<open>stats\<close>) are left out: nothing reads them.  Decoding of the extrinsic index is the
  codec's and is a parameter \<open>decode\<close>.
\<close>

section \<open>State\<close>

type_synonym storage_key = "u8 list"
type_synonym storage_value = "u8 list"

datatype child_info = ParentKeyId storage_key

fun child_storage_key :: "child_info \<Rightarrow> storage_key" where
  "child_storage_key (ParentKeyId k) = k"

datatype offchain_overlayed_change = Remove | SetValue storage_value

datatype index_operation =
    InsertOp u32 "u8 list" u32
  | RenewOp u32 "u8 list"

type_synonym changeset = "(storage_key, storage_value option) overlayed_map"
type_synonym offchain_changes = "(storage_key \<times> storage_key, offchain_overlayed_change) overlayed_map"

record overlayed_changes =
  top :: changeset
  children :: "(storage_key, changeset \<times> child_info) btree_map"
  offchain :: offchain_changes
  transaction_index_ops :: "index_operation list"
  collect_extrinsics :: bool

definition default_changes :: overlayed_changes where
  "default_changes =
     \<lparr>top = default_overlay, children = [], offchain = default_overlay, transaction_index_ops = [],
      collect_extrinsics = False\<rparr>"

text \<open>The bytes of \<open>:extrinsic_index\<close>.\<close>

definition EXTRINSIC_INDEX :: storage_key where
  "EXTRINSIC_INDEX = [58, 101, 120, 116, 114, 105, 110, 115, 105, 99, 95, 105, 110, 100, 101, 120]"

definition NO_EXTRINSIC_INDEX :: u32 where
  "NO_EXTRINSIC_INDEX = 0xffffffff"

text \<open>The bytes of \<open>storage\<close>.\<close>

definition STORAGE_PREFIX :: storage_key where
  "STORAGE_PREFIX = [115, 116, 111, 114, 97, 103, 101]"

fun starts_with :: "'a list \<Rightarrow> 'a list \<Rightarrow> bool" where
  "starts_with key [] = True"
| "starts_with [] (p # ps) = False"
| "starts_with (k # ks) (p # ps) = (k = p \<and> starts_with ks ps)"

section \<open>Reading and writing\<close>

definition changes_empty :: "overlayed_changes \<Rightarrow> bool" where
  "changes_empty s = (is_empty (top s) \<and> children s = [])"

definition storage :: "storage_key \<Rightarrow> overlayed_changes \<Rightarrow> storage_value option option" where
  "storage key s = Option.bind (overlay_get (top s) key) value_ref"

definition child_storage ::
    "child_info \<Rightarrow> storage_key \<Rightarrow> overlayed_changes \<Rightarrow> storage_value option option" where
  "child_storage ci key s =
     Option.bind (bt_get (children s) (child_storage_key ci)) (\<lambda>(cs, _).
     Option.bind (overlay_get cs key) value_ref)"

definition extrinsic_index :: "(u8 list \<Rightarrow> u32 option) \<Rightarrow> overlayed_changes \<Rightarrow> u32 option" where
  "extrinsic_index decode s =
     (if collect_extrinsics s then
        Some (unwrap_or_default NO_EXTRINSIC_INDEX
          (Option.bind (storage EXTRINSIC_INDEX s) (\<lambda>idx. Option.bind idx decode)))
      else None)"

definition set_storage ::
    "(u8 list \<Rightarrow> u32 option) \<Rightarrow> storage_key \<Rightarrow> storage_value option
      \<Rightarrow> overlayed_changes \<Rightarrow> overlayed_changes" where
  "set_storage decode key val s = s\<lparr>top := overlay_set key val (extrinsic_index decode s) (top s)\<rparr>"

text \<open>The caller's use of the returned reference is \<open>upd\<close>.\<close>

definition value_mut_or_insert_with ::
    "(u8 list \<Rightarrow> u32 option) \<Rightarrow> storage_key \<Rightarrow> storage_value \<Rightarrow> (storage_value \<Rightarrow> storage_value)
      \<Rightarrow> overlayed_changes \<Rightarrow> overlayed_changes" where
  "value_mut_or_insert_with decode key init upd s =
     s\<lparr>top := modify key init (extrinsic_index decode s)
          (\<lambda>v. Some (upd (unwrap_or_default [] v))) (top s)\<rparr>"

definition with_child ::
    "child_info \<Rightarrow> (changeset \<Rightarrow> changeset) \<Rightarrow> overlayed_changes \<Rightarrow> overlayed_changes" where
  "with_child ci f s =
     (let key = child_storage_key ci;
          (cs, info) = unwrap_or_default (spawn_child (top s), ci) (bt_get (children s) key)
      in s\<lparr>children := bt_put key (f cs, info) (children s)\<rparr>)"

definition set_child_storage ::
    "(u8 list \<Rightarrow> u32 option) \<Rightarrow> child_info \<Rightarrow> storage_key \<Rightarrow> storage_value option
      \<Rightarrow> overlayed_changes \<Rightarrow> overlayed_changes" where
  "set_child_storage decode ci key val s =
     with_child ci (overlay_set key val (extrinsic_index decode s)) s"

definition clear_child_storage ::
    "(u8 list \<Rightarrow> u32 option) \<Rightarrow> child_info \<Rightarrow> overlayed_changes \<Rightarrow> overlayed_changes" where
  "clear_child_storage decode ci s = with_child ci (clear_where (\<lambda>_ _. True) (extrinsic_index decode s)) s"

definition clear_prefix ::
    "(u8 list \<Rightarrow> u32 option) \<Rightarrow> u8 list \<Rightarrow> overlayed_changes \<Rightarrow> overlayed_changes" where
  "clear_prefix decode prefix s =
     s\<lparr>top := clear_where (\<lambda>key _. starts_with key prefix) (extrinsic_index decode s) (top s)\<rparr>"

definition clear_child_prefix ::
    "(u8 list \<Rightarrow> u32 option) \<Rightarrow> child_info \<Rightarrow> u8 list \<Rightarrow> overlayed_changes \<Rightarrow> overlayed_changes" where
  "clear_child_prefix decode ci prefix s =
     with_child ci (clear_where (\<lambda>key _. starts_with key prefix) (extrinsic_index decode s)) s"

definition set_offchain_storage ::
    "storage_key \<Rightarrow> storage_value option \<Rightarrow> overlayed_changes \<Rightarrow> overlayed_changes" where
  "set_offchain_storage key val s =
     s\<lparr>offchain := overlay_set (STORAGE_PREFIX, key)
          (case val of Some v \<Rightarrow> SetValue v | None \<Rightarrow> Remove) None (offchain s)\<rparr>"

definition offchain_get ::
    "storage_key \<Rightarrow> storage_key \<Rightarrow> offchain_changes \<Rightarrow> offchain_overlayed_change option" where
  "offchain_get prefix key ofc = Option.bind (overlay_get ofc (prefix, key)) value_ref"

definition add_transaction_index :: "index_operation \<Rightarrow> overlayed_changes \<Rightarrow> overlayed_changes" where
  "add_transaction_index op s = s\<lparr>transaction_index_ops := transaction_index_ops s @ [op]\<rparr>"

definition iter_after ::
    "storage_key \<Rightarrow> overlayed_changes \<Rightarrow> (storage_key \<times> storage_value option overlayed_entry) list" where
  "iter_after key s = changes_after key (top s)"

definition child_iter_after ::
    "storage_key \<Rightarrow> storage_key \<Rightarrow> overlayed_changes
      \<Rightarrow> (storage_key \<times> storage_value option overlayed_entry) list" where
  "child_iter_after sk key s =
     (case bt_get (children s) sk of Some (cs, _) \<Rightarrow> changes_after key cs | None \<Rightarrow> [])"

section \<open>Transactions\<close>

definition oc_transaction_depth :: "overlayed_changes \<Rightarrow> nat" where
  "oc_transaction_depth s = transaction_depth (top s)"

definition oc_start_transaction :: "overlayed_changes \<Rightarrow> overlayed_changes" where
  "oc_start_transaction s =
     s\<lparr>top := start_transaction (top s),
       children := map (\<lambda>(k, cs, i). (k, start_transaction cs, i)) (children s),
       offchain := start_transaction (offchain s)\<rparr>"

text \<open>What a change set's operation gives where the code expects it to succeed.\<close>

definition expect_ok :: "((overlay_error + unit) \<times> 's) option \<Rightarrow> 's option" where
  "expect_ok r = (case r of Some (Inr u, s) \<Rightarrow> Some s | _ \<Rightarrow> None)"

fun on_children ::
    "(changeset \<Rightarrow> ((overlay_error + unit) \<times> changeset) option)
      \<Rightarrow> (storage_key \<times> changeset \<times> child_info) list
      \<Rightarrow> (storage_key \<times> changeset \<times> child_info) list option" where
  "on_children f [] = Some []"
| "on_children f ((k, cs, i) # rest) =
     (case expect_ok (f cs) of
        None \<Rightarrow> None
      | Some cs' \<Rightarrow> map_option (Cons (k, cs', i)) (on_children f rest))"

definition oc_rollback_transaction ::
    "overlayed_changes \<Rightarrow> ((overlay_error + unit) \<times> overlayed_changes) option" where
  "oc_rollback_transaction s =
     (case rollback_transaction (top s) of
        None \<Rightarrow> None
      | Some (Inl e, t) \<Rightarrow> Some (Inl e, s\<lparr>top := t\<rparr>)
      | Some (Inr _, t) \<Rightarrow>
          (case on_children rollback_transaction (children s) of
             None \<Rightarrow> None
           | Some cs \<Rightarrow>
               (case expect_ok (rollback_transaction (offchain s)) of
                  None \<Rightarrow> None
                | Some ofc \<Rightarrow>
                    Some (Inr (), s\<lparr>top := t, children := filter (\<lambda>(_, c, _). \<not> is_empty c) cs,
                                    offchain := ofc\<rparr>))))"

definition oc_all ::
    "(changeset \<Rightarrow> ((overlay_error + unit) \<times> changeset) option)
      \<Rightarrow> (offchain_changes \<Rightarrow> ((overlay_error + unit) \<times> offchain_changes) option)
      \<Rightarrow> overlayed_changes \<Rightarrow> ((overlay_error + unit) \<times> overlayed_changes) option" where
  "oc_all f g s =
     (case f (top s) of
        None \<Rightarrow> None
      | Some (Inl e, t) \<Rightarrow> Some (Inl e, s\<lparr>top := t\<rparr>)
      | Some (Inr _, t) \<Rightarrow>
          (case on_children f (children s) of
             None \<Rightarrow> None
           | Some cs \<Rightarrow>
               (case expect_ok (g (offchain s)) of
                  None \<Rightarrow> None
                | Some ofc \<Rightarrow> Some (Inr (), s\<lparr>top := t, children := cs, offchain := ofc\<rparr>))))"

definition oc_commit_transaction ::
    "overlayed_changes \<Rightarrow> ((overlay_error + unit) \<times> overlayed_changes) option" where
  "oc_commit_transaction s = oc_all commit_transaction commit_transaction s"

definition oc_enter_runtime ::
    "overlayed_changes \<Rightarrow> ((overlay_error + unit) \<times> overlayed_changes) option" where
  "oc_enter_runtime s = oc_all (\<lambda>c. Some (enter_runtime c)) (\<lambda>c. Some (enter_runtime c)) s"

definition oc_exit_runtime ::
    "overlayed_changes \<Rightarrow> ((overlay_error + unit) \<times> overlayed_changes) option" where
  "oc_exit_runtime s = oc_all exit_runtime exit_runtime s"

section \<open>Draining\<close>

definition drain_children ::
    "(storage_key \<times> changeset \<times> child_info) list
      \<Rightarrow> (storage_key \<times> (storage_key \<times> storage_value option) list) list option" where
  "drain_children cs = those (map (\<lambda>(k, c, _). map_option (Pair k) (drain_commited c)) cs)"

text \<open>The change sets are taken out; every iterator is consumed by the caller.\<close>

definition drain_committed ::
    "overlayed_changes \<Rightarrow> (((storage_key \<times> storage_value option) list
      \<times> (storage_key \<times> (storage_key \<times> storage_value option) list) list) \<times> overlayed_changes) option" where
  "drain_committed s =
     (case (drain_commited (top s), drain_children (children s)) of
        (Some m, Some c) \<Rightarrow> Some ((m, c), s\<lparr>top := default_overlay, children := []\<rparr>)
      | _ \<Rightarrow> None)"

definition offchain_drain_committed ::
    "overlayed_changes \<Rightarrow> (((storage_key \<times> storage_key) \<times> offchain_overlayed_change) list
      \<times> overlayed_changes) option" where
  "offchain_drain_committed s =
     map_option (\<lambda>l. (l, s\<lparr>offchain := default_overlay\<rparr>))
       (those (map (\<lambda>(k, e). map_option (Pair k) (value_ref e)) (changes (offchain s))))"

end
