(* ===== verification/Overlayed_Lockstep.thy ===== *)
theory Overlayed_Lockstep
  imports Overlayed_Changes
begin

text \<open>
  The overlays of a block stay in lockstep: they have the same transactions open and the same
  execution mode, so closing a transaction on one of them succeeds exactly when it does on all.  Hence
  no \<open>expect\<close> of \<open>overlayed_changes/mod.rs\<close> can fail, and the changes of a block, main, child
  and offchain storage together, are one more \<open>tx_store\<close>.
\<close>

section \<open>Lockstep\<close>

text \<open>What decides whether a change set lets a transaction be closed.\<close>

definition shape :: "('k, 'v) overlayed_map \<Rightarrow> nat \<times> nat \<times> exec_mode" where
  "shape s = (transaction_depth s, if execution_mode s = Runtime then num_client_transactions s else 0,
     execution_mode s)"

definition changes_ok :: "overlayed_changes \<Rightarrow> bool" where
  "changes_ok s = (overlay_ok (top s) \<and> bt_inv (children s)
     \<and> (\<forall>(k, cs, i) \<in> set (children s). overlay_ok cs \<and> shape cs = shape (top s))
     \<and> overlay_ok (offchain s) \<and> shape (offchain s) = shape (top s))"

lemma insert_dirty_length: "insert_dirty ds k = (b, ds') \<Longrightarrow> length ds' = length ds"
  using length_insert_dirty [of ds k] by simp

lemma shape_set [simp]: "shape (overlay_set k v x s) = shape s"
  by (simp add: shape_def overlay_set_def transaction_depth_def Let_def insert_dirty_length split: prod.split)

lemma shape_modify [simp]: "shape (modify k i x u s) = shape s"
  by (simp add: shape_def modify_def transaction_depth_def Let_def insert_dirty_length split: prod.split)

lemma fold_set_ok:
  "overlay_ok s \<Longrightarrow> overlay_ok (fold (\<lambda>k. overlay_set k v x) ks s)
     \<and> shape (fold (\<lambda>k. overlay_set k v x) ks s) = shape s"
  by (induction ks arbitrary: s) (simp_all add: overlay_set_ok)

lemma clear_where_ok:
  assumes "overlay_ok s"
  shows "overlay_ok (clear_where p x s)" and "shape (clear_where p x s) = shape s"
  using fold_set_ok [OF assms] assms by (simp_all add: clear_where_fold overlay_ok_def)

lemma spawn_child_ok: "overlay_ok s \<Longrightarrow> overlay_ok (spawn_child s)"
  and shape_spawn_child [simp]: "shape (spawn_child s) = shape s"
proof -
  have "layered (replicate n []) (\<lambda>_ :: 'c. [] :: 'd inner_value list)" for n
  proof (induction n)
    case (Suc n)
    then show ?case by (simp add: pop_level_def cong: if_cong) (simp add: pop_level_def [abs_def])
  qed simp
  moreover have "versions (spawn_child s :: ('c, 'd) overlayed_map) = (\<lambda>_. [])"
    by (simp add: versions_def spawn_child_def fun_eq_iff)
  ultimately show "overlay_ok s \<Longrightarrow> overlay_ok (spawn_child s :: ('c::linorder, 'd) overlayed_map)"
    by (simp add: overlay_ok_def spawn_child_def no_empty_entry_def transaction_depth_def)
qed (simp add: shape_def spawn_child_def transaction_depth_def)


section \<open>Closing in lockstep\<close>

text \<open>Whether a transaction can be closed depends on the shape alone, and so does the shape left.\<close>

fun closable :: "nat \<times> nat \<times> exec_mode \<Rightarrow> bool" where
  "closable (d, n, m) = ((if m = Runtime then n else 0) < d)"

fun closed :: "nat \<times> nat \<times> exec_mode \<Rightarrow> nat \<times> nat \<times> exec_mode" where
  "closed (d, n, m) = (d - 1, n, m)"

definition from_level :: "bool \<Rightarrow> nat \<Rightarrow> nat" where
  "from_level rb i = (if rb \<or> 0 < i then Suc i else 0)"

lemma spec_close_nth:
  "Suc i < length ms \<Longrightarrow> (if rb then spec_rollback ms else spec_commit ms) ! i = ms ! from_level rb i"
  by (cases ms rule: spec_commit.cases) (auto simp: from_level_def nth_Cons split: nat.split)

definition closes ::
    "bool \<Rightarrow> ('k::linorder, 'v) overlayed_map \<Rightarrow> ('k, 'v) overlayed_map \<Rightarrow> bool" where
  "closes rb s t = (close_transaction rb s = Some (Inr (), t) \<and> overlay_ok t \<and> shape t = closed (shape s)
     \<and> (\<forall>i < transaction_depth s. overlay_abs t ! i = overlay_abs s ! from_level rb i))"

lemma close_by_shape:
  assumes "overlay_ok s"
  shows "if closable (shape s) then \<exists>t. closes rb s t
    else close_transaction rb s = Some (Inl NoOpenTransaction, s)"
proof (cases "closable (shape s)")
  case True
  then have d: "dirty_keys s \<noteq> []" "execution_mode s = Runtime \<Longrightarrow> has_open_runtime_transactions s"
    by (auto simp: shape_def transaction_depth_def has_open_runtime_transactions_def)
  obtain t where t: "close_transaction rb s = Some (Inr (), t)"
      "overlay_abs t = (if rb then spec_rollback (overlay_abs s) else spec_commit (overlay_abs s))"
      "bt_inv (changes t)" "no_empty_entry (changes t)" "layered (dirty_keys t) (versions t)"
      "Suc (transaction_depth t) = transaction_depth s"
      "num_client_transactions t = num_client_transactions s" "execution_mode t = execution_mode s"
    by (rule close_transaction_ok [OF assms d, of rb])
  have "overlay_ok t" using t True by (auto simp: overlay_ok_def shape_def)
  moreover have "shape t = closed (shape s)" using t(6-8) by (simp add: shape_def)
  moreover have "overlay_abs t ! i = overlay_abs s ! from_level rb i" if "i < transaction_depth s" for i
    using that unfolding t(2) by (intro spec_close_nth) simp
  ultimately have "closes rb s t" using t(1) by (simp add: closes_def)
  then show ?thesis using True by auto
next
  case False
  then have "dirty_keys s = [] \<or> execution_mode s = Runtime \<and> \<not> has_open_runtime_transactions s"
    using assms by (auto simp: shape_def overlay_ok_def transaction_depth_def
        has_open_runtime_transactions_def split: if_splits)
  from close_transaction_refused [OF this] False show ?thesis by simp
qed

lemma on_children_map:
  assumes "\<And>k c i. (k, c, i) \<in> set cs \<Longrightarrow> \<exists>c'. f c = Some (Inr (), c')"
  shows "on_children f cs = Some (map (\<lambda>(k, c, i). (k, snd (the (f c)), i)) cs)"
  using assms
proof (induction cs)
  case (Cons x cs)
  obtain k c i where x: "x = (k, c, i)" by (metis prod_cases3)
  obtain c' where "f c = Some (Inr (), c')" using Cons.prems [of k c i] x by auto
  moreover have "on_children f cs = Some (map (\<lambda>(k, c, i). (k, snd (the (f c)), i)) cs)"
    using Cons.prems by (intro Cons.IH) (meson list.set_intros(2))
  ultimately show ?case by (simp add: x expect_ok_def)
qed simp

lemma bt_inv_map_snd [simp]: "bt_inv (map (\<lambda>(k, c, i). (k, g c, i)) m) = bt_inv m"
  by (simp add: bt_inv_def comp_def case_prod_beta)

lemma bt_inv_filter: "bt_inv m \<Longrightarrow> bt_inv (filter P m)"
  by (auto simp: bt_inv_def distinct_map_filter sorted_filter)

lemma bt_get_map_snd:
  "bt_get (map (\<lambda>(k, c, i). (k, g c, i)) m) k = map_option (\<lambda>(c, i). (g c, i)) (bt_get m k)"
  by (induction m) auto

lemma bt_get_filter:
  "bt_inv m \<Longrightarrow> bt_get (filter (\<lambda>(_, c, _). P c) m) k
     = (case bt_get m k of Some (c, i) \<Rightarrow> if P c then Some (c, i) else None | None \<Rightarrow> None)"
proof (induction m)
  case (Cons x m)
  then have "bt_inv m" "map_of m (fst x) = None" by (auto simp: bt_inv_def map_of_eq_None_iff)
  with Cons show ?case by (cases x) (auto split: option.split)
qed simp


section \<open>Every operation keeps the overlays in lockstep\<close>

lemma child_in: "bt_get (children s) k = Some (c, i) \<Longrightarrow> (k, c, i) \<in> set (children s)"
  by (rule map_of_SomeD)

lemma changes_okD:
  assumes "changes_ok s"
  shows "overlay_ok (top s)" "bt_inv (children s)" "overlay_ok (offchain s)" "shape (offchain s) = shape (top s)"
    "(k, c, i) \<in> set (children s) \<Longrightarrow> overlay_ok c"
    "(k, c, i) \<in> set (children s) \<Longrightarrow> shape c = shape (top s)"
  using assms by (auto simp: changes_ok_def)

lemma set_bt_put: "(k', x) \<in> set (bt_put k v m) \<Longrightarrow> (k', x) = (k, v) \<or> (k', x) \<in> set m"
  by (induction k v m rule: bt_put.induct) (auto split: if_splits)

lemma with_child_ok:
  assumes "changes_ok s"
    and "\<And>c. overlay_ok c \<Longrightarrow> overlay_ok (f c) \<and> shape (f c) = shape c"
  shows "changes_ok (with_child ci f s)"
proof -
  let ?k = "child_storage_key ci"
  obtain c i where c: "unwrap_or_default (spawn_child (top s), ci) (bt_get (children s) ?k) = (c, i)" by fastforce
  have "overlay_ok c \<and> shape c = shape (top s)"
  proof (cases "bt_get (children s) ?k")
    case None
    then show ?thesis using c changes_okD(1) [OF assms(1)] by (auto simp: spawn_child_ok)
  next
    case (Some x)
    then have "(?k, c, i) \<in> set (children s)" using c by (auto dest: child_in)
    then show ?thesis using changes_okD(5,6) [OF assms(1)] by blast
  qed
  then have "overlay_ok (f c)" "shape (f c) = shape (top s)" using assms(2) [of c] by auto
  then show ?thesis
    using assms(1) c by (auto simp: with_child_def changes_ok_def dest!: set_bt_put)
qed

text \<open>An operation that succeeds on every overlay of one shape and gives them one shape.\<close>

definition uniform ::
    "nat \<times> nat \<times> exec_mode \<Rightarrow> nat \<times> nat \<times> exec_mode
      \<Rightarrow> (('k::linorder, 'v) overlayed_map \<Rightarrow> ((overlay_error + unit) \<times> ('k, 'v) overlayed_map) option) \<Rightarrow> bool" where
  "uniform sh sh' f = (\<forall>c. overlay_ok c \<longrightarrow> shape c = sh \<longrightarrow>
     (\<exists>c'. f c = Some (Inr (), c') \<and> overlay_ok c' \<and> shape c' = sh'))"

lemma uniformD:
  "uniform sh sh' f \<Longrightarrow> overlay_ok c \<Longrightarrow> shape c = sh
     \<Longrightarrow> \<exists>c'. f c = Some (Inr (), c') \<and> overlay_ok c' \<and> shape c' = sh'"
  by (simp add: uniform_def)

definition moved ::
    "(changeset \<Rightarrow> ((overlay_error + unit) \<times> changeset) option)
      \<Rightarrow> (offchain_changes \<Rightarrow> ((overlay_error + unit) \<times> offchain_changes) option)
      \<Rightarrow> overlayed_changes \<Rightarrow> overlayed_changes" where
  "moved f g s = s\<lparr>top := snd (the (f (top s))),
     children := map (\<lambda>(k, c, i). (k, snd (the (f c)), i)) (children s),
     offchain := snd (the (g (offchain s)))\<rparr>"

lemma moved_update:
  "s\<lparr>top := top (moved f g s), children := cs, offchain := offchain (moved f g s)\<rparr> = (moved f g s)\<lparr>children := cs\<rparr>"
  by (simp add: moved_def)

lemma uniform_all:
  assumes ok: "changes_ok s" and f: "uniform (shape (top s)) sh f" and g: "uniform (shape (top s)) sh g"
  shows "oc_all f g s = Some (Inr (), moved f g s)" and "changes_ok (moved f g s)"
    and "on_children f (children s) = Some (children (moved f g s))"
    and "f (top s) = Some (Inr (), top (moved f g s))" and "g (offchain s) = Some (Inr (), offchain (moved f g s))"
proof -
  obtain t where t: "f (top s) = Some (Inr (), t)" "overlay_ok t" "shape t = sh"
    using uniformD [OF f changes_okD(1) [OF ok] refl] by blast
  obtain u where u: "g (offchain s) = Some (Inr (), u)" "overlay_ok u" "shape u = sh"
    using uniformD [OF g changes_okD(3,4) [OF ok]] by blast
  have c: "\<exists>c'. f c = Some (Inr (), c') \<and> overlay_ok c' \<and> shape c' = sh" if "(k, c, i) \<in> set (children s)" for k c i
    using uniformD [OF f changes_okD(5,6) [OF ok that]] .
  show oc: "on_children f (children s) = Some (children (moved f g s))"
    using c by (subst on_children_map) (fastforce simp: moved_def)+
  show "f (top s) = Some (Inr (), top (moved f g s))" "g (offchain s) = Some (Inr (), offchain (moved f g s))"
    using t(1) u(1) by (simp_all add: moved_def)
  show "oc_all f g s = Some (Inr (), moved f g s)"
    using t(1) u(1) oc by (simp add: oc_all_def expect_ok_def moved_def)
  have "overlay_ok (snd (the (f d))) \<and> shape (snd (the (f d))) = sh" if "(k, d, i) \<in> set (children s)" for k d i
    using c [OF that] by auto
  then show "changes_ok (moved f g s)"
    using t u changes_okD(2) [OF ok] by (auto simp: changes_ok_def moved_def)
qed


lemma uniform_close: "closable sh \<Longrightarrow> uniform sh (closed sh) (close_transaction rb)"
  using close_by_shape unfolding uniform_def closes_def by metis

lemma uniform_enter:
  "uniform (d, n, Client) (d, d, Runtime) (\<lambda>c. Some (enter_runtime c))"
  by (auto simp: uniform_def enter_runtime_def shape_def overlay_ok_def transaction_depth_def)

lemma uniform_exit: "uniform (d, n, Runtime) (n, 0, Client) exit_runtime"
  unfolding uniform_def
proof (intro allI impI)
  fix c :: "('a, 'b) overlayed_map"
  assume c: "overlay_ok c" "shape c = (d, n, Runtime)"
  then have m: "execution_mode c = Runtime" "transaction_depth c = d" "num_client_transactions c = n" "n \<le> d"
    by (auto simp: shape_def overlay_ok_def)
  obtain t where t: "exit_runtime c = Some (Inr (), t)" "overlay_ok t" "execution_mode t = Client"
      "num_client_transactions t = n" "overlay_abs t = drop (d - n) (overlay_abs c)"
    using exit_runtime_ok [OF c(1) m(1)] m by auto
  have "Suc (transaction_depth t) = Suc n" using length_overlay_abs [of t] m unfolding t(5) by simp
  then show "\<exists>t. exit_runtime c = Some (Inr (), t) \<and> overlay_ok t \<and> shape t = (n, 0, Client)"
    using t by (simp add: shape_def)
qed

lemma changes_ok_prune:
  "changes_ok s \<Longrightarrow> changes_ok (s\<lparr>children := filter P (children s)\<rparr>)"
  by (auto simp: changes_ok_def bt_inv_filter)

definition prune_children :: "overlayed_changes \<Rightarrow> overlayed_changes" where
  "prune_children s = s\<lparr>children := filter (\<lambda>(_, c, _). \<not> is_empty c) (children s)\<rparr>"

lemma oc_rollback_by_shape:
  assumes "changes_ok s"
  shows "oc_rollback_transaction s =
    (if closable (shape (top s))
     then Some (Inr (), prune_children (moved rollback_transaction rollback_transaction s))
     else Some (Inl NoOpenTransaction, s))"
proof (cases "closable (shape (top s))")
  case True
  have e: "rollback_transaction = close_transaction True" by (simp add: fun_eq_iff rollback_transaction_def)
  note u = uniform_close [OF True, of True]
  note m = uniform_all [OF assms u u]
  show ?thesis
    using True m(3-5) by (simp add: e oc_rollback_transaction_def expect_ok_def prune_children_def moved_update)
next
  case False
  then show ?thesis
    using close_by_shape [OF changes_okD(1) [OF assms], of True]
    by (simp add: oc_rollback_transaction_def rollback_transaction_def)
qed

lemma oc_commit_by_shape:
  assumes "changes_ok s"
  shows "oc_commit_transaction s =
    (if closable (shape (top s)) then Some (Inr (), moved commit_transaction commit_transaction s)
     else Some (Inl NoOpenTransaction, s))"
proof (cases "closable (shape (top s))")
  case True
  have e: "commit_transaction = close_transaction False" by (simp add: fun_eq_iff commit_transaction_def)
  note u = uniform_close [OF True, of False]
  show ?thesis using True uniform_all(1) [OF assms u u] by (simp add: e oc_commit_transaction_def)
next
  case False
  then show ?thesis
    using close_by_shape [OF changes_okD(1) [OF assms], of False]
    by (simp add: oc_commit_transaction_def oc_all_def commit_transaction_def)
qed

section \<open>Sequences of operations\<close>

datatype oc_op =
    SetStorage storage_key "storage_value option"
  | ValueMut storage_key storage_value "storage_value \<Rightarrow> storage_value"
  | SetChild child_info storage_key "storage_value option"
  | ClearChild child_info
  | ClearPrefix "u8 list"
  | ClearChildPrefix child_info "u8 list"
  | SetOffchain storage_key "storage_value option"
  | AddIndex index_operation
  | CollectExtrinsics bool
  | StartTx | CommitTx | RollbackTx | EnterRuntime | ExitRuntime
  | DrainCommitted | DrainOffchain

fun oc_exec :: "(u8 list \<Rightarrow> u32 option) \<Rightarrow> oc_op \<Rightarrow> overlayed_changes \<Rightarrow> overlayed_changes option" where
  "oc_exec dec (SetStorage k v) s = Some (set_storage dec k v s)"
| "oc_exec dec (ValueMut k init upd) s = Some (value_mut_or_insert_with dec k init upd s)"
| "oc_exec dec (SetChild ci k v) s = Some (set_child_storage dec ci k v s)"
| "oc_exec dec (ClearChild ci) s = Some (clear_child_storage dec ci s)"
| "oc_exec dec (ClearPrefix p) s = Some (clear_prefix dec p s)"
| "oc_exec dec (ClearChildPrefix ci p) s = Some (clear_child_prefix dec ci p s)"
| "oc_exec dec (SetOffchain k v) s = Some (set_offchain_storage k v s)"
| "oc_exec dec (AddIndex x) s = Some (add_transaction_index x s)"
| "oc_exec dec (CollectExtrinsics b) s = Some (s\<lparr>collect_extrinsics := b\<rparr>)"
| "oc_exec dec StartTx s = Some (oc_start_transaction s)"
| "oc_exec dec CommitTx s = map_option snd (oc_commit_transaction s)"
| "oc_exec dec RollbackTx s = map_option snd (oc_rollback_transaction s)"
| "oc_exec dec EnterRuntime s = map_option snd (oc_enter_runtime s)"
| "oc_exec dec ExitRuntime s = map_option snd (oc_exit_runtime s)"
| "oc_exec dec DrainCommitted s = map_option snd (drain_committed s)"
| "oc_exec dec DrainOffchain s = map_option snd (offchain_drain_committed s)"

text \<open>
  What a drain asks of its caller: no transaction is open and the runtime is not executing.  A drained
  overlay is a fresh one, so a drain at any other moment puts the overlays out of step.
\<close>

fun oc_allowed :: "oc_op \<Rightarrow> overlayed_changes \<Rightarrow> bool" where
  "oc_allowed DrainCommitted s = (oc_transaction_depth s = 0 \<and> execution_mode (top s) = Client)"
| "oc_allowed DrainOffchain s = (oc_transaction_depth s = 0 \<and> execution_mode (top s) = Client)"
| "oc_allowed op s = True"

fun oc_all_allowed :: "(u8 list \<Rightarrow> u32 option) \<Rightarrow> oc_op list \<Rightarrow> overlayed_changes \<Rightarrow> bool" where
  "oc_all_allowed dec [] s = True"
| "oc_all_allowed dec (op # ops) s =
     (oc_allowed op s \<and> (case oc_exec dec op s of None \<Rightarrow> True | Some t \<Rightarrow> oc_all_allowed dec ops t))"

lemma set_top_ok:
  "changes_ok s \<Longrightarrow> overlay_ok t \<Longrightarrow> shape t = shape (top s) \<Longrightarrow> changes_ok (s\<lparr>top := t\<rparr>)"
  "changes_ok s \<Longrightarrow> overlay_ok u \<Longrightarrow> shape u = shape (top s) \<Longrightarrow> changes_ok (s\<lparr>offchain := u\<rparr>)"
  "changes_ok s \<Longrightarrow> changes_ok (s\<lparr>transaction_index_ops := ops\<rparr>)"
  "changes_ok s \<Longrightarrow> changes_ok (s\<lparr>collect_extrinsics := b\<rparr>)"
  by (auto simp: changes_ok_def)

lemma shape_start: "shape c = (d, n, m) \<Longrightarrow> shape (start_transaction c) = (Suc d, n, m)"
  by (auto simp: shape_def start_transaction_def transaction_depth_def)

lemma oc_start_ok:
  assumes "changes_ok s"
  shows "changes_ok (oc_start_transaction s)"
proof -
  obtain d n m where sh: "shape (top s) = (d, n, m)" by (metis prod_cases3)
  have "shape (start_transaction c) = (Suc d, n, m) \<and> overlay_ok (start_transaction c)"
    if "(k, c, i) \<in> set (children s)" for k c i
    using changes_okD(5,6) [OF assms that] sh by (simp add: shape_start start_transaction_ok)
  moreover have "shape (start_transaction (offchain s)) = (Suc d, n, m)"
    "shape (start_transaction (top s)) = (Suc d, n, m)"
    using changes_okD(4) [OF assms] sh by (simp_all add: shape_start)
  ultimately show ?thesis
    using changes_okD(1-3) [OF assms]
    by (auto simp: changes_ok_def oc_start_transaction_def start_transaction_ok)
qed

lemma oc_switch_ok:
  assumes "changes_ok s"
  shows "\<exists>r t. oc_enter_runtime s = Some (r, t) \<and> changes_ok t"
    and "\<exists>r t. oc_exit_runtime s = Some (r, t) \<and> changes_ok t"
proof -
  obtain d n m where sh: "shape (top s) = (d, n, m)" by (metis prod_cases3)
  then have em: "execution_mode (top s) = m" by (simp add: shape_def)
  show "\<exists>r t. oc_enter_runtime s = Some (r, t) \<and> changes_ok t"
  proof (cases m)
    case Client
    then have "shape (top s) = (d, n, Client)" using sh by simp
    from uniform_all(1,2) [OF assms, unfolded this, OF uniform_enter uniform_enter]
    show ?thesis unfolding oc_enter_runtime_def by blast
  next
    case Runtime
    then show ?thesis using em assms by (simp add: oc_enter_runtime_def oc_all_def enter_runtime_def)
  qed
  show "\<exists>r t. oc_exit_runtime s = Some (r, t) \<and> changes_ok t"
  proof (cases m)
    case Runtime
    then have "shape (top s) = (d, n, Runtime)" using sh by simp
    from uniform_all(1,2) [OF assms, unfolded this, OF uniform_exit uniform_exit]
    show ?thesis unfolding oc_exit_runtime_def by blast
  next
    case Client
    then show ?thesis using em assms by (simp add: oc_exit_runtime_def oc_all_def exit_runtime_def)
  qed
qed


lemma moved_close_ok:
  assumes "changes_ok s" and "closable (shape (top s))"
  shows "changes_ok (moved rollback_transaction rollback_transaction s)"
    and "changes_ok (moved commit_transaction commit_transaction s)"
  using uniform_all(2) [OF assms(1) uniform_close uniform_close, of True True]
    uniform_all(2) [OF assms(1) uniform_close uniform_close, of False False] assms(2)
  by (simp_all add: rollback_transaction_def [abs_def] commit_transaction_def [abs_def])

lemma default_overlay_shape: "shape default_overlay = (0, 0, Client)"
  by (simp add: shape_def default_overlay_def transaction_depth_def)

text \<open>Outside every transaction and outside the runtime an overlay drains and is then a fresh one.\<close>

lemma drain_Some:
  assumes "overlay_ok c"
  shows "those (map (\<lambda>(k, e). map_option (Pair k) (value_ref e)) (changes c)) \<noteq> None"
proof -
  have "value_ref e \<noteq> None" if "(k, e) \<in> set (changes c)" for k e
    using that assms by (auto simp: overlay_ok_def no_empty_entry_def bt_inv_def value_ref_def split: list.split)
  then have "map (\<lambda>(k, e). map_option (Pair k) (value_ref e)) (changes c)
      = map Some (map (\<lambda>(k, e). (k, the (value_ref e))) (changes c))"
    by force
  then show ?thesis by (simp only: those_map_Some) simp
qed

lemma drain_children_Some:
  assumes "\<And>k c i. (k, c, i) \<in> set cs \<Longrightarrow> overlay_ok c \<and> transaction_depth c = 0"
  shows "drain_children cs \<noteq> None"
proof -
  have "drain_commited c \<noteq> None" if "(k, c, i) \<in> set cs" for k c i
    using assms [OF that] drain_Some [of c] by (simp add: drain_commited_def)
  then have "map (\<lambda>(k, c, _). map_option (Pair k) (drain_commited c)) cs
      = map Some (map (\<lambda>(k, c, _). (k, the (drain_commited c))) cs)"
    by force
  then show ?thesis unfolding drain_children_def by (simp only: those_map_Some) simp
qed

lemma drains_ok:
  assumes ok: "changes_ok s" and d: "oc_transaction_depth s = 0" and m: "execution_mode (top s) = Client"
  shows "\<exists>t. map_option snd (drain_committed s) = Some t \<and> changes_ok t"
    and "\<exists>t. map_option snd (offchain_drain_committed s) = Some t \<and> changes_ok t"
proof -
  have sh: "shape (top s) = (0, 0, Client)"
    using d m by (simp add: shape_def oc_transaction_depth_def)
  have c: "overlay_ok c \<and> transaction_depth c = 0" if "(k, c, i) \<in> set (children s)" for k c i
    using changes_okD(5,6) [OF ok that] sh by (simp add: shape_def)
  have "drain_commited (top s) \<noteq> None"
    using drain_Some [OF changes_okD(1) [OF ok]] d by (simp add: drain_commited_def oc_transaction_depth_def)
  moreover have "drain_children (children s) \<noteq> None" by (rule drain_children_Some [OF c])
  moreover have "changes_ok (s\<lparr>top := default_overlay, children := []\<rparr>)"
    using changes_okD(3,4) [OF ok] sh
    by (simp add: changes_ok_def default_overlay_ok default_overlay_shape)
  ultimately show "\<exists>t. map_option snd (drain_committed s) = Some t \<and> changes_ok t"
    by (auto simp: drain_committed_def)
  have "changes_ok (s\<lparr>offchain := default_overlay\<rparr>)"
    by (rule set_top_ok(2) [OF ok]) (simp_all add: default_overlay_ok default_overlay_shape sh)
  then show "\<exists>t. map_option snd (offchain_drain_committed s) = Some t \<and> changes_ok t"
    using drain_Some [OF changes_okD(3) [OF ok]] by (auto simp: offchain_drain_committed_def)
qed

lemma oc_exec_ok:
  assumes "changes_ok s" and "oc_allowed op s"
  shows "\<exists>t. oc_exec dec op s = Some t \<and> changes_ok t"
proof (cases op)
  case (SetStorage k v)
  then show ?thesis using assms by (simp add: set_storage_def set_top_ok overlay_set_ok changes_okD)
next
  case (ValueMut k init upd)
  then show ?thesis
    using assms by (simp add: value_mut_or_insert_with_def set_top_ok modify_ok changes_okD)
next
  case (SetChild ci k v)
  then show ?thesis using assms by (simp add: set_child_storage_def with_child_ok overlay_set_ok)
next
  case (ClearChild ci)
  then show ?thesis using assms by (simp add: clear_child_storage_def with_child_ok clear_where_ok)
next
  case (ClearPrefix p)
  then show ?thesis using assms by (simp add: clear_prefix_def set_top_ok clear_where_ok changes_okD)
next
  case (ClearChildPrefix ci p)
  then show ?thesis using assms by (simp add: clear_child_prefix_def with_child_ok clear_where_ok)
next
  case (SetOffchain k v)
  then show ?thesis using assms by (simp add: set_offchain_storage_def set_top_ok overlay_set_ok changes_okD)
next
  case (AddIndex x)
  then show ?thesis using assms by (simp add: add_transaction_index_def set_top_ok)
next
  case (CollectExtrinsics b)
  then show ?thesis using assms by (simp add: set_top_ok)
next
  case StartTx
  then show ?thesis using oc_start_ok [OF assms(1)] by simp
next
  case CommitTx
  then show ?thesis using assms by (simp add: oc_commit_by_shape moved_close_ok)
next
  case RollbackTx
  then show ?thesis
    using assms by (simp add: oc_rollback_by_shape moved_close_ok prune_children_def changes_ok_prune)
next
  case EnterRuntime
  then show ?thesis using oc_switch_ok(1) [OF assms(1)] by auto
next
  case ExitRuntime
  then show ?thesis using oc_switch_ok(2) [OF assms(1)] by auto
next
  case DrainCommitted
  then show ?thesis using drains_ok(1) [OF assms(1)] assms(2) by simp
next
  case DrainOffchain
  then show ?thesis using drains_ok(2) [OF assms(1)] assms(2) by simp
qed

lemma oc_run_ok:
  "changes_ok s \<Longrightarrow> oc_all_allowed dec ops s \<Longrightarrow> \<exists>t. tx_run (oc_exec dec) ops s = Some t \<and> changes_ok t"
proof (induction ops arbitrary: s)
  case (Cons op ops)
  from oc_exec_ok [of s op dec] Cons.prems obtain t where "oc_exec dec op s = Some t" "changes_ok t" by auto
  with Cons.IH [of t] Cons.prems(2) show ?case by simp
qed simp

lemma default_changes_ok: "changes_ok default_changes"
  by (simp add: changes_ok_def default_changes_def default_overlay_ok)
     (simp add: shape_def default_overlay_def transaction_depth_def)

section \<open>The block's changes are one transactional store\<close>

datatype area_key = MainKey storage_key | ChildKey storage_key storage_key | OffKey storage_key

fun offchain_value :: "offchain_overlayed_change \<Rightarrow> storage_value option" where
  "offchain_value Remove = None"
| "offchain_value (SetValue v) = Some v"

text \<open>The value the block saw for a key when the \<open>i\<close>-th transaction from the top was opened.\<close>

fun level :: "overlayed_changes \<Rightarrow> nat \<Rightarrow> area_key \<rightharpoonup> storage_value option" where
  "level s i (MainKey k) = (overlay_abs (top s) ! i) k"
| "level s i (ChildKey sk k) =
     (case bt_get (children s) sk of None \<Rightarrow> None | Some (c, _) \<Rightarrow> (overlay_abs c ! i) k)"
| "level s i (OffKey k) = map_option offchain_value ((overlay_abs (offchain s) ! i) (STORAGE_PREFIX, k))"

definition changes_abs :: "overlayed_changes \<Rightarrow> (area_key, storage_value option) snapshots" where
  "changes_abs s = map (level s) [0..<Suc (oc_transaction_depth s)]"

fun oc_tx_op :: "(area_key, storage_value option) tx_op \<Rightarrow> oc_op" where
  "oc_tx_op (Write (MainKey k) v) = SetStorage k v"
| "oc_tx_op (Write (ChildKey sk k) v) = SetChild (ParentKeyId sk) k v"
| "oc_tx_op (Write (OffKey k) v) = SetOffchain k v"
| "oc_tx_op Start = StartTx"
| "oc_tx_op Commit = CommitTx"
| "oc_tx_op Rollback = RollbackTx"

definition oc_tx_exec ::
    "(u8 list \<Rightarrow> u32 option) \<Rightarrow> (area_key, storage_value option) tx_op
      \<Rightarrow> overlayed_changes \<Rightarrow> overlayed_changes option" where
  "oc_tx_exec dec op s = oc_exec dec (oc_tx_op op) s"

lemma changes_abs_eqI:
  assumes "length ms = Suc (oc_transaction_depth t)"
    and "\<And>i. i \<le> oc_transaction_depth t \<Longrightarrow> level t i = ms ! i"
  shows "changes_abs t = ms"
proof (rule nth_equalityI)
  show "length (changes_abs t) = length ms" using assms(1) by (simp add: changes_abs_def)
  fix i assume "i < length (changes_abs t)"
  then show "changes_abs t ! i = ms ! i"
    using assms(2) [of i] by (simp add: changes_abs_def del: upt_Suc)
qed

lemma changes_abs_nth: "i \<le> oc_transaction_depth s \<Longrightarrow> changes_abs s ! i = level s i"
  by (simp add: changes_abs_def del: upt_Suc)

lemma length_changes_abs [simp]: "length (changes_abs s) = Suc (oc_transaction_depth s)"
  by (simp add: changes_abs_def)

lemma spec_write_nth:
  "i < length ms \<Longrightarrow> spec_write k v ms ! i = (if i = 0 then (ms ! 0)(k \<mapsto> v) else ms ! i)"
  by (cases ms) (auto simp: nth_Cons split: nat.split)

lemma spec_start_nth: "ms \<noteq> [] \<Longrightarrow> i < Suc (length ms) \<Longrightarrow> spec_start ms ! i = ms ! (i - 1)"
  by (cases ms) (auto simp: nth_Cons split: nat.split)

lemma spec_lengths [simp]:
  "length (spec_write k v ms) = length ms" "ms \<noteq> [] \<Longrightarrow> length (spec_start ms) = Suc (length ms)"
  "2 \<le> length ms \<Longrightarrow> length (spec_rollback ms) = length ms - 1"
  "2 \<le> length ms \<Longrightarrow> length (spec_commit ms) = length ms - 1"
  by (cases ms; simp; fail)+ (cases ms rule: spec_commit.cases; simp)+


lemma snaps_empty: "i \<le> length ds \<Longrightarrow> snaps ds (\<lambda>_. []) ! i = Map.empty"
proof (induction ds arbitrary: i)
  case (Cons d ds)
  have "pop_level d (\<lambda>_. []) = (\<lambda>_. [] :: 'b inner_value list)" by (simp add: pop_level_def fun_eq_iff)
  with Cons show ?case by (cases i) (auto simp: seen_def)
qed (simp add: seen_def fun_eq_iff)

lemma overlay_abs_empty:
  assumes "is_empty c" and "i \<le> transaction_depth c"
  shows "overlay_abs c ! i = Map.empty"
proof -
  have "versions c = (\<lambda>_. [])" using assms(1) by (simp add: is_empty_def versions_def fun_eq_iff)
  then show ?thesis using snaps_empty assms(2) by (simp add: overlay_abs_def transaction_depth_def)
qed

lemma shape_depth: "shape c = shape d \<Longrightarrow> transaction_depth c = transaction_depth d"
  by (simp add: shape_def)

lemma overlay_abs_set_nth:
  "overlay_ok c \<Longrightarrow> i \<le> transaction_depth c \<Longrightarrow>
     overlay_abs (overlay_set k v x c) ! i = (if i = 0 then (overlay_abs c ! 0)(k \<mapsto> v) else overlay_abs c ! i)"
  by (simp add: overlay_set_ok spec_write_nth)

lemma level_set_storage:
  assumes "changes_ok s" and "i \<le> oc_transaction_depth s"
  shows "level (set_storage dec k v s) i = (if i = 0 then (level s 0)(MainKey k \<mapsto> v) else level s i)"
proof
  fix a
  show "level (set_storage dec k v s) i a = (if i = 0 then (level s 0)(MainKey k \<mapsto> v) else level s i) a"
    using assms changes_okD(1) [OF assms(1)]
    by (cases a) (auto simp: set_storage_def overlay_abs_set_nth oc_transaction_depth_def)
qed

lemma level_set_offchain:
  assumes "changes_ok s" and "i \<le> oc_transaction_depth s"
  shows "level (set_offchain_storage k v s) i = (if i = 0 then (level s 0)(OffKey k \<mapsto> v) else level s i)"
proof
  fix a
  have "i \<le> transaction_depth (offchain s)"
    using assms shape_depth [OF changes_okD(4) [OF assms(1)]] by (simp add: oc_transaction_depth_def)
  then show "level (set_offchain_storage k v s) i a = (if i = 0 then (level s 0)(OffKey k \<mapsto> v) else level s i) a"
    using changes_okD(3) [OF assms(1)]
    by (cases a) (auto simp: set_offchain_storage_def overlay_abs_set_nth split: option.split)
qed

text \<open>A child storage that is not there yet has no value at any level.\<close>

lemma child_or_spawned:
  assumes "changes_ok s" and "unwrap_or_default (spawn_child (top s), ci) (bt_get (children s) sk) = (c, info)"
  shows "overlay_ok c" and "shape c = shape (top s)"
    and "i \<le> oc_transaction_depth s \<Longrightarrow> level s i (ChildKey sk k) = (overlay_abs c ! i) k"
proof -
  have "overlay_ok c \<and> shape c = shape (top s)
    \<and> (i \<le> oc_transaction_depth s \<longrightarrow> level s i (ChildKey sk k) = (overlay_abs c ! i) k)"
  proof (cases "bt_get (children s) sk")
    case None
    then have c: "c = spawn_child (top s)" using assms(2) by simp
    moreover have "is_empty c" by (simp add: c spawn_child_def is_empty_def)
    ultimately show ?thesis
      using None changes_okD(1) [OF assms(1)] overlay_abs_empty [of c i] shape_depth [of c "top s"]
      by (simp add: spawn_child_ok oc_transaction_depth_def)
  next
    case (Some x)
    then have "x = (c, info)" "(sk, c, info) \<in> set (children s)" using assms(2) by (auto dest: child_in)
    then show ?thesis using Some changes_okD(5,6) [OF assms(1)] by auto
  qed
  then show "overlay_ok c" "shape c = shape (top s)"
    "i \<le> oc_transaction_depth s \<Longrightarrow> level s i (ChildKey sk k) = (overlay_abs c ! i) k" by blast+
qed

lemma level_set_child:
  assumes "changes_ok s" and "i \<le> oc_transaction_depth s"
  shows "level (set_child_storage dec (ParentKeyId sk) k v s) i
    = (if i = 0 then (level s 0)(ChildKey sk k \<mapsto> v) else level s i)"
proof
  fix a
  obtain c info where c:
    "unwrap_or_default (spawn_child (top s), ParentKeyId sk) (bt_get (children s) sk) = (c, info)" by fastforce
  note cs = child_or_spawned [OF assms(1) c]
  have d: "i \<le> transaction_depth c" using assms(2) shape_depth [OF cs(2)] by (simp add: oc_transaction_depth_def)
  have l: "level s j (ChildKey sk k') = (overlay_abs c ! j) k'" if "j \<le> i" for j k'
    using cs(3) that assms(2) by simp
  show "level (set_child_storage dec (ParentKeyId sk) k v s) i a
      = (if i = 0 then (level s 0)(ChildKey sk k \<mapsto> v) else level s i) a"
  proof (cases a)
    case (ChildKey sk' k')
    show ?thesis
    proof (cases "sk' = sk")
      case True
      then show ?thesis
        using c l [of i k'] l [of 0 k'] d cs(1) ChildKey
        by (simp add: set_child_storage_def with_child_def overlay_abs_set_nth del: level.simps(2))
           (simp add: overlay_abs_set_nth)
    next
      case False
      then show ?thesis using c ChildKey by (auto simp: set_child_storage_def with_child_def)
    qed
  qed (use c in \<open>auto simp: set_child_storage_def with_child_def\<close>)
qed

lemma level_start:
  assumes "changes_ok s" and "i \<le> Suc (oc_transaction_depth s)"
  shows "level (oc_start_transaction s) i = level s (i - 1)"
proof -
  have st: "overlay_abs (start_transaction c) ! i = overlay_abs c ! (i - 1)"
    if "overlay_ok c" "shape c = shape (top s)" for c :: "('a::linorder, 'b) overlayed_map"
  proof -
    have "i < Suc (length (overlay_abs c))"
      using assms(2) shape_depth [OF that(2)] by (simp add: oc_transaction_depth_def)
    moreover have "overlay_abs c \<noteq> []" using length_overlay_abs [of c] by (metis length_0_conv nat.distinct(1))
    ultimately show ?thesis using that(1) by (simp add: start_transaction_ok spec_start_nth)
  qed
  show ?thesis
  proof
    fix a
    show "level (oc_start_transaction s) i a = level s (i - 1) a"
    proof (cases a)
      case (MainKey k)
      have "overlay_abs (start_transaction (top s)) ! i = overlay_abs (top s) ! (i - 1)"
        by (rule st) (use changes_okD(1) [OF assms(1)] in simp_all)
      with MainKey show ?thesis by (simp add: oc_start_transaction_def)
    next
      case (ChildKey sk k)
      have "overlay_abs (start_transaction c) ! i = overlay_abs c ! (i - 1)"
        if "bt_get (children s) sk = Some (c, info)" for c info
        by (rule st) (use changes_okD(5,6) [OF assms(1) child_in [OF that]] in simp_all)
      with ChildKey show ?thesis
        by (auto simp: oc_start_transaction_def bt_get_map_snd split: option.split)
    next
      case (OffKey k)
      have "overlay_abs (start_transaction (offchain s)) ! i = overlay_abs (offchain s) ! (i - 1)"
        by (rule st) (use changes_okD(3,4) [OF assms(1)] in simp_all)
      with OffKey show ?thesis by (simp add: oc_start_transaction_def)
    qed
  qed
qed


lemma closed_nth:
  assumes "overlay_ok c" and "shape c = sh" and "closable sh" and "i < transaction_depth c"
  shows "overlay_abs (snd (the (close_transaction rb c))) ! i = overlay_abs c ! from_level rb i"
  using close_by_shape [OF assms(1), of rb] assms(2-4) by (auto simp: closes_def)

lemma level_moved_close:
  assumes ok: "changes_ok s" and cl: "closable (shape (top s))" and i: "i < oc_transaction_depth s"
  shows "level (moved (close_transaction rb) (close_transaction rb) s) i = level s (from_level rb i)"
proof
  fix a
  have d: "i < transaction_depth (top s)" using i by (simp add: oc_transaction_depth_def)
  show "level (moved (close_transaction rb) (close_transaction rb) s) i a = level s (from_level rb i) a"
  proof (cases a)
    case (MainKey k)
    then show ?thesis using closed_nth [OF changes_okD(1) [OF ok] refl cl d] by (simp add: moved_def)
  next
    case (ChildKey sk k)
    have "overlay_abs (snd (the (close_transaction rb c))) ! i = overlay_abs c ! from_level rb i"
      if "bt_get (children s) sk = Some (c, info)" for c info
    proof -
      note c = changes_okD(5,6) [OF ok child_in [OF that]]
      show ?thesis using closed_nth [OF c cl] d shape_depth [OF c(2)] by simp
    qed
    with ChildKey show ?thesis by (auto simp: moved_def bt_get_map_snd split: option.split)
  next
    case (OffKey k)
    note c = changes_okD(3,4) [OF ok]
    show ?thesis using OffKey closed_nth [OF c cl] d shape_depth [OF c(2)] by (simp add: moved_def)
  qed
qed

text \<open>Child storages that a rollback left empty can be forgotten.\<close>

lemma level_prune:
  assumes ok: "changes_ok s" and i: "i \<le> oc_transaction_depth s"
  shows "level (prune_children s) i = level s i"
proof
  fix a
  show "level (prune_children s) i a = level s i a"
  proof (cases a)
    case (ChildKey sk k)
    have "(overlay_abs c ! i) k = None" if "bt_get (children s) sk = Some (c, info)" "is_empty c" for c info
      using overlay_abs_empty [OF that(2), of i] i
        shape_depth [OF changes_okD(6) [OF ok child_in [OF that(1)]]] by (simp add: oc_transaction_depth_def)
    then show ?thesis
      using ChildKey changes_okD(2) [OF ok]
      by (auto simp: prune_children_def bt_get_filter [where P = "\<lambda>c. \<not> is_empty c"] split: option.split)
  qed (simp_all add: prune_children_def)
qed

lemma depth_moved_close:
  assumes "changes_ok s" and "closable (shape (top s))"
  shows "oc_transaction_depth (moved (close_transaction rb) (close_transaction rb) s) = oc_transaction_depth s - 1"
    and "protected_transactions (top (moved (close_transaction rb) (close_transaction rb) s))
      = protected_transactions (top s)"
  using close_by_shape [OF changes_okD(1) [OF assms(1)], of rb] assms(2)
  by (auto simp: closes_def moved_def oc_transaction_depth_def protected_transactions_def shape_def)

lemma closable_protected:
  "closable (shape c) \<longleftrightarrow> protected_transactions c < transaction_depth c"
  by (simp add: shape_def protected_transactions_def)

lemma oc_close_abs:
  assumes ok: "changes_ok s" and cl: "closable (shape (top s))"
  shows "changes_abs (moved (close_transaction rb) (close_transaction rb) s)
    = (if rb then spec_rollback (changes_abs s) else spec_commit (changes_abs s))"
proof (rule changes_abs_eqI)
  have two: "2 \<le> length (changes_abs s)"
    using cl by (auto simp: closable_protected oc_transaction_depth_def)
  then show "length (if rb then spec_rollback (changes_abs s) else spec_commit (changes_abs s))
      = Suc (oc_transaction_depth (moved (close_transaction rb) (close_transaction rb) s))"
    by (simp add: depth_moved_close [OF assms])
  fix i assume "i \<le> oc_transaction_depth (moved (close_transaction rb) (close_transaction rb) s)"
  then have i: "i < oc_transaction_depth s" using two by (simp add: depth_moved_close [OF assms])
  then have "from_level rb i \<le> oc_transaction_depth s" by (auto simp: from_level_def)
  then show "level (moved (close_transaction rb) (close_transaction rb) s) i
      = (if rb then spec_rollback (changes_abs s) else spec_commit (changes_abs s)) ! i"
    using i by (simp add: level_moved_close [OF assms] spec_close_nth changes_abs_nth)
qed

lemma prune_abs: "changes_ok s \<Longrightarrow> changes_abs (prune_children s) = changes_abs s"
  by (rule changes_abs_eqI)
     (simp_all add: prune_children_def oc_transaction_depth_def changes_abs_nth
       level_prune [unfolded prune_children_def oc_transaction_depth_def])

definition oc_protected :: "overlayed_changes \<Rightarrow> nat" where
  "oc_protected s = protected_transactions (top s)"

lemma oc_write_abs:
  assumes ok: "changes_ok s" and t: "oc_tx_exec dec (Write a v) s = Some t"
  shows "changes_abs t = spec_write a v (changes_abs s)" and "oc_protected t = oc_protected s"
proof -
  have p: "protected_transactions (overlay_set k v x c) = protected_transactions c"
    "transaction_depth (overlay_set k v x c) = transaction_depth c"
    for k v x and c :: changeset
    using shape_set [of k v x c] by (auto simp: shape_def protected_transactions_def)
  have d: "oc_transaction_depth t = oc_transaction_depth s" and "oc_protected t = oc_protected s"
    using t by (cases a; auto simp: oc_tx_exec_def oc_transaction_depth_def oc_protected_def p
        set_storage_def set_child_storage_def with_child_def set_offchain_storage_def split: prod.splits)+
  then show "oc_protected t = oc_protected s" by simp
  have l: "level t i = (if i = 0 then (level s 0)(a \<mapsto> v) else level s i)" if "i \<le> oc_transaction_depth s" for i
    using t level_set_storage [OF ok that] level_set_child [OF ok that] level_set_offchain [OF ok that]
    by (cases a) (auto simp: oc_tx_exec_def)
  show "changes_abs t = spec_write a v (changes_abs s)"
    by (rule changes_abs_eqI) (use l d in \<open>auto simp: spec_write_nth changes_abs_nth\<close>)
qed

lemma oc_start_abs:
  assumes ok: "changes_ok s"
  shows "changes_abs (oc_start_transaction s) = spec_start (changes_abs s)"
    and "oc_protected (oc_start_transaction s) = oc_protected s"
proof -
  have ne: "changes_abs s \<noteq> []" using length_changes_abs [of s] by (metis length_0_conv nat.distinct(1))
  have d: "oc_transaction_depth (oc_start_transaction s) = Suc (oc_transaction_depth s)"
    by (simp add: oc_transaction_depth_def oc_start_transaction_def start_transaction_def transaction_depth_def)
  show "changes_abs (oc_start_transaction s) = spec_start (changes_abs s)"
    by (rule changes_abs_eqI) (use ne d in \<open>auto simp: spec_start_nth level_start [OF ok] changes_abs_nth\<close>)
  show "oc_protected (oc_start_transaction s) = oc_protected s"
    by (simp add: oc_protected_def oc_start_transaction_def start_transaction_def protected_transactions_def)
qed

lemma oc_tx_op_allowed: "oc_allowed (oc_tx_op op) s"
  by (cases op rule: oc_tx_op.cases) simp_all

interpretation changes_store: tx_store "oc_tx_exec dec" changes_abs changes_ok oc_protected for dec
proof (unfold_locales, goal_cases)
  case (1 s op)
  have rc: "rollback_transaction = close_transaction True" "commit_transaction = close_transaction False"
    by (simp_all add: fun_eq_iff rollback_transaction_def commit_transaction_def)
  have g: "closable (shape (top s)) \<longleftrightarrow> Suc (oc_protected s) < length (changes_abs s)"
    by (simp add: closable_protected oc_protected_def oc_transaction_depth_def)
  obtain t where t: "oc_tx_exec dec op s = Some t" "changes_ok t"
    using oc_exec_ok [OF 1 oc_tx_op_allowed, of dec op] by (auto simp: oc_tx_exec_def)
  have "changes_abs t = spec_op (oc_protected s) op (changes_abs s) \<and> oc_protected t = oc_protected s"
  proof (cases op)
    case (Write k v)
    then show ?thesis using oc_write_abs [OF 1] t(1) by simp
  next
    case Start
    then show ?thesis using oc_start_abs [OF 1] t(1) by (simp add: oc_tx_exec_def)
  next
    case Commit
    then show ?thesis
      using t(1) 1 g oc_close_abs [of s False] depth_moved_close(2) [of s False]
      by (auto simp: oc_tx_exec_def oc_commit_by_shape rc oc_protected_def split: if_splits)
  next
    case Rollback
    then show ?thesis
      using t(1) 1 g oc_close_abs [of s True] depth_moved_close(2) [of s True]
        moved_close_ok(1) [OF 1]
      by (auto simp: oc_tx_exec_def oc_rollback_by_shape rc prune_abs split: if_splits)
         (simp_all add: oc_protected_def prune_children_def)
  qed
  then show ?case using t by blast
next
  case (2 s)
  then show ?case
    using overlay.prot_depth [of "top s"] changes_okD(1) [of s]
    by (simp add: oc_protected_def oc_transaction_depth_def)
qed


section \<open>Reading\<close>

lemma hd_overlay_abs: "hd (overlay_abs c) = overlay_abs c ! 0"
  using length_overlay_abs [of c] by (cases "overlay_abs c") auto

lemma storage_level: "storage k s = level s 0 (MainKey k)"
  by (simp add: storage_def overlay_get_abs [symmetric] hd_overlay_abs)

lemma child_storage_level: "child_storage ci k s = level s 0 (ChildKey (child_storage_key ci) k)"
  by (cases "bt_get (children s) (child_storage_key ci)")
     (auto simp: child_storage_def overlay_get_abs [symmetric] hd_overlay_abs)

lemma offchain_level:
  "map_option offchain_value (offchain_get STORAGE_PREFIX k (offchain s)) = level s 0 (OffKey k)"
  by (simp add: offchain_get_def overlay_get_abs [symmetric] hd_overlay_abs)

lemma level_0: "level s 0 = hd (changes_abs s)"
  by (simp add: changes_abs_def upt_rec del: upt_Suc)

lemma hd_spec_write: "ms \<noteq> [] \<Longrightarrow> hd (spec_write k v ms) = (hd ms)(k \<mapsto> v)"
  by (cases ms) auto

lemma fold_set_seen:
  "overlay_ok c \<Longrightarrow> hd (overlay_abs (fold (\<lambda>k. overlay_set k v x) ks c)) j
     = (if j \<in> set ks then Some v else hd (overlay_abs c) j)"
proof (induction ks arbitrary: c)
  case (Cons k ks)
  have "overlay_abs c \<noteq> []" using length_overlay_abs [of c] by (metis length_0_conv nat.distinct(1))
  then show ?case using Cons by (simp add: overlay_set_ok hd_spec_write)
qed simp

lemma clear_where_seen:
  assumes "overlay_ok c"
  shows "hd (overlay_abs (clear_where (\<lambda>key _. P key) x c)) j
    = (if P j \<and> hd (overlay_abs c) j \<noteq> None then Some None else hd (overlay_abs c) j)"
proof -
  have inv: "bt_inv (changes c)" "no_empty_entry (changes c)" using assms by (simp_all add: overlay_ok_def)
  have "j \<in> set (map fst (filter (\<lambda>(key, _). P key) (changes c))) \<longleftrightarrow> P j \<and> j \<in> fst ` set (changes c)"
    by force
  also have "j \<in> fst ` set (changes c) \<longleftrightarrow> hd (overlay_abs c) j \<noteq> None"
  proof -
    have "hd (overlay_abs c) j \<noteq> None \<longleftrightarrow> bt_get (changes c) j \<noteq> None"
      using inv(2) unfolding overlay_get_abs
      by (auto simp: overlay_get_def no_empty_entry_def value_ref_def split: Option.bind_splits list.splits)
    then show ?thesis by (simp add: map_of_eq_None_iff)
  qed
  finally show ?thesis
    using fold_set_seen [OF assms, of None x] by (simp add: clear_where_fold [OF inv(1)])
qed

section \<open>Properties\<close>

text \<open>
  C22. A sequence of writes, transactions, runtime entries and exits and drains of the changes of a
  block never panics when each drain happens with no open transaction and outside the runtime: the main
  overlay, the child overlays and the offchain overlay keep the same transactions open, so whenever a
  transaction can be closed, or the runtime entered or left, on the first of them, it can on all of
  them.  Nothing is asked of the other operations: one that cannot be done returns its error.
\<close>

theorem changes_never_panic:
  assumes "oc_all_allowed dec ops default_changes"
  shows "\<exists>t. tx_run (oc_exec dec) ops default_changes = Some t \<and> changes_ok t"
  by (rule oc_run_ok [OF default_changes_ok assms])

theorem changes_never_panic_witness:
  "\<exists>t. tx_run (oc_exec (\<lambda>_. None)) [StartTx, SetChild (ParentKeyId [3]) [4] (Some [5]), EnterRuntime,
         RollbackTx, ExitRuntime, CommitTx, DrainCommitted, DrainOffchain, SetStorage [1] None] default_changes
       = Some t \<and> changes_ok t"
  by (rule changes_never_panic) code_simp

text \<open>
  C7. Rolling back undoes what was written to any storage of the block: whatever well-nested sequence
  of writes and transactions ran, every key of the main storage, of every child storage and of the
  offchain index reads as before, and so do the levels saved for the transactions around it.
\<close>

theorem block_rollback_restores:
  assumes "changes_ok s" and "nested 0 ops"
  shows "\<exists>t. tx_run (oc_tx_exec dec) (Start # ops @ [Rollback]) s = Some t \<and> changes_abs t = changes_abs s
    \<and> (\<forall>k. storage k t = storage k s) \<and> (\<forall>ci k. child_storage ci k t = child_storage ci k s)
    \<and> (\<forall>k. map_option offchain_value (offchain_get STORAGE_PREFIX k (offchain t))
         = map_option offchain_value (offchain_get STORAGE_PREFIX k (offchain s)))"
proof -
  obtain t where "tx_run (oc_tx_exec dec) (Start # ops @ [Rollback]) s = Some t" "changes_abs t = changes_abs s"
    using changes_store.rolled_back [OF assms] by blast
  moreover from this(2) have "level t 0 = level s 0" by (simp add: level_0)
  ultimately show ?thesis unfolding storage_level child_storage_level offchain_level by (auto simp del: level.simps)
qed

theorem block_rollback_restores_witness:
  "\<exists>t. tx_run (oc_tx_exec (\<lambda>_. None)) [Start, Write (MainKey [1]) (Some [2]), Start,
         Write (ChildKey [3] [4]) (Some [5]), Commit, Write (OffKey [6]) None, Rollback] default_changes = Some t
     \<and> child_storage (ParentKeyId [3]) [4] t = None \<and> storage [1] t = None"
proof -
  have "storage k default_changes = None" "child_storage ci k default_changes = None" for ci k
    by (simp_all add: storage_def child_storage_def default_changes_def default_overlay_def overlay_get_def)
  then show ?thesis
    using block_rollback_restores [OF default_changes_ok, of "[Write (MainKey [1]) (Some [2]), Start,
         Write (ChildKey [3] [4]) (Some [5]), Commit, Write (OffKey [6]) None]" "\<lambda>_. None"]
    by auto
qed

text \<open>
  Operations on the transaction index are not part of a transaction: one that is added and
  rolled back is still there.
\<close>

theorem index_ops_survive_rollback:
  assumes "changes_ok s" and "execution_mode (top s) = Client"
  shows "\<exists>t. tx_run (oc_exec dec) [StartTx, AddIndex x, RollbackTx] s = Some t
    \<and> transaction_index_ops t = transaction_index_ops s @ [x]"
proof -
  let ?u = "add_transaction_index x (oc_start_transaction s)"
  have u: "changes_ok ?u" using oc_start_ok [OF assms(1)] by (simp add: add_transaction_index_def set_top_ok)
  have "closable (shape (top ?u))"
    using assms(2) by (simp add: add_transaction_index_def oc_start_transaction_def shape_def
        start_transaction_def transaction_depth_def)
  then show ?thesis
    using oc_rollback_by_shape [OF u]
    by (simp add: prune_children_def moved_def) (simp add: add_transaction_index_def oc_start_transaction_def)
qed

theorem index_ops_survive_rollback_witness:
  "\<exists>t. tx_run (oc_exec (\<lambda>_. None)) [StartTx, AddIndex (RenewOp 1 [2]), RollbackTx] default_changes = Some t
     \<and> transaction_index_ops t = [RenewOp 1 [2]]"
  using index_ops_survive_rollback [OF default_changes_ok, of "\<lambda>_. None" "RenewOp 1 [2]"]
  by (simp add: default_changes_def default_overlay_def)

text \<open>
  Clearing a prefix deletes exactly the keys of the overlay that start with it, and keeps every
  other key, the child storages and the open transactions.
\<close>

theorem clear_prefix_clears:
  assumes "changes_ok s"
  shows "changes_ok (clear_prefix dec p s)
    \<and> storage k (clear_prefix dec p s)
        = (if starts_with k p \<and> storage k s \<noteq> None then Some None else storage k s)
    \<and> child_storage ci k (clear_prefix dec p s) = child_storage ci k s
    \<and> oc_transaction_depth (clear_prefix dec p s) = oc_transaction_depth s"
proof -
  note ok = changes_okD(1) [OF assms]
  have "shape (clear_where (\<lambda>key _. starts_with key p) (extrinsic_index dec s) (top s)) = shape (top s)"
    by (rule clear_where_ok(2) [OF ok])
  then show ?thesis
    using oc_exec_ok [OF assms, of "ClearPrefix p" dec] clear_where_seen [OF ok, of "\<lambda>k. starts_with k p"]
    by (simp add: storage_def overlay_get_abs [symmetric] clear_prefix_def child_storage_def
        oc_transaction_depth_def shape_def)
qed

theorem clear_prefix_clears_witness:
  "storage [1, 2] (clear_prefix (\<lambda>_. None) [1] (set_storage (\<lambda>_. None) [1, 2] (Some [7]) default_changes))
     = Some None"
proof -
  let ?s = "set_storage (\<lambda>_. None) [1, 2] (Some [7]) default_changes"
  have ok: "changes_ok ?s" using oc_exec_ok [OF default_changes_ok, of "SetStorage [1, 2] (Some [7])" "\<lambda>_. None"] by simp
  have "storage [1, 2] ?s = Some (Some [7])"
    by (simp add: storage_def set_storage_def default_changes_def default_overlay_def overlay_get_def
        overlay_set_def entry_set_def default_entry_def note_extrinsic_def extrinsic_index_def value_ref_def Let_def)
  then show ?thesis
    using clear_prefix_clears [OF ok, of "\<lambda>_. None" "[1]" "[1, 2]" "ParentKeyId []"] by simp
qed

end
