(* ===== verification/Fork_Tree.thy ===== *)
theory Fork_Tree
  imports Rust_Collections
begin

text \<open>
  The fork tree (\<open>utils/fork-tree/src/lib.rs\<close>): pending changes of several branches of the chain,
  kept as a forest that follows the ancestry of the blocks they belong to.  The caller's
  \<open>is_descendent_of\<close> is the argument \<open>F\<close> of the operations; an operation returns the tree it
  leaves behind also when it fails.
\<close>

section \<open>Nodes and trees\<close>

datatype ('h, 'n, 'v) node =
  Node (node_hash: 'h) (node_number: 'n) (node_data: 'v) (node_children: "('h, 'n, 'v) node list")

record ('h, 'n, 'v) fork_tree =
  roots :: "('h, 'n, 'v) node list"
  best_finalized_number :: "'n option"

datatype 'e fork_error = Duplicate | UnfinalizedAncestor | Revert | Client_Error 'e

datatype 'v finalization_result = Changed "'v option" | Unchanged

datatype 'a find_outcome = Found 'a | Failure bool | Abort

type_synonym ('h, 'e) ancestry_test = "'h \<Rightarrow> 'h \<Rightarrow> 'e + bool"

definition fork_tree_new :: "('h, 'n, 'v) fork_tree" where
  "fork_tree_new = \<lparr>roots = [], best_finalized_number = None\<rparr>"

fun max_depth :: "('h, 'n, 'v) node \<Rightarrow> nat" where
  "max_depth (Node h n d cs) = fold max (map max_depth cs) 0 + 1"

definition by_depth :: "('h, 'n, 'v) node list \<Rightarrow> ('h, 'n, 'v) node list" where
  "by_depth ns = sort_key (\<lambda>x. Reverse (max_depth x)) ns"

function rebalance_node :: "('h, 'n, 'v) node \<Rightarrow> ('h, 'n, 'v) node" where
  "rebalance_node (Node h n d cs) = Node h n d (map rebalance_node (by_depth cs))"
  by pat_completeness auto
termination
  by (relation "measure size")
     (auto simp: by_depth_def less_Suc_eq_le intro: size_list_estimation' [where f = size, OF _ order_refl, THEN le_trans])

definition rebalance :: "('h, 'n, 'v) fork_tree \<Rightarrow> ('h, 'n, 'v) fork_tree" where
  "rebalance t = t\<lparr>roots := map rebalance_node (by_depth (roots t))\<rparr>"

fun map_node :: "('h \<Rightarrow> 'n \<Rightarrow> 'v \<Rightarrow> 'w) \<Rightarrow> ('h, 'n, 'v) node \<Rightarrow> ('h, 'n, 'w) node" where
  "map_node f (Node h n d cs) = Node h n (f h n d) (map (map_node f) cs)"

definition fork_tree_map :: "('h \<Rightarrow> 'n \<Rightarrow> 'v \<Rightarrow> 'w) \<Rightarrow> ('h, 'n, 'v) fork_tree \<Rightarrow> ('h, 'n, 'w) fork_tree" where
  "fork_tree_map f t = \<lparr>roots = map (map_node f) (roots t), best_finalized_number = best_finalized_number t\<rparr>"

section \<open>Import\<close>

datatype ('s, 'h, 'n, 'v) import_result = Imported 's | Rejected 'h 'n 'v

fun node_import ::
    "('h, 'e) ancestry_test \<Rightarrow> 'h \<Rightarrow> 'n::linorder \<Rightarrow> 'v \<Rightarrow> ('h, 'n, 'v) node
      \<Rightarrow> 'e fork_error + (('h, 'n, 'v) node, 'h, 'n, 'v) import_result"
and children_import ::
    "('h, 'e) ancestry_test \<Rightarrow> 'h \<Rightarrow> 'n \<Rightarrow> 'v \<Rightarrow> ('h, 'n, 'v) node list
      \<Rightarrow> 'e fork_error + (('h, 'n, 'v) node list, 'h, 'n, 'v) import_result" where
  "node_import F hash number data (Node h n d cs) =
     (if h = hash then Inl Duplicate
      else if number \<le> n then Inr (Rejected hash number data)
      else
        (case children_import F hash number data cs of
           Inl e \<Rightarrow> Inl e
         | Inr (Imported cs') \<Rightarrow> Inr (Imported (Node h n d cs'))
         | Inr (Rejected hash number data) \<Rightarrow>
             (case F h hash of
                Inl e \<Rightarrow> Inl (Client_Error e)
              | Inr True \<Rightarrow> Inr (Imported (Node h n d (cs @ [Node hash number data []])))
              | Inr False \<Rightarrow> Inr (Rejected hash number data))))"
| "children_import F hash number data [] = Inr (Rejected hash number data)"
| "children_import F hash number data (c # cs) =
     (case node_import F hash number data c of
        Inl e \<Rightarrow> Inl e
      | Inr (Imported c') \<Rightarrow> Inr (Imported (c' # cs))
      | Inr (Rejected hash number data) \<Rightarrow>
          (case children_import F hash number data cs of
             Inl e \<Rightarrow> Inl e
           | Inr (Imported cs') \<Rightarrow> Inr (Imported (c # cs'))
           | Inr (Rejected hash number data) \<Rightarrow> Inr (Rejected hash number data)))"

fun roots_import ::
    "('h, 'e) ancestry_test \<Rightarrow> 'h \<Rightarrow> 'n::linorder \<Rightarrow> 'v \<Rightarrow> ('h, 'n, 'v) node list
      \<Rightarrow> 'e fork_error + (('h, 'n, 'v) node list, 'h, 'n, 'v) import_result" where
  "roots_import F hash number data [] = Inr (Rejected hash number data)"
| "roots_import F hash number data (root # rs) =
     (if node_hash root = hash then Inl Duplicate
      else
        (case node_import F hash number data root of
           Inl e \<Rightarrow> Inl e
         | Inr (Imported root') \<Rightarrow> Inr (Imported (root' # rs))
         | Inr (Rejected hash number data) \<Rightarrow>
             (case roots_import F hash number data rs of
                Inl e \<Rightarrow> Inl e
              | Inr (Imported rs') \<Rightarrow> Inr (Imported (root # rs'))
              | Inr (Rejected hash number data) \<Rightarrow> Inr (Rejected hash number data))))"

definition reverts :: "'n::linorder \<Rightarrow> ('h, 'n, 'v) fork_tree \<Rightarrow> bool" where
  "reverts number t = (case best_finalized_number t of None \<Rightarrow> False | Some b \<Rightarrow> number \<le> b)"

definition import ::
    "('h, 'e) ancestry_test \<Rightarrow> 'h \<Rightarrow> 'n::linorder \<Rightarrow> 'v \<Rightarrow> ('h, 'n, 'v) fork_tree
      \<Rightarrow> ('e fork_error + bool) \<times> ('h, 'n, 'v) fork_tree" where
  "import F hash number data t =
     (if reverts number t then (Inl Revert, t)
      else
        (case roots_import F hash number data (roots t) of
           Inl e \<Rightarrow> (Inl e, t)
         | Inr (Imported rs) \<Rightarrow> (Inr False, rebalance (t\<lparr>roots := rs\<rparr>))
         | Inr (Rejected hash number data) \<Rightarrow>
             (Inr True, rebalance (t\<lparr>roots := roots t @ [Node hash number data []]\<rparr>))))"

section \<open>Iteration\<close>

text \<open>The iterators work on a stack; its top is the head of the list here.\<close>

definition forest_size :: "('h, 'n, 'v) node list \<Rightarrow> nat" where
  "forest_size ns = sum_list (map size ns)"

lemma size_children_list: "size_list size cs = forest_size cs + length cs"
  by (induction cs) (simp_all add: forest_size_def)

function node_iter :: "('h, 'n, 'v) node list \<Rightarrow> ('h, 'n, 'v) node list" where
  "node_iter [] = []"
| "node_iter (x # stack) = x # node_iter (node_children x @ stack)"
  by pat_completeness auto
termination
proof (relation "measure forest_size")
  fix x :: "('h, 'n, 'v) node" and stack
  show "(node_children x @ stack, x # stack) \<in> measure forest_size"
    using size_children_list [of "node_children x"] by (cases x) (simp add: forest_size_def)
qed simp

definition tree_iter :: "('h, 'n, 'v) fork_tree \<Rightarrow> ('h \<times> 'n \<times> 'v) list" where
  "tree_iter t = map (\<lambda>x. (node_hash x, node_number x, node_data x)) (node_iter (roots t))"

definition removed_iter :: "('h, 'n, 'v) node list \<Rightarrow> ('h \<times> 'n \<times> 'v) list" where
  "removed_iter removed = map (\<lambda>x. (node_hash x, node_number x, node_data x)) (node_iter (rev removed))"

section \<open>Search\<close>

text \<open>
  \<open>children_find\<close> is the loop over the children, \<open>i\<close> the index of the first of the list; a
  failure it returns says whether a child is known to be an ancestor.  Indices are pushed from the
  found node upwards.
\<close>

fun find_node_index_where ::
    "('h, 'e) ancestry_test \<Rightarrow> ('v \<Rightarrow> bool) \<Rightarrow> 'h \<Rightarrow> 'n::linorder \<Rightarrow> ('h, 'n, 'v) node
      \<Rightarrow> 'e fork_error + nat list find_outcome"
and children_find ::
    "('h, 'e) ancestry_test \<Rightarrow> ('v \<Rightarrow> bool) \<Rightarrow> 'h \<Rightarrow> 'n \<Rightarrow> nat \<Rightarrow> ('h, 'n, 'v) node list
      \<Rightarrow> 'e fork_error + nat list find_outcome" where
  "find_node_index_where F predicate hash number (Node h n d cs) =
     (if number < n then Inr (Failure False)
      else
        (case children_find F predicate hash number 0 cs of
           Inl e \<Rightarrow> Inl e
         | Inr Abort \<Rightarrow> Inr Abort
         | Inr (Found x) \<Rightarrow> Inr (Found x)
         | Inr (Failure known_descendent_of) \<Rightarrow>
             (case (if known_descendent_of then Inr True else F h hash) of
                Inl e \<Rightarrow> Inl (Client_Error e)
              | Inr is_desc \<Rightarrow>
                  (if is_desc \<and> predicate d then Inr (Found []) else Inr (Failure is_desc)))))"
| "children_find F predicate hash number i [] = Inr (Failure False)"
| "children_find F predicate hash number i (c # cs) =
     (case find_node_index_where F predicate hash number c of
        Inl e \<Rightarrow> Inl e
      | Inr Abort \<Rightarrow> Inr Abort
      | Inr (Found x) \<Rightarrow> Inr (Found (x @ [i]))
      | Inr (Failure True) \<Rightarrow> Inr (Failure True)
      | Inr (Failure False) \<Rightarrow> children_find F predicate hash number (Suc i) cs)"

text \<open>Following the indices from the last one; \<open>None\<close> is an index out of bounds.\<close>

fun node_at :: "nat list \<Rightarrow> ('h, 'n, 'v) node \<Rightarrow> ('h, 'n, 'v) node option" where
  "node_at [] x = Some x"
| "node_at (i # path) x =
     (if i < length (node_children x) then node_at path (node_children x ! i) else None)"

definition node_find_where ::
    "('h, 'e) ancestry_test \<Rightarrow> ('v \<Rightarrow> bool) \<Rightarrow> 'h \<Rightarrow> 'n::linorder \<Rightarrow> ('h, 'n, 'v) node
      \<Rightarrow> ('e fork_error + ('h, 'n, 'v) node find_outcome) option" where
  "node_find_where F predicate hash number x =
     (case find_node_index_where F predicate hash number x of
        Inl e \<Rightarrow> Some (Inl e)
      | Inr Abort \<Rightarrow> Some (Inr Abort)
      | Inr (Failure f) \<Rightarrow> Some (Inr (Failure f))
      | Inr (Found indexes) \<Rightarrow> map_option (\<lambda>y. Inr (Found y)) (node_at (rev indexes) x))"

fun roots_find_where ::
    "('h, 'e) ancestry_test \<Rightarrow> ('v \<Rightarrow> bool) \<Rightarrow> 'h \<Rightarrow> 'n::linorder \<Rightarrow> ('h, 'n, 'v) node list
      \<Rightarrow> ('e fork_error + ('h, 'n, 'v) node option) option" where
  "roots_find_where F predicate hash number [] = Some (Inr None)"
| "roots_find_where F predicate hash number (root # rs) =
     (case node_find_where F predicate hash number root of
        None \<Rightarrow> None
      | Some (Inl e) \<Rightarrow> Some (Inl e)
      | Some (Inr (Found x)) \<Rightarrow> Some (Inr (Some x))
      | Some (Inr _) \<Rightarrow> roots_find_where F predicate hash number rs)"

definition find_node_where ::
    "('h, 'e) ancestry_test \<Rightarrow> ('v \<Rightarrow> bool) \<Rightarrow> 'h \<Rightarrow> 'n::linorder \<Rightarrow> ('h, 'n, 'v) fork_tree
      \<Rightarrow> ('e fork_error + ('h, 'n, 'v) node option) option" where
  "find_node_where F predicate hash number t = roots_find_where F predicate hash number (roots t)"

fun roots_find_index ::
    "('h, 'e) ancestry_test \<Rightarrow> ('v \<Rightarrow> bool) \<Rightarrow> 'h \<Rightarrow> 'n::linorder \<Rightarrow> nat \<Rightarrow> ('h, 'n, 'v) node list
      \<Rightarrow> 'e fork_error + nat list option" where
  "roots_find_index F predicate hash number i [] = Inr None"
| "roots_find_index F predicate hash number i (root # rs) =
     (case find_node_index_where F predicate hash number root of
        Inl e \<Rightarrow> Inl e
      | Inr (Found x) \<Rightarrow> Inr (Some (x @ [i]))
      | Inr _ \<Rightarrow> roots_find_index F predicate hash number (Suc i) rs)"

section \<open>Pruning\<close>

text \<open>
  Taking the node at a path out of the forest; the path starts at the roots.  \<open>None\<close> stands for
  the panic on an empty path or an index out of bounds.
\<close>

fun take_node :: "nat list \<Rightarrow> ('h, 'n, 'v) node list \<Rightarrow> (('h, 'n, 'v) node \<times> ('h, 'n, 'v) node list) option" where
  "take_node [] ns = None"
| "take_node [i] ns = (if i < length ns then Some (ns ! i, vec_remove i ns) else None)"
| "take_node (i # j # path) ns =
     (if i < length ns then
        (case (ns ! i, take_node (j # path) (node_children (ns ! i))) of
           (Node h n d _, Some (x, cs)) \<Rightarrow> Some (x, ns[i := Node h n d cs])
         | _ \<Rightarrow> None)
      else None)"

fun split_children ::
    "('h, 'e) ancestry_test \<Rightarrow> 'h \<Rightarrow> 'n::linorder \<Rightarrow> bool \<Rightarrow> ('h, 'n, 'v) node list
      \<Rightarrow> 'e + ('h, 'n, 'v) node list \<times> ('h, 'n, 'v) node list" where
  "split_children F hash number is_first [] = Inr ([], [])"
| "split_children F hash number is_first (c # cs) =
     (case (if is_first then
              (if node_number c = number \<and> node_hash c = hash then Inr True
               else if node_number c < number then F (node_hash c) hash
               else Inr False)
            else Inr False) of
        Inl e \<Rightarrow> Inl e
      | Inr keep \<Rightarrow>
          (case split_children F hash number (is_first \<and> \<not> keep) cs of
             Inl e \<Rightarrow> Inl e
           | Inr (kept, removed) \<Rightarrow> Inr (if keep then (c # kept, removed) else (kept, c # removed))))"

fun with_children :: "('h, 'n, 'v) node list \<Rightarrow> ('h, 'n, 'v) node \<Rightarrow> ('h, 'n, 'v) node" where
  "with_children cs (Node h n d _) = Node h n d cs"

text \<open>The roots are moved out of the tree before the last ancestry tests: an error there loses them.\<close>

definition prune ::
    "('h, 'e) ancestry_test \<Rightarrow> ('v \<Rightarrow> bool) \<Rightarrow> 'h \<Rightarrow> 'n::linorder \<Rightarrow> ('h, 'n, 'v) fork_tree
      \<Rightarrow> (('e fork_error + ('h \<times> 'n \<times> 'v) list) \<times> ('h, 'n, 'v) fork_tree) option" where
  "prune F predicate hash number t =
     (case roots_find_index F predicate hash number 0 (roots t) of
        Inl e \<Rightarrow> Some (Inl e, t)
      | Inr None \<Rightarrow> Some (Inr [], rebalance t)
      | Inr (Some root_index) \<Rightarrow>
          (case take_node (rev root_index) (roots t) of
             None \<Rightarrow> None
           | Some (root, old_roots) \<Rightarrow>
               (case split_children F hash number True (node_children root) of
                  Inl e \<Rightarrow> Some (Inl (Client_Error e), t\<lparr>roots := []\<rparr>)
                | Inr (kept, removed) \<Rightarrow>
                    Some (Inr (removed_iter (old_roots @ removed)),
                      rebalance (t\<lparr>roots := [with_children kept root]\<rparr>)))))"

section \<open>Finalisation\<close>

definition finalize_root_at :: "nat \<Rightarrow> ('h, 'n, 'v) fork_tree \<Rightarrow> 'v \<times> ('h, 'n, 'v) fork_tree" where
  "finalize_root_at position t =
     (let x = roots t ! position
      in (node_data x, \<lparr>roots = node_children x, best_finalized_number = Some (node_number x)\<rparr>))"

definition position_of :: "('a \<Rightarrow> bool) \<Rightarrow> 'a list \<Rightarrow> nat option" where
  "position_of P xs = (case filter (\<lambda>i. P (xs ! i)) [0..<length xs] of [] \<Rightarrow> None | i # _ \<Rightarrow> Some i)"

definition finalize_root :: "'h \<Rightarrow> ('h, 'n, 'v) fork_tree \<Rightarrow> ('v \<times> ('h, 'n, 'v) fork_tree) option" where
  "finalize_root hash t =
     map_option (\<lambda>i. finalize_root_at i t) (position_of (\<lambda>x. node_hash x = hash) (roots t))"

fun any_ancestor ::
    "('h, 'e) ancestry_test \<Rightarrow> 'h \<Rightarrow> 'n::linorder \<Rightarrow> ('h, 'n, 'v) node list \<Rightarrow> 'e + bool" where
  "any_ancestor F hash number [] = Inr False"
| "any_ancestor F hash number (root # rs) =
     (case (if node_number root < number then F (node_hash root) hash else Inr False) of
        Inl e \<Rightarrow> Inl e
      | Inr True \<Rightarrow> Inr True
      | Inr False \<Rightarrow> any_ancestor F hash number rs)"

fun keep_roots ::
    "(('h, 'n, 'v) node \<Rightarrow> 'e + bool) \<Rightarrow> ('h, 'n, 'v) node list \<Rightarrow> ('e \<times> ('h, 'n, 'v) node list) + ('h, 'n, 'v) node list" where
  "keep_roots retain [] = Inr []"
| "keep_roots retain (root # rs) =
     (case retain root of
        Inl e \<Rightarrow> Inl (e, [])
      | Inr keep \<Rightarrow>
          (case keep_roots retain rs of
             Inl (e, kept) \<Rightarrow> Inl (e, if keep then root # kept else kept)
           | Inr kept \<Rightarrow> Inr (if keep then root # kept else kept)))"

text \<open>What both kinds of finalisation do last: roots of other branches go, and an error loses the rest.\<close>

definition finalization_result :: "'v option \<Rightarrow> bool \<Rightarrow> 'v finalization_result" where
  "finalization_result finalized changed =
     (case finalized of Some d \<Rightarrow> Changed (Some d) | None \<Rightarrow> if changed then Changed None else Unchanged)"

definition finalize ::
    "('h, 'e) ancestry_test \<Rightarrow> 'h \<Rightarrow> 'n::linorder \<Rightarrow> ('h, 'n, 'v) fork_tree
      \<Rightarrow> ('e fork_error + 'v finalization_result) \<times> ('h, 'n, 'v) fork_tree" where
  "finalize F hash number t =
     (if reverts number t then (Inl Revert, t)
      else
        (case finalize_root hash t of
           Some (root, t') \<Rightarrow> (Inr (Changed (Some root)), t')
         | None \<Rightarrow>
             (case any_ancestor F hash number (roots t) of
                Inl e \<Rightarrow> (Inl (Client_Error e), t)
              | Inr True \<Rightarrow> (Inl UnfinalizedAncestor, t)
              | Inr False \<Rightarrow>
                  (case keep_roots (\<lambda>root. if number < node_number root then F hash (node_hash root) else Inr False)
                      (roots t) of
                     Inl (e, kept) \<Rightarrow> (Inl (Client_Error e), t\<lparr>roots := kept\<rparr>)
                   | Inr kept \<Rightarrow>
                       (Inr (finalization_result None (length kept < length (roots t))),
                        \<lparr>roots = kept, best_finalized_number = Some number\<rparr>)))))"

text \<open>The loop of \<open>finalize_with_ancestors\<close>: each round takes a root away, opens it, or steps over it.\<close>

datatype root_kind = Finalized | Descendant | Ancestor | Other

definition root_kind_of ::
    "('h, 'e) ancestry_test \<Rightarrow> 'h \<Rightarrow> 'n::linorder \<Rightarrow> ('h, 'n, 'v) node \<Rightarrow> 'e + root_kind" where
  "root_kind_of F hash number root =
     (if node_hash root = hash then Inr Finalized
      else
        (case (if number < node_number root then F hash (node_hash root) else Inr False) of
           Inl e \<Rightarrow> Inl e
         | Inr True \<Rightarrow> Inr Descendant
         | Inr False \<Rightarrow>
             (case (if node_number root < number then F (node_hash root) hash else Inr False) of
                Inl e \<Rightarrow> Inl e
              | Inr True \<Rightarrow> Inr Ancestor
              | Inr False \<Rightarrow> Inr Other)))"

definition last_first :: "'a list \<Rightarrow> 'a list" where
  "last_first xs = (if xs = [] then [] else last xs # butlast xs)"

lemma swap_remove_split:
  assumes "i < length xs"
  shows "swap_remove i xs = take i xs @ last_first (drop (Suc i) xs)"
proof -
  obtain ys x rest where xs: "xs = ys @ x # rest" "i = length ys"
    using assms by (metis id_take_nth_drop length_take min.absorb4)
  show ?thesis
    by (cases rest rule: rev_cases) (simp_all add: xs swap_remove_def last_first_def butlast_append)
qed

lemma set_last_first [simp]: "set (last_first xs) = set xs"
  by (cases xs rule: rev_cases) (auto simp: last_first_def)

lemma forest_size_last_first [simp]: "forest_size (last_first xs) = forest_size xs"
  by (cases xs rule: rev_cases) (simp_all add: last_first_def forest_size_def)

lemma forest_size_append [simp]: "forest_size (xs @ ys) = forest_size xs + forest_size ys"
  by (simp add: forest_size_def)

lemma forest_size_Cons [simp]: "forest_size (x # xs) = size x + forest_size xs"
  by (simp add: forest_size_def)

lemma forest_size_opened:
  assumes "i < length xs"
  shows "forest_size (drop i (swap_remove i xs @ node_children (xs ! i))) < forest_size (drop i xs)"
    and "forest_size (drop i (swap_remove i xs)) < forest_size (drop i xs)"
    and "forest_size (drop (Suc i) xs) < forest_size (drop i xs)"
proof -
  have d: "drop i xs = xs ! i # drop (Suc i) xs" using assms by (simp add: Cons_nth_drop_Suc)
  have c: "forest_size (node_children (xs ! i)) < size (xs ! i)" "0 < size (xs ! i)"
    using size_children_list [of "node_children (xs ! i)"] by (cases "xs ! i"; simp)+
  have s: "drop i (swap_remove i xs @ cs) = last_first (drop (Suc i) xs) @ cs" for cs
    using assms by (simp add: swap_remove_split)
  show "forest_size (drop i (swap_remove i xs @ node_children (xs ! i))) < forest_size (drop i xs)"
    "forest_size (drop i (swap_remove i xs)) < forest_size (drop i xs)"
    "forest_size (drop (Suc i) xs) < forest_size (drop i xs)"
    using c s s [of "[]"] by (simp_all add: d)
qed

function open_ancestors ::
    "('h, 'e) ancestry_test \<Rightarrow> 'h \<Rightarrow> 'n::linorder \<Rightarrow> bool \<Rightarrow> nat \<Rightarrow> ('h, 'n, 'v) fork_tree
      \<Rightarrow> ('e fork_error + 'v finalization_result) \<times> ('h, 'n, 'v) fork_tree" where
  "open_ancestors F hash number changed idx t =
     (if idx < length (roots t) then
        (case root_kind_of F hash number (roots t ! idx) of
           Inl e \<Rightarrow> (Inl (Client_Error e), t)
         | Inr Finalized \<Rightarrow>
             (let (data, t') = finalize_root_at idx t in (Inr (Changed (Some data)), t'))
         | Inr Descendant \<Rightarrow> open_ancestors F hash number changed (Suc idx) t
         | Inr Ancestor \<Rightarrow>
             open_ancestors F hash number True idx
               (t\<lparr>roots := swap_remove idx (roots t) @ node_children (roots t ! idx)\<rparr>)
         | Inr Other \<Rightarrow> open_ancestors F hash number True idx (t\<lparr>roots := swap_remove idx (roots t)\<rparr>))
      else (Inr (if changed then Changed None else Unchanged), t\<lparr>best_finalized_number := Some number\<rparr>))"
  by pat_completeness auto
termination
  by (relation "measure (\<lambda>(F, hash, number, changed, idx, t). forest_size (drop idx (roots t)))")
     (simp_all del: drop_append add: forest_size_opened)

declare open_ancestors.simps [simp del]

definition finalize_with_ancestors ::
    "('h, 'e) ancestry_test \<Rightarrow> 'h \<Rightarrow> 'n::linorder \<Rightarrow> ('h, 'n, 'v) fork_tree
      \<Rightarrow> ('e fork_error + 'v finalization_result) \<times> ('h, 'n, 'v) fork_tree" where
  "finalize_with_ancestors F hash number t =
     (if reverts number t then (Inl Revert, t)
      else
        (case finalize_root hash t of
           Some (root, t') \<Rightarrow> (Inr (Changed (Some root)), t')
         | None \<Rightarrow> open_ancestors F hash number False 0 t))"

text \<open>Whether a child is on the way to the block being finalised.\<close>

fun any_child_ancestor ::
    "('h, 'e) ancestry_test \<Rightarrow> 'h \<Rightarrow> 'n::linorder \<Rightarrow> ('h, 'n, 'v) node list \<Rightarrow> 'e + bool" where
  "any_child_ancestor F hash number [] = Inr False"
| "any_child_ancestor F hash number (c # cs) =
     (case (if node_number c \<le> number then F (node_hash c) hash else Inr False) of
        Inl e \<Rightarrow> Inl e
      | Inr True \<Rightarrow> Inr True
      | Inr False \<Rightarrow> any_child_ancestor F hash number cs)"

definition at_or_below :: "('h, 'e) ancestry_test \<Rightarrow> 'h \<Rightarrow> ('h, 'n, 'v) node \<Rightarrow> 'e + bool" where
  "at_or_below F hash x = (if node_hash x = hash then Inr True else F (node_hash x) hash)"

text \<open>The search for the first node that passes the predicate and is finalised by the block.\<close>

fun find_finalized ::
    "('h, 'e) ancestry_test \<Rightarrow> ('v \<Rightarrow> bool) \<Rightarrow> 'h \<Rightarrow> 'n::linorder \<Rightarrow> ('h, 'n, 'v) node list
      \<Rightarrow> 'e fork_error + ('h, 'n, 'v) node option" where
  "find_finalized F predicate hash number [] = Inr None"
| "find_finalized F predicate hash number (x # xs) =
     (if predicate (node_data x) then
        (case at_or_below F hash x of
           Inl e \<Rightarrow> Inl (Client_Error e)
         | Inr True \<Rightarrow>
             (case any_child_ancestor F hash number (node_children x) of
                Inl e \<Rightarrow> Inl (Client_Error e)
              | Inr True \<Rightarrow> Inl UnfinalizedAncestor
              | Inr False \<Rightarrow> Inr (Some x))
         | Inr False \<Rightarrow> find_finalized F predicate hash number xs)
      else find_finalized F predicate hash number xs)"

definition finalizes_any_with_descendent_if ::
    "('h, 'e) ancestry_test \<Rightarrow> ('v \<Rightarrow> bool) \<Rightarrow> 'h \<Rightarrow> 'n::linorder \<Rightarrow> ('h, 'n, 'v) fork_tree
      \<Rightarrow> 'e fork_error + bool option" where
  "finalizes_any_with_descendent_if F predicate hash number t =
     (if reverts number t then Inl Revert
      else
        (case find_finalized F predicate hash number (node_iter (roots t)) of
           Inl e \<Rightarrow> Inl e
         | Inr None \<Rightarrow> Inr None
         | Inr (Some x) \<Rightarrow> Inr (Some (\<exists>root \<in> set (roots t). node_hash root = node_hash x))))"

definition finalize_with_descendent_if ::
    "('h, 'e) ancestry_test \<Rightarrow> ('v \<Rightarrow> bool) \<Rightarrow> 'h \<Rightarrow> 'n::linorder \<Rightarrow> ('h, 'n, 'v) fork_tree
      \<Rightarrow> ('e fork_error + 'v finalization_result) \<times> ('h, 'n, 'v) fork_tree" where
  "finalize_with_descendent_if F predicate hash number t =
     (if reverts number t then (Inl Revert, t)
      else
        (case find_finalized F predicate hash number (roots t) of
           Inl e \<Rightarrow> (Inl e, t)
         | Inr found \<Rightarrow>
             let t1 = (case found of
                         Some x \<Rightarrow> \<lparr>roots = node_children x, best_finalized_number = Some (node_number x)\<rparr>
                       | None \<Rightarrow> t);
                 retain = (\<lambda>root.
                   case (if number < node_number root then F hash (node_hash root) else Inr False) of
                     Inl e \<Rightarrow> Inl e
                   | Inr True \<Rightarrow> Inr True
                   | Inr False \<Rightarrow>
                       (if node_number root = number \<and> node_hash root = hash then Inr True
                        else F (node_hash root) hash))
             in case keep_roots retain (roots t1) of
                  Inl (e, kept) \<Rightarrow> (Inl (Client_Error e), t1\<lparr>roots := kept\<rparr>)
                | Inr kept \<Rightarrow>
                    (Inr (finalization_result (map_option node_data found) (length kept < length (roots t1))),
                     \<lparr>roots = kept, best_finalized_number = Some number\<rparr>)))"

end
