(* ===== verification/Fork_Tree_Shape.thy ===== *)
theory Fork_Tree_Shape
  imports Fork_Tree "HOL-Library.Multiset"
begin

text \<open>
  Forests as the fork tree keeps them: their nodes in iteration order, what it means that they are
  arranged by an ancestry test, and what holds whatever that test answers.  Rebalancing keeps the
  entries and puts the longest branches first; pruning partitions the entries.
\<close>

section \<open>Well-formed forests\<close>

fun subnodes :: "('h, 'n, 'v) node \<Rightarrow> ('h, 'n, 'v) node list" where
  "subnodes (Node h n d cs) = Node h n d cs # concat (map subnodes cs)"

definition forest_nodes :: "('h, 'n, 'v) node list \<Rightarrow> ('h, 'n, 'v) node list" where
  "forest_nodes ns = concat (map subnodes ns)"

definition item_of :: "('h, 'n, 'v) node \<Rightarrow> 'h \<times> 'n \<times> 'v" where
  "item_of x = (node_hash x, node_number x, node_data x)"

definition items :: "('h, 'n, 'v) node list \<Rightarrow> ('h \<times> 'n \<times> 'v) set" where
  "items ns = item_of ` set (forest_nodes ns)"

definition hashes_in :: "('h, 'n, 'v) node list \<Rightarrow> 'h set" where
  "hashes_in ns = node_hash ` set (forest_nodes ns)"

definition proper_anc :: "('h, 'e) ancestry_test \<Rightarrow> 'h \<Rightarrow> 'h \<Rightarrow> bool" where
  "proper_anc F a b = (F a b = Inr True)"

definition unrelated :: "('h, 'e) ancestry_test \<Rightarrow> 'h \<Rightarrow> 'h \<Rightarrow> bool" where
  "unrelated F a b = (a \<noteq> b \<and> \<not> proper_anc F a b \<and> \<not> proper_anc F b a)"

definition forks :: "('h, 'e) ancestry_test \<Rightarrow> ('h, 'n, 'v) node list \<Rightarrow> bool" where
  "forks F ns = sorted_wrt (\<lambda>a b. unrelated F (node_hash a) (node_hash b)) ns"

fun node_ok :: "('h, 'e) ancestry_test \<Rightarrow> ('h \<Rightarrow> 'n) \<Rightarrow> 'h set \<Rightarrow> ('h, 'n, 'v) node \<Rightarrow> bool" where
  "node_ok F num_of K (Node h n d cs) =
     (h \<in> K \<and> n = num_of h \<and> (\<forall>c \<in> set cs. node_ok F num_of K c \<and> proper_anc F h (node_hash c)) \<and> forks F cs)"

definition forest_ok :: "('h, 'e) ancestry_test \<Rightarrow> ('h \<Rightarrow> 'n) \<Rightarrow> 'h set \<Rightarrow> ('h, 'n, 'v) node list \<Rightarrow> bool" where
  "forest_ok F num_of K ns = ((\<forall>x \<in> set ns. node_ok F num_of K x) \<and> forks F ns)"

lemma forest_nodes_simps [simp]:
  "forest_nodes [] = []" "forest_nodes (x # ns) = subnodes x @ forest_nodes ns"
  "forest_nodes (ns @ ms) = forest_nodes ns @ forest_nodes ms"
  by (simp_all add: forest_nodes_def)

lemma subnodes_unfold: "subnodes x = x # forest_nodes (node_children x)"
  by (cases x) (simp add: forest_nodes_def)

lemma node_iter_preorder: "node_iter ns = forest_nodes ns"
  by (induction ns rule: node_iter.induct) (simp_all add: subnodes_unfold)

lemma hashes_in_simps [simp]:
  "hashes_in [] = {}" "hashes_in (ns @ ms) = hashes_in ns \<union> hashes_in ms"
  by (auto simp: hashes_in_def)

lemma hashes_in_Cons: "hashes_in (x # ns) = hashes_in [x] \<union> hashes_in ns"
  by (auto simp: hashes_in_def)

lemma hashes_in_node: "hashes_in [x] = insert (node_hash x) (hashes_in (node_children x))"
  by (auto simp: hashes_in_def subnodes_unfold)

lemma items_simps [simp]:
  "items [] = {}" "items (ns @ ms) = items ns \<union> items ms"
  by (auto simp: items_def)

lemma items_Cons: "items (x # ns) = items [x] \<union> items ns"
  by (auto simp: items_def)

lemma items_node: "items [x] = insert (item_of x) (items (node_children x))"
  by (auto simp: items_def subnodes_unfold)

lemma hashes_in_items: "hashes_in ns = fst ` items ns"
  by (force simp: hashes_in_def items_def item_of_def)

lemma forest_ok_simps [simp]:
  "forest_ok F num_of K []"
  "forest_ok F num_of K (x # ns) \<longleftrightarrow> node_ok F num_of K x \<and> forest_ok F num_of K ns
     \<and> (\<forall>y \<in> set ns. unrelated F (node_hash x) (node_hash y))"
  by (auto simp: forest_ok_def forks_def)

lemma node_ok_iff:
  "node_ok F num_of K x \<longleftrightarrow> node_hash x \<in> K \<and> node_number x = num_of (node_hash x)
     \<and> forest_ok F num_of K (node_children x) \<and> (\<forall>c \<in> set (node_children x). proper_anc F (node_hash x) (node_hash c))"
  by (cases x) (auto simp: forest_ok_def)

lemma node_okD: "node_ok F num_of K x \<Longrightarrow> node_hash x \<in> K"
  by (simp add: node_ok_iff)

lemma unrelated_sym: "unrelated F a b \<longleftrightarrow> unrelated F b a"
  by (auto simp: unrelated_def)

lemma forest_ok_snoc:
  "forest_ok F num_of K (ns @ [x]) \<longleftrightarrow> forest_ok F num_of K ns \<and> node_ok F num_of K x
     \<and> (\<forall>y \<in> set ns. unrelated F (node_hash y) (node_hash x))"
  by (auto simp: forest_ok_def forks_def sorted_wrt_append)

lemma self_subnode [simp]: "x \<in> set (subnodes x)"
  by (cases x) simp

lemma hashes_in_mem: "x \<in> set ns \<Longrightarrow> node_hash x \<in> hashes_in ns"
  unfolding hashes_in_def forest_nodes_def by (intro imageI) (auto intro!: bexI [of _ x])

lemma hashes_in_children: "hashes_in ns = (\<Union>x \<in> set ns. hashes_in [x])"
  by (auto simp: hashes_in_def forest_nodes_def)

text \<open>What importing a block does, according to whether it is there and has an ancestor there.\<close>

definition import_spec ::
    "'h set \<Rightarrow> bool \<Rightarrow> ('s \<Rightarrow> bool) \<Rightarrow> 'h \<Rightarrow> 'n \<Rightarrow> 'v
      \<Rightarrow> 'e fork_error + ('s, 'h, 'n, 'v) import_result \<Rightarrow> bool" where
  "import_spec H ancestor good hash number data r =
     (if hash \<in> H then r = Inl Duplicate
      else if ancestor then \<exists>s'. r = Inr (Imported s') \<and> good s'
      else r = Inr (Rejected hash number data))"

section \<open>Rebalancing\<close>

lemma forks_iff:
  "forks F ns \<longleftrightarrow> distinct (map node_hash ns)
     \<and> (\<forall>a \<in> node_hash ` set ns. \<forall>b \<in> node_hash ` set ns. a \<noteq> b \<longrightarrow> unrelated F a b)"
proof (induction ns)
  case (Cons x ns)
  have "forks F (x # ns) \<longleftrightarrow> (\<forall>y \<in> set ns. unrelated F (node_hash x) (node_hash y)) \<and> forks F ns"
    by (simp add: forks_def)
  also have "\<dots> \<longleftrightarrow> (\<forall>b \<in> node_hash ` set ns. unrelated F (node_hash x) b) \<and> forks F ns" by simp
  also have "\<dots> \<longleftrightarrow> node_hash x \<notin> node_hash ` set ns \<and> distinct (map node_hash ns)
      \<and> (\<forall>a \<in> insert (node_hash x) (node_hash ` set ns). \<forall>b \<in> insert (node_hash x) (node_hash ` set ns).
           a \<noteq> b \<longrightarrow> unrelated F a b)"
    unfolding Cons.IH using unrelated_sym [of F "node_hash x"] by (metis insert_iff unrelated_def)
  finally show ?case by simp
qed (simp add: forks_def)

lemma forks_perm:
  assumes "forks F ns" and "mset (map node_hash ms) = mset (map node_hash ns)"
  shows "forks F ms"
proof -
  have "set (map node_hash ms) = set (map node_hash ns)" using assms(2) by (metis set_mset_mset)
  moreover have "distinct (map node_hash ms) = distinct (map node_hash ns)" using assms(2) by (rule mset_eq_imp_distinct_iff)
  ultimately show ?thesis using assms(1) by (simp add: forks_iff)
qed

lemma mset_by_depth [simp]: "mset (by_depth ns) = mset ns" "set (by_depth ns) = set ns"
  by (simp_all add: by_depth_def)

lemma items_union: "items ns = (\<Union>x \<in> set ns. items [x])"
  by (auto simp: items_def forest_nodes_def)

lemma rebalance_node_keeps:
  "node_hash (rebalance_node x) = node_hash x \<and> item_of (rebalance_node x) = item_of x
   \<and> items [rebalance_node x] = items [x] \<and> max_depth (rebalance_node x) = max_depth x"
proof (induction x rule: rebalance_node.induct)
  case (1 h n d cs)
  have "items (map rebalance_node (by_depth cs)) = items cs"
    using 1 by (simp add: items_union [of "map rebalance_node (by_depth cs)"] items_union [of cs])
  moreover have "fold max (map max_depth (map rebalance_node (by_depth cs))) 0 = fold max (map max_depth cs) 0"
  proof -
    have "map max_depth (map rebalance_node (by_depth cs)) = map max_depth (by_depth cs)" using 1 by simp
    moreover have "fold max (map max_depth (by_depth cs)) 0 = fold max (map max_depth cs) (0 :: nat)"
    proof -
      have "Max (set (0 # map max_depth (by_depth cs))) = Max (set (0 # map max_depth cs))" by simp
      then show ?thesis by (simp only: Max.set_eq_fold)
    qed
    ultimately show ?thesis by (simp only:)
  qed
  ultimately show ?case by (simp add: items_node item_of_def)
qed

lemma rebalance_node_simps [simp]:
  "node_hash (rebalance_node x) = node_hash x" "items [rebalance_node x] = items [x]"
  "max_depth (rebalance_node x) = max_depth x"
  using rebalance_node_keeps [of x] by blast+

lemma rebalance_nodes_keep:
  "items (map rebalance_node (by_depth ns)) = items ns"
  "mset (map node_hash (map rebalance_node (by_depth ns))) = mset (map node_hash ns)"
proof -
  show "items (map rebalance_node (by_depth ns)) = items ns"
    by (simp add: items_union [of "map rebalance_node (by_depth ns)"] items_union [of ns])
  show "mset (map node_hash (map rebalance_node (by_depth ns))) = mset (map node_hash ns)" by (simp add: comp_def)
qed

lemma rebalance_node_ok: "node_ok F num_of K x \<Longrightarrow> node_ok F num_of K (rebalance_node x)"
proof (induction x rule: rebalance_node.induct)
  case (1 h n d cs)
  have "forks F (map rebalance_node (by_depth cs))"
    by (rule forks_perm [OF _ rebalance_nodes_keep(2)]) (use 1 in simp)
  then show ?case using 1 by auto
qed

lemma rebalance_ok:
  "forest_ok F num_of K (roots t) \<Longrightarrow> forest_ok F num_of K (roots (rebalance t))"
  "items (roots (rebalance t)) = items (roots t)"
  "best_finalized_number (rebalance t) = best_finalized_number t"
  using rebalance_nodes_keep [of "roots t"] forks_perm [OF _ rebalance_nodes_keep(2), of F "roots t"]
  by (auto simp: rebalance_def forest_ok_def rebalance_node_ok)

text \<open>The longest branches come first, at every level.\<close>

fun longest_first :: "('h, 'n, 'v) node \<Rightarrow> bool" where
  "longest_first (Node h n d cs) = (sorted_wrt (\<lambda>a b. max_depth b \<le> max_depth a) cs \<and> (\<forall>c \<in> set cs. longest_first c))"

lemma by_depth_sorted: "sorted_wrt (\<lambda>a b. max_depth b \<le> max_depth a) (map rebalance_node (by_depth ns))"
proof -
  have "sorted (map (\<lambda>x. Reverse (max_depth x)) (by_depth ns))" unfolding by_depth_def by simp
  then show ?thesis
    by (auto simp: sorted_wrt_map less_eq_reverse_def)
qed

lemma rebalance_node_longest_first: "longest_first (rebalance_node x)"
  by (induction x rule: rebalance_node.induct) (simp add: by_depth_sorted)

lemma node_import_duplicate: "node_hash x = hash \<Longrightarrow> node_import F hash number data x = Inl Duplicate"
  by (cases x) simp

lemma roots_import_eq: "roots_import F hash number data ns = children_import F hash number data ns"
  by (induction F hash number data ns rule: roots_import.induct)
     (auto simp: node_import_duplicate split: sum.split import_result.split)

text \<open>The shape of the forest is the ancestry of its blocks.\<close>

definition represents :: "('h, 'e) ancestry_test \<Rightarrow> ('h, 'n, 'v) node list \<Rightarrow> bool" where
  "represents F ns = (\<forall>x \<in> set (forest_nodes ns). \<forall>y \<in> set (forest_nodes ns).
     (node_hash x = node_hash y \<longrightarrow> x = y)
     \<and> (proper_anc F (node_hash x) (node_hash y) \<longleftrightarrow> y \<in> set (forest_nodes (node_children x))))"

lemma subnodes_cases: "y \<in> set (subnodes x) \<longleftrightarrow> y = x \<or> y \<in> set (forest_nodes (node_children x))"
  by (cases x) (auto simp: forest_nodes_def)

lemma forest_nodes_mem: "y \<in> set (forest_nodes ns) \<longleftrightarrow> (\<exists>x \<in> set ns. y \<in> set (subnodes x))"
  by (auto simp: forest_nodes_def)

lemma root_node: "x \<in> set ns \<Longrightarrow> x \<in> set (forest_nodes ns)"
  using self_subnode [of x] forest_nodes_mem [of x ns] by blast

lemma subnodes_trans: "y \<in> set (subnodes x) \<Longrightarrow> z \<in> set (subnodes y) \<Longrightarrow> z \<in> set (subnodes x)"
  by (induction x rule: subnodes.induct) auto

lemma position_of_Some:
  assumes "position_of P xs = Some i"
  shows "i < length xs" and "P (xs ! i)"
proof -
  obtain js where "filter (\<lambda>i. P (xs ! i)) [0..<length xs] = i # js"
    using assms by (auto simp: position_of_def split: list.splits)
  then have "i \<in> set (filter (\<lambda>i. P (xs ! i)) [0..<length xs])" by (simp only: list.set_intros)
  then show "i < length xs" "P (xs ! i)" by auto
qed

lemma position_of_None: "position_of P xs = None \<longleftrightarrow> (\<forall>x \<in> set xs. \<not> P x)"
proof -
  have "position_of P xs = None \<longleftrightarrow> filter (\<lambda>i. P (xs ! i)) [0..<length xs] = []"
    by (simp add: position_of_def split: list.split)
  also have "\<dots> \<longleftrightarrow> (\<forall>i < length xs. \<not> P (xs ! i))" by (auto simp: filter_empty_conv)
  finally show ?thesis by (simp add: all_set_conv_all_nth)
qed

lemma any_ancestor_lower: "\<forall>x \<in> set ns. number < node_number x \<Longrightarrow> any_ancestor F hash number ns = Inr False"
  by (induction ns) auto

lemma keep_roots_filter: "(\<And>r. r \<in> set rs \<Longrightarrow> f r = Inr (g r)) \<Longrightarrow> keep_roots f rs = Inr (filter g rs)"
  by (induction rs) auto

lemma forest_ok_filter: "forest_ok F num_of K ns \<Longrightarrow> forest_ok F num_of K (filter P ns)"
  by (auto simp: forest_ok_def forks_def sorted_wrt_filter)

lemma items_filter: "items (filter P ns) = (\<Union>x \<in> set ns. if P x then items [x] else {})"
  by (subst items_union) auto

lemma swap_remove_set:
  assumes "i < length xs"
  shows "set xs = insert (xs ! i) (set (swap_remove i xs))"
    and "mset xs = add_mset (xs ! i) (mset (swap_remove i xs))"
proof -
  have m: "mset (last_first ys) = mset ys" for ys :: "'a list"
    by (cases ys rule: rev_cases) (simp_all add: last_first_def)
  show "mset xs = add_mset (xs ! i) (mset (swap_remove i xs))"
    unfolding swap_remove_split [OF assms] using arg_cong [OF id_take_nth_drop [OF assms], of mset] by (simp add: m)
  from arg_cong [OF this, of set_mset] show "set xs = insert (xs ! i) (set (swap_remove i xs))" by simp
qed

lemma forest_ok_remove:
  assumes "forest_ok F num_of K xs" and "i < length xs"
  shows "forest_ok F num_of K (swap_remove i xs)" and "node_ok F num_of K (xs ! i)"
    and "\<forall>y \<in> set (swap_remove i xs). unrelated F (node_hash (xs ! i)) (node_hash y)"
proof -
  have f: "forks F (xs ! i # swap_remove i xs)"
    by (rule forks_perm [of _ xs]) (use assms swap_remove_set(2) [OF assms(2)] in \<open>simp_all add: forest_ok_def\<close>)
  have "forest_ok F num_of K (xs ! i # swap_remove i xs)"
    using assms(1) f swap_remove_set(1) [OF assms(2)] by (simp add: forest_ok_def)
  then show "forest_ok F num_of K (swap_remove i xs)" "node_ok F num_of K (xs ! i)"
    "\<forall>y \<in> set (swap_remove i xs). unrelated F (node_hash (xs ! i)) (node_hash y)" by simp_all
qed

lemma items_remove: "i < length xs \<Longrightarrow> items xs = items [xs ! i] \<union> items (swap_remove i xs)"
  by (subst (1 3) items_union) (simp add: swap_remove_set(1))

section \<open>Pruning partitions the tree\<close>

text \<open>These facts need nothing of the ancestry test.\<close>

abbreviation items_of :: "('h, 'n, 'v) node list \<Rightarrow> ('h \<times> 'n \<times> 'v) multiset" where
  "items_of ns \<equiv> mset (map item_of (forest_nodes ns))"

lemma items_of_node: "items_of [Node h n d cs] = add_mset (h, n, d) (items_of cs)"
  by (simp add: forest_nodes_def item_of_def)

lemma items_of_sum: "items_of ns = (\<Sum>x \<in># mset ns. items_of [x])"
  by (induction ns) simp_all

lemma items_of_perm: "mset ns = mset ms \<Longrightarrow> items_of ns = items_of ms"
  by (subst (1 2) items_of_sum) simp

lemma items_of_map: "(\<And>x. x \<in> set ns \<Longrightarrow> items_of [f x] = items_of [x]) \<Longrightarrow> items_of (map f ns) = items_of ns"
  by (induction ns) auto

lemma items_of_rebalance_node: "items_of [rebalance_node x] = items_of [x]"
proof (induction x rule: rebalance_node.induct)
  case (1 h n d cs)
  then have "items_of (map rebalance_node (by_depth cs)) = items_of (by_depth cs)" by (intro items_of_map) simp
  also have "\<dots> = items_of cs" by (rule items_of_perm) simp
  finally show ?case unfolding rebalance_node.simps items_of_node by simp
qed

lemma items_of_rebalance: "items_of (roots (rebalance t)) = items_of (roots t)"
proof -
  have "items_of (map rebalance_node (by_depth (roots t))) = items_of (by_depth (roots t))"
    by (rule items_of_map) (rule items_of_rebalance_node)
  also have "\<dots> = items_of (roots t)" by (rule items_of_perm) simp
  finally show ?thesis by (simp add: rebalance_def)
qed

lemma take_node_items: "take_node path ns = Some (x, rest) \<Longrightarrow> items_of ns = items_of [x] + items_of rest"
proof (induction path ns arbitrary: x rest rule: take_node.induct)
  case (2 i ns)
  then have i: "i < length ns" "x = ns ! i" "rest = vec_remove i ns" by (auto split: if_splits)
  have "mset ns = mset (x # rest)"
    using i arg_cong [OF id_take_nth_drop [OF i(1)], of mset] by (simp add: vec_remove_def)
  then show ?case using items_of_perm by fastforce
next
  case (3 i j path ns)
  obtain h n d ks where k: "ns ! i = Node h n d ks" by (cases "ns ! i")
  from "3.prems" obtain cs where i: "i < length ns" and cs: "take_node (j # path) ks = Some (x, cs)"
    and rest: "rest = ns[i := Node h n d cs]"
    by (auto simp: k split: if_splits option.splits)
  have ks: "items_of ks = items_of [x] + items_of cs" using "3.IH" [OF i, unfolded k node.sel, OF cs] .
  have "items_of ns = items_of (take i ns) + items_of [ns ! i] + items_of (drop (Suc i) ns)"
    by (subst id_take_nth_drop [OF i]) simp
  also have "\<dots> = items_of [x] + (items_of (take i ns) + items_of [Node h n d cs] + items_of (drop (Suc i) ns))"
    unfolding k items_of_node ks by simp
  also have "items_of (take i ns) + items_of [Node h n d cs] + items_of (drop (Suc i) ns) = items_of rest"
    unfolding rest upd_conv_take_nth_drop [OF i] by simp
  finally show ?case .
qed simp

lemma split_children_items:
  "split_children F hash number first cs = Inr (kept, removed) \<Longrightarrow> items_of cs = items_of kept + items_of removed"
  by (induction cs arbitrary: first kept removed) (auto split: sum.splits prod.splits if_splits)

lemma take_node_defined:
  "i < length ns \<Longrightarrow> node_at path (ns ! i) = Some y \<Longrightarrow> \<exists>rest. take_node (i # path) ns = Some (y, rest)"
proof (induction path arbitrary: i ns)
  case (Cons j path)
  then have j: "j < length (node_children (ns ! i))" "node_at path (node_children (ns ! i) ! j) = Some y"
    by (auto split: if_splits)
  from Cons.IH [OF this] Cons.prems(1) show ?case by (cases "ns ! i") auto
qed simp

lemma find_path:
  "find_node_index_where F P hash number x = Inr (Found p) \<Longrightarrow> \<exists>y. node_at (rev p) x = Some y"
  "children_find F P hash number i cs = Inr (Found p) \<Longrightarrow>
    \<exists>q j y. p = q @ [i + j] \<and> j < length cs \<and> node_at (rev q) (cs ! j) = Some y"
proof (induction F P hash number x and F P hash number i cs arbitrary: p and p
    rule: find_node_index_where_children_find.induct)
  case (1 F P hash number h n d cs)
  then show ?case by (fastforce split: if_splits sum.splits find_outcome.splits)
next
  case (3 F P hash number i c cs)
  consider (found) q where "find_node_index_where F P hash number c = Inr (Found q)" "p = q @ [i]"
    | (later) "find_node_index_where F P hash number c = Inr (Failure False)"
      "children_find F P hash number (Suc i) cs = Inr (Found p)"
    using "3.prems" by (auto split: sum.splits find_outcome.splits bool.splits)
  then show ?case
  proof cases
    case found
    then show ?thesis using "3.IH"(1) by (auto intro!: exI [of _ 0])
  next
    case later
    from "3.IH"(2) [OF later(1) refl _ later(2)] obtain q j y
      where "p = q @ [Suc i + j]" "j < length cs" "node_at (rev q) (cs ! j) = Some y" by auto
    then show ?thesis by (intro exI [of _ q] exI [of _ "Suc j"] exI [of _ y]) simp
  qed
qed auto

lemma roots_find_path:
  "roots_find_index F P hash number i ns = Inr (Some p) \<Longrightarrow>
    \<exists>q j y. p = q @ [i + j] \<and> j < length ns \<and> node_at (rev q) (ns ! j) = Some y"
proof (induction ns arbitrary: i)
  case (Cons c cs)
  show ?case
  proof (cases "\<exists>q. find_node_index_where F P hash number c = Inr (Found q)")
    case True
    then show ?thesis using Cons.prems find_path(1) by (fastforce intro!: exI [of _ 0])
  next
    case False
    then have "roots_find_index F P hash number (Suc i) cs = Inr (Some p)"
      using Cons.prems by (auto split: sum.splits find_outcome.splits)
    from Cons.IH [OF this] obtain q j y
      where "p = q @ [Suc i + j]" "j < length cs" "node_at (rev q) (cs ! j) = Some y" by auto
    then show ?thesis by (intro exI [of _ q] exI [of _ "Suc j"] exI [of _ y]) simp
  qed
qed simp

lemma prune_takes:
  assumes "roots_find_index F P hash number 0 ns = Inr (Some p)"
  shows "\<exists>root old. take_node (rev p) ns = Some (root, old)"
  using roots_find_path [OF assms] take_node_defined by fastforce

lemma prune_cases:
  obtains (error) e where "prune F P hash number t = Some (Inl e, t)"
  | (lost) e where "prune F P hash number t = Some (Inl (Client_Error e), t\<lparr>roots := []\<rparr>)"
  | (pruned) removed t' where "prune F P hash number t = Some (Inr removed, t')"
      "mset (tree_iter t) = mset removed + mset (tree_iter t')"
      "best_finalized_number t' = best_finalized_number t"
proof (cases "roots_find_index F P hash number 0 (roots t)")
  case (Inl e)
  then show ?thesis using error by (simp add: prune_def)
next
  case (Inr found)
  have it: "mset (tree_iter u) = items_of (roots u)" for u :: "('h, 'n, 'v) fork_tree"
    by (simp add: tree_iter_def node_iter_preorder item_of_def [abs_def])
  show ?thesis
  proof (cases found)
    case None
    show ?thesis
      by (rule pruned [of "[]" "rebalance t"])
         (use Inr None in \<open>simp_all only: it items_of_rebalance\<close>, simp_all add: prune_def rebalance_ok(3))
  next
    case (Some p)
    then obtain root old where take: "take_node (rev p) (roots t) = Some (root, old)" using prune_takes Inr by metis
    show ?thesis
    proof (cases "split_children F hash number True (node_children root)")
      case Inl
      then show ?thesis using lost Inr Some take by (simp add: prune_def)
    next
      case (Inr kr)
      obtain kept removed where split: "split_children F hash number True (node_children root) = Inr (kept, removed)"
        using Inr by (cases kr) simp
      obtain h n d cs where root: "root = Node h n d cs" by (cases root)
      have "items_of [root] = items_of [with_children kept root] + items_of removed"
        using split_children_items [OF split] unfolding root with_children.simps items_of_node by simp
      then have "items_of (roots t) = items_of (rev (old @ removed)) + items_of [with_children kept root]"
        using take_node_items [OF take] items_of_perm [of "rev (old @ removed)" "old @ removed"] by simp
      moreover have "mset (removed_iter (old @ removed)) = items_of (rev (old @ removed))"
        unfolding removed_iter_def node_iter_preorder by (simp add: item_of_def [abs_def])
      moreover have "prune F P hash number t = Some (Inr (removed_iter (old @ removed)),
          rebalance (t\<lparr>roots := [with_children kept root]\<rparr>))"
        using \<open>roots_find_index F P hash number 0 (roots t) = Inr found\<close> Some take split by (simp add: prune_def)
      ultimately show ?thesis
        by (intro pruned [of "removed_iter (old @ removed)" "rebalance (t\<lparr>roots := [with_children kept root]\<rparr>)"])
           (simp_all only: it items_of_rebalance, simp_all add: rebalance_ok(3))
    qed
  qed
qed

end
