(* ===== verification/Fork_Tree_Safety.thy ===== *)
theory Fork_Tree_Safety
  imports Fork_Tree_Shape
begin

text \<open>
  The interface \<open>ancestry\<close> states what the fork tree relies on of the caller's ancestry test.
  Under it every operation keeps the forest arranged by ancestry, so that a node is below another
  exactly when its block is a descendant, and does what its documentation says.
\<close>

section \<open>What the tree relies on\<close>

locale ancestry =
  fixes is_desc :: "'s \<Rightarrow> ('h, 'e) ancestry_test"
    and num_of :: "'s \<Rightarrow> 'h \<Rightarrow> 'n::linorder"
    and known :: "'s \<Rightarrow> 'h set"
    and ok :: "'s \<Rightarrow> bool"
  assumes answers: "ok s \<Longrightarrow> a \<in> known s \<Longrightarrow> b \<in> known s \<Longrightarrow> \<exists>r. is_desc s a b = Inr r"
    and higher: "ok s \<Longrightarrow> a \<in> known s \<Longrightarrow> b \<in> known s \<Longrightarrow> proper_anc (is_desc s) a b
      \<Longrightarrow> num_of s a < num_of s b"
    and transitive: "ok s \<Longrightarrow> a \<in> known s \<Longrightarrow> b \<in> known s \<Longrightarrow> c \<in> known s \<Longrightarrow> proper_anc (is_desc s) a b
      \<Longrightarrow> proper_anc (is_desc s) b c \<Longrightarrow> proper_anc (is_desc s) a c"
    and linear: "ok s \<Longrightarrow> a \<in> known s \<Longrightarrow> b \<in> known s \<Longrightarrow> c \<in> known s \<Longrightarrow> proper_anc (is_desc s) a c
      \<Longrightarrow> proper_anc (is_desc s) b c \<Longrightarrow> a = b \<or> proper_anc (is_desc s) a b \<or> proper_anc (is_desc s) b a"
begin

abbreviation tree_ok where "tree_ok s \<equiv> forest_ok (is_desc s) (num_of s) (known s)"
abbreviation below where "below s \<equiv> proper_anc (is_desc s)"

lemma answer: "ok s \<Longrightarrow> a \<in> known s \<Longrightarrow> b \<in> known s \<Longrightarrow> is_desc s a b = Inr (below s a b)"
  using answers [of s a b] by (auto simp: proper_anc_def)

lemma irreflexive: "ok s \<Longrightarrow> a \<in> known s \<Longrightarrow> \<not> below s a a"
  using higher [of s a a] by auto

lemma subtree:
  assumes "ok s"
  shows "node_ok (is_desc s) (num_of s) (known s) x \<Longrightarrow> y \<in> set (subnodes x) \<Longrightarrow>
    node_ok (is_desc s) (num_of s) (known s) y \<and> (y = x \<or> below s (node_hash x) (node_hash y))"
proof (induction x rule: subnodes.induct)
  case (1 h n d cs)
  show ?case
  proof (cases "y = Node h n d cs")
    case False
    then obtain c where c: "c \<in> set cs" "y \<in> set (subnodes c)" using "1.prems"(2) by auto
    then have "node_ok (is_desc s) (num_of s) (known s) c" "below s h (node_hash c)" "h \<in> known s"
      using "1.prems"(1) by auto
    moreover from "1.IH" [OF c(1) this(1) c(2)] have
      "node_ok (is_desc s) (num_of s) (known s) y \<and> (y = c \<or> below s (node_hash c) (node_hash y))" .
    moreover have "node_hash c \<in> known s" "node_hash y \<in> known s"
      using calculation by (simp_all add: node_ok_iff)
    ultimately show ?thesis using transitive [OF assms, of h "node_hash c" "node_hash y"] by auto
  qed (use "1.prems" in auto)
qed

lemma tree_nodes_ok:
  assumes "ok s" and "tree_ok s ns" and "y \<in> set (forest_nodes ns)"
  shows "node_ok (is_desc s) (num_of s) (known s) y" and "node_hash y \<in> known s"
    and "node_number y = num_of s (node_hash y)"
proof -
  obtain x where "x \<in> set ns" "y \<in> set (subnodes x)" using assms(3) by (auto simp: forest_nodes_def)
  with assms(2) subtree [OF assms(1)] show *: "node_ok (is_desc s) (num_of s) (known s) y"
    by (auto simp: forest_ok_def)
  then show "node_hash y \<in> known s" "node_number y = num_of s (node_hash y)" by (simp_all add: node_ok_iff)
qed

lemma hashes_below:
  assumes "ok s" and "node_ok (is_desc s) (num_of s) (known s) x" and "h \<in> hashes_in [x]"
  shows "h = node_hash x \<or> below s (node_hash x) h" and "h \<in> known s"
proof -
  obtain y where "y \<in> set (subnodes x)" "h = node_hash y" using assms(3) by (auto simp: hashes_in_def)
  with subtree [OF assms(1,2)] show "h = node_hash x \<or> below s (node_hash x) h" "h \<in> known s"
    by (auto simp: node_ok_iff)
qed

text \<open>Branches of different siblings do not meet: nothing is at or below both.\<close>

lemma siblings_apart:
  assumes o: "ok s" and u: "unrelated (is_desc s) a b" and k: "a \<in> known s" "b \<in> known s" "h \<in> known s"
    and "h = a \<or> below s a h" and "h = b \<or> below s b h"
  shows False
  using linear [OF o k] assms(6,7) u by (auto simp: unrelated_def)

lemma node_import_step:
  assumes o: "ok s" and x: "node_ok (is_desc s) (num_of s) (known s) (Node h n d cs)"
    and k: "hash \<in> known s" "number = num_of s hash" and ord: "\<forall>y \<in> hashes_in [Node h n d cs]. \<not> below s hash y"
    and ih: "import_spec (hashes_in cs) (\<exists>c \<in> set cs. below s (node_hash c) hash)
      (\<lambda>cs'. tree_ok s cs' \<and> map node_hash cs' = map node_hash cs \<and> items cs' = insert (hash, number, data) (items cs))
      hash number data (children_import (is_desc s) hash number data cs)"
  shows "import_spec (hashes_in [Node h n d cs]) (below s h hash)
    (\<lambda>x'. node_ok (is_desc s) (num_of s) (known s) x' \<and> node_hash x' = h
       \<and> items [x'] = insert (hash, number, data) (items [Node h n d cs]))
    hash number data (node_import (is_desc s) hash number data (Node h n d cs))"
proof -
  have hk: "h \<in> known s" "n = num_of s h" and tc: "tree_ok s cs"
    and ch: "\<And>c. c \<in> set cs \<Longrightarrow> node_hash c \<in> known s \<and> below s h (node_hash c)"
    using x by (auto simp: forest_ok_def dest: node_okD)
  have hh: "hashes_in [Node h n d cs] = insert h (hashes_in cs)" by (simp add: hashes_in_node)
  have under: "below s h y" if "y \<in> hashes_in cs" for y
  proof -
    from that have "y \<in> (\<Union>c \<in> set cs. hashes_in [c])" by (subst hashes_in_children [symmetric])
    then obtain c where c: "c \<in> set cs" "y \<in> hashes_in [c]" by blast
    have nc: "node_ok (is_desc s) (num_of s) (known s) c" using x c(1) by simp
    note y = hashes_below [OF o nc c(2)]
    show ?thesis using y(1) ch [OF c(1)] transitive [OF o hk(1) _ y(2), of "node_hash c"] by metis
  qed
  consider (same) "h = hash" | (low) "h \<noteq> hash" "number \<le> n" | (high) "h \<noteq> hash" "n < number" by fastforce
  then show ?thesis
  proof cases
    case same
    then show ?thesis using hh by (simp add: import_spec_def)
  next
    case low
    then have "\<not> below s h hash" using higher [OF o hk(1) k(1)] hk(2) k(2) by auto
    moreover from this have "hash \<notin> hashes_in [Node h n d cs]" using under low hh by auto
    ultimately show ?thesis using low by (simp add: import_spec_def)
  next
    case high
    then have in_cs: "hash \<in> hashes_in [Node h n d cs] \<longleftrightarrow> hash \<in> hashes_in cs" by (simp add: hh)
    have f: "is_desc s h hash = Inr (below s h hash)" by (rule answer [OF o hk(1) k(1)])
    show ?thesis
    proof (cases "hash \<in> hashes_in cs")
      case True
      then show ?thesis using ih in_cs high by (simp add: import_spec_def)
    next
      case new: False
      show ?thesis
      proof (cases "\<exists>c \<in> set cs. below s (node_hash c) hash")
        case True
        then obtain c where c: "c \<in> set cs" "below s (node_hash c) hash" by blast
        have b: "below s h hash" using transitive [OF o hk(1) _ k(1) _ c(2)] ch [OF c(1)] by blast
        obtain cs' where cs': "children_import (is_desc s) hash number data cs = Inr (Imported cs')" "tree_ok s cs'"
            "map node_hash cs' = map node_hash cs" "items cs' = insert (hash, number, data) (items cs)"
          using ih new True unfolding import_spec_def by (simp only: if_True if_False) blast
        have "below s h (node_hash c')" if "c' \<in> set cs'" for c'
        proof -
          have "node_hash ` set cs' = node_hash ` set cs" using arg_cong [OF cs'(3), of set] by simp
          then have "node_hash c' \<in> node_hash ` set cs" using that by blast
          then show ?thesis using ch by auto
        qed
        then have "node_ok (is_desc s) (num_of s) (known s) (Node h n d cs')"
          using hk cs'(2) by (simp add: node_ok_iff)
        then show ?thesis using new in_cs b high cs'
          by (auto simp: import_spec_def items_node item_of_def)
      next
        case False
        then have r: "children_import (is_desc s) hash number data cs = Inr (Rejected hash number data)"
          using ih new by (simp add: import_spec_def)
        show ?thesis
        proof (cases "below s h hash")
          case True
          have "unrelated (is_desc s) (node_hash c) hash" if "c \<in> set cs" for c
            using that False new hashes_in_mem [OF that] ord hh by (auto simp: unrelated_def)
          then have "node_ok (is_desc s) (num_of s) (known s) (Node h n d (cs @ [Node hash number data []]))"
            using hk k tc ch True by (auto simp: node_ok_iff forest_ok_snoc)
          then show ?thesis using True r f new in_cs high
            by (auto simp: import_spec_def items_node item_of_def)
        next
          case nb: False
          then show ?thesis using r f new in_cs high by (simp add: import_spec_def)
        qed
      qed
    qed
  qed
qed

lemma children_import_step:
  assumes o: "ok s" and t: "tree_ok s (c # cs)" and k: "hash \<in> known s"
    and c: "import_spec (hashes_in [c]) (below s (node_hash c) hash)
      (\<lambda>x'. node_ok (is_desc s) (num_of s) (known s) x' \<and> node_hash x' = node_hash c
         \<and> items [x'] = insert (hash, number, data) (items [c])) hash number data r"
    and cs: "import_spec (hashes_in cs) (\<exists>c \<in> set cs. below s (node_hash c) hash)
      (\<lambda>cs'. tree_ok s cs' \<and> map node_hash cs' = map node_hash cs \<and> items cs' = insert (hash, number, data) (items cs))
      hash number data q"
    and eq: "\<And>e. r = Inl e \<Longrightarrow> p = Inl e" "\<And>c'. r = Inr (Imported c') \<Longrightarrow> p = Inr (Imported (c' # cs))"
      "r = Inr (Rejected hash number data) \<Longrightarrow> p = (case q of Inl e \<Rightarrow> Inl e
          | Inr (Imported cs') \<Rightarrow> Inr (Imported (c # cs')) | Inr (Rejected hash number data) \<Rightarrow> Inr (Rejected hash number data))"
  shows "import_spec (hashes_in (c # cs)) (\<exists>x \<in> set (c # cs). below s (node_hash x) hash)
    (\<lambda>cs'. tree_ok s cs' \<and> map node_hash cs' = map node_hash (c # cs) \<and> items cs' = insert (hash, number, data) (items (c # cs)))
    hash number data p"
proof -
  have nc: "node_ok (is_desc s) (num_of s) (known s) c" and tc: "tree_ok s cs"
    and u: "\<And>y. y \<in> set cs \<Longrightarrow> unrelated (is_desc s) (node_hash c) (node_hash y)" using t by auto
  have apart: False if "hash = node_hash c \<or> below s (node_hash c) hash" "hash \<in> hashes_in [y] \<or> below s (node_hash y) hash" "y \<in> set cs" for y
  proof -
    have ny: "node_ok (is_desc s) (num_of s) (known s) y" using tc that(3) by (simp add: forest_ok_def)
    show False
      using siblings_apart [OF o u [OF that(3)] node_okD [OF nc] node_okD [OF ny] k that(1)]
        that(2) hashes_below(1) [OF o ny] by blast
  qed
  have hc: "hash \<in> hashes_in (c # cs) \<longleftrightarrow> hash \<in> hashes_in [c] \<or> hash \<in> hashes_in cs" by (simp add: hashes_in_Cons [of c cs])
  have later: "\<exists>y \<in> set cs. hash \<in> hashes_in [y]" if "hash \<in> hashes_in cs"
    using that hashes_in_children [of cs] by blast
  consider (dup) "hash \<in> hashes_in [c]" | (here) "hash \<notin> hashes_in [c]" "below s (node_hash c) hash"
    | (later) "hash \<notin> hashes_in [c]" "\<not> below s (node_hash c) hash" by blast
  then show ?thesis
  proof cases
    case dup
    then show ?thesis using c eq by (simp add: import_spec_def hc)
  next
    case here
    have n: "hash \<notin> hashes_in cs" using apart later here(2) by blast
    obtain x' where x': "r = Inr (Imported x')" "node_ok (is_desc s) (num_of s) (known s) x'" "node_hash x' = node_hash c"
        "items [x'] = insert (hash, number, data) (items [c])"
      using c here unfolding import_spec_def by (simp only: if_True if_False) blast
    have "tree_ok s (x' # cs)" using x'(2,3) tc u by simp
    moreover have "items (x' # cs) = insert (hash, number, data) (items (c # cs))"
      using x'(4) unfolding items_Cons [of x' cs] items_Cons [of c cs] by simp
    ultimately show ?thesis using x'(1,3) here n eq by (auto simp: import_spec_def hc)
  next
    case later
    then have r: "r = Inr (Rejected hash number data)" using c by (simp add: import_spec_def)
    show ?thesis
    proof (cases "hash \<notin> hashes_in cs \<and> (\<exists>y \<in> set cs. below s (node_hash y) hash)")
      case True
      then obtain cs' where cs': "q = Inr (Imported cs')" "tree_ok s cs'" "map node_hash cs' = map node_hash cs"
          "items cs' = insert (hash, number, data) (items cs)"
        using cs unfolding import_spec_def by (simp only: if_True if_False) blast
      have "node_hash ` set cs' = node_hash ` set cs" using arg_cong [OF cs'(3), of set] by simp
      then have "node_hash y \<in> node_hash ` set cs" if "y \<in> set cs'" for y using that by blast
      then have "unrelated (is_desc s) (node_hash c) (node_hash y)" if "y \<in> set cs'" for y using u that by fastforce
      then have "tree_ok s (c # cs')" using nc cs'(2) by simp
      moreover have "items (c # cs') = insert (hash, number, data) (items (c # cs))"
        using cs'(4) unfolding items_Cons [of c cs'] items_Cons [of c cs] by simp
      ultimately show ?thesis using True cs'(1,3) r later eq by (auto simp: import_spec_def hc)
    next
      case False
      then show ?thesis using cs r later eq by (auto simp: import_spec_def hc split: if_splits)
    qed
  qed
qed

definition node_imports where
  "node_imports s hash number data x =
     import_spec (hashes_in [x]) (below s (node_hash x) hash)
       (\<lambda>x'. node_ok (is_desc s) (num_of s) (known s) x' \<and> node_hash x' = node_hash x
          \<and> items [x'] = insert (hash, number, data) (items [x]))
       hash number data (node_import (is_desc s) hash number data x)"

lemma children_import_ok:
  assumes o: "ok s" and k: "hash \<in> known s"
  shows "(\<And>c. c \<in> set cs \<Longrightarrow> node_imports s hash number data c) \<Longrightarrow> tree_ok s cs \<Longrightarrow>
    import_spec (hashes_in cs) (\<exists>c \<in> set cs. below s (node_hash c) hash)
      (\<lambda>cs'. tree_ok s cs' \<and> map node_hash cs' = map node_hash cs \<and> items cs' = insert (hash, number, data) (items cs))
      hash number data (children_import (is_desc s) hash number data cs)"
proof (induction cs)
  case (Cons c cs)
  have "tree_ok s cs" using Cons.prems(2) by simp
  then show ?case
    using Cons.prems(1) Cons.IH
    by (intro children_import_step [OF o Cons.prems(2) k, where r = "node_import (is_desc s) hash number data c"
          and q = "children_import (is_desc s) hash number data cs"]) (simp_all add: node_imports_def)
qed (simp add: import_spec_def)

lemma node_import_ok:
  assumes o: "ok s" and k: "hash \<in> known s" "number = num_of s hash"
  shows "node_ok (is_desc s) (num_of s) (known s) x \<Longrightarrow> \<forall>y \<in> hashes_in [x]. \<not> below s hash y
    \<Longrightarrow> node_imports s hash number data x"
proof (induction x rule: node.induct)
  case (Node h n d cs)
  have t: "tree_ok s cs" using Node.prems(1) by (simp add: forest_ok_def)
  have "node_imports s hash number data c" if "c \<in> set cs" for c
  proof (rule Node.IH [OF that])
    show "node_ok (is_desc s) (num_of s) (known s) c" using t that by (simp add: forest_ok_def)
    show "\<forall>y \<in> hashes_in [c]. \<not> below s hash y"
      using Node.prems(2) that hashes_in_children [of cs] by (auto simp: hashes_in_node [of "Node h n d cs"])
  qed
  then show ?case
    using node_import_step [OF o Node.prems(1) k Node.prems(2) children_import_ok [OF o k(1) _ t]]
    by (simp add: node_imports_def)
qed

lemma roots_import_ok:
  assumes o: "ok s" and k: "hash \<in> known s" "number = num_of s hash"
    and t: "tree_ok s ns" and ord: "\<forall>y \<in> hashes_in ns. \<not> below s hash y"
  shows "import_spec (hashes_in ns) (\<exists>c \<in> set ns. below s (node_hash c) hash)
      (\<lambda>ns'. tree_ok s ns' \<and> map node_hash ns' = map node_hash ns \<and> items ns' = insert (hash, number, data) (items ns))
      hash number data (roots_import (is_desc s) hash number data ns)"
  unfolding roots_import_eq
proof (rule children_import_ok [OF o k(1) _ t])
  fix c assume c: "c \<in> set ns"
  show "node_imports s hash number data c"
    by (rule node_import_ok [OF o k]) (use t ord c hashes_in_children [of ns] in \<open>auto simp: forest_ok_def\<close>)
qed

lemma asymmetric: "ok s \<Longrightarrow> a \<in> known s \<Longrightarrow> b \<in> known s \<Longrightarrow> below s a b \<Longrightarrow> \<not> below s b a"
  using higher [of s a b] higher [of s b a] by auto

lemma same_root_represents:
  assumes o: "ok s" and r: "node_ok (is_desc s) (num_of s) (known s) r"
    and ih: "represents (is_desc s) (node_children r)"
    and x: "x \<in> set (subnodes r)" and y: "y \<in> set (subnodes r)"
  shows "(node_hash x = node_hash y \<longrightarrow> x = y)
    \<and> (below s (node_hash x) (node_hash y) \<longleftrightarrow> y \<in> set (forest_nodes (node_children x)))"
proof -
  have under: "below s (node_hash r) (node_hash z) \<and> node_hash z \<in> known s \<and> z \<noteq> r"
    if z: "z \<in> set (forest_nodes (node_children r))" for z
  proof -
    obtain c where c: "c \<in> set (node_children r)" "z \<in> set (subnodes c)" using z by (auto simp: forest_nodes_mem)
    have nc: "node_ok (is_desc s) (num_of s) (known s) c" "below s (node_hash r) (node_hash c)"
      using r c(1) by (simp_all add: node_ok_iff [of _ _ _ r] forest_ok_def)
    have "node_ok (is_desc s) (num_of s) (known s) z \<and> (z = c \<or> below s (node_hash c) (node_hash z))"
      by (rule subtree [OF o nc(1) c(2)])
    then have "node_hash z \<in> known s" "below s (node_hash r) (node_hash z)"
      using nc transitive [OF o node_okD [OF r] node_okD [OF nc(1)]] node_okD by blast+
    then show ?thesis using irreflexive [OF o node_okD [OF r]] by auto
  qed
  note k = node_okD [OF r]
  consider (rr) "x = r" "y = r" | (rc) "x = r" "y \<in> set (forest_nodes (node_children r))"
    | (cr) "y = r" "x \<in> set (forest_nodes (node_children r))"
    | (cc) "x \<in> set (forest_nodes (node_children r))" "y \<in> set (forest_nodes (node_children r))"
    using x y by (auto simp: subnodes_cases)
  then show ?thesis
  proof cases
    case rr
    then show ?thesis using irreflexive [OF o k] under by blast
  next
    case rc
    then show ?thesis using under [OF rc(2)] irreflexive [OF o k] by auto
  next
    case cr
    have "r \<notin> set (forest_nodes (node_children x))"
    proof
      assume "r \<in> set (forest_nodes (node_children x))"
      then have "r \<in> set (subnodes x)" by (simp add: subnodes_cases)
      moreover obtain c where "c \<in> set (node_children r)" "x \<in> set (subnodes c)" using cr(2) by (auto simp: forest_nodes_mem)
      ultimately have "r \<in> set (forest_nodes (node_children r))" using subnodes_trans forest_nodes_mem by metis
      then show False using under by blast
    qed
    moreover have "\<not> below s (node_hash x) (node_hash r)" "node_hash x \<noteq> node_hash r"
      using under [OF cr(2)] asymmetric [OF o k] irreflexive [OF o k] by auto
    ultimately show ?thesis using cr by blast
  next
    case cc
    then show ?thesis using ih by (simp add: represents_def)
  qed
qed

lemma forest_represents:
  assumes o: "ok s" and t: "tree_ok s ns"
    and ih: "\<And>r. r \<in> set ns \<Longrightarrow> represents (is_desc s) (node_children r)"
  shows "represents (is_desc s) ns"
  unfolding represents_def
proof (intro ballI)
  fix x y assume "x \<in> set (forest_nodes ns)" and "y \<in> set (forest_nodes ns)"
  then obtain p q where p: "p \<in> set ns" "x \<in> set (subnodes p)" and q: "q \<in> set ns" "y \<in> set (subnodes q)"
    by (auto simp: forest_nodes_mem)
  have np: "node_ok (is_desc s) (num_of s) (known s) p" and nq: "node_ok (is_desc s) (num_of s) (known s) q"
    using t p(1) q(1) by (simp_all add: forest_ok_def)
  show "(node_hash x = node_hash y \<longrightarrow> x = y)
    \<and> (below s (node_hash x) (node_hash y) \<longleftrightarrow> y \<in> set (forest_nodes (node_children x)))"
  proof (cases "node_hash p = node_hash q")
    case True
    then have "p = q" using t p(1) q(1) by (auto simp: forest_ok_def forks_iff distinct_map dest: inj_onD)
    then show ?thesis using same_root_represents [OF o np ih [OF p(1)] p(2)] q(2) by simp
  next
    case False
    then have u: "unrelated (is_desc s) (node_hash p) (node_hash q)"
      using t p(1) q(1) by (auto simp: forest_ok_def forks_iff)
    have xp: "node_ok (is_desc s) (num_of s) (known s) x \<and> (x = p \<or> below s (node_hash p) (node_hash x))"
      and yq: "node_ok (is_desc s) (num_of s) (known s) y \<and> (y = q \<or> below s (node_hash q) (node_hash y))"
      using subtree [OF o np p(2)] subtree [OF o nq q(2)] by blast+
    have kn: "node_hash x \<in> known s" "node_hash y \<in> known s" using xp yq node_okD by blast+
    note apart = siblings_apart [OF o u node_okD [OF np] node_okD [OF nq] kn(2)]
    have "\<not> below s (node_hash x) (node_hash y)"
      using apart xp yq transitive [OF o node_okD [OF np] kn] by metis
    moreover have "node_hash x \<noteq> node_hash y" using apart xp yq by metis
    moreover have "y \<notin> set (forest_nodes (node_children x))"
    proof
      assume "y \<in> set (forest_nodes (node_children x))"
      then have "y \<in> set (subnodes x)" by (simp add: subnodes_cases [of y x])
      then have "y \<in> set (subnodes p)" using p(2) by (blast intro: subnodes_trans)
      from subtree [OF o np this] show False using apart yq by metis
    qed
    ultimately show ?thesis by blast
  qed
qed

lemma tree_represents: "ok s \<Longrightarrow> tree_ok s ns \<Longrightarrow> represents (is_desc s) (ns :: ('h, 'n, 'v) node list)"
proof -
  assume o: "ok s" and t: "tree_ok s ns"
  have "node_ok (is_desc s) (num_of s) (known s) x \<Longrightarrow> represents (is_desc s) (node_children x)" for x :: "('h, 'n, 'v) node"
  proof (induction x rule: node.induct)
    case (Node h n d cs)
    have c: "tree_ok s cs" using Node.prems by (simp add: forest_ok_def)
    have "represents (is_desc s) (node_children r)" if "r \<in> set cs" for r
      by (rule Node.IH [OF that]) (use Node.prems that in simp)
    from forest_represents [OF o c this] show ?case by simp
  qed
  then show ?thesis using forest_represents [OF o t] t by (simp add: forest_ok_def)
qed

abbreviation after where "after s h I \<equiv> {i \<in> I. below s h (fst i)}"

lemma items_hash: "i \<in> items [x] \<Longrightarrow> fst i \<in> hashes_in [x]"
  by (auto simp: hashes_in_items)

lemma after_root:
  assumes o: "ok s" and r: "node_ok (is_desc s) (num_of s) (known s) r" and h: "h \<in> known s"
    and "h \<noteq> node_hash r" and "\<not> below s (node_hash r) h"
  shows "after s h (items [r]) = (if below s h (node_hash r) then items [r] else {})"
proof -
  have "below s h (fst i) \<longleftrightarrow> below s h (node_hash r)" if "i \<in> items [r]" for i
  proof -
    note i = hashes_below [OF o r items_hash [OF that]]
    show ?thesis
      using i transitive [OF o h node_okD [OF r] i(2)] linear [OF o h node_okD [OF r] i(2)] assms(4,5) by metis
  qed
  then show ?thesis by auto
qed

lemma after_self:
  assumes o: "ok s" and r: "node_ok (is_desc s) (num_of s) (known s) r"
  shows "after s (node_hash r) (items [r]) = items (node_children r)"
proof -
  note k = node_okD [OF r]
  have "below s (node_hash r) (fst i)" if "i \<in> items (node_children r)" for i
  proof -
    from that have "i \<in> (\<Union>c \<in> set (node_children r). items [c])" by (subst items_union [symmetric])
    then obtain c where c: "c \<in> set (node_children r)" "i \<in> items [c]" by blast
    have nc: "node_ok (is_desc s) (num_of s) (known s) c" "below s (node_hash r) (node_hash c)"
      using r c(1) by (simp_all add: node_ok_iff [of _ _ _ r] forest_ok_def)
    note i = hashes_below [OF o nc(1) items_hash [OF c(2)]]
    show ?thesis using i(1)
    proof
      assume "fst i = node_hash c"
      then show ?thesis using nc(2) by simp
    qed (rule transitive [OF o k node_okD [OF nc(1)] i(2) nc(2)])
  qed
  moreover have "items [r] = insert (item_of r) (items (node_children r))" by (rule items_node)
  moreover have "\<not> below s (node_hash r) (fst (item_of r))" using irreflexive [OF o k] by (simp add: item_of_def)
  ultimately show ?thesis by auto
qed

lemma after_other_root:
  assumes o: "ok s" and r: "node_ok (is_desc s) (num_of s) (known s) r" and h: "h \<in> known s"
    and u: "unrelated (is_desc s) h (node_hash r)"
  shows "after s h (items [r]) = {}"
  using after_root [OF o r h] u by (auto simp: unrelated_def)

lemma after_union: "after s h (items ns) = (\<Union>x \<in> set ns. after s h (items [x]))"
  unfolding items_union [of ns] by blast

lemma any_ancestor_ok:
  assumes o: "ok s" and h: "hash \<in> known s" "number = num_of s hash"
  shows "\<forall>r \<in> set rs. node_ok (is_desc s) (num_of s) (known s) r \<Longrightarrow>
    any_ancestor (is_desc s) hash number rs = Inr (\<exists>r \<in> set rs. below s (node_hash r) hash)"
proof (induction rs)
  case (Cons r rs)
  have k: "node_hash r \<in> known s" "node_number r = num_of s (node_hash r)"
    using Cons.prems by (simp_all add: node_ok_iff [of _ _ _ r])
  have "(if node_number r < number then is_desc s (node_hash r) hash else Inr False) = Inr (below s (node_hash r) hash)"
    using answer [OF o k(1) h(1)] higher [OF o k(1) h(1)] k(2) h(2) by auto
  with Cons show ?case by (auto split: bool.split)
qed simp

lemma finalize_root_case:
  assumes o: "ok s" and t: "tree_ok s (roots t)" and i: "i < length (roots t)"
  shows "tree_ok s (roots (snd (finalize_root_at i t)))"
    and "items (roots (snd (finalize_root_at i t))) = after s (node_hash (roots t ! i)) (items (roots t))"
    and "best_finalized_number (snd (finalize_root_at i t)) = Some (num_of s (node_hash (roots t ! i)))"
proof -
  let ?r = "roots t ! i"
  have r: "node_ok (is_desc s) (num_of s) (known s) ?r" using t i by (simp add: forest_ok_def)
  show "tree_ok s (roots (snd (finalize_root_at i t)))"
    "best_finalized_number (snd (finalize_root_at i t)) = Some (num_of s (node_hash ?r))"
    using r by (simp_all add: finalize_root_at_def Let_def node_ok_iff [of _ _ _ ?r])
  have "after s (node_hash ?r) (items [x]) = (if x = ?r then items (node_children ?r) else {})" if "x \<in> set (roots t)" for x
  proof (cases "x = ?r")
    case True
    then show ?thesis using after_self [OF o r] by simp
  next
    case False
    then have "node_hash x \<noteq> node_hash ?r"
      using t that i by (auto simp: forest_ok_def forks_iff distinct_map inj_on_def)
    then have "unrelated (is_desc s) (node_hash ?r) (node_hash x)"
      using t that i by (auto simp: forest_ok_def forks_iff)
    moreover have "node_ok (is_desc s) (num_of s) (known s) x" using t that by (simp add: forest_ok_def)
    ultimately show ?thesis using after_other_root [OF o _ node_okD [OF r]] False by simp
  qed
  then show "items (roots (snd (finalize_root_at i t))) = after s (node_hash ?r) (items (roots t))"
    using i unfolding after_union [where s = s and ns = "roots t"] by (auto simp: finalize_root_at_def Let_def)
qed

lemma below_any_root:
  assumes o: "ok s" and t: "tree_ok s ns" and r: "r \<in> set ns" and x: "x \<in> set ns" and b: "below s (node_hash x) (node_hash r)"
  shows False
proof -
  have k: "node_hash r \<in> known s" "node_hash x \<in> known s" using t r x by (auto simp: forest_ok_def dest: node_okD)
  have "node_hash x \<noteq> node_hash r" using irreflexive [OF o k(1)] b by metis
  then have "unrelated (is_desc s) (node_hash x) (node_hash r)" using t r x by (simp add: forest_ok_def forks_iff)
  then show False using b by (simp add: unrelated_def)
qed

lemma finalize_ok:
  assumes o: "ok s" and t: "tree_ok s (roots t)" and h: "hash \<in> known s" "number = num_of s hash"
    and v: "\<not> reverts number t"
  shows "if \<exists>r \<in> set (roots t). below s (node_hash r) hash
    then finalize (is_desc s) hash number t = (Inl UnfinalizedAncestor, t)
    else \<exists>res t'. finalize (is_desc s) hash number t = (Inr res, t') \<and> tree_ok s (roots t')
      \<and> items (roots t') = after s hash (items (roots t)) \<and> best_finalized_number t' = Some number"
proof (cases "finalize_root hash t")
  case (Some f)
  then obtain i where p: "position_of (\<lambda>x. node_hash x = hash) (roots t) = Some i" and f: "f = finalize_root_at i t"
    by (auto simp: finalize_root_def)
  note i = position_of_Some [OF p]
  have "\<not> (\<exists>r \<in> set (roots t). below s (node_hash r) hash)" using below_any_root [OF o t nth_mem [OF i(1)]] i(2) by metis
  moreover have "finalize (is_desc s) hash number t = (Inr (Changed (Some (fst f))), snd f)"
    using v Some by (simp add: finalize_def split: prod.split)
  ultimately show ?thesis
    using finalize_root_case [OF o t i(1)] i(2) by (simp add: f h(2) del: split_paired_Ex)
next
  case None
  then have neq: "\<forall>r \<in> set (roots t). node_hash r \<noteq> hash" by (simp add: finalize_root_def position_of_None)
  have nok: "\<forall>r \<in> set (roots t). node_ok (is_desc s) (num_of s) (known s) r" using t by (simp add: forest_ok_def)
  note anc = any_ancestor_ok [OF o h nok]
  show ?thesis
  proof (cases "\<exists>r \<in> set (roots t). below s (node_hash r) hash")
    case True
    then show ?thesis using v None anc by (simp add: finalize_def)
  next
    case False
    let ?keep = "\<lambda>r. below s hash (node_hash r)"
    have keep: "keep_roots (\<lambda>r. if number < node_number r then is_desc s hash (node_hash r) else Inr False) (roots t)
        = Inr (filter ?keep (roots t))"
    proof (rule keep_roots_filter)
      fix r assume "r \<in> set (roots t)"
      then have "node_ok (is_desc s) (num_of s) (known s) r" using nok by blast
      then have k: "node_hash r \<in> known s" "node_number r = num_of s (node_hash r)"
        by (simp_all add: node_ok_iff [of _ _ _ r])
      show "(if number < node_number r then is_desc s hash (node_hash r) else Inr False) = Inr (?keep r)"
        using answer [OF o h(1) k(1)] higher [OF o h(1) k(1)] k(2) h(2) by auto
    qed
    have "items (filter ?keep (roots t)) = after s hash (items (roots t))"
      unfolding items_filter after_union [where s = s and h = hash and ns = "roots t"]
    proof (rule SUP_cong [OF refl])
      fix r assume r: "r \<in> set (roots t)"
      have nr: "node_ok (is_desc s) (num_of s) (known s) r" using nok r by blast
      have "hash \<noteq> node_hash r" "\<not> below s (node_hash r) hash" using neq False r by auto
      from after_root [OF o nr h(1) this]
      show "(if below s hash (node_hash r) then items [r] else {}) = after s hash (items [r])" by (rule sym)
    qed
    moreover have "tree_ok s (filter ?keep (roots t))" using t by (rule forest_ok_filter)
    ultimately show ?thesis using v None anc False keep by (simp add: finalize_def)
  qed
qed

lemma root_kind_ok:
  assumes o: "ok s" and h: "hash \<in> known s" "number = num_of s hash"
    and r: "node_ok (is_desc s) (num_of s) (known s) r"
  shows "root_kind_of (is_desc s) hash number r = Inr
    (if node_hash r = hash then Finalized else if below s hash (node_hash r) then Descendant
     else if below s (node_hash r) hash then Ancestor else Other)"
proof -
  have k: "node_hash r \<in> known s" "node_number r = num_of s (node_hash r)" using r by (simp_all add: node_ok_iff [of _ _ _ r])
  have "(if number < node_number r then is_desc s hash (node_hash r) else Inr False) = Inr (below s hash (node_hash r))"
    "(if node_number r < number then is_desc s (node_hash r) hash else Inr False) = Inr (below s (node_hash r) hash)"
    using answer [OF o h(1) k(1)] higher [OF o h(1) k(1)] answer [OF o k(1) h(1)] higher [OF o k(1) h(1)] k(2) h(2) by auto
  then show ?thesis by (simp add: root_kind_of_def split: bool.split)
qed

lemma open_root:
  assumes o: "ok s" and t: "tree_ok s ns" and i: "i < length ns"
  shows "tree_ok s (swap_remove i ns @ node_children (ns ! i))"
proof -
  note f = forest_ok_remove [OF t i]
  have ch: "tree_ok s (node_children (ns ! i))" using f(2) by (simp add: node_ok_iff [of _ _ _ "ns ! i"])
  have "unrelated (is_desc s) (node_hash y) (node_hash c)"
    if y: "y \<in> set (swap_remove i ns)" and c: "c \<in> set (node_children (ns ! i))" for y c
  proof -
    have ny: "node_ok (is_desc s) (num_of s) (known s) y" using f(1) y by (simp add: forest_ok_def)
    have nc: "node_ok (is_desc s) (num_of s) (known s) c" "below s (node_hash (ns ! i)) (node_hash c)"
      using f(2) c by (simp_all add: node_ok_iff [of _ _ _ "ns ! i"] forest_ok_def)
    have u: "unrelated (is_desc s) (node_hash (ns ! i)) (node_hash y)" using f(3) y by blast
    note k = node_okD [OF f(2)] node_okD [OF ny] node_okD [OF nc(1)]
    have "\<not> below s (node_hash y) (node_hash c)" "node_hash y \<noteq> node_hash c"
      using siblings_apart [OF o u k] nc(2) by auto
    moreover have "\<not> below s (node_hash c) (node_hash y)"
      using transitive [OF o k(1) k(3) k(2) nc(2)] u by (auto simp: unrelated_def)
    ultimately show ?thesis by (simp add: unrelated_def)
  qed
  then show ?thesis using f(1) ch by (auto simp: forest_ok_def forks_def sorted_wrt_append)
qed

lemma after_opened:
  assumes o: "ok s" and t: "tree_ok s ns" and i: "i < length ns" and h: "h \<in> known s"
    and b: "below s (node_hash (ns ! i)) h"
  shows "after s h (items (swap_remove i ns @ node_children (ns ! i))) = after s h (items ns)"
proof -
  have "\<not> below s h (fst (item_of (ns ! i)))"
    using asymmetric [OF o node_okD [OF forest_ok_remove(2) [OF t i]] h b] by (simp add: item_of_def)
  then show ?thesis unfolding items_remove [OF i] items_node [of "ns ! i"] by auto
qed

lemma after_removed:
  assumes o: "ok s" and t: "tree_ok s ns" and i: "i < length ns" and h: "h \<in> known s"
    and u: "unrelated (is_desc s) h (node_hash (ns ! i))"
  shows "after s h (items (swap_remove i ns)) = after s h (items ns)"
  using after_other_root [OF o forest_ok_remove(2) [OF t i] h u] unfolding items_remove [OF i] by blast

lemma after_all:
  assumes o: "ok s" and t: "tree_ok s ns" and h: "h \<in> known s" and a: "\<forall>r \<in> set ns. below s h (node_hash r)"
  shows "after s h (items ns) = items ns"
proof -
  have "after s h (items [r]) = items [r]" if r: "r \<in> set ns" for r
  proof -
    have nr: "node_ok (is_desc s) (num_of s) (known s) r" and b: "below s h (node_hash r)"
      using t a r by (simp_all add: forest_ok_def)
    have "h \<noteq> node_hash r" using irreflexive [OF o h] b by metis
    then show ?thesis using after_root [OF o nr h] b asymmetric [OF o h node_okD [OF nr] b] by simp
  qed
  then show ?thesis unfolding after_union [where s = s and ns = ns and h = h] by (subst (2) items_union) simp
qed

definition finalizes where
  "finalizes s hash number I res = (\<exists>r t'. res = (Inr r, t') \<and> tree_ok s (roots t')
     \<and> items (roots t') = after s hash I \<and> best_finalized_number t' = Some number)"

lemma open_ancestors_ok:
  assumes o: "ok s"
  shows "hash \<in> known s \<Longrightarrow> number = num_of s hash \<Longrightarrow> tree_ok s (roots t)
    \<Longrightarrow> \<forall>r \<in> set (take idx (roots t)). below s hash (node_hash r) \<Longrightarrow>
    finalizes s hash number (items (roots t)) (open_ancestors (is_desc s) hash number changed idx t)"
proof (induction "is_desc s" hash number changed idx t rule: open_ancestors.induct)
  case (1 hash number changed idx t)
  note h = "1.prems"(1,2) and t = "1.prems"(3) and a = "1.prems"(4)
  show ?case
  proof (cases "idx < length (roots t)")
    case False
    then have "after s hash (items (roots t)) = items (roots t)" using after_all [OF o t h(1)] a by simp
    then show ?thesis using False t by (simp add: open_ancestors.simps [of _ _ _ _ idx] finalizes_def)
  next
    case i: True
    let ?r = "roots t ! idx"
    note r = forest_ok_remove(2) [OF t i] and kind = root_kind_ok [OF o h forest_ok_remove(2) [OF t i]]
    have tk: "take idx (swap_remove idx (roots t) @ cs) = take idx (roots t)" for cs
      using i by (simp add: swap_remove_split)
    note unf = open_ancestors.simps [of "is_desc s" hash number changed idx t]
    consider (fin) "node_hash ?r = hash" "root_kind_of (is_desc s) hash number ?r = Inr Finalized"
      | (desc) "below s hash (node_hash ?r)" "root_kind_of (is_desc s) hash number ?r = Inr Descendant"
      | (anc) "below s (node_hash ?r) hash" "root_kind_of (is_desc s) hash number ?r = Inr Ancestor"
      | (other) "unrelated (is_desc s) hash (node_hash ?r)" "root_kind_of (is_desc s) hash number ?r = Inr Other"
      unfolding unrelated_def kind
      by (cases "node_hash ?r = hash"; cases "below s hash (node_hash ?r)"; cases "below s (node_hash ?r) hash") auto
    then show ?thesis
    proof cases
      case fin
      then show ?thesis unfolding unf finalizes_def
        using i finalize_root_case [OF o t i] h(2) by (simp add: split_beta del: split_paired_Ex)
    next
      case desc
      have "\<forall>r \<in> set (take (Suc idx) (roots t)). below s hash (node_hash r)"
        using a desc(1) i by (simp add: take_Suc_conv_app_nth)
      from "1.hyps"(1) [OF i desc(2) refl h t this] show ?thesis unfolding unf using i desc(2) by simp
    next
      case anc
      have "finalizes s hash number (items (swap_remove idx (roots t) @ node_children ?r))
          (open_ancestors (is_desc s) hash number True idx (t\<lparr>roots := swap_remove idx (roots t) @ node_children ?r\<rparr>))"
        using "1.hyps"(2) [OF i anc(2) refl h] open_root [OF o t i] a tk by (simp del: take_append)
      then show ?thesis unfolding unf finalizes_def using i anc(2) after_opened [OF o t i h(1) anc(1)] by simp
    next
      case other
      have "finalizes s hash number (items (swap_remove idx (roots t)))
          (open_ancestors (is_desc s) hash number True idx (t\<lparr>roots := swap_remove idx (roots t)\<rparr>))"
        using "1.hyps"(3) [OF i other(2) refl h] forest_ok_remove(1) [OF t i] a tk [of "[]"] by simp
      then show ?thesis unfolding unf finalizes_def using i other(2) after_removed [OF o t i h(1) other(1)] by simp
    qed
  qed
qed

lemma finalize_with_ancestors_ok:
  assumes o: "ok s" and t: "tree_ok s (roots t)" and h: "hash \<in> known s" "number = num_of s hash"
    and v: "\<not> reverts number t"
  shows "finalizes s hash number (items (roots t)) (finalize_with_ancestors (is_desc s) hash number t)"
proof (cases "finalize_root hash t")
  case (Some f)
  then obtain i where p: "position_of (\<lambda>x. node_hash x = hash) (roots t) = Some i" and f: "f = finalize_root_at i t"
    by (auto simp: finalize_root_def)
  note i = position_of_Some [OF p]
  show ?thesis using finalize_root_case [OF o t i(1)] i(2) v Some
    by (simp add: f h(2) finalizes_def finalize_with_ancestors_def split_beta del: split_paired_Ex)
next
  case None
  then show ?thesis using open_ancestors_ok [OF o h t, of 0] v by (simp add: finalize_with_ancestors_def)
qed

lemma import_ok:
  assumes o: "ok s" and t: "tree_ok s (roots t)" and h: "hash \<in> known s" "number = num_of s hash"
    and v: "\<not> reverts number t" and ord: "\<forall>y \<in> hashes_in (roots t). \<not> below s hash y"
  shows "if hash \<in> hashes_in (roots t) then import (is_desc s) hash number data t = (Inl Duplicate, t)
    else \<exists>t'. import (is_desc s) hash number data t = (Inr (\<not> (\<exists>r \<in> set (roots t). below s (node_hash r) hash)), t')
      \<and> tree_ok s (roots t') \<and> items (roots t') = insert (hash, number, data) (items (roots t))
      \<and> best_finalized_number t' = best_finalized_number t"
proof -
  note spec = roots_import_ok [OF o h t ord, of data, unfolded import_spec_def]
  consider (dup) "hash \<in> hashes_in (roots t)" | (child) "hash \<notin> hashes_in (roots t)" "\<exists>r \<in> set (roots t). below s (node_hash r) hash"
    | (new) "hash \<notin> hashes_in (roots t)" "\<not> (\<exists>r \<in> set (roots t). below s (node_hash r) hash)" by blast
  then show ?thesis
  proof cases
    case dup
    then show ?thesis using spec v by (simp add: import_def)
  next
    case child
    then obtain rs where "roots_import (is_desc s) hash number data (roots t) = Inr (Imported rs)"
      "tree_ok s rs" "items rs = insert (hash, number, data) (items (roots t))"
      using spec by (simp only: if_True if_False) blast
    then show ?thesis using child v by (simp add: import_def rebalance_ok)
  next
    case new
    have "tree_ok s (roots t @ [Node hash number data []])"
      unfolding forest_ok_snoc using t new h ord hashes_in_mem by (auto simp: unrelated_def forks_def)
    moreover have "items [Node hash number data []] = {(hash, number, data)}" by (simp add: items_node item_of_def)
    moreover have "roots_import (is_desc s) hash number data (roots t) = Inr (Rejected hash number data)"
      using spec new by (simp only: if_False)
    ultimately show ?thesis using new v by (simp add: import_def rebalance_ok)
  qed
qed

definition deepest where
  "deepest s P hash Z y = (y \<in> Z \<and> below s (node_hash y) hash \<and> P (node_data y)
     \<and> (\<forall>z \<in> Z. below s (node_hash z) hash \<and> P (node_data z) \<longrightarrow> z = y \<or> below s (node_hash z) (node_hash y)))"

definition node_finds where
  "node_finds s P hash number x =
     (case find_node_index_where (is_desc s) P hash number x of
        Inr (Found p) \<Rightarrow> \<exists>y. node_at (rev p) x = Some y \<and> deepest s P hash (set (subnodes x)) y
      | Inr (Failure b) \<Rightarrow> b = below s (node_hash x) hash
          \<and> (\<forall>z \<in> set (subnodes x). below s (node_hash z) hash \<longrightarrow> \<not> P (node_data z))
      | _ \<Rightarrow> False)"

definition children_finds where
  "children_finds s P hash number i cs =
     (case children_find (is_desc s) P hash number i cs of
        Inr (Found p) \<Rightarrow> \<exists>q j y. p = q @ [i + j] \<and> j < length cs \<and> node_at (rev q) (cs ! j) = Some y
          \<and> deepest s P hash (set (forest_nodes cs)) y
      | Inr (Failure b) \<Rightarrow> b = (\<exists>c \<in> set cs. below s (node_hash c) hash)
          \<and> (\<forall>z \<in> set (forest_nodes cs). below s (node_hash z) hash \<longrightarrow> \<not> P (node_data z))
      | _ \<Rightarrow> False)"

lemma ancestor_root:
  assumes o: "ok s" and x: "node_ok (is_desc s) (num_of s) (known s) x" and z: "z \<in> set (subnodes x)"
    and h: "hash \<in> known s" and b: "below s (node_hash z) hash"
  shows "below s (node_hash x) hash"
  using subtree [OF o x z] b transitive [OF o node_okD [OF x] _ h _ b] node_okD by metis

lemma other_branch:
  assumes o: "ok s" and t: "tree_ok s (c # cs)" and h: "hash \<in> known s" and c: "below s (node_hash c) hash"
    and z: "z \<in> set (forest_nodes cs)"
  shows "\<not> below s (node_hash z) hash"
proof
  assume b: "below s (node_hash z) hash"
  obtain d where d: "d \<in> set cs" "z \<in> set (subnodes d)" using z by (auto simp: forest_nodes_mem)
  have nd: "node_ok (is_desc s) (num_of s) (known s) d" using t d(1) by (auto simp: forest_ok_def)
  have nc: "node_ok (is_desc s) (num_of s) (known s) c" "unrelated (is_desc s) (node_hash c) (node_hash d)" using t d(1) by auto
  show False
    using siblings_apart [OF o nc(2) node_okD [OF nc(1)] node_okD [OF nd] h] c ancestor_root [OF o nd d(2) h b] by blast
qed

lemma children_find_ok:
  assumes o: "ok s" and h: "hash \<in> known s"
  shows "tree_ok s cs \<Longrightarrow> (\<And>c. c \<in> set cs \<Longrightarrow> node_finds s P hash number c) \<Longrightarrow> children_finds s P hash number i cs"
proof (induction cs arbitrary: i)
  case (Cons c cs)
  note t = Cons.prems(1)
  have nc: "node_ok (is_desc s) (num_of s) (known s) c" using t by simp
  have f: "node_finds s P hash number c" using Cons.prems(2) by simp
  note other = other_branch [OF o t h]
  have fn: "set (forest_nodes (c # cs)) = set (subnodes c) \<union> set (forest_nodes cs)" by (auto simp: forest_nodes_mem)
  consider (found) p where "find_node_index_where (is_desc s) P hash number c = Inr (Found p)"
    | (yes) "find_node_index_where (is_desc s) P hash number c = Inr (Failure True)"
    | (no) "find_node_index_where (is_desc s) P hash number c = Inr (Failure False)"
    using f by (auto simp: node_finds_def split: sum.splits find_outcome.splits)
  then show ?case
  proof cases
    case found
    then obtain y where y: "node_at (rev p) c = Some y" "deepest s P hash (set (subnodes c)) y"
      using f by (auto simp: node_finds_def)
    have "below s (node_hash c) hash" using y(2) ancestor_root [OF o nc _ h] by (auto simp: deepest_def)
    then have "deepest s P hash (set (forest_nodes (c # cs))) y"
      using y(2) other unfolding deepest_def fn by blast
    then show ?thesis using y(1) found by (auto simp: children_finds_def intro!: exI [of _ 0])
  next
    case yes
    then have "below s (node_hash c) hash" "\<forall>z \<in> set (subnodes c). below s (node_hash z) hash \<longrightarrow> \<not> P (node_data z)"
      using f by (auto simp: node_finds_def)
    then show ?thesis using yes other unfolding children_finds_def fn by auto
  next
    case no
    then have n: "\<not> below s (node_hash c) hash" "\<forall>z \<in> set (subnodes c). \<not> below s (node_hash z) hash"
      using f ancestor_root [OF o nc _ h] by (auto simp: node_finds_def)
    have "children_finds s P hash number (Suc i) cs" using Cons by auto
    then show ?thesis unfolding children_finds_def deepest_def fn using no n
      by (auto split: sum.splits find_outcome.splits; metis add_Suc_right length_Cons Suc_less_eq nth_Cons_Suc)
  qed
qed (simp add: children_finds_def forest_nodes_def)

lemma node_find_step:
  assumes o: "ok s" and h: "hash \<in> known s" "number = num_of s hash"
    and x: "node_ok (is_desc s) (num_of s) (known s) x"
    and c: "children_finds s P hash number 0 (node_children x)"
  shows "node_finds s P hash number x"
proof -
  obtain hx n d cs where xx: "x = Node hx n d cs" by (cases x)
  have k: "hx \<in> known s" "n = num_of s hx" using x by (simp_all add: xx)
  have a: "is_desc s hx hash = Inr (below s hx hash)" by (rule answer [OF o k(1) h(1)])
  have sub: "set (subnodes x) = insert x (set (forest_nodes cs))" by (auto simp: xx forest_nodes_mem)
  have up: "below s hx (node_hash z)" if "z \<in> set (forest_nodes cs)" for z
  proof -
    obtain c where z: "c \<in> set cs" "z \<in> set (subnodes c)" using \<open>z \<in> _\<close> by (auto simp: forest_nodes_mem)
    have nc: "node_ok (is_desc s) (num_of s) (known s) c" "below s hx (node_hash c)" using x z(1) by (auto simp: xx)
    from subtree [OF o nc(1) z(2)] show ?thesis
      using nc(2) transitive [OF o k(1) node_okD [OF nc(1)] node_okD [of _ _ _ z] nc(2)] by blast
  qed
  have anc: "below s hx hash" if "z \<in> set (subnodes x)" "below s (node_hash z) hash" for z
    using ancestor_root [OF o x that(1) h(1) that(2)] by (simp add: xx)
  show ?thesis
  proof (cases "number < n")
    case True
    then have "\<not> below s hx hash" using higher [OF o k(1) h(1)] k(2) h(2) by auto
    then show ?thesis using True anc by (auto simp: node_finds_def xx)
  next
    case nlt: False
    consider (found) p where "children_find (is_desc s) P hash number 0 cs = Inr (Found p)"
      | (fail) b where "children_find (is_desc s) P hash number 0 cs = Inr (Failure b)"
      using c by (auto simp: children_finds_def xx split: sum.splits find_outcome.splits)
    then show ?thesis
    proof cases
      case found
      then obtain q j y where y: "p = q @ [j]" "j < length cs" "node_at (rev q) (cs ! j) = Some y"
        "deepest s P hash (set (forest_nodes cs)) y"
        using c by (auto simp: children_finds_def xx)
      have "deepest s P hash (set (subnodes x)) y" using y(4) up unfolding deepest_def sub by (auto simp: xx)
      then show ?thesis using found nlt y(1-3) by (simp add: node_finds_def xx)
    next
      case fail
      then have n: "\<forall>z \<in> set (forest_nodes cs). below s (node_hash z) hash \<longrightarrow> \<not> P (node_data z)"
        and b: "b = (\<exists>c \<in> set cs. below s (node_hash c) hash)" using c by (auto simp: children_finds_def xx)
      have "below s hx hash" if bb: b
      proof -
        obtain c where "c \<in> set cs" "below s (node_hash c) hash" using bb b by blast
        moreover from this(1) have "c \<in> set (forest_nodes cs)" by (rule root_node)
        ultimately show ?thesis using anc [of c] by (simp add: sub)
      qed
      then have t: "(if b then Inr True else is_desc s hx hash) = Inr (below s hx hash)" using a by simp
      have "deepest s P hash (set (subnodes x)) x" if "below s hx hash" "P d"
        unfolding deepest_def sub using that n by (auto simp: xx)
      moreover have "\<forall>z \<in> set (subnodes x). below s (node_hash z) hash \<longrightarrow> \<not> P (node_data z)" if "\<not> (below s hx hash \<and> P d)"
        unfolding sub using that n by (auto simp: xx)
      ultimately show ?thesis using fail nlt t by (simp add: node_finds_def xx)
    qed
  qed
qed

lemma node_find_ok:
  assumes o: "ok s" and h: "hash \<in> known s" "number = num_of s hash"
  shows "node_ok (is_desc s) (num_of s) (known s) x \<Longrightarrow> node_finds s P hash number x"
proof (induction x rule: node.induct)
  case (Node hx n d cs)
  have "children_finds s P hash number 0 cs"
    by (rule children_find_ok [OF o h(1)]) (use Node in \<open>auto simp: forest_ok_def\<close>)
  then show ?case using node_find_step [OF o h Node.prems] by simp
qed

lemma roots_find_ok:
  assumes o: "ok s" and h: "hash \<in> known s" "number = num_of s hash"
  shows "tree_ok s ns \<Longrightarrow> \<exists>found. roots_find_where (is_desc s) P hash number ns = Some (Inr found)
    \<and> (case found of
         Some y \<Rightarrow> deepest s P hash (set (forest_nodes ns)) y
       | None \<Rightarrow> \<forall>z \<in> set (forest_nodes ns). below s (node_hash z) hash \<longrightarrow> \<not> P (node_data z))"
proof (induction ns)
  case (Cons c cs)
  have nc: "node_ok (is_desc s) (num_of s) (known s) c" using Cons.prems by simp
  note f = node_find_ok [OF o h nc, of P]
  have fn: "set (forest_nodes (c # cs)) = set (subnodes c) \<union> set (forest_nodes cs)" by (auto simp: forest_nodes_mem)
  consider (found) p where "find_node_index_where (is_desc s) P hash number c = Inr (Found p)"
    | (fail) b where "find_node_index_where (is_desc s) P hash number c = Inr (Failure b)"
    using f by (auto simp: node_finds_def split: sum.splits find_outcome.splits)
  then show ?case
  proof cases
    case found
    then obtain y where y: "node_at (rev p) c = Some y" "deepest s P hash (set (subnodes c)) y"
      using f by (auto simp: node_finds_def)
    have "below s (node_hash c) hash" using y(2) ancestor_root [OF o nc _ h(1)] by (auto simp: deepest_def)
    then have "deepest s P hash (set (forest_nodes (c # cs))) y"
      using y(2) other_branch [OF o Cons.prems h(1)] unfolding deepest_def fn by blast
    then show ?thesis using y(1) found by (simp add: node_find_where_def)
  next
    case fail
    then have n: "\<forall>z \<in> set (subnodes c). below s (node_hash z) hash \<longrightarrow> \<not> P (node_data z)" using f by (simp add: node_finds_def)
    obtain r where r: "roots_find_where (is_desc s) P hash number cs = Some (Inr r)" "case r of
         Some y \<Rightarrow> deepest s P hash (set (forest_nodes cs)) y
       | None \<Rightarrow> \<forall>z \<in> set (forest_nodes cs). below s (node_hash z) hash \<longrightarrow> \<not> P (node_data z)"
      using Cons by auto
    have "case r of Some y \<Rightarrow> deepest s P hash (set (forest_nodes (c # cs))) y
       | None \<Rightarrow> \<forall>z \<in> set (forest_nodes (c # cs)). below s (node_hash z) hash \<longrightarrow> \<not> P (node_data z)"
      using r(2) n unfolding deepest_def fn by (auto split: option.splits)
    then show ?thesis using r(1) fail by (simp add: node_find_where_def)
  qed
qed (simp add: forest_nodes_def)

end

end
