(* ===== verification/Header_Metadata.thy ===== *)
theory Header_Metadata
  imports Rust_Collections
begin

text \<open>
  Walking the tree of headers (\<open>primitives/blockchain/src/header_metadata.rs\<close>) and the ancestry
  test built on it (\<open>client/api/src/lib.rs\<close>).  The trait \<open>HeaderMetadata\<close> is the pair of
  operations \<open>metadata\<close>, \<open>insert_metadata\<close> on a backend state; the interface
  \<open>header_backend\<close> states what the walks rely on.  A walk over parent links need not end on an
  arbitrary backend, so the loops are partial; they are shown to end on every valid one.  Block
  numbers are only compared here and are natural numbers.
\<close>

section \<open>Metadata\<close>

record 'h cached_header_metadata =
  meta_hash :: 'h
  meta_number :: nat
  meta_parent :: 'h
  meta_state_root :: 'h
  meta_ancestor :: 'h

record 'h hash_and_number =
  hn_number :: nat
  hn_hash :: 'h

type_synonym ('h, 'e, 's) metadata_op = "'h \<Rightarrow> 's \<Rightarrow> ('e + 'h cached_header_metadata) \<times> 's"
type_synonym ('h, 's) insert_op = "'h \<Rightarrow> 'h cached_header_metadata \<Rightarrow> 's \<Rightarrow> 's"

text \<open>\<open>?\<close> on a computation that may not return.\<close>

fun try_run ::
    "(('e + 'a) \<times> 's) option \<Rightarrow> ('a \<Rightarrow> 's \<Rightarrow> (('e + 'b) \<times> 's) option) \<Rightarrow> (('e + 'b) \<times> 's) option" where
  "try_run None k = None"
| "try_run (Some (Inl e, s)) k = Some (Inl e, s)"
| "try_run (Some (Inr a, s)) k = k a s"

definition hash_number_of :: "'h cached_header_metadata \<Rightarrow> 'h hash_and_number" where
  "hash_number_of m = \<lparr>hn_number = meta_number m, hn_hash = meta_hash m\<rparr>"

section \<open>Lowest common ancestor\<close>

text \<open>The two loops over ancestor links: they differ only in which header moves.\<close>

partial_function (option) lca_skip ::
    "('h, 'e, 's) metadata_op \<Rightarrow> 'h cached_header_metadata \<Rightarrow> nat \<Rightarrow> 's
      \<Rightarrow> (('e + 'h cached_header_metadata) \<times> 's) option" where
  "lca_skip metadata one number s =
     (if number < meta_number one then
        (case metadata (meta_ancestor one) s of
           (Inl e, s') \<Rightarrow> Some (Inl e, s')
         | (Inr ancestor, s') \<Rightarrow>
             (if number \<le> meta_number ancestor then lca_skip metadata ancestor number s'
              else Some (Inr one, s')))
      else Some (Inr one, s))"

partial_function (option) lca_walk ::
    "('h, 'e, 's) metadata_op \<Rightarrow> 'h cached_header_metadata \<Rightarrow> 'h cached_header_metadata \<Rightarrow> 's
      \<Rightarrow> (('e + 'h cached_header_metadata) \<times> 's) option" where
  "lca_walk metadata one two s =
     (if meta_hash one = meta_hash two then Some (Inr one, s)
      else if meta_number two < meta_number one then
        (case metadata (meta_parent one) s of
           (Inl e, s') \<Rightarrow> Some (Inl e, s')
         | (Inr one', s') \<Rightarrow> lca_walk metadata one' two s')
      else
        (case metadata (meta_parent two) s of
           (Inl e, s') \<Rightarrow> Some (Inl e, s')
         | (Inr two', s') \<Rightarrow> lca_walk metadata one two' s'))"

text \<open>Updating a cached ancestor link.\<close>

definition update_link ::
    "('h, 's) insert_op \<Rightarrow> 'h cached_header_metadata \<Rightarrow> 'h cached_header_metadata \<Rightarrow> 's \<Rightarrow> 's" where
  "update_link insert_metadata orig lca s =
     (if meta_number lca < meta_number orig
      then insert_metadata (meta_hash orig) (orig\<lparr>meta_ancestor := meta_hash lca\<rparr>) s
      else s)"

definition lowest_common_ancestor ::
    "('h, 'e, 's) metadata_op \<Rightarrow> ('h, 's) insert_op \<Rightarrow> 'h \<Rightarrow> 'h \<Rightarrow> 's
      \<Rightarrow> (('e + 'h hash_and_number) \<times> 's) option" where
  "lowest_common_ancestor metadata insert_metadata id_one id_two s =
     try_run (Some (metadata id_one s)) (\<lambda>orig_one s.
     try_run (Some (metadata id_two s)) (\<lambda>orig_two s.
     try_run (lca_skip metadata orig_one (meta_number orig_two) s) (\<lambda>one s.
     try_run (lca_skip metadata orig_two (meta_number one) s) (\<lambda>two s.
     try_run (lca_walk metadata one two s) (\<lambda>lca s.
       Some (Inr (hash_number_of lca),
         update_link insert_metadata orig_two lca (update_link insert_metadata orig_one lca s)))))))"

section \<open>Tree routes\<close>

record 'h tree_route =
  route :: "'h hash_and_number list"
  pivot :: nat

partial_function (option) route_up ::
    "('h, 'e, 's) metadata_op \<Rightarrow> 'h cached_header_metadata \<Rightarrow> nat \<Rightarrow> 'h hash_and_number list \<Rightarrow> 's
      \<Rightarrow> (('e + 'h cached_header_metadata \<times> 'h hash_and_number list) \<times> 's) option" where
  "route_up metadata m number branch s =
     (if number < meta_number m then
        (case metadata (meta_parent m) s of
           (Inl e, s') \<Rightarrow> Some (Inl e, s')
         | (Inr m', s') \<Rightarrow> route_up metadata m' number (branch @ [hash_number_of m]) s')
      else Some (Inr (m, branch), s))"

partial_function (option) route_meet ::
    "('h, 'e, 's) metadata_op \<Rightarrow> 'h cached_header_metadata \<Rightarrow> 'h cached_header_metadata
      \<Rightarrow> 'h hash_and_number list \<Rightarrow> 'h hash_and_number list \<Rightarrow> 's
      \<Rightarrow> (('e + 'h cached_header_metadata \<times> 'h hash_and_number list \<times> 'h hash_and_number list) \<times> 's) option"
  where
  "route_meet metadata to from to_branch from_branch s =
     (if meta_hash to = meta_hash from then Some (Inr (to, to_branch, from_branch), s)
      else
        (case metadata (meta_parent to) s of
           (Inl e, s') \<Rightarrow> Some (Inl e, s')
         | (Inr to', s') \<Rightarrow>
             (case metadata (meta_parent from) s' of
                (Inl e, s'') \<Rightarrow> Some (Inl e, s'')
              | (Inr from', s'') \<Rightarrow>
                  route_meet metadata to' from' (to_branch @ [hash_number_of to])
                    (from_branch @ [hash_number_of from]) s'')))"

definition compute_tree_route ::
    "('h, 'e, 's) metadata_op \<Rightarrow> 'h \<Rightarrow> 'h \<Rightarrow> 's \<Rightarrow> (('e + 'h tree_route) \<times> 's) option" where
  "compute_tree_route metadata from to s =
     try_run (Some (metadata from s)) (\<lambda>from s.
     try_run (Some (metadata to s)) (\<lambda>to s.
     try_run (route_up metadata to (meta_number from) [] s) (\<lambda>(to, to_branch) s.
     try_run (route_up metadata from (meta_number to) [] s) (\<lambda>(from, from_branch) s.
     try_run (route_meet metadata to from to_branch from_branch s) (\<lambda>(to, to_branch, from_branch) s.
       Some (Inr \<lparr>route = from_branch @ [hash_number_of to] @ rev to_branch, pivot = length from_branch\<rparr>, s))))))"

text \<open>Slicing panics outside the vector.\<close>

definition retracted :: "'h tree_route \<Rightarrow> 'h hash_and_number list option" where
  "retracted r = (if pivot r \<le> length (route r) then Some (take (pivot r) (route r)) else None)"

definition into_retracted :: "'h tree_route \<Rightarrow> 'h hash_and_number list" where
  "into_retracted r = take (pivot r) (route r)"

definition common_block :: "'h tree_route \<Rightarrow> 'h hash_and_number option" where
  "common_block r = (if pivot r < length (route r) then Some (route r ! pivot r) else None)"

definition enacted :: "'h tree_route \<Rightarrow> 'h hash_and_number list option" where
  "enacted r = (if pivot r + 1 \<le> length (route r) then Some (drop (pivot r + 1) (route r)) else None)"

section \<open>The ancestry test\<close>

definition is_descendent_of ::
    "('h, 'e, 's) metadata_op \<Rightarrow> ('h, 's) insert_op \<Rightarrow> ('h \<times> 'h) option \<Rightarrow> 'h \<Rightarrow> 'h \<Rightarrow> 's
      \<Rightarrow> (('e + bool) \<times> 's) option" where
  "is_descendent_of metadata insert_metadata current base hash s =
     (if base = hash then Some (Inr False, s)
      else
        let search = (\<lambda>hash. try_run (lowest_common_ancestor metadata insert_metadata hash base s)
              (\<lambda>ancestor s. Some (Inr (hn_hash ancestor = base), s)))
        in case current of
             None \<Rightarrow> search hash
           | Some (current_hash, current_parent_hash) \<Rightarrow>
               (if base = current_hash then Some (Inr False, s)
                else if hash = current_hash then
                  (if base = current_parent_hash then Some (Inr True, s) else search current_parent_hash)
                else search hash))"

section \<open>Trees of headers\<close>

text \<open>
  What a backend knows: for each hash the number and the parent of its header.  It is valid when there
  is one block with number zero and the parent of every other block is known, one number below.
\<close>

type_synonym 'h header_table = "'h \<rightharpoonup> nat \<times> 'h"

definition valid_chain :: "'h header_table \<Rightarrow> bool" where
  "valid_chain c = (\<forall>h n p. c h = Some (n, p) \<longrightarrow>
     (if n = 0 then \<forall>h' p'. c h' = Some (0, p') \<longrightarrow> h' = h else \<exists>q. c p = Some (n - 1, q)))"

definition num :: "'h header_table \<Rightarrow> 'h \<Rightarrow> nat" where
  "num c h = fst (the (c h))"

text \<open>\<open>anc c a h\<close>: the block \<open>a\<close> is \<open>h\<close> or one of its ancestors.\<close>

inductive anc :: "'h header_table \<Rightarrow> 'h \<Rightarrow> 'h \<Rightarrow> bool" for c where
  anc_self: "c h = Some (n, p) \<Longrightarrow> anc c h h"
| anc_parent: "c h = Some (Suc n, p) \<Longrightarrow> anc c a p \<Longrightarrow> anc c a h"

inductive_cases ancE: "anc c a h"

definition is_lca :: "'h header_table \<Rightarrow> 'h \<Rightarrow> 'h \<Rightarrow> 'h \<Rightarrow> bool" where
  "is_lca c a b l = (anc c l a \<and> anc c l b \<and> (\<forall>x. anc c x a \<longrightarrow> anc c x b \<longrightarrow> anc c x l))"

text \<open>The blocks from \<open>a\<close> down to, and without, its ancestor \<open>l\<close>.\<close>

fun walks :: "'h header_table \<Rightarrow> 'h \<Rightarrow> 'h list \<Rightarrow> 'h \<Rightarrow> bool" where
  "walks c a [] l = (a = l)"
| "walks c a (x # xs) l = (x = a \<and> (\<exists>n p. c a = Some (Suc n, p) \<and> walks c p xs l))"

lemma num_simp: "c h = Some (n, p) \<Longrightarrow> num c h = n"
  by (simp add: num_def)

lemma anc_known: "anc c a h \<Longrightarrow> (\<exists>n p. c a = Some (n, p)) \<and> (\<exists>n p. c h = Some (n, p))"
  by (induction rule: anc.induct) auto

lemma valid_parent: "valid_chain c \<Longrightarrow> c h = Some (Suc n, p) \<Longrightarrow> \<exists>q. c p = Some (n, q)"
  unfolding valid_chain_def by force

lemma valid_genesis: "valid_chain c \<Longrightarrow> c g = Some (0, p) \<Longrightarrow> c g' = Some (0, p') \<Longrightarrow> g = g'"
  unfolding valid_chain_def by force

lemma anc_num:
  assumes v: "valid_chain c" and "anc c a h"
  shows "num c a \<le> num c h \<and> (num c a = num c h \<longrightarrow> a = h)"
  using assms(2)
proof (induction rule: anc.induct)
  case (anc_parent h n p a)
  then obtain q where "c p = Some (n, q)" using valid_parent [OF v] by blast
  with anc_parent show ?case by (auto simp: num_def)
qed simp

lemma anc_trans: "anc c b h \<Longrightarrow> anc c a b \<Longrightarrow> anc c a h"
  by (induction rule: anc.induct) (auto intro: anc_parent)

lemma anc_linear:
  assumes v: "valid_chain c"
  shows "anc c b h \<Longrightarrow> anc c a h \<Longrightarrow> num c a \<le> num c b \<Longrightarrow> anc c a b"
proof (induction rule: anc.induct)
  case (anc_parent h n p b)
  have "a \<noteq> h"
  proof
    assume "a = h"
    moreover have "num c b \<le> n" using anc_num [OF v anc_parent.hyps(2)] valid_parent [OF v anc_parent.hyps(1)]
      by (auto simp: num_def)
    ultimately show False using anc_parent.prems(2) anc_parent.hyps(1) by (simp add: num_def)
  qed
  then have "anc c a p" using anc_parent.prems(1) anc_parent.hyps(1) by (auto elim: ancE)
  then show ?case using anc_parent.IH anc_parent.prems(2) by blast
qed

lemma anc_genesis:
  assumes v: "valid_chain c" and g: "c g = Some (0, q)"
  shows "c h = Some (n, p) \<Longrightarrow> anc c g h"
proof (induction n arbitrary: h p)
  case 0
  then show ?case using valid_genesis [OF v g] anc_self by metis
next
  case (Suc n)
  then show ?case using valid_parent [OF v Suc.prems] anc_parent by metis
qed

lemma anc_step_iff: "c h = Some (Suc n, p) \<Longrightarrow> anc c x h \<longleftrightarrow> x = h \<or> anc c x p"
  by (auto elim: ancE intro: anc_self anc_parent)

lemma anc_genesis_iff: "c h = Some (0, p) \<Longrightarrow> anc c x h \<longleftrightarrow> x = h"
  by (auto elim: ancE intro: anc_self)

lemma walks_anc: "walks c a xs l \<Longrightarrow> c l = Some (n, p) \<Longrightarrow> anc c l a"
  by (induction c a xs l rule: walks.induct) (auto intro: anc_self anc_parent)

lemma walks_append: "walks c a (xs @ ys) l \<longleftrightarrow> (\<exists>m. walks c a xs m \<and> walks c m ys l)"
  by (induction xs arbitrary: a) auto

lemma walks_snoc:
  "walks c a xs m \<Longrightarrow> c m = Some (Suc n, p) \<Longrightarrow> walks c a (xs @ [m]) p"
  by (auto simp: walks_append)

lemma walks_length:
  "valid_chain c \<Longrightarrow> walks c a xs l \<Longrightarrow> c a = Some (n, p) \<Longrightarrow> num c l + length xs = num c a"
proof (induction xs arbitrary: a n p)
  case (Cons x xs)
  then obtain m q where m: "c a = Some (Suc m, q)" "walks c q xs l" by auto
  then obtain r where "c q = Some (m, r)" using valid_parent Cons.prems(1) by metis
  with Cons.IH [OF Cons.prems(1) m(2) this] m(1) show ?case by (simp add: num_def)
qed simp

text \<open>A branch as the routes list it: the blocks on the way and their numbers.\<close>

definition branch_of :: "'h header_table \<Rightarrow> 'h \<Rightarrow> 'h hash_and_number list \<Rightarrow> 'h \<Rightarrow> bool" where
  "branch_of c h br l = (walks c h (map hn_hash br) l \<and> (\<forall>x\<in>set br. hn_number x = num c (hn_hash x)))"

lemma branch_of_snoc:
  "branch_of c h br (meta_hash m) \<Longrightarrow> c (meta_hash m) = Some (Suc n, meta_parent m) \<Longrightarrow> meta_number m = Suc n
     \<Longrightarrow> branch_of c h (br @ [hash_number_of m]) (meta_parent m)"
  by (auto simp: branch_of_def hash_number_of_def num_def walks_append)

lemma branch_of_anc: "branch_of c h br l \<Longrightarrow> c l = Some (n, p) \<Longrightarrow> anc c l h"
  by (auto simp: branch_of_def intro: walks_anc)

lemma is_lca_unique:
  assumes "valid_chain c" and "is_lca c a b l" and "is_lca c a b l'"
  shows "l = l'"
proof -
  have "anc c l l'" "anc c l' l" using assms(2,3) by (auto simp: is_lca_def)
  then show ?thesis using anc_num [OF assms(1)] by (metis le_antisym)
qed

lemma is_lca_sym: "is_lca c a b l \<Longrightarrow> is_lca c b a l"
  by (auto simp: is_lca_def)

lemma is_lca_step:
  assumes "c a = Some (Suc n, p)" and "\<not> anc c a b" and "is_lca c p b l"
  shows "is_lca c a b l"
proof -
  have "anc c x p" if "anc c x a" "anc c x b" for x
    using that assms(1,2) by (auto elim: ancE)
  then show ?thesis using assms(1,3) by (auto simp: is_lca_def intro: anc_parent)
qed

lemma is_lca_skip:
  assumes v: "valid_chain c" and "anc c a' a" and "num c b \<le> num c a' \<or> a' = a" and "is_lca c a' b l"
  shows "is_lca c a b l"
proof -
  have "anc c x a'" if "anc c x a" "anc c x b" for x
    using anc_linear [OF v assms(2) that(1)] anc_num [OF v that(2)] assms(3) that(1) by auto
  then show ?thesis using assms(2,4) by (auto simp: is_lca_def intro: anc_trans)
qed

lemma not_anc:
  assumes "valid_chain c" and "num c b \<le> num c a" and "a \<noteq> b"
  shows "\<not> anc c a b"
  using anc_num [OF assms(1), of a b] assms(2,3) by auto

text \<open>A table with one more block on top of a known one.\<close>

definition extended :: "'h header_table \<Rightarrow> 'h \<Rightarrow> 'h \<Rightarrow> 'h header_table" where
  "extended c h p = c(h \<mapsto> (Suc (num c p), p))"

lemma anc_extended_old:
  assumes "c h0 = None" and "anc (extended c h0 p) a h" and "valid_chain c" and "c h \<noteq> None"
  shows "anc c a h"
  using assms(2,4)
proof (induction rule: anc.induct)
  case (anc_self h n q)
  then show ?case by (auto intro: anc.anc_self)
next
  case (anc_parent h n q a)
  have "c h = Some (Suc n, q)" using anc_parent assms(1) by (auto simp: extended_def split: if_splits)
  moreover from this have "c q \<noteq> None" using valid_parent [OF assms(3)] by blast
  ultimately show ?case using anc_parent by (auto intro: anc.anc_parent)
qed

lemma anc_extended_mono:
  assumes "c h0 = None" and "anc c a h"
  shows "anc (extended c h0 p) a h"
  using assms(2)
proof (induction rule: anc.induct)
  case (anc_self h n q)
  then have "extended c h0 p h = Some (n, q)" using assms(1) by (auto simp: extended_def)
  then show ?case by (rule anc.anc_self)
next
  case (anc_parent h n q a)
  then have "extended c h0 p h = Some (Suc n, q)" using assms(1) by (auto simp: extended_def)
  then show ?case using anc_parent.IH by (rule anc.anc_parent)
qed

lemma anc_extended:
  assumes v: "valid_chain c" and new: "c h0 = None" and p: "c p \<noteq> None"
  shows "c h \<noteq> None \<Longrightarrow> anc (extended c h0 p) a h \<longleftrightarrow> anc c a h"
    and "a \<noteq> h0 \<Longrightarrow> anc (extended c h0 p) a h0 \<longleftrightarrow> anc c a p"
proof -
  show old: "anc (extended c h0 p) a h \<longleftrightarrow> anc c a h" if "c h \<noteq> None" for a h
    using anc_extended_old [where c = c and p = p, OF new _ v that] anc_extended_mono [where c = c and ?h0.0 = h0, OF new] by blast
  assume a: "a \<noteq> h0"
  have e: "extended c h0 p h0 = Some (Suc (num c p), p)" by (simp add: extended_def)
  have "anc (extended c h0 p) a h0 \<longleftrightarrow> anc (extended c h0 p) a p"
    using a e by (auto elim: ancE intro: anc_parent)
  then show "anc (extended c h0 p) a h0 \<longleftrightarrow> anc c a p" using old [OF p] by simp
qed

lemma valid_extended:
  assumes v: "valid_chain c" and new: "c h0 = None" and p: "c p \<noteq> None"
  shows "valid_chain (extended c h0 p)"
  unfolding valid_chain_def
proof (intro allI impI)
  fix h n q
  assume h: "extended c h0 p h = Some (n, q)"
  have ne: "p \<noteq> h0" using new p by auto
  show "if n = 0 then \<forall>h' p'. extended c h0 p h' = Some (0, p') \<longrightarrow> h' = h
        else \<exists>r. extended c h0 p q = Some (n - 1, r)"
  proof (cases "h = h0")
    case True
    then show ?thesis using h ne p by (auto simp: extended_def num_def)
  next
    case False
    then have c: "c h = Some (n, q)" using h by (simp add: extended_def)
    show ?thesis
    proof (cases n)
      case 0
      then show ?thesis using c valid_genesis [OF v] by (auto simp: extended_def)
    next
      case (Suc k)
      then obtain r where "c q = Some (k, r)" using c valid_parent [OF v] by blast
      then show ?thesis using Suc new by (auto simp: extended_def)
    qed
  qed
qed

section \<open>What the walks rely on\<close>

text \<open>Metadata that tells the truth: an ancestor link leads to a proper ancestor.\<close>

definition describes :: "'h header_table \<Rightarrow> 'h cached_header_metadata \<Rightarrow> bool" where
  "describes c m = (c (meta_hash m) = Some (meta_number m, meta_parent m)
     \<and> (0 < meta_number m \<longrightarrow> anc c (meta_ancestor m) (meta_hash m) \<and> meta_ancestor m \<noteq> meta_hash m))"

locale header_backend =
  fixes metadata :: "('h, 'e, 's) metadata_op"
    and insert_metadata :: "('h, 's) insert_op"
    and chain :: "'s \<Rightarrow> 'h header_table"
    and ok :: "'s \<Rightarrow> bool"
  assumes metadata_known: "ok s \<Longrightarrow> chain s h = Some (n, p) \<Longrightarrow> \<exists>m s'. metadata h s = (Inr m, s')
      \<and> meta_hash m = h \<and> describes (chain s) m \<and> ok s' \<and> chain s' = chain s"
    and metadata_unknown: "ok s \<Longrightarrow> chain s h = None \<Longrightarrow> \<exists>e s'. metadata h s = (Inl e, s')
      \<and> ok s' \<and> chain s' = chain s"
    and insert_ok: "ok s \<Longrightarrow> describes (chain s) m \<Longrightarrow> ok (insert_metadata (meta_hash m) m s)
      \<and> chain (insert_metadata (meta_hash m) m s) = chain s"
    and chain_valid: "ok s \<Longrightarrow> valid_chain (chain s)"
begin

lemma skip_ok:
  assumes "ok s" and "describes (chain s) one"
  shows "\<exists>m s'. lca_skip metadata one n s = Some (Inr m, s') \<and> ok s' \<and> chain s' = chain s
    \<and> describes (chain s) m \<and> anc (chain s) (meta_hash m) (meta_hash one)
    \<and> (if n < meta_number one then n \<le> meta_number m else m = one)"
  using assms
proof (induction "meta_number one" arbitrary: one s rule: less_induct)
  case less
  note v = chain_valid [OF less.prems(1)]
  have k: "chain s (meta_hash one) = Some (meta_number one, meta_parent one)"
    using less.prems(2) by (simp add: describes_def)
  show ?case
  proof (cases "n < meta_number one")
    case False
    then show ?thesis using less.prems k by (subst lca_skip.simps) (auto intro: anc_self)
  next
    case True
    then have a: "anc (chain s) (meta_ancestor one) (meta_hash one)" "meta_ancestor one \<noteq> meta_hash one"
      using less.prems(2) by (auto simp: describes_def)
    from anc_known [OF a(1)] obtain j q where "chain s (meta_ancestor one) = Some (j, q)" by blast
    from metadata_known [OF less.prems(1) this] obtain m s1 where m:
      "metadata (meta_ancestor one) s = (Inr m, s1)" "meta_hash m = meta_ancestor one"
      "describes (chain s) m" "ok s1" "chain s1 = chain s" by blast
    have lt: "meta_number m < meta_number one"
      using anc_num [OF v a(1)] a(2) m(2,3) k by (auto simp: num_def describes_def)
    show ?thesis
    proof (cases "n \<le> meta_number m")
      case le: True
      obtain m' s' where "lca_skip metadata m n s1 = Some (Inr m', s')" "ok s'" "chain s' = chain s"
          "describes (chain s) m'" "anc (chain s) (meta_hash m') (meta_hash m)"
          "if n < meta_number m then n \<le> meta_number m' else m' = m"
        using less.hyps [OF lt m(4)] m(3,5) by auto
      then show ?thesis using True le m a(1)
        by (subst lca_skip.simps) (auto intro: anc_trans split: if_splits)
    next
      case False
      then show ?thesis using True m less.prems(2) k
        by (subst lca_skip.simps) (auto intro: anc_self)
    qed
  qed
qed

lemma known_metadata:
  assumes "ok s" and "chain s h \<noteq> None"
  obtains m s' where "metadata h s = (Inr m, s')" "meta_hash m = h" "describes (chain s) m" "ok s'" "chain s' = chain s"
proof -
  obtain n p where "chain s h = Some (n, p)" using assms(2) by auto
  from metadata_known [OF assms(1) this] that show ?thesis by blast
qed

lemma parent_metadata:
  assumes "ok s" and "describes (chain s) m" and "0 < meta_number m"
  shows "\<exists>m' s' k. metadata (meta_parent m) s = (Inr m', s') \<and> meta_hash m' = meta_parent m
    \<and> describes (chain s) m' \<and> ok s' \<and> chain s' = chain s \<and> meta_number m = Suc (meta_number m')"
proof -
  have k: "chain s (meta_hash m) = Some (Suc (meta_number m - 1), meta_parent m)"
    using assms(2,3) by (simp add: describes_def)
  obtain q where q: "chain s (meta_parent m) = Some (meta_number m - 1, q)"
    using valid_parent [OF chain_valid [OF assms(1)] k] by blast
  from metadata_known [OF assms(1) q] obtain m' s' where "metadata (meta_parent m) s = (Inr m', s')"
    "meta_hash m' = meta_parent m" "describes (chain s) m'" "ok s'" "chain s' = chain s" by blast
  with q assms(3) show ?thesis by (auto simp: describes_def)
qed

lemma walk_ok:
  assumes "ok s" and "describes (chain s) one" and "describes (chain s) two"
  shows "\<exists>m s'. lca_walk metadata one two s = Some (Inr m, s') \<and> ok s' \<and> chain s' = chain s
    \<and> describes (chain s) m \<and> is_lca (chain s) (meta_hash one) (meta_hash two) (meta_hash m)"
  using assms
proof (induction "meta_number one + meta_number two" arbitrary: one two s rule: less_induct)
  case less
  note v = chain_valid [OF less.prems(1)]
  have k1: "chain s (meta_hash one) = Some (meta_number one, meta_parent one)"
    and k2: "chain s (meta_hash two) = Some (meta_number two, meta_parent two)"
    using less.prems by (simp_all add: describes_def)
  show ?case
  proof (cases "meta_hash one = meta_hash two")
    case True
    then show ?thesis using less.prems k1
      by (subst lca_walk.simps) (auto simp: is_lca_def intro: anc_self)
  next
    case ne: False
    show ?thesis
    proof (cases "meta_number two < meta_number one")
      case True
      then obtain m' s' where m': "metadata (meta_parent one) s = (Inr m', s')" "meta_hash m' = meta_parent one"
          "describes (chain s) m'" "ok s'" "chain s' = chain s" "meta_number one = Suc (meta_number m')"
        using parent_metadata [OF less.prems(1,2)] by auto
      obtain l t where l: "lca_walk metadata m' two s' = Some (Inr l, t)" "ok t" "chain t = chain s"
          "describes (chain s) l" "is_lca (chain s) (meta_parent one) (meta_hash two) (meta_hash l)"
        using less.hyps [OF _ m'(4), of m' two] m' less.prems(3) by auto
      have "\<not> anc (chain s) (meta_hash one) (meta_hash two)"
        by (rule not_anc [OF v]) (use True ne k1 k2 in \<open>auto simp: num_def\<close>)
      then have "is_lca (chain s) (meta_hash one) (meta_hash two) (meta_hash l)"
        using is_lca_step [OF _ _ l(5)] k1 m'(6) by auto
      then show ?thesis using ne True m'(1) l by (subst lca_walk.simps) simp
    next
      case False
      have "0 < meta_number two"
      proof (rule ccontr)
        assume "\<not> 0 < meta_number two"
        then show False using valid_genesis [OF v] k1 k2 False ne by auto
      qed
      then obtain m' s' where m': "metadata (meta_parent two) s = (Inr m', s')" "meta_hash m' = meta_parent two"
          "describes (chain s) m'" "ok s'" "chain s' = chain s" "meta_number two = Suc (meta_number m')"
        using parent_metadata [OF less.prems(1,3)] by auto
      obtain l t where l: "lca_walk metadata one m' s' = Some (Inr l, t)" "ok t" "chain t = chain s"
          "describes (chain s) l" "is_lca (chain s) (meta_hash one) (meta_parent two) (meta_hash l)"
        using less.hyps [OF _ m'(4), of one m'] m' less.prems(2) by auto
      have "\<not> anc (chain s) (meta_hash two) (meta_hash one)"
        by (rule not_anc [OF v]) (use False ne k1 k2 in \<open>auto simp: num_def\<close>)
      then have "is_lca (chain s) (meta_hash two) (meta_hash one) (meta_hash l)"
        using is_lca_step [OF _ _ is_lca_sym [OF l(5)]] k2 m'(6) by auto
      then show ?thesis using ne False m'(1) l is_lca_sym by (subst lca_walk.simps) auto
    qed
  qed
qed

lemma update_link_ok:
  assumes "ok s" and "describes (chain s) orig" and "describes (chain s) l"
    and "anc (chain s) (meta_hash l) (meta_hash orig)"
  shows "ok (update_link insert_metadata orig l s) \<and> chain (update_link insert_metadata orig l s) = chain s"
proof (cases "meta_number l < meta_number orig")
  case True
  have "describes (chain s) (orig\<lparr>meta_ancestor := meta_hash l\<rparr>)"
    using assms True by (auto simp: describes_def)
  from insert_ok [OF assms(1) this] True show ?thesis by (simp add: update_link_def)
qed (simp add: update_link_def assms(1))

lemma lca_ok:
  assumes "ok s" and "chain s a \<noteq> None" and "chain s b \<noteq> None"
  shows "\<exists>l s'. lowest_common_ancestor metadata insert_metadata a b s = Some (Inr l, s')
    \<and> ok s' \<and> chain s' = chain s \<and> is_lca (chain s) a b (hn_hash l) \<and> hn_number l = num (chain s) (hn_hash l)"
proof -
  note v = chain_valid [OF assms(1)]
  let ?c = "chain s"
  obtain m1 s1 where m1: "metadata a s = (Inr m1, s1)" "meta_hash m1 = a" "describes ?c m1" "ok s1" "chain s1 = ?c"
    by (rule known_metadata [OF assms(1,2)])
  obtain m2 s2 where m2: "metadata b s1 = (Inr m2, s2)" "meta_hash m2 = b" "describes ?c m2" "ok s2" "chain s2 = ?c"
    by (rule known_metadata [OF m1(4)]) (use assms(3) m1(5) in auto)
  have n: "num ?c (meta_hash m) = meta_number m" if "describes ?c m" for m using that by (simp add: describes_def num_def)
  obtain o1 s3 where o1: "lca_skip metadata m1 (meta_number m2) s2 = Some (Inr o1, s3)" "ok s3" "chain s3 = ?c"
      "describes ?c o1" "anc ?c (meta_hash o1) a" "if meta_number m2 < meta_number m1 then meta_number m2 \<le> meta_number o1 else o1 = m1"
    using skip_ok [OF m2(4), of m1 "meta_number m2"] m1 m2 by auto
  obtain o2 s4 where o2: "lca_skip metadata m2 (meta_number o1) s3 = Some (Inr o2, s4)" "ok s4" "chain s4 = ?c"
      "describes ?c o2" "anc ?c (meta_hash o2) b" "if meta_number o1 < meta_number m2 then meta_number o1 \<le> meta_number o2 else o2 = m2"
    using skip_ok [OF o1(2), of m2 "meta_number o1"] m2 o1(3) by auto
  obtain l s5 where l: "lca_walk metadata o1 o2 s4 = Some (Inr l, s5)" "ok s5" "chain s5 = ?c" "describes ?c l"
      "is_lca ?c (meta_hash o1) (meta_hash o2) (meta_hash l)"
    using walk_ok [OF o2(2), of o1 o2] o1(4) o2(3,4) by auto
  have lb: "is_lca ?c b (meta_hash o1) (meta_hash l)"
    by (rule is_lca_skip [OF v o2(5)])
       (use o2(6) m2(2) n [OF o1(4)] n [OF o2(4)] is_lca_sym [OF l(5)] in \<open>auto split: if_splits\<close>)
  have lca: "is_lca ?c a b (meta_hash l)"
    by (rule is_lca_skip [OF v o1(5) _ is_lca_sym [OF lb]])
       (use o1(6) m1(2) m2(2) n [OF o1(4)] n [OF m2(3)] in \<open>auto split: if_splits\<close>)
  let ?s6 = "update_link insert_metadata m1 l s5"
  have s6: "ok ?s6" "chain ?s6 = ?c"
    using update_link_ok [OF l(2), of m1 l] l(3,4) m1(2,3) lca by (auto simp: is_lca_def)
  have "ok (update_link insert_metadata m2 l ?s6)" "chain (update_link insert_metadata m2 l ?s6) = ?c"
    using update_link_ok [OF s6(1), of m2 l] s6(2) l(4) m2(2,3) lca by (auto simp: is_lca_def)
  with lca n [OF l(4)] show ?thesis
    by (simp add: lowest_common_ancestor_def m1(1) m2(1) o1(1) o2(1) l(1) hash_number_of_def)
qed

lemma route_up_ok:
  assumes "ok s" and "describes (chain s) m" and "branch_of (chain s) h br (meta_hash m)"
  shows "\<exists>m' br' s'. route_up metadata m n br s = Some (Inr (m', br'), s') \<and> ok s' \<and> chain s' = chain s
    \<and> describes (chain s) m' \<and> branch_of (chain s) h br' (meta_hash m')
    \<and> meta_number m' = min n (meta_number m)"
  using assms
proof (induction "meta_number m" arbitrary: m br s)
  case 0
  then show ?case by (subst route_up.simps) auto
next
  case (Suc k)
  show ?case
  proof (cases "n < meta_number m")
    case True
    obtain m1 s1 where m1: "metadata (meta_parent m) s = (Inr m1, s1)" "meta_hash m1 = meta_parent m"
        "describes (chain s) m1" "ok s1" "chain s1 = chain s" "meta_number m = Suc (meta_number m1)"
      using parent_metadata [OF Suc.prems(1,2)] Suc.hyps(2) by auto
    have "branch_of (chain s) h (br @ [hash_number_of m]) (meta_hash m1)"
      using branch_of_snoc [OF Suc.prems(3)] Suc.prems(2) m1(2,6) by (simp add: describes_def)
    then obtain m' br' s' where "route_up metadata m1 n (br @ [hash_number_of m]) s1 = Some (Inr (m', br'), s')"
        "ok s'" "chain s' = chain s" "describes (chain s) m'" "branch_of (chain s) h br' (meta_hash m')"
        "meta_number m' = min n (meta_number m1)"
      using Suc.hyps(1) [of m1 s1 "br @ [hash_number_of m]"] Suc.hyps(2) m1 by auto
    then show ?thesis using True m1(1,6) by (subst route_up.simps) auto
  next
    case False
    then show ?thesis using Suc.prems by (subst route_up.simps) auto
  qed
qed

lemma route_meet_ok:
  assumes "ok s" and "describes (chain s) t" and "describes (chain s) f" and "meta_number t = meta_number f"
    and "branch_of (chain s) b tb (meta_hash t)" and "branch_of (chain s) a fb (meta_hash f)"
  shows "\<exists>m tb' fb' s'. route_meet metadata t f tb fb s = Some (Inr (m, tb', fb'), s') \<and> ok s' \<and> chain s' = chain s
    \<and> describes (chain s) m \<and> is_lca (chain s) (meta_hash f) (meta_hash t) (meta_hash m)
    \<and> branch_of (chain s) b tb' (meta_hash m) \<and> branch_of (chain s) a fb' (meta_hash m)"
  using assms
proof (induction "meta_number t" arbitrary: t f tb fb s)
  case 0
  then have "meta_hash t = meta_hash f"
    using valid_genesis [OF chain_valid [OF 0(2)]] by (auto simp: describes_def)
  then show ?case using 0 by (subst route_meet.simps) (auto simp: is_lca_def describes_def intro: anc_self)
next
  case (Suc k)
  show ?case
  proof (cases "meta_hash t = meta_hash f")
    case True
    then show ?thesis using Suc.prems by (subst route_meet.simps) (auto simp: is_lca_def describes_def intro: anc_self)
  next
    case False
    note v = chain_valid [OF Suc.prems(1)]
    obtain t1 s1 where t1: "metadata (meta_parent t) s = (Inr t1, s1)" "meta_hash t1 = meta_parent t"
        "describes (chain s) t1" "ok s1" "chain s1 = chain s" "meta_number t = Suc (meta_number t1)"
      using parent_metadata [OF Suc.prems(1,2)] Suc.hyps(2) by auto
    obtain f1 s2 where f1: "metadata (meta_parent f) s1 = (Inr f1, s2)" "meta_hash f1 = meta_parent f"
        "describes (chain s) f1" "ok s2" "chain s2 = chain s" "meta_number f = Suc (meta_number f1)"
      using parent_metadata [OF t1(4), of f] Suc.hyps(2) Suc.prems(3,4) t1(5) by auto
    have b: "branch_of (chain s) b (tb @ [hash_number_of t]) (meta_hash t1)"
      "branch_of (chain s) a (fb @ [hash_number_of f]) (meta_hash f1)"
      using branch_of_snoc [OF Suc.prems(5)] branch_of_snoc [OF Suc.prems(6)] Suc.prems(2,3) t1(2,6) f1(2,6)
      by (simp_all add: describes_def)
    obtain m tb' fb' s' where m: "route_meet metadata t1 f1 (tb @ [hash_number_of t]) (fb @ [hash_number_of f]) s2
          = Some (Inr (m, tb', fb'), s')" "ok s'" "chain s' = chain s" "describes (chain s) m"
        "is_lca (chain s) (meta_parent f) (meta_parent t) (meta_hash m)"
        "branch_of (chain s) b tb' (meta_hash m)" "branch_of (chain s) a fb' (meta_hash m)"
      using Suc.hyps(1) [of t1 s2 f1 "tb @ [hash_number_of t]" "fb @ [hash_number_of f]"] Suc.hyps(2) Suc.prems(4)
        t1 f1 b by auto
    have d: "chain s (meta_hash t) = Some (meta_number t, meta_parent t)"
      "chain s (meta_hash f) = Some (meta_number t, meta_parent f)"
      "chain s (meta_parent t) = Some (meta_number t1, meta_parent t1)"
      using Suc.prems(2-4) t1(2,3) by (simp_all add: describes_def)
    have na: "\<not> anc (chain s) (meta_hash t) (meta_parent f)" "\<not> anc (chain s) (meta_hash f) (meta_hash t)"
    proof -
      have "num (chain s) (meta_parent f) < num (chain s) (meta_hash t)"
        using f1(2,3,6) d(1) Suc.prems(4) by (auto simp: num_def describes_def)
      then show "\<not> anc (chain s) (meta_hash t) (meta_parent f)" using anc_num [OF v] by fastforce
      show "\<not> anc (chain s) (meta_hash f) (meta_hash t)"
        by (rule not_anc [OF v]) (use d False in \<open>auto simp: num_def\<close>)
    qed
    have "is_lca (chain s) (meta_hash t) (meta_parent f) (meta_hash m)"
      using is_lca_step [OF _ na(1) is_lca_sym [OF m(5)]] d(1) t1(6) by auto
    then have "is_lca (chain s) (meta_hash f) (meta_hash t) (meta_hash m)"
      using is_lca_step [OF _ na(2) is_lca_sym] d(2) t1(6) by auto
    then show ?thesis using False t1(1) f1(1) m by (subst route_meet.simps) auto
  qed
qed

lemma tree_route_ok:
  assumes "ok s" and "chain s a \<noteq> None" and "chain s b \<noteq> None"
  shows "\<exists>r s' l re en. compute_tree_route metadata a b s = Some (Inr r, s') \<and> ok s' \<and> chain s' = chain s
    \<and> retracted r = Some re \<and> common_block r = Some l \<and> enacted r = Some en
    \<and> is_lca (chain s) a b (hn_hash l) \<and> hn_number l = num (chain s) (hn_hash l)
    \<and> branch_of (chain s) a re (hn_hash l) \<and> branch_of (chain s) b (rev en) (hn_hash l)"
proof -
  note v = chain_valid [OF assms(1)]
  let ?c = "chain s"
  obtain f s1 where f: "metadata a s = (Inr f, s1)" "meta_hash f = a" "describes ?c f" "ok s1" "chain s1 = ?c"
    by (rule known_metadata [OF assms(1,2)])
  obtain t s2 where t: "metadata b s1 = (Inr t, s2)" "meta_hash t = b" "describes ?c t" "ok s2" "chain s2 = ?c"
    by (rule known_metadata [OF f(4)]) (use assms(3) f(5) in auto)
  obtain t' tb s3 where t': "route_up metadata t (meta_number f) [] s2 = Some (Inr (t', tb), s3)" "ok s3"
      "chain s3 = ?c" "describes ?c t'" "branch_of ?c b tb (meta_hash t')"
      "meta_number t' = min (meta_number f) (meta_number t)"
    using route_up_ok [OF t(4), of t b "[]" "meta_number f"] t by (auto simp: branch_of_def)
  obtain f' fb s4 where f': "route_up metadata f (meta_number t') [] s3 = Some (Inr (f', fb), s4)" "ok s4"
      "chain s4 = ?c" "describes ?c f'" "branch_of ?c a fb (meta_hash f')"
      "meta_number f' = min (meta_number t') (meta_number f)"
    using route_up_ok [OF t'(2), of f a "[]" "meta_number t'"] f t'(3) by (auto simp: branch_of_def)
  obtain m tb' fb' s5 where m: "route_meet metadata t' f' tb fb s4 = Some (Inr (m, tb', fb'), s5)" "ok s5"
      "chain s5 = ?c" "describes ?c m" "is_lca ?c (meta_hash f') (meta_hash t') (meta_hash m)"
      "branch_of ?c b tb' (meta_hash m)" "branch_of ?c a fb' (meta_hash m)"
    using route_meet_ok [OF f'(2), of t' f' b tb a fb] f' t' by auto
  have n: "num ?c (meta_hash x) = meta_number x" if "describes ?c x" for x using that by (simp add: describes_def num_def)
  have up: "anc ?c (meta_hash t') b" "anc ?c (meta_hash f') a"
    using branch_of_anc [OF t'(5)] branch_of_anc [OF f'(5)] t'(4) f'(4) by (auto simp: describes_def)
  have "num ?c (meta_hash f') \<le> num ?c (meta_hash t') \<and> (num ?c b \<le> num ?c (meta_hash f') \<or> meta_hash f' = a)"
    using anc_num [OF v up(2)] n [OF t'(4)] n [OF f'(4)] n [OF f(3)] n [OF t(3)] t'(6) f'(6) f(2) t(2) by (auto simp: min_def split: if_splits)
  then have "is_lca ?c b (meta_hash f') (meta_hash m)" "num ?c b \<le> num ?c (meta_hash f') \<or> meta_hash f' = a"
    using is_lca_skip [OF v up(1) _ is_lca_sym [OF m(5)]] by auto
  then have "is_lca ?c a b (meta_hash m)"
    using is_lca_skip [OF v up(2) _ is_lca_sym] by blast
  with m n [OF m(4)] show ?thesis
    by (simp add: compute_tree_route_def f(1) t(1) t'(1) f'(1) m(1) retracted_def common_block_def enacted_def
        hash_number_of_def nth_append)
qed

lemma search_ok:
  assumes "ok s" and "chain s base \<noteq> None" and "chain s h \<noteq> None"
  shows "\<exists>s'. try_run (lowest_common_ancestor metadata insert_metadata h base s)
        (\<lambda>ancestor s. Some (Inr (hn_hash ancestor = base), s)) = Some (Inr (anc (chain s) base h), s')
    \<and> ok s' \<and> chain s' = chain s"
proof -
  note v = chain_valid [OF assms(1)]
  obtain l s' where l: "lowest_common_ancestor metadata insert_metadata h base s = Some (Inr l, s')"
      "ok s'" "chain s' = chain s" "is_lca (chain s) h base (hn_hash l)"
    using lca_ok [OF assms(1,3,2)] by blast
  have "anc (chain s) base base" using assms(2) by (auto intro: anc_self)
  then have "hn_hash l = base \<longleftrightarrow> anc (chain s) base h"
    using l(4) anc_num [OF v] by (metis is_lca_def le_antisym)
  then show ?thesis using l by simp
qed

lemma descendent_ok:
  assumes "ok s" and "chain s base \<noteq> None" and "chain s h \<noteq> None"
  shows "\<exists>s'. is_descendent_of metadata insert_metadata None base h s
        = Some (Inr (base \<noteq> h \<and> anc (chain s) base h), s') \<and> ok s' \<and> chain s' = chain s"
  using search_ok [OF assms] assms(1) by (auto simp: is_descendent_of_def Let_def)

lemma descendent_of_current_ok:
  assumes "ok s" and new: "chain s h0 = None" and p: "chain s p \<noteq> None"
    and b: "extended (chain s) h0 p base \<noteq> None" and h: "extended (chain s) h0 p h \<noteq> None"
  shows "\<exists>s'. is_descendent_of metadata insert_metadata (Some (h0, p)) base h s
        = Some (Inr (base \<noteq> h \<and> anc (extended (chain s) h0 p) base h), s') \<and> ok s' \<and> chain s' = chain s"
proof -
  note v = chain_valid [OF assms(1)]
  note e = anc_extended [where c = "chain s", OF v new p]
  have known: "chain s x \<noteq> None" if "extended (chain s) h0 p x \<noteq> None" "x \<noteq> h0" for x
    using that by (auto simp: extended_def)
  consider (same) "base = h" | (new_base) "base \<noteq> h" "base = h0" | (parent) "base = p" "h = h0" "base \<noteq> h"
    | (below) "base \<noteq> p" "h = h0" "base \<noteq> h" | (old) "h \<noteq> h0" "base \<noteq> h0" "base \<noteq> h" by blast
  then show ?thesis
  proof cases
    case same
    then show ?thesis using assms(1) by (simp add: is_descendent_of_def)
  next
    case new_base
    have "\<not> anc (chain s) h0 h" using anc_known new by fastforce
    then have "\<not> anc (extended (chain s) h0 p) base h" using e(1) known [OF h] new_base by auto
    then show ?thesis using new_base assms(1) by (simp add: is_descendent_of_def Let_def)
  next
    case parent
    have "anc (chain s) p p" using p by (auto intro: anc_self)
    then have "anc (extended (chain s) h0 p) base h" using e(2) [of base] parent by simp
    then show ?thesis using parent assms(1) by (simp add: is_descendent_of_def Let_def)
  next
    case below
    then have "chain s base \<noteq> None" using known [OF b] by auto
    from search_ok [OF assms(1) this p] show ?thesis
      using below e(2) [of base] by (simp add: is_descendent_of_def Let_def)
  next
    case old
    then have "chain s base \<noteq> None" "chain s h \<noteq> None" using known b h by blast+
    from search_ok [OF assms(1) this] show ?thesis
      using old e(1) [OF \<open>chain s h \<noteq> None\<close>, of base] by (simp add: is_descendent_of_def Let_def)
  qed
qed

end

end
