(* ===== verification/Leaf_Set.thy ===== *)
theory Leaf_Set
  imports Header_Metadata
begin

text \<open>
  The set of leaves of the block tree (\<open>client/api/src/leaves.rs\<close>): the hashes of the blocks
  without children, grouped by block number, the highest first.  The encoding to the database is a
  parameter: reading takes the decoded list.
\<close>

section \<open>State\<close>

type_synonym 'h leaf_levels = "(nat reverse, 'h list) btree_map"

record 'h leaf_set_item =
  item_hash :: 'h
  item_number :: "nat reverse"

record 'h import_displaced =
  new_hash :: 'h
  displaced :: "'h leaf_set_item"

record 'h finalization_displaced =
  displaced_leaves :: "'h leaf_levels"

record 'h leaf_set =
  levels :: "'h leaf_levels"
  pending_added :: "('h \<times> nat) list"
  pending_removed :: "'h list"

definition leaf_set_new :: "'h leaf_set" where
  "leaf_set_new = \<lparr>levels = [], pending_added = [], pending_removed = []\<rparr>"

text \<open>\<open>split_off\<close> and \<open>append\<close> of a \<open>BTreeMap\<close>.\<close>

definition bt_split_off :: "'k::linorder \<Rightarrow> ('k, 'v) btree_map \<Rightarrow> ('k, 'v) btree_map \<times> ('k, 'v) btree_map" where
  "bt_split_off k m = (filter (\<lambda>(k', _). k' < k) m, filter (\<lambda>(k', _). k \<le> k') m)"

definition bt_append :: "('k::linorder, 'v) btree_map \<Rightarrow> ('k, 'v) btree_map \<Rightarrow> ('k, 'v) btree_map" where
  "bt_append m other = fold (\<lambda>(k, v). bt_put k v) other m"

section \<open>Operations\<close>

definition insert_leaf :: "nat reverse \<Rightarrow> 'h \<Rightarrow> 'h leaf_set \<Rightarrow> 'h leaf_set" where
  "insert_leaf number hash s =
     s\<lparr>levels := bt_put number (unwrap_or_default [] (bt_get (levels s) number) @ [hash]) (levels s)\<rparr>"

definition remove_leaf :: "nat reverse \<Rightarrow> 'h \<Rightarrow> 'h leaf_set \<Rightarrow> bool \<times> 'h leaf_set" where
  "remove_leaf number hash s =
     (case bt_get (levels s) number of
        None \<Rightarrow> (False, s)
      | Some leaves \<Rightarrow>
          let found = (hash \<in> set leaves);
              kept = filter (\<lambda>h. h \<noteq> hash) leaves;
              s' = s\<lparr>levels := bt_put number kept (levels s)\<rparr>
          in if found \<and> kept = [] then (True, s'\<lparr>levels := bt_del number (levels s')\<rparr>) else (found, s'))"

definition read_from_db :: "('e + (nat \<times> 'h list) list) option \<Rightarrow> 'e + 'h leaf_set" where
  "read_from_db decoded =
     (case decoded of
        None \<Rightarrow> Inr leaf_set_new
      | Some (Inl e) \<Rightarrow> Inl e
      | Some (Inr vals) \<Rightarrow>
          Inr (leaf_set_new\<lparr>levels := fold (\<lambda>(number, hashes). bt_put (Reverse number) hashes) vals []\<rparr>))"

definition leaf_import :: "'h \<Rightarrow> nat \<Rightarrow> 'h \<Rightarrow> 'h leaf_set \<Rightarrow> 'h import_displaced option \<times> 'h leaf_set" where
  "leaf_import hash number parent_hash s =
     (let (disp, s1) =
            (if number \<noteq> 0 then
               let new_number = Reverse (number - 1);
                   (was_displaced, s1) = remove_leaf new_number parent_hash s
               in if was_displaced
                  then (Some \<lparr>new_hash = hash, displaced = \<lparr>item_hash = parent_hash, item_number = new_number\<rparr>\<rparr>,
                        s1\<lparr>pending_removed := pending_removed s1 @ [parent_hash]\<rparr>)
                  else (None, s1)
             else (None, s));
          s2 = insert_leaf (Reverse number) hash s1
      in (disp, s2\<lparr>pending_added := pending_added s2 @ [(hash, number)]\<rparr>))"

definition finalize_height :: "nat \<Rightarrow> 'h leaf_set \<Rightarrow> 'h finalization_displaced \<times> 'h leaf_set" where
  "finalize_height number s =
     (if number = 0 then (\<lparr>displaced_leaves = []\<rparr>, s)
      else
        let boundary = number - 1;
            (above, below_boundary) = bt_split_off (Reverse boundary) (levels s)
        in (\<lparr>displaced_leaves = below_boundary\<rparr>,
            s\<lparr>levels := above, pending_removed := pending_removed s @ concat (map snd below_boundary)\<rparr>))"

text \<open>The loop of \<open>revert\<close> over the leaves; \<open>None\<close> is the failed assertion.\<close>

fun revert_items :: "nat \<Rightarrow> ('h \<times> nat reverse) list \<Rightarrow> 'h leaf_set \<Rightarrow> 'h leaf_set option" where
  "revert_items best_number [] s = Some s"
| "revert_items best_number ((hash, number) # items) s =
     (if best_number < unreverse number then
        (case remove_leaf number hash s of
           (False, s') \<Rightarrow> None
         | (True, s') \<Rightarrow>
             revert_items best_number items (s'\<lparr>pending_removed := pending_removed s' @ [hash]\<rparr>))
      else revert_items best_number items s)"

definition leaf_items :: "'h leaf_levels \<Rightarrow> ('h \<times> nat reverse) list" where
  "leaf_items m = concat (map (\<lambda>(number, hashes). map (\<lambda>h. (h, number)) hashes) m)"

definition revert :: "'h \<Rightarrow> nat \<Rightarrow> 'h leaf_set \<Rightarrow> 'h leaf_set option" where
  "revert best_hash best_number s =
     map_option (\<lambda>s.
         let number = Reverse best_number;
             leaves_contains_best =
               (case bt_get (levels s) number of None \<Rightarrow> False | Some hashes \<Rightarrow> best_hash \<in> set hashes)
         in if \<not> leaves_contains_best
            then (insert_leaf number best_hash s)\<lparr>pending_added := pending_added s @ [(best_hash, best_number)]\<rparr>
            else s)
       (revert_items best_number (leaf_items (levels s)) s)"

definition hashes :: "'h leaf_set \<Rightarrow> 'h list" where
  "hashes s = concat (map snd (levels s))"

definition leaf_count :: "'h leaf_set \<Rightarrow> nat" where
  "leaf_count s = length (levels s)"

definition prepare_transaction :: "'h leaf_set \<Rightarrow> (nat \<times> 'h list) list \<times> 'h leaf_set" where
  "prepare_transaction s =
     (map (\<lambda>(n, h). (unreverse n, h)) (levels s), s\<lparr>pending_added := [], pending_removed := []\<rparr>)"

definition leaf_contains :: "nat \<Rightarrow> 'h \<Rightarrow> 'h leaf_set \<Rightarrow> bool" where
  "leaf_contains number hash s =
     (case bt_get (levels s) (Reverse number) of None \<Rightarrow> False | Some hs \<Rightarrow> hash \<in> set hs)"

text \<open>Undoing; \<open>undo_drop\<close> is what happens when the \<open>Undo\<close> goes out of scope.\<close>

definition undo_import :: "'h import_displaced \<Rightarrow> 'h leaf_set \<Rightarrow> 'h leaf_set" where
  "undo_import d s =
     (let new_number = Reverse (unreverse (item_number (displaced d)) + 1);
          (_, s1) = remove_leaf new_number (new_hash d) s
      in insert_leaf new_number (item_hash (displaced d)) s1)"

definition undo_finalization :: "'h finalization_displaced \<Rightarrow> 'h leaf_set \<Rightarrow> 'h leaf_set" where
  "undo_finalization d s = s\<lparr>levels := bt_append (levels s) (displaced_leaves d)\<rparr>"

definition undo_drop :: "'h leaf_set \<Rightarrow> 'h leaf_set" where
  "undo_drop s = s\<lparr>pending_added := [], pending_removed := []\<rparr>"

definition displaced_merge ::
    "'h finalization_displaced \<Rightarrow> 'h finalization_displaced \<Rightarrow> 'h finalization_displaced" where
  "displaced_merge d other = \<lparr>displaced_leaves = bt_append (displaced_leaves d) (displaced_leaves other)\<rparr>"

definition displaced_hashes :: "'h finalization_displaced \<Rightarrow> 'h list" where
  "displaced_hashes d = concat (map snd (displaced_leaves d))"

section \<open>What a leaf set holds\<close>

definition leaf_ok :: "'h leaf_set \<Rightarrow> bool" where
  "leaf_ok s = (bt_inv (levels s)
     \<and> (\<forall>n hs. bt_get (levels s) n = Some hs \<longrightarrow> hs \<noteq> [] \<and> distinct hs))"

definition leaves_of :: "'h leaf_set \<Rightarrow> (nat \<times> 'h) set" where
  "leaves_of s = {(n, h). leaf_contains n h s}"

lemma mem_leaves_of [simp]: "(n, h) \<in> leaves_of s \<longleftrightarrow> leaf_contains n h s"
  by (simp add: leaves_of_def)

lemma contains_more [simp]:
  "leaf_contains n h (s\<lparr>pending_added := a\<rparr>) = leaf_contains n h s"
  "leaf_contains n h (s\<lparr>pending_removed := r\<rparr>) = leaf_contains n h s"
  by (simp_all add: leaf_contains_def)

lemma leaf_ok_more [simp]:
  "leaf_ok (s\<lparr>pending_added := a\<rparr>) = leaf_ok s" "leaf_ok (s\<lparr>pending_removed := r\<rparr>) = leaf_ok s"
  by (simp_all add: leaf_ok_def)

lemma contains_insert [simp]:
  "leaf_contains n h (insert_leaf (Reverse m) x s) \<longleftrightarrow> leaf_contains n h s \<or> n = m \<and> h = x"
  by (auto simp: leaf_contains_def insert_leaf_def split: option.split)

lemma insert_leaf_ok: "leaf_ok s \<Longrightarrow> \<not> leaf_contains m x s \<Longrightarrow> leaf_ok (insert_leaf (Reverse m) x s)"
  by (cases "bt_get (levels s) (Reverse m)") (auto simp: leaf_ok_def insert_leaf_def leaf_contains_def)

lemma remove_leaf_spec:
  shows "fst (remove_leaf (Reverse m) x s) \<longleftrightarrow> leaf_contains m x s"
    and "leaf_contains n h (snd (remove_leaf (Reverse m) x s)) \<longleftrightarrow> leaf_contains n h s \<and> \<not> (n = m \<and> h = x)"
  by (auto simp: remove_leaf_def leaf_contains_def Let_def filter_empty_conv split: option.splits if_splits)

lemma remove_leaf_ok:
  assumes "leaf_ok s"
  shows "leaf_ok (snd (remove_leaf (Reverse m) x s))"
proof (cases "bt_get (levels s) (Reverse m)")
  case (Some hs)
  then have hs: "hs \<noteq> []" "distinct hs" using assms by (auto simp: leaf_ok_def)
  have "filter (\<lambda>h. h \<noteq> x) hs = [] \<Longrightarrow> x \<in> set hs" using hs(1) by (cases hs) (auto split: if_splits)
  then show ?thesis using assms hs Some
    by (auto simp: remove_leaf_def leaf_ok_def Let_def)
qed (simp add: remove_leaf_def assms)

lemma remove_leaf_pending [simp]:
  "pending_added (snd (remove_leaf n x s)) = pending_added s" "pending_removed (snd (remove_leaf n x s)) = pending_removed s"
  by (simp_all add: remove_leaf_def Let_def split: option.split)

lemma leaf_import_spec:
  assumes "leaf_ok s" and "\<not> leaf_contains number hash s"
  shows "leaf_ok (snd (leaf_import hash number parent s))"
    and "leaf_contains n h (snd (leaf_import hash number parent s)) \<longleftrightarrow>
      leaf_contains n h s \<and> \<not> (number = Suc n \<and> h = parent) \<or> n = number \<and> h = hash"
    and "fst (leaf_import hash number parent s) =
      (if 0 < number \<and> leaf_contains (number - 1) parent s
       then Some \<lparr>new_hash = hash, displaced = \<lparr>item_hash = parent, item_number = Reverse (number - 1)\<rparr>\<rparr> else None)"
proof -
  note r = remove_leaf_spec [where m = "number - 1" and x = parent and s = s]
  show "leaf_ok (snd (leaf_import hash number parent s))"
    using assms r remove_leaf_ok [OF assms(1), of "number - 1" parent]
    by (auto simp: leaf_import_def Let_def case_prod_beta intro!: insert_leaf_ok)
  show "leaf_contains n h (snd (leaf_import hash number parent s)) \<longleftrightarrow>
      leaf_contains n h s \<and> \<not> (number = Suc n \<and> h = parent) \<or> n = number \<and> h = hash"
    using r by (auto simp: leaf_import_def Let_def case_prod_beta)
  show "fst (leaf_import hash number parent s) =
      (if 0 < number \<and> leaf_contains (number - 1) parent s
       then Some \<lparr>new_hash = hash, displaced = \<lparr>item_hash = parent, item_number = Reverse (number - 1)\<rparr>\<rparr> else None)"
    using r by (auto simp: leaf_import_def Let_def case_prod_beta)
qed

section \<open>Finalising a height\<close>

lemma bt_get_filter_key: "bt_get (filter (\<lambda>(k, _). P k) m) k = (if P k then bt_get m k else None)"
  by (induction m) auto

lemma bt_inv_filter_key: "bt_inv m \<Longrightarrow> bt_inv (filter P m)"
  by (auto simp: bt_inv_def distinct_map_filter sorted_filter)

lemma bt_append_get: "bt_get (bt_append m other) = bt_get m ++ bt_get (rev other)"
  unfolding bt_append_def
  by (induction other arbitrary: m) (auto simp: map_add_assoc [symmetric] map_add_def fun_eq_iff split: option.split)

lemma bt_get_rev: "distinct (map fst m) \<Longrightarrow> bt_get (rev m) = bt_get m"
  by (subst map_of_inject_set) (simp_all add: rev_map [symmetric])

lemma bt_append_inv: "bt_inv m \<Longrightarrow> bt_inv (bt_append m other)"
  unfolding bt_append_def by (induction other arbitrary: m) auto

lemma bt_split_append:
  assumes "bt_inv m"
  shows "bt_append (fst (bt_split_off k m)) (snd (bt_split_off k m)) = m"
proof -
  let ?hi = "filter (\<lambda>(k', _). k \<le> k') m" and ?lo = "filter (\<lambda>(k', _). k' < k) m"
  have d: "distinct (map fst ?hi)" using bt_inv_filter_key [OF assms] by (auto simp: bt_inv_def)
  have "bt_get (bt_append ?lo ?hi) = bt_get m"
    using d by (auto simp: bt_append_get bt_get_rev bt_get_filter_key fun_eq_iff map_add_def split: option.split)
  moreover have "bt_inv (bt_append ?lo ?hi)" by (intro bt_append_inv bt_inv_filter_key assms)
  ultimately show ?thesis using bt.entries_cong [OF _ assms] by (simp add: bt_split_off_def)
qed

lemma finalize_height_spec:
  assumes "leaf_ok s"
  shows "leaf_ok (snd (finalize_height number s))"
    and "leaf_contains n h (snd (finalize_height number s)) \<longleftrightarrow> leaf_contains n h s \<and> number \<le> n"
    and "undo_finalization (fst (finalize_height number s)) (snd (finalize_height number s))
      = s\<lparr>pending_removed := pending_removed (snd (finalize_height number s))\<rparr>"
proof -
  have inv: "bt_inv (levels s)" using assms by (simp add: leaf_ok_def)
  show "leaf_ok (snd (finalize_height number s))"
    using assms by (auto simp: finalize_height_def bt_split_off_def Let_def leaf_ok_def bt_inv_filter_key
        bt_get_filter_key [where P = "\<lambda>k. k < Reverse (number - Suc 0)"] split: if_splits)
  show "leaf_contains n h (snd (finalize_height number s)) \<longleftrightarrow> leaf_contains n h s \<and> number \<le> n"
    by (auto simp: finalize_height_def bt_split_off_def Let_def leaf_contains_def less_reverse_def
        bt_get_filter_key [where P = "\<lambda>k. number - Suc 0 < unreverse k"] split: option.split)
  show "undo_finalization (fst (finalize_height number s)) (snd (finalize_height number s))
      = s\<lparr>pending_removed := pending_removed (snd (finalize_height number s))\<rparr>"
    using bt_split_append [OF inv, of "Reverse (number - 1)"]
    by (auto simp: finalize_height_def undo_finalization_def Let_def case_prod_beta bt_append_def)
qed

section \<open>Reverting\<close>

lemma mem_leaf_items:
  assumes "leaf_ok s"
  shows "(h, Reverse n) \<in> set (leaf_items (levels s)) \<longleftrightarrow> leaf_contains n h s"
proof -
  have "(k, hs) \<in> set (levels s) \<longleftrightarrow> bt_get (levels s) k = Some hs" for k hs
    using bt.entries_get [of "levels s" k hs] assms by (simp add: leaf_ok_def)
  then show ?thesis by (auto simp: leaf_items_def leaf_contains_def split: option.split)
qed

lemma distinct_leaf_items:
  "distinct (map fst m) \<Longrightarrow> (\<And>k hs. (k, hs) \<in> set m \<Longrightarrow> distinct hs) \<Longrightarrow> distinct (leaf_items m)"
proof (induction m)
  case (Cons x m)
  obtain k hs where x: "x = (k, hs)" by fastforce
  have "distinct (map (\<lambda>h. (h, k)) hs)" using Cons.prems(2) [of k hs] x by (simp add: distinct_map inj_on_def)
  moreover have "distinct (leaf_items m)" using Cons.IH Cons.prems by (auto intro: Cons.prems(2))
  moreover have "set (map (\<lambda>h. (h, k)) hs) \<inter> set (leaf_items m) = {}"
    using Cons.prems(1) x by (force simp: leaf_items_def)
  ultimately show ?case using x by (simp add: leaf_items_def)
qed (simp add: leaf_items_def)

lemma revert_items_ok:
  assumes "leaf_ok s" and "distinct items" and "\<And>h n. (h, Reverse n) \<in> set items \<Longrightarrow> leaf_contains n h s"
  shows "\<exists>t. revert_items b items s = Some t \<and> leaf_ok t
    \<and> (\<forall>n h. leaf_contains n h t \<longleftrightarrow> leaf_contains n h s \<and> \<not> (b < n \<and> (h, Reverse n) \<in> set items))"
  using assms
proof (induction items arbitrary: s)
  case (Cons x items)
  obtain h k where x: "x = (h, Reverse k)" by (metis surj_pair reverse.exhaust)
  show ?case
  proof (cases "b < k")
    case True
    obtain r where f: "remove_leaf (Reverse k) h s = (True, r)"
      using remove_leaf_spec(1) [of k h s] Cons.prems(3) [of h k] x by (metis list.set_intros(1) prod.collapse)
    let ?s = "r\<lparr>pending_removed := pending_removed r @ [h]\<rparr>"
    have c: "leaf_contains m g r \<longleftrightarrow> leaf_contains m g s \<and> \<not> (m = k \<and> g = h)" for m g
      using remove_leaf_spec(2) [of m g k h s] f by simp
    have "\<exists>t. revert_items b items ?s = Some t \<and> leaf_ok t
        \<and> (\<forall>n g. leaf_contains n g t \<longleftrightarrow> leaf_contains n g ?s \<and> \<not> (b < n \<and> (g, Reverse n) \<in> set items))"
    proof (rule Cons.IH)
      show "leaf_ok ?s" using remove_leaf_ok [OF Cons.prems(1), of k h] f by simp
      show "distinct items" using Cons.prems(2) by simp
      fix g m assume "(g, Reverse m) \<in> set items"
      then show "leaf_contains m g ?s" using Cons.prems(2,3) x by (auto simp: c)
    qed
    then show ?thesis using True f x by (auto simp: c)
  next
    case False
    have "\<exists>t. revert_items b items s = Some t \<and> leaf_ok t
        \<and> (\<forall>n g. leaf_contains n g t \<longleftrightarrow> leaf_contains n g s \<and> \<not> (b < n \<and> (g, Reverse n) \<in> set items))"
      by (rule Cons.IH) (use Cons.prems in auto)
    then show ?thesis using False x by auto
  qed
qed simp

lemma revert_ok:
  assumes "leaf_ok s"
  shows "\<exists>t. revert best_hash best_number s = Some t \<and> leaf_ok t
    \<and> leaves_of t = insert (best_number, best_hash) {(n, h) \<in> leaves_of s. n \<le> best_number}"
proof -
  have d: "distinct (leaf_items (levels s))"
    using assms by (intro distinct_leaf_items) (auto simp: leaf_ok_def bt_inv_def)
  obtain u where u: "revert_items best_number (leaf_items (levels s)) s = Some u" "leaf_ok u"
      "\<And>n h. leaf_contains n h u \<longleftrightarrow> leaf_contains n h s \<and> \<not> (best_number < n \<and> (h, Reverse n) \<in> set (leaf_items (levels s)))"
    using revert_items_ok [OF assms d] mem_leaf_items [OF assms] by blast
  have c: "leaf_contains n h u \<longleftrightarrow> leaf_contains n h s \<and> n \<le> best_number" for n h
    using u(3) mem_leaf_items [OF assms] by auto
  have b: "(case bt_get (levels u) (Reverse best_number) of None \<Rightarrow> False | Some hs \<Rightarrow> best_hash \<in> set hs)
      = leaf_contains best_number best_hash u" by (simp add: leaf_contains_def)
  show ?thesis
  proof (cases "leaf_contains best_number best_hash u")
    case True
    then show ?thesis using u(1,2) c by (auto simp: revert_def b Let_def leaves_of_def)
  next
    case False
    then show ?thesis using u(1,2) c insert_leaf_ok [OF u(2) False]
      by (auto simp: revert_def b Let_def leaves_of_def)
  qed
qed

section \<open>Listing and storing\<close>

lemma hashes_items: "hashes s = map fst (leaf_items (levels s))"
  by (simp add: hashes_def leaf_items_def map_concat comp_def case_prod_beta)

lemma set_hashes:
  assumes "leaf_ok s"
  shows "set (hashes s) = snd ` leaves_of s"
proof (rule set_eqI)
  fix h
  have "h \<in> set (hashes s) \<longleftrightarrow> (\<exists>k. (h, k) \<in> set (leaf_items (levels s)))"
    by (force simp: hashes_items)
  also have "\<dots> \<longleftrightarrow> (\<exists>n. (h, Reverse n) \<in> set (leaf_items (levels s)))"
    by (metis reverse.exhaust)
  also have "\<dots> \<longleftrightarrow> h \<in> snd ` leaves_of s"
    by (force simp: mem_leaf_items [OF assms] leaves_of_def)
  finally show "h \<in> set (hashes s) \<longleftrightarrow> h \<in> snd ` leaves_of s" .
qed

lemma fold_put_entries:
  "bt_inv m \<Longrightarrow> fold (\<lambda>(k, v). bt_put k v) m [] = m"
proof -
  assume inv: "bt_inv m"
  have "bt_append [] m = m"
  proof -
    have "distinct (map fst m)" using inv by (simp add: bt_inv_def)
    then have "bt_get (bt_append [] m) = bt_get m"
      by (simp add: bt_append_get bt_get_rev)
    moreover have "bt_inv (bt_append [] m)" by (intro bt_append_inv) simp
    ultimately show ?thesis using bt.entries_cong [OF _ inv] by simp
  qed
  then show ?thesis by (simp add: bt_append_def)
qed

lemma stored_levels:
  "fold (\<lambda>(number, hs). bt_put (Reverse number) hs) (map (\<lambda>(n, h). (unreverse n, h)) m) l
     = fold (\<lambda>(k, v). bt_put k v) m l"
  by (induction m arbitrary: l) auto

lemma store_round_trip:
  assumes "leaf_ok s"
  shows "read_from_db (Some (Inr (fst (prepare_transaction s)))) = Inr (snd (prepare_transaction s))"
  using assms fold_put_entries [of "levels s"]
  by (simp add: read_from_db_def prepare_transaction_def stored_levels leaf_ok_def leaf_set_new_def)

lemma levels_numbers: "leaf_ok s \<Longrightarrow> (\<lambda>(k, _). unreverse k) ` set (levels s) = fst ` leaves_of s"
proof -
  assume ok: "leaf_ok s"
  have "(\<exists>hs. (Reverse n, hs) \<in> set (levels s)) \<longleftrightarrow> (\<exists>h. leaf_contains n h s)" for n
  proof -
    have "(\<exists>hs. (Reverse n, hs) \<in> set (levels s)) \<longleftrightarrow> (\<exists>hs. bt_get (levels s) (Reverse n) = Some hs)"
      using ok by (simp add: leaf_ok_def bt_inv_def)
    also have "\<dots> \<longleftrightarrow> (\<exists>h. leaf_contains n h s)"
      using ok by (auto simp: leaf_ok_def leaf_contains_def neq_Nil_conv split: option.splits) (metis list.set_intros(1))
    finally show ?thesis .
  qed
  then show ?thesis by (force simp: leaves_of_def) 
qed

lemma levels_count: "leaf_ok s \<Longrightarrow> leaf_count s = card (fst ` leaves_of s)"
proof -
  assume ok: "leaf_ok s"
  have "inj_on unreverse A" for A :: "nat reverse set" by (auto simp: inj_on_def reverse_eq_iff)
  moreover have "(\<lambda>(k, _). unreverse k) ` set (levels s) = unreverse ` set (map fst (levels s))" by force
  moreover have "card (set (map fst (levels s))) = leaf_count s"
    using ok by (simp add: distinct_card leaf_count_def leaf_ok_def bt_inv_def del: set_map)
  ultimately show ?thesis using levels_numbers [OF ok] by (metis card_image)
qed

lemma leaf_contains_new: "\<not> leaf_contains n h leaf_set_new"
  by (simp add: leaf_contains_def leaf_set_new_def)

lemma leaf_set_new_ok: "leaf_ok leaf_set_new"
  by (simp add: leaf_ok_def leaf_set_new_def)

section \<open>Properties\<close>

text \<open>
  Finalising a height displaces exactly the leaves below it, and undoing with what was displaced
  gives back the leaf set as it was, without pending changes.
\<close>

theorem leaf_finalization_undone:
  assumes "leaf_ok s" and "finalize_height number s = (d, t)"
  shows "leaves_of t = {(n, h) \<in> leaves_of s. number \<le> n} \<and> leaf_ok t
    \<and> set (displaced_hashes d) = snd ` {(n, h) \<in> leaves_of s. n < number}
    \<and> undo_drop (undo_finalization d t) = undo_drop s"
proof -
  note f = finalize_height_spec [OF assms(1)]
  have t: "leaf_contains n h t \<longleftrightarrow> leaf_contains n h s \<and> number \<le> n" for n h
    using f(2) [of n h number] assms(2) by simp
  have "leaf_ok t" using f(1) [of number] assms(2) by simp
  moreover have "undo_finalization d t = s\<lparr>pending_removed := pending_removed t\<rparr>"
    using f(3) [of number] assms(2) by simp
  moreover have "set (displaced_hashes d) = snd ` {(n, h) \<in> leaves_of s. n < number}"
  proof (cases "number = 0")
    case True
    then show ?thesis using assms(2) by (auto simp: finalize_height_def displaced_hashes_def)
  next
    case False
    let ?b = "leaf_set_new\<lparr>levels := displaced_leaves d\<rparr>"
    have d: "displaced_leaves d = filter (\<lambda>(k, _). unreverse k \<le> number - Suc 0) (levels s)"
      using False assms(2) by (auto simp: finalize_height_def bt_split_off_def less_eq_reverse_def Let_def)
    have "leaf_ok ?b" using assms(1) by (auto simp: d leaf_ok_def bt_inv_filter_key
          bt_get_filter_key [where P = "\<lambda>k. unreverse k \<le> number - Suc 0"] split: if_splits)
    moreover have "leaves_of ?b = {(n, h) \<in> leaves_of s. n < number}"
      using False by (auto simp: d leaves_of_def leaf_contains_def
          bt_get_filter_key [where P = "\<lambda>k. unreverse k \<le> number - Suc 0"] split: option.splits if_splits)
    ultimately show ?thesis using set_hashes [of ?b] by (simp add: hashes_def displaced_hashes_def)
  qed
  ultimately show ?thesis using t by (auto simp: leaves_of_def undo_drop_def)
qed

theorem leaf_finalization_undone_witness:
  "let s = snd (leaf_import 11 1 10 (snd (leaf_import (10 :: nat) 0 0 leaf_set_new)));
       (d, t) = finalize_height 2 s
   in undo_drop (undo_finalization d t) = undo_drop s"
proof -
  let ?g = "snd (leaf_import (10 :: nat) 0 0 leaf_set_new)"
  let ?s = "snd (leaf_import 11 1 10 ?g)"
  have "leaf_ok ?g" "\<not> leaf_contains 1 11 ?g"
    using leaf_import_spec(1,2) [OF leaf_set_new_ok, where number = 0 and hash = "10 :: nat" and parent = 0]
    by (simp_all add: leaf_contains_new)
  then have "leaf_ok ?s" by (rule leaf_import_spec(1))
  from leaf_finalization_undone [OF this, of 2 "fst (finalize_height 2 ?s)" "snd (finalize_height 2 ?s)"]
  show ?thesis by (simp add: Let_def case_prod_beta)
qed

text \<open>
  Undoing an import does not put the displaced parent back: it is inserted with the number of its
  child, and with its own number it is no leaf.
\<close>

theorem undo_import_misplaces:
  assumes "leaf_ok s" and "leaf_contains n parent s" and "\<not> leaf_contains (Suc n) hash s"
    and "leaf_import hash (Suc n) parent s = (Some d, t)"
  shows "leaf_contains (Suc n) parent (undo_import d t) \<and> \<not> leaf_contains n parent (undo_import d t)"
proof -
  note i = leaf_import_spec [OF assms(1,3), where parent = parent]
  have d: "d = \<lparr>new_hash = hash, displaced = \<lparr>item_hash = parent, item_number = Reverse n\<rparr>\<rparr>"
    using i(3) assms(2,4) by simp
  have "\<not> leaf_contains n parent t" using i(2) [of n parent] assms(4) by auto
  then show ?thesis
    using remove_leaf_spec(2) [of n parent "Suc n" hash t]
    by (simp add: undo_import_def d case_prod_beta Let_def)
qed

theorem undo_import_misplaces_witness:
  "let s = snd (leaf_import (10 :: nat) 0 0 leaf_set_new);
       (d, t) = leaf_import 11 1 10 s
   in leaf_contains 0 10 s \<and> \<not> leaf_contains 0 10 (undo_import (the d) t)"
proof -
  let ?s = "snd (leaf_import (10 :: nat) 0 0 leaf_set_new)"
  have s: "leaf_ok ?s" "leaf_contains 0 10 ?s" "\<not> leaf_contains (Suc 0) 11 ?s"
    using leaf_import_spec(1,2) [OF leaf_set_new_ok, where number = 0 and hash = "10 :: nat" and parent = 0]
    by (simp_all add: leaf_contains_new)
  obtain d where "leaf_import 11 (Suc 0) 10 ?s = (Some d, snd (leaf_import 11 (Suc 0) 10 ?s))"
    using leaf_import_spec(3) [OF s(1,3), where parent = 10] s(2) by (simp add: prod_eq_iff)
  from undo_import_misplaces [OF s this] show ?thesis
    using s(2) by (simp add: case_prod_beta Let_def) (metis One_nat_def fst_conv option.sel \<open>leaf_import 11 (Suc 0) 10 ?s = _\<close>)
qed

text \<open>
  The count of leaves is the number of heights that have a leaf: two leaves of the same height are
  counted once.
\<close>

theorem leaf_count_counts_heights:
  assumes "leaf_ok s"
  shows "leaf_count s = card (fst ` leaves_of s)
    \<and> (n \<in> fst ` leaves_of s \<longrightarrow> \<not> leaf_contains n h s \<longrightarrow> leaf_count (insert_leaf (Reverse n) h s) = leaf_count s)"
proof -
  have "leaf_count (insert_leaf (Reverse n) h s) = leaf_count s"
    if "n \<in> fst ` leaves_of s" "\<not> leaf_contains n h s"
  proof -
    have "leaves_of (insert_leaf (Reverse n) h s) = insert (n, h) (leaves_of s)"
      by (auto simp: leaves_of_def)
    then show ?thesis
      using levels_count [OF insert_leaf_ok [OF assms that(2)]] levels_count [OF assms] that(1)
      by (simp add: insert_absorb)
  qed
  then show ?thesis using levels_count [OF assms] by blast
qed

theorem leaf_count_counts_heights_witness:
  "leaf_count (insert_leaf (Reverse 1) 12 (insert_leaf (Reverse 1) (11 :: nat) leaf_set_new)) = 1"
proof -
  let ?s = "insert_leaf (Reverse 1) (11 :: nat) leaf_set_new"
  have l: "leaves_of ?s = {(1, 11)}" by (auto simp: leaves_of_def leaf_contains_new)
  from leaf_count_counts_heights [OF insert_leaf_ok [OF leaf_set_new_ok leaf_contains_new], of 1 "11 :: nat" 1 12]
  show ?thesis using l by (simp add: leaf_contains_new)
qed

end
