(* ===== verification/In_Mem_Chain.thy ===== *)
theory In_Mem_Chain
  imports Leaf_Set
begin

text \<open>
  The blockchain kept in memory (\<open>client/api/src/in_mem.rs\<close>, \<open>Blockchain\<close>): the blocks by
  hash, the canonical chain by number, the best and the finalised block, and the leaf set.  It is the
  provider of header metadata without a cache, and reorganises the canonical chain along tree routes.
  The hash of a header is a parameter \<open>hash_of\<close>.  \<open>None\<close> stands for a panic.
\<close>

section \<open>State\<close>

type_synonym justification = "u8 list \<times> u8 list"

datatype justifications = Justifications "justification list"

fun justifications_get :: "u8 list \<Rightarrow> justifications \<Rightarrow> u8 list option" where
  "justifications_get engine_id (Justifications js) = map_option snd (find (\<lambda>j. fst j = engine_id) js)"

fun justifications_append :: "justification \<Rightarrow> justifications \<Rightarrow> bool \<times> justifications" where
  "justifications_append j (Justifications js) =
     (if justifications_get (fst j) (Justifications js) \<noteq> None then (False, Justifications js)
      else (True, Justifications (js @ [j])))"

definition justifications_from :: "justification \<Rightarrow> justifications" where
  "justifications_from j = Justifications [j]"

record ('h, 'r) header =
  hdr_number :: nat
  hdr_parent_hash :: 'h
  hdr_state_root :: 'h
  hdr_rest :: 'r

datatype ('h, 'r, 'x) stored_block =
    HeaderOnly "('h, 'r) header" "justifications option"
  | FullBlock "('h, 'r) header" "'x list" "justifications option"

definition stored_block_new ::
    "('h, 'r) header \<Rightarrow> 'x list option \<Rightarrow> justifications option \<Rightarrow> ('h, 'r, 'x) stored_block" where
  "stored_block_new hdr body just =
     (case body of Some b \<Rightarrow> FullBlock hdr b just | None \<Rightarrow> HeaderOnly hdr just)"

fun block_header :: "('h, 'r, 'x) stored_block \<Rightarrow> ('h, 'r) header" where
  "block_header (HeaderOnly hdr _) = hdr"
| "block_header (FullBlock hdr _ _) = hdr"

fun block_justifications :: "('h, 'r, 'x) stored_block \<Rightarrow> justifications option" where
  "block_justifications (HeaderOnly _ j) = j"
| "block_justifications (FullBlock _ _ j) = j"

fun set_justifications :: "justifications option \<Rightarrow> ('h, 'r, 'x) stored_block \<Rightarrow> ('h, 'r, 'x) stored_block" where
  "set_justifications j (HeaderOnly hdr _) = HeaderOnly hdr j"
| "set_justifications j (FullBlock hdr b _) = FullBlock hdr b j"

fun block_extrinsics :: "('h, 'r, 'x) stored_block \<Rightarrow> 'x list option" where
  "block_extrinsics (HeaderOnly _ _) = None"
| "block_extrinsics (FullBlock _ b _) = Some b"

fun block_into_inner ::
    "('h, 'r, 'x) stored_block \<Rightarrow> ('h, 'r) header \<times> 'x list option \<times> justifications option" where
  "block_into_inner (HeaderOnly hdr j) = (hdr, None, j)"
| "block_into_inner (FullBlock hdr b j) = (hdr, Some b, j)"

datatype new_block_state = Normal | Best | Final

fun is_best :: "new_block_state \<Rightarrow> bool" where
  "is_best Normal = False"
| "is_best Best = True"
| "is_best Final = True"

datatype 'h block_id = BlockHash 'h | BlockNumber nat

datatype 'h chain_error = UnknownBlock "'h block_id" | BadJustification | MissingCht nat

record ('h, 'r, 'x) blockchain_storage =
  blocks :: "'h \<rightharpoonup> ('h, 'r, 'x) stored_block"
  hashes_at :: "nat \<rightharpoonup> 'h"
  best_hash :: 'h
  best_number :: nat
  finalized_hash :: 'h
  finalized_number :: nat
  genesis_hash :: 'h
  header_cht_roots :: "nat \<rightharpoonup> 'h"
  changes_trie_cht_roots :: "nat \<rightharpoonup> 'h"
  leaves :: "'h leaf_set"
  aux :: "u8 list \<rightharpoonup> u8 list"

definition blockchain_new :: "('h::zero, 'r, 'x) blockchain_storage" where
  "blockchain_new =
     \<lparr>blocks = Map.empty, hashes_at = Map.empty, best_hash = 0, best_number = 0, finalized_hash = 0,
      finalized_number = 0, genesis_hash = 0, header_cht_roots = Map.empty,
      changes_trie_cht_roots = Map.empty, leaves = leaf_set_new, aux = Map.empty\<rparr>"

section \<open>Reading\<close>

fun chain_id :: "'h block_id \<Rightarrow> ('h, 'r, 'x) blockchain_storage \<Rightarrow> 'h option" where
  "chain_id (BlockHash h) s = Some h"
| "chain_id (BlockNumber n) s = hashes_at s n"

definition chain_header :: "'h block_id \<Rightarrow> ('h, 'r, 'x) blockchain_storage \<Rightarrow> ('h, 'r) header option" where
  "chain_header bid s = Option.bind (chain_id bid s) (\<lambda>h. map_option block_header (blocks s h))"

definition chain_status :: "'h block_id \<Rightarrow> ('h, 'r, 'x) blockchain_storage \<Rightarrow> bool" where
  "chain_status bid s = (case chain_id bid s of None \<Rightarrow> False | Some h \<Rightarrow> blocks s h \<noteq> None)"

definition chain_number :: "'h \<Rightarrow> ('h, 'r, 'x) blockchain_storage \<Rightarrow> nat option" where
  "chain_number h s = map_option (\<lambda>b. hdr_number (block_header b)) (blocks s h)"

definition chain_hash :: "nat \<Rightarrow> ('h, 'r, 'x) blockchain_storage \<Rightarrow> 'h option" where
  "chain_hash n s = chain_id (BlockNumber n) s"

definition chain_body :: "'h block_id \<Rightarrow> ('h, 'r, 'x) blockchain_storage \<Rightarrow> 'x list option" where
  "chain_body bid s = Option.bind (chain_id bid s) (\<lambda>h. Option.bind (blocks s h) block_extrinsics)"

definition chain_justifications ::
    "'h block_id \<Rightarrow> ('h, 'r, 'x) blockchain_storage \<Rightarrow> justifications option" where
  "chain_justifications bid s = Option.bind (chain_id bid s) (\<lambda>h. Option.bind (blocks s h) block_justifications)"

record 'h chain_info =
  info_best_hash :: 'h
  info_best_number :: nat
  info_genesis_hash :: 'h
  info_finalized_hash :: 'h
  info_finalized_number :: nat
  info_finalized_state :: "('h \<times> nat) option"
  info_number_leaves :: nat

definition chain_info_of :: "('h::zero, 'r, 'x) blockchain_storage \<Rightarrow> 'h chain_info" where
  "chain_info_of s =
     \<lparr>info_best_hash = best_hash s, info_best_number = best_number s, info_genesis_hash = genesis_hash s,
      info_finalized_hash = finalized_hash s, info_finalized_number = finalized_number s,
      info_finalized_state =
        (if finalized_hash s \<noteq> 0 then Some (finalized_hash s, finalized_number s) else None),
      info_number_leaves = leaf_count (leaves s)\<rparr>"

definition block_hash_from_id :: "'h block_id \<Rightarrow> ('h, 'r, 'x) blockchain_storage \<Rightarrow> 'h option" where
  "block_hash_from_id bid s = (case bid of BlockHash h \<Rightarrow> Some h | BlockNumber n \<Rightarrow> chain_hash n s)"

definition expect_block_hash_from_id ::
    "'h block_id \<Rightarrow> ('h, 'r, 'x) blockchain_storage \<Rightarrow> 'h chain_error + 'h" where
  "expect_block_hash_from_id bid s = ok_or (block_hash_from_id bid s) (UnknownBlock bid)"

text \<open>\<open>From<&Header> for CachedHeaderMetadata\<close> and the provider of metadata.\<close>

definition metadata_from :: "(('h, 'r) header \<Rightarrow> 'h) \<Rightarrow> ('h, 'r) header \<Rightarrow> 'h cached_header_metadata" where
  "metadata_from hash_of hdr =
     \<lparr>meta_hash = hash_of hdr, meta_number = hdr_number hdr, meta_parent = hdr_parent_hash hdr,
      meta_state_root = hdr_state_root hdr, meta_ancestor = hdr_parent_hash hdr\<rparr>"

definition in_mem_metadata ::
    "(('h, 'r) header \<Rightarrow> 'h) \<Rightarrow> ('h, 'h chain_error, ('h, 'r, 'x) blockchain_storage) metadata_op" where
  "in_mem_metadata hash_of h s =
     (case chain_header (BlockHash h) s of
        Some hdr \<Rightarrow> (Inr (metadata_from hash_of hdr), s)
      | None \<Rightarrow> (Inl (UnknownBlock (BlockHash h)), s))"

definition in_mem_insert_metadata :: "('h, ('h, 'r, 'x) blockchain_storage) insert_op" where
  "in_mem_insert_metadata h m s = s"

section \<open>Writing\<close>

definition reorganise ::
    "'h hash_and_number list \<Rightarrow> 'h hash_and_number list \<Rightarrow> (nat \<rightharpoonup> 'h) \<Rightarrow> (nat \<rightharpoonup> 'h)" where
  "reorganise en re m =
     fold (\<lambda>entry m. m(hn_number entry := None)) (drop (length en) re)
       (fold (\<lambda>entry m. m(hn_number entry \<mapsto> hn_hash entry)) en m)"

definition best_route ::
    "(('h, 'r) header \<Rightarrow> 'h) \<Rightarrow> ('h, 'r) header \<Rightarrow> ('h, 'r, 'x) blockchain_storage
      \<Rightarrow> (('h chain_error + 'h tree_route option) \<times> ('h, 'r, 'x) blockchain_storage) option" where
  "best_route hash_of hdr s =
     (if best_hash s = hdr_parent_hash hdr then Some (Inr None, s)
      else try_run (compute_tree_route (in_mem_metadata hash_of) (best_hash s) (hdr_parent_hash hdr) s)
        (\<lambda>r s. Some (Inr (Some r), s)))"

definition apply_head ::
    "(('h, 'r) header \<Rightarrow> 'h) \<Rightarrow> ('h, 'r) header \<Rightarrow> ('h, 'r, 'x) blockchain_storage
      \<Rightarrow> (('h chain_error + unit) \<times> ('h, 'r, 'x) blockchain_storage) option" where
  "apply_head hash_of hdr s =
     try_run (best_route hash_of hdr s) (\<lambda>best_tree_route s.
       let hash = hash_of hdr;
           number = hdr_number hdr;
           finish = (\<lambda>m. Some (Inr (), s\<lparr>best_hash := hash, best_number := number, hashes_at := m(number \<mapsto> hash)\<rparr>))
       in case best_tree_route of
            None \<Rightarrow> finish (hashes_at s)
          | Some r \<Rightarrow>
              (case enacted r of
                 None \<Rightarrow> None
               | Some en \<Rightarrow>
                   (case retracted r of
                      None \<Rightarrow> None
                    | Some re \<Rightarrow> finish (reorganise en re (hashes_at s)))))"

definition store_block ::
    "'h \<Rightarrow> ('h, 'r) header \<Rightarrow> justifications option \<Rightarrow> 'x list option \<Rightarrow> new_block_state
      \<Rightarrow> ('h, 'r, 'x) blockchain_storage \<Rightarrow> ('h, 'r, 'x) blockchain_storage" where
  "store_block hash hdr just body new_state s =
     (let number = hdr_number hdr;
          s1 = s\<lparr>leaves := snd (leaf_import hash number (hdr_parent_hash hdr) (leaves s)),
                 blocks := (blocks s)(hash \<mapsto> stored_block_new hdr body just)\<rparr>;
          s2 = (if new_state = Final then s1\<lparr>finalized_hash := hash, finalized_number := number\<rparr> else s1)
      in if number = 0 then s2\<lparr>genesis_hash := hash\<rparr> else s2)"

definition chain_insert ::
    "(('h, 'r) header \<Rightarrow> 'h) \<Rightarrow> 'h \<Rightarrow> ('h, 'r) header \<Rightarrow> justifications option \<Rightarrow> 'x list option
      \<Rightarrow> new_block_state \<Rightarrow> ('h, 'r, 'x) blockchain_storage
      \<Rightarrow> (('h chain_error + unit) \<times> ('h, 'r, 'x) blockchain_storage) option" where
  "chain_insert hash_of hash hdr just body new_state s =
     try_run (if is_best new_state then apply_head hash_of hdr s else Some (Inr (), s))
       (\<lambda>_ s. Some (Inr (), store_block hash hdr just body new_state s))"

definition set_head ::
    "(('h, 'r) header \<Rightarrow> 'h) \<Rightarrow> 'h block_id \<Rightarrow> ('h, 'r, 'x) blockchain_storage
      \<Rightarrow> (('h chain_error + unit) \<times> ('h, 'r, 'x) blockchain_storage) option" where
  "set_head hash_of bid s =
     (case chain_header bid s of
        None \<Rightarrow> Some (Inl (UnknownBlock bid), s)
      | Some hdr \<Rightarrow> apply_head hash_of hdr s)"

definition finalize_header ::
    "(('h, 'r) header \<Rightarrow> 'h) \<Rightarrow> 'h block_id \<Rightarrow> justification option \<Rightarrow> ('h, 'r, 'x) blockchain_storage
      \<Rightarrow> (('h chain_error + unit) \<times> ('h, 'r, 'x) blockchain_storage) option" where
  "finalize_header hash_of bid just s =
     (case chain_header bid s of
        None \<Rightarrow> Some (Inl (UnknownBlock bid), s)
      | Some hdr \<Rightarrow>
          let hash = hash_of hdr; s1 = s\<lparr>finalized_hash := hash\<rparr>
          in case just of
               None \<Rightarrow> Some (Inr (), s1)
             | Some j \<Rightarrow>
                 (case blocks s1 hash of
                    None \<Rightarrow> None
                  | Some b \<Rightarrow> Some (Inr (), s1\<lparr>blocks := (blocks s1)(hash \<mapsto>
                      set_justifications (Some (justifications_from j)) b)\<rparr>)))"

definition append_justification ::
    "'h block_id \<Rightarrow> justification \<Rightarrow> ('h, 'r, 'x) blockchain_storage
      \<Rightarrow> (('h chain_error + unit) \<times> ('h, 'r, 'x) blockchain_storage) option" where
  "append_justification bid just s =
     (case expect_block_hash_from_id bid s of
        Inl e \<Rightarrow> Some (Inl e, s)
      | Inr hash \<Rightarrow>
          (case blocks s hash of
             None \<Rightarrow> None
           | Some b \<Rightarrow>
               (case block_justifications b of
                  Some stored \<Rightarrow>
                    (case justifications_append just stored of
                       (False, js) \<Rightarrow> Some (Inl BadJustification, s)
                     | (True, js) \<Rightarrow> Some (Inr (), s\<lparr>blocks := (blocks s)(hash \<mapsto> set_justifications (Some js) b)\<rparr>))
                | None \<Rightarrow>
                    Some (Inr (), s\<lparr>blocks := (blocks s)(hash \<mapsto>
                      set_justifications (Some (justifications_from just)) b)\<rparr>))))"

definition write_aux ::
    "(u8 list \<times> u8 list option) list \<Rightarrow> ('h, 'r, 'x) blockchain_storage \<Rightarrow> ('h, 'r, 'x) blockchain_storage" where
  "write_aux ops s = s\<lparr>aux := fold (\<lambda>(k, v) m. m(k := v)) ops (aux s)\<rparr>"

definition insert_aux ::
    "(u8 list \<times> u8 list) list \<Rightarrow> u8 list list \<Rightarrow> ('h, 'r, 'x) blockchain_storage
      \<Rightarrow> ('h, 'r, 'x) blockchain_storage" where
  "insert_aux ins del s =
     s\<lparr>aux := fold (\<lambda>k m. m(k := None)) del (fold (\<lambda>(k, v) m. m(k \<mapsto> v)) ins (aux s))\<rparr>"

definition insert_cht_root :: "nat \<Rightarrow> 'h \<Rightarrow> ('h, 'r, 'x) blockchain_storage \<Rightarrow> ('h, 'r, 'x) blockchain_storage" where
  "insert_cht_root block cht_root s = s\<lparr>header_cht_roots := (header_cht_roots s)(block \<mapsto> cht_root)\<rparr>"

definition import_header ::
    "(('h, 'r) header \<Rightarrow> 'h) \<Rightarrow> ('h, 'r) header \<Rightarrow> new_block_state \<Rightarrow> (u8 list \<times> u8 list option) list
      \<Rightarrow> ('h, 'r, 'x) blockchain_storage \<Rightarrow> (('h chain_error + unit) \<times> ('h, 'r, 'x) blockchain_storage) option" where
  "import_header hash_of hdr st aux_ops s =
     try_run (chain_insert hash_of (hash_of hdr) hdr None None st s)
       (\<lambda>_ s. Some (Inr (), write_aux aux_ops s))"

section \<open>The tree of stored headers\<close>

definition chain_of :: "('h, 'r, 'x) blockchain_storage \<Rightarrow> 'h header_table" where
  "chain_of s h = map_option (\<lambda>b. (hdr_number (block_header b), hdr_parent_hash (block_header b))) (blocks s h)"

definition in_mem_ok :: "(('h, 'r) header \<Rightarrow> 'h) \<Rightarrow> ('h, 'r, 'x) blockchain_storage \<Rightarrow> bool" where
  "in_mem_ok hash_of s = (valid_chain (chain_of s)
     \<and> (\<forall>h b. blocks s h = Some b \<longrightarrow> hash_of (block_header b) = h))"

lemma anc_parent_of:
  assumes "valid_chain c" and "c h = Some (Suc n, p)"
  shows "anc c p h" and "p \<noteq> h"
proof -
  obtain q where q: "c p = Some (n, q)" using valid_parent [OF assms] by blast
  show "anc c p h" using assms(2) q by (blast intro: anc_parent anc_self)
  show "p \<noteq> h" using q assms(2) by auto
qed

interpretation mem: header_backend "in_mem_metadata hash_of" in_mem_insert_metadata chain_of "in_mem_ok hash_of" for hash_of
proof (unfold_locales, goal_cases)
  case (1 s h n p)
  then obtain b where b: "blocks s h = Some b" "n = hdr_number (block_header b)" "p = hdr_parent_hash (block_header b)"
    by (auto simp: chain_of_def)
  have "0 < n \<Longrightarrow> anc (chain_of s) p h \<and> p \<noteq> h"
    using anc_parent_of [of "chain_of s" h "n - 1" p] 1 by (auto simp: in_mem_ok_def)
  then show ?case using 1 b
    by (auto simp: in_mem_metadata_def chain_header_def metadata_from_def describes_def in_mem_ok_def)
next
  case (2 s h)
  then show ?case by (auto simp: in_mem_metadata_def chain_header_def chain_of_def)
next
  case (3 s m)
  then show ?case by (simp add: in_mem_insert_metadata_def)
next
  case (4 s)
  then show ?case by (simp add: in_mem_ok_def)
qed

text \<open>Reading changes nothing.\<close>

lemma route_up_same:
  assumes "route_up (in_mem_metadata hash_of) m n br s = Some (r, t)"
  shows "t = s"
proof -
  have "f = in_mem_metadata hash_of \<longrightarrow> snd y = s" if "route_up f m n br s = Some y" for f m n br s y
    by (rule route_up.raw_induct [where P = "\<lambda>f m n br s y. f = in_mem_metadata hash_of \<longrightarrow> snd y = s", OF _ that])
       (auto simp: in_mem_metadata_def split: if_splits option.splits prod.splits sum.splits)
  from this [OF assms] show ?thesis by simp
qed

lemma route_meet_same:
  assumes "route_meet (in_mem_metadata hash_of) to from tb fb s = Some (r, t)"
  shows "t = s"
proof -
  have "f = in_mem_metadata hash_of \<longrightarrow> snd y = s" if "route_meet f to from tb fb s = Some y" for f to "from" tb fb s y
    by (rule route_meet.raw_induct [where P = "\<lambda>f to from tb fb s y. f = in_mem_metadata hash_of \<longrightarrow> snd y = s", OF _ that])
       (auto simp: in_mem_metadata_def split: if_splits option.splits prod.splits sum.splits)
  from this [OF assms] show ?thesis by simp
qed

lemma try_run_Some:
  "try_run r k = Some (Inr b, t) \<longleftrightarrow> (\<exists>a s. r = Some (Inr a, s) \<and> k a s = Some (Inr b, t))"
  by (cases "(r, k)" rule: try_run.cases) auto

lemma in_mem_metadata_same: "in_mem_metadata hash_of h s = (r, t) \<Longrightarrow> t = s"
  by (auto simp: in_mem_metadata_def split: option.splits)

lemma tree_route_same:
  assumes "compute_tree_route (in_mem_metadata hash_of) a b s = Some (Inr r, t)"
  shows "t = s"
  using assms unfolding compute_tree_route_def
  by (auto simp: try_run_Some dest!: in_mem_metadata_same route_up_same route_meet_same)

section \<open>The canonical chain\<close>

definition canonical :: "'h header_table \<Rightarrow> (nat \<rightharpoonup> 'h) \<Rightarrow> 'h \<Rightarrow> bool" where
  "canonical c m b = (\<forall>n h. m n = Some h \<longleftrightarrow> anc c h b \<and> num c h = n)"

lemma anc_at:
  assumes v: "valid_chain c"
  shows "c a \<noteq> None \<Longrightarrow> n \<le> num c a \<Longrightarrow> \<exists>h. anc c h a \<and> num c h = n"
proof (induction "num c a" arbitrary: a)
  case 0
  then show ?case by (auto intro: anc_self)
next
  case (Suc k)
  obtain p where p: "c a = Some (Suc k, p)" using Suc.hyps(2) Suc.prems(1) by (auto simp: num_def)
  obtain q where q: "c p = Some (k, q)" using valid_parent [OF v p] by blast
  show ?case
  proof (cases "n = Suc k")
    case True
    then show ?thesis using p by (auto simp: num_def intro: anc_self)
  next
    case False
    then have "\<exists>h. anc c h p \<and> num c h = n"
      using Suc.hyps(1) [of p] q Suc.prems(2) Suc.hyps(2) by (simp add: num_def)
    then show ?thesis using p by (auto intro: anc_parent)
  qed
qed

lemma walks_mem:
  assumes v: "valid_chain c"
  shows "walks c a xs l \<Longrightarrow> c a \<noteq> None \<Longrightarrow> x \<in> set xs \<longleftrightarrow> anc c x a \<and> num c l < num c x"
proof (induction xs arbitrary: a)
  case Nil
  then show ?case using anc_num [OF v, of x a] by auto
next
  case (Cons y xs)
  then obtain n p where p: "c a = Some (Suc n, p)" "walks c p xs l" "y = a" by auto
  obtain q where q: "c p = Some (n, q)" using valid_parent [OF v p(1)] by blast
  have "num c l + length xs = num c p" by (rule walks_length [OF v p(2) q])
  then have "num c l < num c a" using p(1) q by (simp add: num_def)
  moreover have "anc c x a \<longleftrightarrow> x = a \<or> anc c x p" using p(1) by (auto elim: ancE intro: anc_self anc_parent)
  ultimately show ?case using Cons.IH [OF p(2)] q p(3) by auto
qed

lemma branch_mem:
  assumes "valid_chain c" and "branch_of c a br l" and "c a \<noteq> None"
  shows "(\<exists>e\<in>set br. hn_number e = n \<and> hn_hash e = h) \<longleftrightarrow> anc c h a \<and> num c h = n \<and> num c l < n"
proof -
  have m: "h \<in> hn_hash ` set br \<longleftrightarrow> anc c h a \<and> num c l < num c h" for h
    using walks_mem [OF assms(1), of a "map hn_hash br" l h] assms(2,3) by (simp add: branch_of_def)
  have n: "e \<in> set br \<Longrightarrow> hn_number e = num c (hn_hash e)" for e using assms(2) by (simp add: branch_of_def)
  show ?thesis
  proof
    assume "\<exists>e\<in>set br. hn_number e = n \<and> hn_hash e = h"
    then show "anc c h a \<and> num c h = n \<and> num c l < n" using m [of h] n by force
  next
    assume h: "anc c h a \<and> num c h = n \<and> num c l < n"
    then obtain e where "e \<in> set br" "h = hn_hash e" using m [of h] by blast
    then show "\<exists>e\<in>set br. hn_number e = n \<and> hn_hash e = h" using n h by auto
  qed
qed

lemma fold_enact:
  assumes "\<And>e e'. e \<in> set en \<Longrightarrow> e' \<in> set en \<Longrightarrow> hn_number e = hn_number e' \<Longrightarrow> hn_hash e = hn_hash e'"
  shows "fold (\<lambda>e m. m(hn_number e \<mapsto> hn_hash e)) en m n = Some h \<longleftrightarrow>
    (\<exists>e\<in>set en. hn_number e = n \<and> hn_hash e = h) \<or> (\<forall>e\<in>set en. hn_number e \<noteq> n) \<and> m n = Some h"
  using assms
proof (induction en arbitrary: m)
  case (Cons e en)
  have ih: "fold (\<lambda>e m. m(hn_number e \<mapsto> hn_hash e)) en (m(hn_number e \<mapsto> hn_hash e)) n = Some h \<longleftrightarrow>
      (\<exists>e\<in>set en. hn_number e = n \<and> hn_hash e = h)
      \<or> (\<forall>e\<in>set en. hn_number e \<noteq> n) \<and> (m(hn_number e \<mapsto> hn_hash e)) n = Some h"
    by (rule Cons.IH) (rule Cons.prems; simp)
  show ?case
  proof (cases "hn_number e = n")
    case True
    have same: "\<forall>e'\<in>set en. hn_number e' = n \<longrightarrow> hn_hash e' = hn_hash e"
      using True by (intro ballI impI Cons.prems) simp_all
    have "fold (\<lambda>e m. m(hn_number e \<mapsto> hn_hash e)) (e # en) m n = Some h \<longleftrightarrow>
        (\<exists>e'\<in>set en. hn_number e' = n \<and> hn_hash e' = h) \<or> (\<forall>e'\<in>set en. hn_number e' \<noteq> n) \<and> hn_hash e = h"
      using ih by (simp add: True)
    also have "\<dots> \<longleftrightarrow> hn_hash e = h"
      using same by (cases "\<exists>e'\<in>set en. hn_number e' = n") (metis, metis)
    also have "\<dots> \<longleftrightarrow> (\<exists>e'\<in>set (e # en). hn_number e' = n \<and> hn_hash e' = h)
        \<or> (\<forall>e'\<in>set (e # en). hn_number e' \<noteq> n) \<and> m n = Some h"
      using same True by (metis list.set_intros(1) set_ConsD)
    finally show ?thesis .
  next
    case False
    then show ?thesis using ih by (simp del: fun_upd_apply add: fun_upd_other)
  qed
qed simp

lemma fold_retract:
  "fold (\<lambda>e m. m(hn_number e := None)) xs m n = (if n \<in> hn_number ` set xs then None else m n)"
  by (induction xs arbitrary: m) auto

lemma fold_enact_branch:
  assumes v: "valid_chain c" and b: "branch_of c a (rev en) l" and a: "c a \<noteq> None"
  shows "fold (\<lambda>e m. m(hn_number e \<mapsto> hn_hash e)) en m n = Some h \<longleftrightarrow>
    anc c h a \<and> num c h = n \<and> num c l < n \<or> \<not> (num c l < n \<and> n \<le> num c a) \<and> m n = Some h"
proof -
  note mem = branch_mem [OF v b a, unfolded set_rev]
  have ex: "(\<exists>h. anc c h a \<and> num c h = n \<and> num c l < n) \<longleftrightarrow> num c l < n \<and> n \<le> num c a" for n
    using anc_at [OF v a] anc_num [OF v] by blast
  have none: "(\<forall>e\<in>set en. hn_number e \<noteq> n) \<longleftrightarrow> \<not> (num c l < n \<and> n \<le> num c a)"
    using mem [of n] ex [of n] by blast
  have fn: "hn_hash e = hn_hash e'" if "e \<in> set en" "e' \<in> set en" "hn_number e = hn_number e'" for e e'
  proof -
    have e: "anc c (hn_hash e) a" "num c (hn_hash e) = hn_number e"
      using mem [of "hn_number e" "hn_hash e"] that(1) by auto
    have e': "anc c (hn_hash e') a" "num c (hn_hash e') = hn_number e"
      using mem [of "hn_number e'" "hn_hash e'"] that(2,3) by auto
    have "anc c (hn_hash e) (hn_hash e')" using anc_linear [OF v e'(1) e(1)] e(2) e'(2) by simp
    from anc_num [OF v this] show ?thesis using e(2) e'(2) by simp
  qed
  have "fold (\<lambda>e m. m(hn_number e \<mapsto> hn_hash e)) en m n = Some h \<longleftrightarrow>
      (\<exists>e\<in>set en. hn_number e = n \<and> hn_hash e = h) \<or> (\<forall>e\<in>set en. hn_number e \<noteq> n) \<and> m n = Some h"
    by (rule fold_enact [OF fn])
  then show ?thesis unfolding none mem [of n h] .
qed

lemma branch_length:
  "valid_chain c \<Longrightarrow> branch_of c a br l \<Longrightarrow> c a \<noteq> None \<Longrightarrow> num c l + length br = num c a"
  using walks_length [of c a "map hn_hash br" l] by (auto simp: branch_of_def)

lemma reorganise_canonical:
  assumes v: "valid_chain c" and can: "canonical c m b" and l: "is_lca c b p l"
    and re: "branch_of c b re l" and en: "branch_of c p (rev en) l"
    and known: "c b \<noteq> None" "c p \<noteq> None" and up: "num c b \<le> num c p"
  shows "reorganise en re m n = Some h \<longleftrightarrow> anc c h p \<and> num c h = n"
proof -
  have len: "num c l + length re = num c b" "num c l + length en = num c p"
    using branch_length [OF v re known(1)] branch_length [OF v en known(2)] by simp_all
  then have "drop (length en) re = []" using up by simp
  then have r: "reorganise en re m n = Some h \<longleftrightarrow>
      anc c h p \<and> num c h = n \<and> num c l < n \<or> \<not> (num c l < n \<and> n \<le> num c p) \<and> m n = Some h"
    using fold_enact_branch [OF v en known(2)] by (simp add: reorganise_def)
  have m: "m n = Some h \<longleftrightarrow> anc c h b \<and> num c h = n" using can by (simp add: canonical_def)
  have lb: "anc c l b" "anc c l p" using l by (simp_all add: is_lca_def)
  show ?thesis
  proof (cases "n \<le> num c l")
    case True
    then have "anc c h b \<and> num c h = n \<longleftrightarrow> anc c h p \<and> num c h = n"
      using anc_linear [OF v lb(1)] anc_linear [OF v lb(2)] anc_trans [OF lb(1)] anc_trans [OF lb(2)] by blast
    then show ?thesis using r m True by auto
  next
    case False
    then show ?thesis using r m up anc_num [OF v, of h b] anc_num [OF v, of h p] by auto
  qed
qed

lemma reorganise_forgets:
  assumes v: "valid_chain c" and re: "branch_of c b re l" and b: "c b \<noteq> None" and "length en < length re"
  shows "reorganise en re m (Suc (num c l)) = None"
proof -
  have "re \<noteq> []" using assms(4) by auto
  then obtain xs x where x: "re = xs @ [x]" by (metis append_butlast_last_id)
  then have "walks c b (map hn_hash xs @ [hn_hash x]) l" "hn_number x = num c (hn_hash x)"
    using re by (auto simp: branch_of_def)
  then obtain n p where n: "c (hn_hash x) = Some (Suc n, l)" by (auto simp: walks_append)
  have "hn_number x = Suc (num c l)"
    using valid_parent [OF v n] n \<open>hn_number x = num c (hn_hash x)\<close> by (auto simp: num_def)
  moreover have "x \<in> set (drop (length en) re)" using assms(4) by (simp add: x)
  ultimately show ?thesis by (force simp: reorganise_def fold_retract)
qed

lemma apply_head_route:
  assumes ok: "in_mem_ok hash_of s" and b: "chain_of s (best_hash s) \<noteq> None"
    and p: "chain_of s (hdr_parent_hash hdr) \<noteq> None"
  shows "\<exists>l en re. is_lca (chain_of s) (best_hash s) (hdr_parent_hash hdr) l
    \<and> branch_of (chain_of s) (best_hash s) re l \<and> branch_of (chain_of s) (hdr_parent_hash hdr) (rev en) l
    \<and> apply_head hash_of hdr s = Some (Inr (), s\<lparr>best_hash := hash_of hdr, best_number := hdr_number hdr,
        hashes_at := (reorganise en re (hashes_at s))(hdr_number hdr \<mapsto> hash_of hdr)\<rparr>)"
proof (cases "best_hash s = hdr_parent_hash hdr")
  case True
  have "is_lca (chain_of s) (best_hash s) (hdr_parent_hash hdr) (best_hash s)"
    using b True by (auto simp: is_lca_def intro: anc_self)
  moreover have "branch_of (chain_of s) (best_hash s) [] (best_hash s)"
    "branch_of (chain_of s) (hdr_parent_hash hdr) (rev []) (best_hash s)" using True by (simp_all add: branch_of_def)
  moreover have "apply_head hash_of hdr s = Some (Inr (), s\<lparr>best_hash := hash_of hdr, best_number := hdr_number hdr,
      hashes_at := (reorganise [] [] (hashes_at s))(hdr_number hdr \<mapsto> hash_of hdr)\<rparr>)"
    using True by (simp add: apply_head_def best_route_def reorganise_def Let_def)
  ultimately show ?thesis by blast
next
  case False
  obtain r t l re en where r: "compute_tree_route (in_mem_metadata hash_of) (best_hash s) (hdr_parent_hash hdr) s
        = Some (Inr r, t)" "retracted r = Some re" "common_block r = Some l" "enacted r = Some en"
      "is_lca (chain_of s) (best_hash s) (hdr_parent_hash hdr) (hn_hash l)"
      "branch_of (chain_of s) (best_hash s) re (hn_hash l)"
      "branch_of (chain_of s) (hdr_parent_hash hdr) (rev en) (hn_hash l)"
    using mem.tree_route_ok [OF ok b p] by blast
  have "t = s" by (rule tree_route_same [OF r(1)])
  with r False have "apply_head hash_of hdr s = Some (Inr (), s\<lparr>best_hash := hash_of hdr, best_number := hdr_number hdr,
      hashes_at := (reorganise en re (hashes_at s))(hdr_number hdr \<mapsto> hash_of hdr)\<rparr>)"
    by (simp add: apply_head_def best_route_def Let_def)
  with r(5-7) show ?thesis by blast
qed

section \<open>The invariant\<close>

definition tips :: "'h header_table \<Rightarrow> (nat \<times> 'h) set" where
  "tips c = {(n, h). (\<exists>p. c h = Some (n, p)) \<and> (\<forall>k m. c k \<noteq> Some (Suc m, h))}"

definition chain_inv :: "(('h, 'r) header \<Rightarrow> 'h) \<Rightarrow> ('h, 'r, 'x) blockchain_storage \<Rightarrow> bool" where
  "chain_inv hash_of s = (in_mem_ok hash_of s
     \<and> chain_of s (best_hash s) \<noteq> None \<and> best_number s = num (chain_of s) (best_hash s)
     \<and> canonical (chain_of s) (hashes_at s) (best_hash s)
     \<and> leaf_ok (leaves s) \<and> leaves_of (leaves s) = tips (chain_of s))"

text \<open>A block that can be imported: it is new, its parent is there, and the new best block is higher.\<close>

definition insertable ::
    "(('h, 'r) header \<Rightarrow> 'h) \<Rightarrow> ('h, 'r) header \<Rightarrow> new_block_state \<Rightarrow> ('h, 'r, 'x) blockchain_storage \<Rightarrow> bool" where
  "insertable hash_of hdr st s = (blocks s (hash_of hdr) = None \<and> chain_of s (hdr_parent_hash hdr) \<noteq> None
     \<and> hdr_number hdr = Suc (num (chain_of s) (hdr_parent_hash hdr))
     \<and> (is_best st \<longrightarrow> best_number s < hdr_number hdr))"

lemma chain_of_store [simp]:
  "chain_of (store_block hash hdr just body st s) = (chain_of s)(hash \<mapsto> (hdr_number hdr, hdr_parent_hash hdr))"
  by (auto simp: store_block_def chain_of_def stored_block_new_def fun_eq_iff Let_def split: option.split)

lemma store_block_more [simp]:
  "best_hash (store_block hash hdr just body st s) = best_hash s"
  "best_number (store_block hash hdr just body st s) = best_number s"
  "hashes_at (store_block hash hdr just body st s) = hashes_at s"
  "leaves (store_block hash hdr just body st s) = snd (leaf_import hash (hdr_number hdr) (hdr_parent_hash hdr) (leaves s))"
  "blocks (store_block hash hdr just body st s) = (blocks s)(hash \<mapsto> stored_block_new hdr body just)"
  by (simp_all add: store_block_def Let_def)

lemma header_stored_block_new [simp]: "block_header (stored_block_new hdr body just) = hdr"
  by (simp add: stored_block_new_def split: option.split)

lemma tips_extended:
  assumes v: "valid_chain c" and new: "c h = None" and p: "c p \<noteq> None"
  shows "tips (extended c h p) = insert (Suc (num c p), h) (tips c - {(num c p, p)})"
proof -
  have nochild: "c k \<noteq> Some (Suc m, h)" for k m
    using valid_parent [OF v] new by fastforce
  have "(n, x) \<in> tips (extended c h p) \<longleftrightarrow> (n, x) \<in> insert (Suc (num c p), h) (tips c - {(num c p, p)})" for n x
    using nochild new p by (auto simp: tips_def extended_def num_def split: if_splits)
  then show ?thesis by auto
qed

lemma known_blocks: "chain_of s h = None \<longleftrightarrow> blocks s h = None"
  by (simp add: chain_of_def)

text \<open>The new block at the tip of the tree, whether it is the new best block or not.\<close>

lemma store_inv:
  assumes inv: "in_mem_ok hash_of s" "leaf_ok (leaves s)" "leaves_of (leaves s) = tips (chain_of s)"
    and new: "blocks s (hash_of hdr) = None" "chain_of s (hdr_parent_hash hdr) \<noteq> None"
      "hdr_number hdr = Suc (num (chain_of s) (hdr_parent_hash hdr))"
    and t_def: "t = store_block (hash_of hdr) hdr just body st s"
  shows "chain_of t = extended (chain_of s) (hash_of hdr) (hdr_parent_hash hdr)" and "in_mem_ok hash_of t"
    and "leaf_ok (leaves t)" and "leaves_of (leaves t) = tips (chain_of t)"
proof -
  let ?h = "hash_of hdr" and ?p = "hdr_parent_hash hdr" and ?c = "chain_of s"
  have v: "valid_chain ?c" and n: "?c ?h = None"
    using inv(1) new(1) by (simp_all add: in_mem_ok_def known_blocks)
  show c: "chain_of t = extended ?c ?h ?p" using new(3) by (simp add: t_def extended_def)
  show "in_mem_ok hash_of t"
    using valid_extended [OF v, where p = ?p, OF n new(2)] inv(1)
    unfolding in_mem_ok_def c by (auto simp: t_def split: if_splits)
  have nl: "\<not> leaf_contains (hdr_number hdr) ?h (leaves s)"
    using inv(3) n by (auto simp: tips_def set_eq_iff)
  note i = leaf_import_spec [OF inv(2) nl, where parent = ?p]
  show "leaf_ok (leaves t)" using i(1) by (simp add: t_def)
  have "leaves_of (leaves t) = insert (Suc (num ?c ?p), ?h) (tips ?c - {(num ?c ?p, ?p)})"
    using i(2) new(3) unfolding inv(3) [symmetric] by (auto simp: t_def leaves_of_def)
  then show "leaves_of (leaves t) = tips (chain_of t)"
    using tips_extended [OF v, where p = ?p, OF n new(2)] c by simp
qed

lemma canonical_extended:
  assumes v: "valid_chain c" and new: "c h = None" and p: "c p \<noteq> None" and b: "c b \<noteq> None"
    and can: "canonical c m b"
  shows "canonical (extended c h p) m b"
proof -
  have a: "anc (extended c h p) x b \<longleftrightarrow> anc c x b" for x by (rule anc_extended(1) [where c = c, OF v new p b])
  have "num (extended c h p) x = num c x" if "anc c x b" for x
    using anc_known [OF that] new by (auto simp: extended_def num_def)
  then show ?thesis using can unfolding canonical_def a by auto
qed

lemma canonical_new_best:
  assumes v: "valid_chain c" and new: "c h = None" and p: "c p \<noteq> None"
    and m: "\<And>n x. m n = Some x \<longleftrightarrow> anc c x p \<and> num c x = n"
  shows "canonical (extended c h p) (m(Suc (num c p) \<mapsto> h)) h"
proof -
  have self: "anc (extended c h p) h h" "num (extended c h p) h = Suc (num c p)"
    by (auto simp: extended_def num_def intro: anc_self)
  have a: "anc (extended c h p) x h \<longleftrightarrow> x = h \<or> anc c x p" for x
    using anc_extended(2) [where c = c, OF v new p, of x] self(1) anc_known [of c h p] new by auto
  have n: "num (extended c h p) x = num c x" "num c x \<le> num c p" "x \<noteq> h" if "anc c x p" for x
    using anc_known [OF that] anc_num [OF v that] new by (auto simp: extended_def num_def)
  show ?thesis
    unfolding canonical_def a
  proof (intro allI)
    fix k x
    show "(m(Suc (num c p) \<mapsto> h)) k = Some x \<longleftrightarrow> (x = h \<or> anc c x p) \<and> num (extended c h p) x = k"
      using m [of k x] n [of x] self(2) by (cases "k = Suc (num c p)") auto
  qed
qed

lemma insert_inv:
  assumes inv: "chain_inv hash_of s" and ins: "insertable hash_of hdr st s"
  shows "\<exists>t. chain_insert hash_of (hash_of hdr) hdr just body st s = Some (Inr (), t) \<and> chain_inv hash_of t
    \<and> chain_of t = extended (chain_of s) (hash_of hdr) (hdr_parent_hash hdr)
    \<and> best_hash t = (if is_best st then hash_of hdr else best_hash s)"
proof -
  let ?h = "hash_of hdr" and ?p = "hdr_parent_hash hdr" and ?c = "chain_of s"
  have ok: "in_mem_ok hash_of s" and b: "?c (best_hash s) \<noteq> None" "best_number s = num ?c (best_hash s)"
    and can: "canonical ?c (hashes_at s) (best_hash s)"
    and lv: "leaf_ok (leaves s)" "leaves_of (leaves s) = tips ?c" using inv by (auto simp: chain_inv_def)
  have v: "valid_chain ?c" using ok by (simp add: in_mem_ok_def)
  have new: "blocks s ?h = None" "?c ?p \<noteq> None" "hdr_number hdr = Suc (num ?c ?p)"
    and up: "is_best st \<Longrightarrow> best_number s < hdr_number hdr" using ins by (auto simp: insertable_def)
  have n: "?c ?h = None" using new(1) by (simp add: known_blocks)
  show ?thesis
  proof (cases "is_best st")
    case False
    note s = store_inv [OF ok lv new refl, of just body st]
    have "canonical (extended ?c ?h ?p) (hashes_at s) (best_hash s)"
      by (rule canonical_extended [where c = ?c, OF v n new(2) b(1) can])
    moreover have "extended ?c ?h ?p (best_hash s) = ?c (best_hash s)" using b(1) n by (auto simp: extended_def)
    ultimately show ?thesis using False s b
      by (simp add: chain_insert_def chain_inv_def) (simp add: num_def)
  next
    case True
    obtain l en re where r: "is_lca ?c (best_hash s) ?p l" "branch_of ?c (best_hash s) re l" "branch_of ?c ?p (rev en) l"
        "apply_head hash_of hdr s = Some (Inr (), s\<lparr>best_hash := ?h, best_number := hdr_number hdr,
           hashes_at := (reorganise en re (hashes_at s))(hdr_number hdr \<mapsto> ?h)\<rparr>)"
      using apply_head_route [OF ok b(1) new(2)] by blast
    let ?s = "s\<lparr>best_hash := ?h, best_number := hdr_number hdr, hashes_at := (reorganise en re (hashes_at s))(hdr_number hdr \<mapsto> ?h)\<rparr>"
    have same: "chain_of ?s = ?c" "blocks ?s = blocks s" "leaves ?s = leaves s"
      by (simp_all add: chain_of_def [abs_def])
    have ok': "in_mem_ok hash_of ?s" using ok by (simp add: in_mem_ok_def same)
    have le: "num ?c (best_hash s) \<le> num ?c ?p" using up [OF True] new(3) b(2) by simp
    have m: "reorganise en re (hashes_at s) k = Some x \<longleftrightarrow> anc ?c x ?p \<and> num ?c x = k" for k x
      by (rule reorganise_canonical [OF v can r(1-3) b(1) new(2) le])
    have can': "canonical (extended ?c ?h ?p) (hashes_at ?s) ?h"
      using canonical_new_best [where c = ?c, OF v n new(2) m] new(3) by simp
    note s = store_inv [where s = ?s, unfolded same, OF ok' lv new refl, of just body st]
    have "extended ?c ?h ?p ?h = Some (Suc (num ?c ?p), ?p)" by (simp add: extended_def)
    then show ?thesis using True r(4) s can' new(3)
      by (simp add: chain_insert_def chain_inv_def) (simp add: num_def)
  qed
qed

lemma set_head_inv:
  assumes inv: "chain_inv hash_of s" and h: "chain_header bid s = Some hdr" and up: "best_number s < hdr_number hdr"
  shows "\<exists>t. set_head hash_of bid s = Some (Inr (), t) \<and> chain_inv hash_of t \<and> best_hash t = hash_of hdr
    \<and> chain_of t = chain_of s"
proof -
  let ?c = "chain_of s" and ?h = "hash_of hdr" and ?p = "hdr_parent_hash hdr"
  have ok: "in_mem_ok hash_of s" and b: "?c (best_hash s) \<noteq> None" "best_number s = num ?c (best_hash s)"
    and can: "canonical ?c (hashes_at s) (best_hash s)" using inv by (auto simp: chain_inv_def)
  have v: "valid_chain ?c" using ok by (simp add: in_mem_ok_def)
  obtain k where k: "hdr_number hdr = Suc k" using up by (cases "hdr_number hdr") auto
  obtain b' where "blocks s ?h = Some b'" "block_header b' = hdr"
    using h ok by (auto simp: chain_header_def in_mem_ok_def split: Option.bind_splits)
  then have hc: "?c ?h = Some (Suc k, ?p)" using k by (simp add: chain_of_def)
  obtain q where q: "?c ?p = Some (k, q)" using valid_parent [OF v hc] by blast
  obtain l en re where r: "is_lca ?c (best_hash s) ?p l" "branch_of ?c (best_hash s) re l" "branch_of ?c ?p (rev en) l"
      "apply_head hash_of hdr s = Some (Inr (), s\<lparr>best_hash := ?h, best_number := hdr_number hdr,
         hashes_at := (reorganise en re (hashes_at s))(hdr_number hdr \<mapsto> ?h)\<rparr>)"
    using apply_head_route [OF ok b(1), of hdr] q by auto
  let ?s = "s\<lparr>best_hash := ?h, best_number := hdr_number hdr, hashes_at := (reorganise en re (hashes_at s))(hdr_number hdr \<mapsto> ?h)\<rparr>"
  have same: "chain_of ?s = ?c" "in_mem_ok hash_of ?s = in_mem_ok hash_of s"
    by (simp_all add: chain_of_def [abs_def] in_mem_ok_def)
  have "num ?c (best_hash s) \<le> num ?c ?p" using up b(2) k q by (simp add: num_def)
  then have m: "reorganise en re (hashes_at s) j = Some x \<longleftrightarrow> anc ?c x ?p \<and> num ?c x = j" for j x
    using reorganise_canonical [OF v can r(1-3) b(1)] q by simp
  have a: "anc ?c x ?h \<longleftrightarrow> x = ?h \<or> anc ?c x ?p" for x using hc by (auto elim: ancE intro: anc_self anc_parent)
  have n: "num ?c ?h = Suc k" "num ?c ?p = k" using hc q by (simp_all add: num_def)
  have "canonical ?c (hashes_at ?s) ?h"
    unfolding canonical_def a
  proof (intro allI)
    fix j x
    show "hashes_at ?s j = Some x \<longleftrightarrow> (x = ?h \<or> anc ?c x ?p) \<and> num ?c x = j"
      using m [of j x] n k anc_num [OF v, of x ?p] by (cases "j = Suc k") auto
  qed
  then have "chain_inv hash_of ?s" using inv hc n(1) k unfolding chain_inv_def same by simp
  then show ?thesis using r(4) h by (simp add: set_head_def same)
qed

text \<open>Justifications, finality and auxiliary data leave the tree alone.\<close>

lemma chain_inv_same:
  assumes "chain_inv hash_of s" and "\<And>h. map_option block_header (blocks t h) = map_option block_header (blocks s h)"
    and "best_hash t = best_hash s" "best_number t = best_number s" "hashes_at t = hashes_at s" "leaves t = leaves s"
  shows "chain_inv hash_of t"
proof -
  have c: "chain_of t = chain_of s"
  proof
    fix h show "chain_of t h = chain_of s h"
      using assms(2) [of h] by (cases "blocks t h"; cases "blocks s h") (auto simp: chain_of_def)
  qed
  have "hash_of (block_header b) = h" if "blocks t h = Some b" for h b
    using assms(2) [of h] that assms(1) by (cases "blocks s h") (auto simp: chain_inv_def in_mem_ok_def)
  then show ?thesis using assms by (auto simp: chain_inv_def in_mem_ok_def c)
qed

lemma header_set_justifications [simp]: "block_header (set_justifications j b) = block_header b"
  by (cases b) simp_all

lemma finalize_header_inv:
  assumes "chain_inv hash_of s"
  shows "\<exists>r t. finalize_header hash_of bid just s = Some (r, t) \<and> chain_inv hash_of t"
proof (cases "chain_header bid s")
  case None
  then show ?thesis using assms by (simp add: finalize_header_def)
next
  case (Some hdr)
  then obtain b where b: "blocks s (hash_of hdr) = Some b" "block_header b = hdr"
    using assms by (auto simp: chain_header_def chain_inv_def in_mem_ok_def split: Option.bind_splits)
  have "chain_inv hash_of (s\<lparr>finalized_hash := hash_of hdr\<rparr>)" by (rule chain_inv_same [OF assms]) auto
  moreover have "chain_inv hash_of (s\<lparr>finalized_hash := hash_of hdr,
      blocks := (blocks s)(hash_of hdr \<mapsto> set_justifications j b)\<rparr>)" for j
    by (rule chain_inv_same [OF assms]) (auto simp: b)
  ultimately show ?thesis using Some b by (auto simp: finalize_header_def Let_def split: option.split)
qed

lemma append_justification_inv:
  "chain_inv hash_of s \<Longrightarrow> append_justification bid just s = Some (r, t) \<Longrightarrow> chain_inv hash_of t"
  by (auto simp: append_justification_def split: sum.splits option.splits prod.splits bool.splits
      elim!: chain_inv_same)

lemma write_aux_inv: "chain_inv hash_of s \<Longrightarrow> chain_inv hash_of (write_aux ops s)"
  by (rule chain_inv_same) (auto simp: write_aux_def)

lemma insert_aux_inv: "chain_inv hash_of s \<Longrightarrow> chain_inv hash_of (insert_aux ins del s)"
  by (rule chain_inv_same) (auto simp: insert_aux_def)

text \<open>The first block.\<close>

lemma genesis_inv:
  assumes "hdr_number hdr = 0" and "hdr_parent_hash hdr = 0" and "is_best st"
  shows "\<exists>t. chain_insert hash_of (hash_of hdr) hdr just body st (blockchain_new :: ('h::zero, 'r, 'x) blockchain_storage)
      = Some (Inr (), t) \<and> chain_inv hash_of t \<and> chain_of t = [hash_of hdr \<mapsto> (0, 0)]"
proof -
  let ?h = "hash_of hdr"
  let ?s = "blockchain_new\<lparr>best_hash := ?h, best_number := 0, hashes_at := [0 \<mapsto> ?h]\<rparr> :: ('h, 'r, 'x) blockchain_storage"
  let ?t = "store_block ?h hdr just body st ?s"
  have e: "chain_of ?s = Map.empty" by (simp add: chain_of_def fun_eq_iff blockchain_new_def)
  then have c: "chain_of ?t = [?h \<mapsto> (0, 0)]" using assms by simp
  have r: "chain_insert hash_of ?h hdr just body st blockchain_new = Some (Inr (), ?t)"
    using assms by (simp add: chain_insert_def apply_head_def best_route_def blockchain_new_def Let_def)
  have v: "valid_chain (chain_of ?t)" unfolding c by (auto simp: valid_chain_def)
  have "canonical (chain_of ?t) [0 \<mapsto> ?h] ?h"
    unfolding canonical_def c by (auto elim: ancE intro: anc_self simp: num_def split: if_splits)
  moreover note i = leaf_import_spec [OF leaf_set_new_ok leaf_contains_new, where parent = "0 :: 'h"]
  have "leaf_ok (leaves ?t)" using i(1) assms by (simp add: blockchain_new_def)
  moreover have "leaves_of (leaves ?t) = tips (chain_of ?t)"
    using i(2) assms unfolding c by (auto simp: tips_def leaves_of_def leaf_contains_new blockchain_new_def split: if_splits)
  moreover have "in_mem_ok hash_of ?t"
    using v unfolding in_mem_ok_def c by (auto simp: blockchain_new_def split: if_splits)
  ultimately have "chain_inv hash_of ?t" unfolding chain_inv_def c by (simp add: num_def)
  then show ?thesis using r c by blast
qed

section \<open>Histories\<close>

inductive mem_reachable :: "(('h::zero, 'r) header \<Rightarrow> 'h) \<Rightarrow> ('h, 'r, 'x) blockchain_storage \<Rightarrow> bool" for hash_of where
  mem_genesis: "hdr_number hdr = 0 \<Longrightarrow> hdr_parent_hash hdr = 0 \<Longrightarrow> is_best st
    \<Longrightarrow> chain_insert hash_of (hash_of hdr) hdr just body st blockchain_new = Some (Inr (), t)
    \<Longrightarrow> mem_reachable hash_of t"
| mem_insert: "mem_reachable hash_of s \<Longrightarrow> insertable hash_of hdr st s
    \<Longrightarrow> chain_insert hash_of (hash_of hdr) hdr just body st s = Some (r, t) \<Longrightarrow> mem_reachable hash_of t"
| mem_set_head: "mem_reachable hash_of s \<Longrightarrow> chain_header bid s = Some hdr \<Longrightarrow> best_number s < hdr_number hdr
    \<Longrightarrow> set_head hash_of bid s = Some (r, t) \<Longrightarrow> mem_reachable hash_of t"
| mem_finalize: "mem_reachable hash_of s \<Longrightarrow> finalize_header hash_of bid j s = Some (r, t) \<Longrightarrow> mem_reachable hash_of t"
| mem_justify: "mem_reachable hash_of s \<Longrightarrow> append_justification bid jn s = Some (r, t) \<Longrightarrow> mem_reachable hash_of t"
| mem_write_aux: "mem_reachable hash_of s \<Longrightarrow> mem_reachable hash_of (write_aux ops s)"
| mem_insert_aux: "mem_reachable hash_of s \<Longrightarrow> mem_reachable hash_of (insert_aux ins del s)"

lemma reachable_inv: "mem_reachable hash_of s \<Longrightarrow> chain_inv hash_of s"
proof (induction rule: mem_reachable.induct)
  case (mem_genesis hdr st just body t)
  then show ?case using genesis_inv [of hdr st hash_of just body] by auto
next
  case (mem_insert s hdr st just body r t)
  then show ?case using insert_inv [of hash_of s hdr st just body] by auto
next
  case (mem_set_head s bid hdr r t)
  then show ?case using set_head_inv [of hash_of s bid hdr] by auto
next
  case (mem_finalize s bid j r t)
  then show ?case using finalize_header_inv [of hash_of s bid j] by auto
next
  case (mem_justify s bid jn r t)
  then show ?case by (blast intro: append_justification_inv)
qed (auto intro: write_aux_inv insert_aux_inv)

text \<open>Blocks for the witnesses: a header is hashed to its state root.\<close>

definition ex_hdr :: "nat \<Rightarrow> nat \<Rightarrow> nat \<Rightarrow> (nat, unit) header" where
  "ex_hdr n p h = \<lparr>hdr_number = n, hdr_parent_hash = p, hdr_state_root = h, hdr_rest = ()\<rparr>"

lemma ex_hdr_simps [simp]:
  "hdr_number (ex_hdr n p h) = n" "hdr_parent_hash (ex_hdr n p h) = p" "hdr_state_root (ex_hdr n p h) = h"
  by (simp_all add: ex_hdr_def)

text \<open>Genesis 1 with the branches 2, 3 and 4; the best block is 3.\<close>

lemma ex_forked_chain:
  "\<exists>s :: (nat, unit, unit) blockchain_storage. mem_reachable hdr_state_root s
     \<and> chain_of s = [1 \<mapsto> (0, 0), 2 \<mapsto> (1, 1), 3 \<mapsto> (2, 2), 4 \<mapsto> (1, 1)] \<and> best_hash s = 3"
proof -
  have e: "insertable hdr_state_root (ex_hdr n p h) st s"
    if "chain_of s h = None" "chain_of s p = Some (k, q)" "n = Suc k" "is_best st \<Longrightarrow> best_number s < n"
    for n p h k q st and s :: "(nat, unit, unit) blockchain_storage"
    using that by (auto simp: insertable_def known_blocks num_def)
  have step: "\<exists>t :: (nat, unit, unit) blockchain_storage. mem_reachable hdr_state_root t \<and> chain_of t = (chain_of s)(h \<mapsto> (n, p))
      \<and> best_hash t = (if is_best st then h else best_hash s)"
    if "mem_reachable hdr_state_root s" "chain_of s h = None" "chain_of s p = Some (k, q)" "n = Suc k"
      "is_best st \<Longrightarrow> num (chain_of s) (best_hash s) < n"
    for n p h k q st and s :: "(nat, unit, unit) blockchain_storage"
  proof -
    note inv = reachable_inv [OF that(1)]
    have "best_number s = num (chain_of s) (best_hash s)" using inv by (simp add: chain_inv_def)
    then have i: "insertable hdr_state_root (ex_hdr n p h) st s" using e that by simp
    from insert_inv [OF inv i, of None None] obtain t where
      "chain_insert hdr_state_root h (ex_hdr n p h) None None st s = Some (Inr (), t)"
      "chain_of t = extended (chain_of s) h p" "best_hash t = (if is_best st then h else best_hash s)" by auto
    moreover from this(1) have "mem_reachable hdr_state_root t"
      using mem_insert [OF that(1) i] by simp
    ultimately show ?thesis using that(3,4) by (intro exI [of _ t]) (simp add: extended_def num_def)
  qed
  obtain s1 :: "(nat, unit, unit) blockchain_storage" where s1: "mem_reachable hdr_state_root s1"
      "chain_of s1 = [1 \<mapsto> (0, 0)]" "best_hash s1 = 1"
  proof -
    obtain t :: "(nat, unit, unit) blockchain_storage" where
      t: "chain_insert hdr_state_root 1 (ex_hdr 0 0 1) None None Best blockchain_new = Some (Inr (), t)"
        "chain_inv hdr_state_root t" "chain_of t = [1 \<mapsto> (0, 0)]"
      using genesis_inv [of "ex_hdr 0 0 1" Best hdr_state_root None None] by auto
    moreover have "best_hash t = 1" using t(2,3) by (auto simp: chain_inv_def split: if_splits)
    ultimately show ?thesis using that mem_genesis [of "ex_hdr 0 0 1" Best hdr_state_root None None t] by simp
  qed
  have "chain_of s1 2 = None" "chain_of s1 1 = Some (0, 0)" "num (chain_of s1) (best_hash s1) < Suc 0"
    by (simp_all add: s1 num_def)
  from step [OF s1(1) this(1,2) refl, of Best] this(3) obtain s2 :: "(nat, unit, unit) blockchain_storage"
    where s2: "mem_reachable hdr_state_root s2" "chain_of s2 = [1 \<mapsto> (0, 0), 2 \<mapsto> (1, 1)]" "best_hash s2 = 2"
    unfolding s1(2) by auto
  have "chain_of s2 3 = None" "chain_of s2 2 = Some (1, 1)" "num (chain_of s2) (best_hash s2) < Suc 1"
    by (simp_all add: s2 num_def)
  from step [OF s2(1) this(1,2) refl, of Best] this(3) obtain s3 :: "(nat, unit, unit) blockchain_storage"
    where s3: "mem_reachable hdr_state_root s3" "chain_of s3 = [1 \<mapsto> (0, 0), 2 \<mapsto> (1, 1), 3 \<mapsto> (2, 2)]" "best_hash s3 = 3"
    unfolding s2(2) by (auto simp: numeral_2_eq_2)
  have "chain_of s3 4 = None" "chain_of s3 1 = Some (0, 0)" by (simp_all add: s3)
  from step [OF s3(1) this refl, of Normal] show ?thesis unfolding s3 by auto
qed

section \<open>Properties\<close>

text \<open>
  C10. The canonical chain is the ancestry of the best block: after every history of imports, head
  changes to a higher block, finalisations and justifications, the block stored for a number is the
  ancestor of the best block with that number, and there is none above it.
\<close>

theorem canonical_chain_is_ancestry:
  assumes "mem_reachable hash_of s"
  shows "(chain_hash n s = Some h \<longleftrightarrow> anc (chain_of s) h (best_hash s) \<and> num (chain_of s) h = n)
    \<and> chain_hash (best_number s) s = Some (best_hash s) \<and> (best_number s < n \<longrightarrow> chain_hash n s = None)"
proof -
  have inv: "chain_inv hash_of s" by (rule reachable_inv [OF assms])
  then have v: "valid_chain (chain_of s)" and b: "chain_of s (best_hash s) \<noteq> None"
    and n: "best_number s = num (chain_of s) (best_hash s)"
    and can: "canonical (chain_of s) (hashes_at s) (best_hash s)" by (auto simp: chain_inv_def in_mem_ok_def)
  have m: "chain_hash n s = Some h \<longleftrightarrow> anc (chain_of s) h (best_hash s) \<and> num (chain_of s) h = n" for n h
    using can by (simp add: canonical_def chain_hash_def)
  have "anc (chain_of s) (best_hash s) (best_hash s)" using b by (auto intro: anc_self)
  then have "chain_hash (best_number s) s = Some (best_hash s)" using m n by simp
  moreover have "chain_hash n s = None" if "best_number s < n"
    using m [of n] anc_num [OF v] that n by (metis leD option.exhaust)
  ultimately show ?thesis using m [of n h] by simp
qed

theorem canonical_chain_is_ancestry_witness:
  "\<exists>s :: (nat, unit, unit) blockchain_storage. chain_hash 1 s = Some 2 \<and> chain_hash 2 s = Some 3"
proof -
  obtain s :: "(nat, unit, unit) blockchain_storage" where s: "mem_reachable hdr_state_root s"
      "chain_of s = [1 \<mapsto> (0, 0), 2 \<mapsto> (1, 1), 3 \<mapsto> (2, 2), 4 \<mapsto> (1, 1)]" "best_hash s = 3"
    using ex_forked_chain by blast
  have "anc (chain_of s) 2 3" "anc (chain_of s) 3 3"
    by (rule anc_parent [of _ _ 1 2], simp add: s, rule anc_self [of _ _ 1 1], simp add: s)
       (rule anc_self [of _ _ 2 2], simp add: s)
  then show ?thesis
    using canonical_chain_is_ancestry [OF s(1), of 1 2] canonical_chain_is_ancestry [OF s(1), of 2 3] s(2,3)
    by (intro exI [of _ s]) (simp add: num_def)
qed

text \<open>
  C27. The leaf set holds exactly the blocks without children.
\<close>

theorem leaves_are_childless:
  assumes "mem_reachable hash_of s"
  shows "set (hashes (leaves s)) = {h. chain_header (BlockHash h) s \<noteq> None
    \<and> (\<forall>k hdr. chain_header (BlockHash k) s = Some hdr \<longrightarrow> 0 < hdr_number hdr \<longrightarrow> hdr_parent_hash hdr \<noteq> h)}"
proof -
  have inv: "leaf_ok (leaves s)" "leaves_of (leaves s) = tips (chain_of s)"
    using reachable_inv [OF assms] by (simp_all add: chain_inv_def)
  have "chain_of s k \<noteq> Some (Suc m, h) \<longleftrightarrow>
      (\<forall>hdr. chain_header (BlockHash k) s = Some hdr \<longrightarrow> hdr_number hdr = Suc m \<longrightarrow> hdr_parent_hash hdr \<noteq> h)" for k m h
    by (cases "blocks s k") (auto simp: chain_of_def chain_header_def)
  then have "(\<forall>k m. chain_of s k \<noteq> Some (Suc m, h)) \<longleftrightarrow>
      (\<forall>k hdr. chain_header (BlockHash k) s = Some hdr \<longrightarrow> 0 < hdr_number hdr \<longrightarrow> hdr_parent_hash hdr \<noteq> h)" for h
    by (metis gr0_conv_Suc)
  moreover have "(\<exists>n p. chain_of s h = Some (n, p)) \<longleftrightarrow> chain_header (BlockHash h) s \<noteq> None" for h
    by (auto simp: chain_of_def chain_header_def)
  ultimately show ?thesis
    using set_hashes [OF inv(1)] unfolding inv(2) tips_def by (force simp: image_iff)
qed

theorem leaves_are_childless_witness:
  "\<exists>s :: (nat, unit, unit) blockchain_storage. mem_reachable hdr_state_root s \<and> set (hashes (leaves s)) = {3, 4}"
proof -
  obtain s :: "(nat, unit, unit) blockchain_storage" where s: "mem_reachable hdr_state_root s"
      "chain_of s = [1 \<mapsto> (0, 0), 2 \<mapsto> (1, 1), 3 \<mapsto> (2, 2), 4 \<mapsto> (1, 1)]"
    using ex_forked_chain by blast
  have h: "map_option (\<lambda>b. (hdr_number b, hdr_parent_hash b)) (chain_header (BlockHash k) s) = chain_of s k" for k
    by (cases "blocks s k") (simp_all add: chain_header_def chain_of_def)
  have "{h. chain_header (BlockHash h) s \<noteq> None
      \<and> (\<forall>k hdr. chain_header (BlockHash k) s = Some hdr \<longrightarrow> 0 < hdr_number hdr \<longrightarrow> hdr_parent_hash hdr \<noteq> h)}
    = {h. chain_of s h \<noteq> None \<and> (\<forall>k n p. chain_of s k = Some (n, p) \<longrightarrow> 0 < n \<longrightarrow> p \<noteq> h)}"
    unfolding h [symmetric] by auto
  also have "\<dots> = {3, 4}" unfolding s(2) by (auto split: if_splits)
  finally show ?thesis using leaves_are_childless [OF s(1)] s(1) by auto
qed

text \<open>
  C28. Importing a new block on a known parent never fails and never hangs: the block is stored, and
  if it is imported as the best block, which must be higher than the one before, it is the head.
\<close>

theorem import_succeeds:
  assumes "mem_reachable hash_of s" and "insertable hash_of hdr st s"
  shows "\<exists>t. chain_insert hash_of (hash_of hdr) hdr just body st s = Some (Inr (), t)
    \<and> chain_header (BlockHash (hash_of hdr)) t = Some hdr \<and> chain_body (BlockHash (hash_of hdr)) t = body
    \<and> best_hash t = (if is_best st then hash_of hdr else best_hash s)"
proof -
  obtain t where t: "chain_insert hash_of (hash_of hdr) hdr just body st s = Some (Inr (), t)"
      "best_hash t = (if is_best st then hash_of hdr else best_hash s)"
    using insert_inv [OF reachable_inv [OF assms(1)] assms(2)] by blast
  from t(1) obtain u where "t = store_block (hash_of hdr) hdr just body st u"
    by (auto simp: chain_insert_def try_run_Some)
  then have "blocks t (hash_of hdr) = Some (stored_block_new hdr body just)" by simp
  then have "chain_header (BlockHash (hash_of hdr)) t = Some hdr" "chain_body (BlockHash (hash_of hdr)) t = body"
    by (simp_all add: chain_header_def chain_body_def) (simp add: stored_block_new_def split: option.split)
  with t show ?thesis by blast
qed

theorem import_succeeds_witness:
  "\<exists>s t :: (nat, unit, unit) blockchain_storage. best_hash s = 3
     \<and> chain_insert hdr_state_root 5 (ex_hdr 3 3 5) None (Some [()]) Best s = Some (Inr (), t) \<and> best_hash t = 5"
proof -
  obtain s :: "(nat, unit, unit) blockchain_storage" where s: "mem_reachable hdr_state_root s"
      "chain_of s = [1 \<mapsto> (0, 0), 2 \<mapsto> (1, 1), 3 \<mapsto> (2, 2), 4 \<mapsto> (1, 1)]" "best_hash s = 3"
    using ex_forked_chain by blast
  have "best_number s = 2" using reachable_inv [OF s(1)] s by (simp add: chain_inv_def num_def)
  then have "insertable hdr_state_root (ex_hdr 3 3 5) Best s"
    using s by (simp add: insertable_def known_blocks [symmetric] num_def)
  from import_succeeds [OF s(1) this, of None "Some [()]"] s(3) show ?thesis by auto
qed

text \<open>
  A reorganisation to a fork that is not higher than the current best block breaks the canonical
  chain: the lowest block of the new branch is no longer found by its number.
\<close>

theorem reorganisation_forgets_ancestor:
  assumes "chain_inv hash_of s" and "blocks s (hash_of hdr) = None" and "chain_of s (hdr_parent_hash hdr) \<noteq> None"
    and "hdr_number hdr = Suc (num (chain_of s) (hdr_parent_hash hdr))" and "is_best st"
    and "hdr_number hdr \<le> best_number s" and "\<not> anc (chain_of s) (hdr_parent_hash hdr) (best_hash s)"
  shows "\<exists>t h. chain_insert hash_of (hash_of hdr) hdr just body st s = Some (Inr (), t) \<and> best_hash t = hash_of hdr
    \<and> anc (chain_of t) h (best_hash t) \<and> chain_hash (num (chain_of t) h) t = None"
proof -
  let ?c = "chain_of s" and ?h = "hash_of hdr" and ?p = "hdr_parent_hash hdr"
  have ok: "in_mem_ok hash_of s" and b: "?c (best_hash s) \<noteq> None" "best_number s = num ?c (best_hash s)"
    using assms(1) by (auto simp: chain_inv_def)
  have v: "valid_chain ?c" using ok by (simp add: in_mem_ok_def)
  have n: "?c ?h = None" using assms(2) by (simp add: known_blocks)
  obtain l en re where r: "is_lca ?c (best_hash s) ?p l" "branch_of ?c (best_hash s) re l" "branch_of ?c ?p (rev en) l"
      "apply_head hash_of hdr s = Some (Inr (), s\<lparr>best_hash := ?h, best_number := hdr_number hdr,
         hashes_at := (reorganise en re (hashes_at s))(hdr_number hdr \<mapsto> ?h)\<rparr>)"
    using apply_head_route [OF ok b(1) assms(3)] by blast
  let ?s = "s\<lparr>best_hash := ?h, best_number := hdr_number hdr, hashes_at := (reorganise en re (hashes_at s))(hdr_number hdr \<mapsto> ?h)\<rparr>"
  let ?t = "store_block ?h hdr just body st ?s"
  have ins: "chain_insert hash_of ?h hdr just body st s = Some (Inr (), ?t)"
    using r(4) assms(5) by (simp add: chain_insert_def)
  have "chain_of ?s = ?c" by (simp add: chain_of_def [abs_def])
  then have c: "chain_of ?t = extended ?c ?h ?p" using assms(4) by (simp add: extended_def)
  have len: "num ?c l + length re = num ?c (best_hash s)" "num ?c l + length en = num ?c ?p"
    using branch_length [OF v r(2) b(1)] branch_length [OF v r(3) assms(3)] by simp_all
  have "l \<noteq> ?p" using r(1) assms(7) by (auto simp: is_lca_def)
  then have lt: "num ?c l < num ?c ?p" using anc_num [OF v, of l ?p] r(1) by (auto simp: is_lca_def)
  have "reorganise en re (hashes_at s) (Suc (num ?c l)) = None"
    by (rule reorganise_forgets [OF v r(2) b(1)]) (use len assms(4,6) b(2) in simp)
  then have none: "chain_hash (Suc (num ?c l)) ?t = None" using assms(4) lt by (simp add: chain_hash_def)
  obtain h where h: "anc ?c h ?p" "num ?c h = Suc (num ?c l)" using anc_at [OF v assms(3), of "Suc (num ?c l)"] lt by auto
  have "h \<noteq> ?h" using anc_known [OF h(1)] n by auto
  then have "anc (chain_of ?t) h ?h" "num (chain_of ?t) h = Suc (num ?c l)"
    using anc_extended(2) [where c = ?c, OF v n assms(3), of h] h unfolding c by (auto simp: extended_def num_def)
  then show ?thesis using ins none by (intro exI [of _ ?t] exI [of _ h]) simp
qed

theorem reorganisation_forgets_ancestor_witness:
  "\<exists>(s :: (nat, unit, unit) blockchain_storage) t h. best_hash s = 3
     \<and> chain_insert hdr_state_root 5 (ex_hdr 2 4 5) None None Best s = Some (Inr (), t)
     \<and> anc (chain_of t) h (best_hash t) \<and> chain_hash (num (chain_of t) h) t = None"
proof -
  obtain s :: "(nat, unit, unit) blockchain_storage" where s: "mem_reachable hdr_state_root s"
      "chain_of s = [1 \<mapsto> (0, 0), 2 \<mapsto> (1, 1), 3 \<mapsto> (2, 2), 4 \<mapsto> (1, 1)]" "best_hash s = 3"
    using ex_forked_chain by blast
  note inv = reachable_inv [OF s(1)]
  have v: "valid_chain (chain_of s)" using inv by (simp add: chain_inv_def in_mem_ok_def)
  have "\<not> anc (chain_of s) 4 3"
  proof
    assume "anc (chain_of s) 4 3"
    then have "anc (chain_of s) 4 2" by (cases rule: ancE) (auto simp: s)
    from anc_num [OF v this] show False by (simp add: s num_def)
  qed
  moreover have "best_number s = 2" using inv s by (simp add: chain_inv_def num_def)
  ultimately show ?thesis
    using reorganisation_forgets_ancestor [OF inv, of "ex_hdr 2 4 5" Best None None] s
    by (auto simp: known_blocks [symmetric] num_def)
qed

text \<open>
  Appending a justification panics exactly for a hash that is not in the chain; every other
  request returns, with an error for an unknown number or a second justification of one engine.
\<close>

theorem append_justification_panics_iff:
  "(append_justification bid j s = None \<longleftrightarrow> (\<exists>h. block_hash_from_id bid s = Some h \<and> blocks s h = None))
   \<and> append_justification (BlockNumber n) j (s\<lparr>hashes_at := Map.empty\<rparr>)
       = Some (Inl (UnknownBlock (BlockNumber n)), s\<lparr>hashes_at := Map.empty\<rparr>)"
  by (auto simp: append_justification_def expect_block_hash_from_id_def block_hash_from_id_def chain_hash_def
      result_simps split: option.splits sum.splits prod.splits bool.splits block_id.splits)

text \<open>
  Finalising a stored block updates the finalised hash only: the finalised number reported with it
  is still that of the block finalised at its import.
\<close>

theorem finalized_number_not_updated:
  assumes "chain_inv hash_of s" and "chain_header bid s = Some hdr"
  shows "\<exists>t. finalize_header hash_of bid just s = Some (Inr (), t)
    \<and> info_finalized_hash (chain_info_of t) = hash_of hdr
    \<and> info_finalized_number (chain_info_of t) = info_finalized_number (chain_info_of s)"
proof -
  obtain b where "blocks s (hash_of hdr) = Some b"
    using assms by (auto simp: chain_header_def chain_inv_def in_mem_ok_def split: Option.bind_splits)
  then show ?thesis using assms(2) by (auto simp: finalize_header_def chain_info_of_def Let_def split: option.split)
qed

theorem finalized_number_not_updated_witness:
  "\<exists>s t :: (nat, unit, unit) blockchain_storage. finalize_header hdr_state_root (BlockHash 3) None s = Some (Inr (), t)
     \<and> info_finalized_hash (chain_info_of t) = 3
     \<and> info_finalized_number (chain_info_of t) = info_finalized_number (chain_info_of s)"
proof -
  obtain s :: "(nat, unit, unit) blockchain_storage" where s: "mem_reachable hdr_state_root s"
      "chain_of s = [1 \<mapsto> (0, 0), 2 \<mapsto> (1, 1), 3 \<mapsto> (2, 2), 4 \<mapsto> (1, 1)]"
    using ex_forked_chain by blast
  note inv = reachable_inv [OF s(1)]
  have "chain_of s 3 \<noteq> None" by (simp add: s)
  then obtain hdr where hdr: "chain_header (BlockHash 3) s = Some hdr"
    by (auto simp: chain_of_def chain_header_def)
  then have "hdr_state_root hdr = 3"
    using inv by (auto simp: chain_header_def chain_inv_def in_mem_ok_def)
  with finalized_number_not_updated [OF inv hdr, of None] show ?thesis by auto
qed

end
