(* ===== verification/Chain_Db.thy ===== *)
theory Chain_Db
  imports In_Mem_Chain
begin

text \<open>
  The header metadata of the database backend (\<open>client/db/src/lib.rs\<close>, \<open>BlockchainDb\<close>) with
  its cache (\<open>HeaderMetadataCache\<close>).  The least-recently-used cache is a library's and is the
  parameter \<open>ops\<close>; reading a header from the database is the parameter \<open>header\<close>.  What is
  relied on of the cache is \<open>lru_laws\<close>: it returns what was last put for a key, or nothing.  Over
  this backend the walks with their cached ancestor links are correct.
\<close>

section \<open>Cache and backend\<close>

record ('h, 'c) lru_ops =
  lru_get :: "'h \<Rightarrow> 'c \<Rightarrow> 'h cached_header_metadata option \<times> 'c"
  lru_put :: "'h \<Rightarrow> 'h cached_header_metadata \<Rightarrow> 'c \<Rightarrow> 'c"
  lru_pop :: "'h \<Rightarrow> 'c \<Rightarrow> 'c"

definition lru_laws :: "('h, 'c) lru_ops \<Rightarrow> ('c \<Rightarrow> 'h \<rightharpoonup> 'h cached_header_metadata) \<Rightarrow> bool" where
  "lru_laws ops content =
     ((\<forall>h c. fst (lru_get ops h c) = content c h \<and> content (snd (lru_get ops h c)) = content c)
      \<and> (\<forall>h m c. content (lru_put ops h m c) \<subseteq>\<^sub>m (content c)(h \<mapsto> m))
      \<and> (\<forall>h c. content (lru_pop ops h c) = (content c)(h := None)))"

definition cache_header_metadata ::
    "('h, 'c) lru_ops \<Rightarrow> 'h \<Rightarrow> 'c \<Rightarrow> 'h cached_header_metadata option \<times> 'c" where
  "cache_header_metadata ops hash c = lru_get ops hash c"

definition cache_insert_header_metadata ::
    "('h, 'c) lru_ops \<Rightarrow> 'h \<Rightarrow> 'h cached_header_metadata \<Rightarrow> 'c \<Rightarrow> 'c" where
  "cache_insert_header_metadata ops hash metadata c = lru_put ops hash metadata c"

definition cache_remove_header_metadata :: "('h, 'c) lru_ops \<Rightarrow> 'h \<Rightarrow> 'c \<Rightarrow> 'c" where
  "cache_remove_header_metadata ops hash c = lru_pop ops hash c"

definition db_header_metadata ::
    "('h, 'c) lru_ops \<Rightarrow> (('h, 'r) header \<Rightarrow> 'h) \<Rightarrow> ('h \<Rightarrow> 'h chain_error + ('h, 'r) header option)
      \<Rightarrow> ('h, 'h chain_error, 'c) metadata_op" where
  "db_header_metadata ops hash_of header hash c =
     (case cache_header_metadata ops hash c of
        (Some m, c) \<Rightarrow> (Inr m, c)
      | (None, c) \<Rightarrow>
          (case header hash of
             Inl e \<Rightarrow> (Inl e, c)
           | Inr None \<Rightarrow> (Inl (UnknownBlock (BlockHash hash)), c)
           | Inr (Some hdr) \<Rightarrow>
               let header_metadata = metadata_from hash_of hdr
               in (Inr header_metadata,
                   cache_insert_header_metadata ops (meta_hash header_metadata) header_metadata c)))"

definition db_insert_header_metadata :: "('h, 'c) lru_ops \<Rightarrow> ('h, 'c) insert_op" where
  "db_insert_header_metadata ops hash metadata c = cache_insert_header_metadata ops hash metadata c"

section \<open>The backend keeps its contract\<close>

definition db_chain :: "('h \<Rightarrow> 'h chain_error + ('h, 'r) header option) \<Rightarrow> 'h header_table" where
  "db_chain header h =
     (case header h of Inr (Some hdr) \<Rightarrow> Some (hdr_number hdr, hdr_parent_hash hdr) | _ \<Rightarrow> None)"

definition db_ok ::
    "('h, 'c) lru_ops \<Rightarrow> ('c \<Rightarrow> 'h \<rightharpoonup> 'h cached_header_metadata) \<Rightarrow> (('h, 'r) header \<Rightarrow> 'h)
      \<Rightarrow> ('h \<Rightarrow> 'h chain_error + ('h, 'r) header option) \<Rightarrow> 'c \<Rightarrow> bool" where
  "db_ok ops content hash_of header c =
     (lru_laws ops content \<and> valid_chain (db_chain header)
      \<and> (\<forall>h hdr. header h = Inr (Some hdr) \<longrightarrow> hash_of hdr = h)
      \<and> (\<forall>h m. content c h = Some m \<longrightarrow> meta_hash m = h \<and> describes (db_chain header) m))"

lemma db_ok_get:
  "db_ok ops content hash_of header c \<Longrightarrow> db_ok ops content hash_of header (snd (lru_get ops h c))"
  by (simp add: db_ok_def lru_laws_def)

lemma db_ok_got:
  assumes "db_ok ops content hash_of header c"
  obtains c1 where "lru_get ops h c = (content c h, c1)" "db_ok ops content hash_of header c1"
proof
  show "lru_get ops h c = (content c h, snd (lru_get ops h c))"
    using assms by (simp add: db_ok_def lru_laws_def prod_eq_iff)
  show "db_ok ops content hash_of header (snd (lru_get ops h c))" by (rule db_ok_get [OF assms])
qed

lemma db_ok_put:
  assumes "db_ok ops content hash_of header c" and "describes (db_chain header) m"
  shows "db_ok ops content hash_of header (lru_put ops (meta_hash m) m c)"
proof -
  have "content (lru_put ops (meta_hash m) m c) \<subseteq>\<^sub>m (content c)(meta_hash m \<mapsto> m)"
    using assms(1) by (simp add: db_ok_def lru_laws_def)
  then have put: "((content c)(meta_hash m \<mapsto> m)) h = Some m'"
    if "content (lru_put ops (meta_hash m) m c) h = Some m'" for h m'
    using that by (metis domI map_le_def)
  have "meta_hash m' = h \<and> describes (db_chain header) m'"
    if "content (lru_put ops (meta_hash m) m c) h = Some m'" for h m'
    using put [OF that] assms by (auto simp: db_ok_def split: if_splits)
  then show ?thesis using assms(1) by (auto simp: db_ok_def)
qed

lemma describes_from:
  assumes v: "valid_chain (db_chain header)" and h: "header h = Inr (Some hdr)" and hs: "hash_of hdr = h"
  shows "describes (db_chain header) (metadata_from hash_of hdr)"
proof -
  have c: "db_chain header h = Some (hdr_number hdr, hdr_parent_hash hdr)" using h by (simp add: db_chain_def)
  have "0 < hdr_number hdr \<Longrightarrow> anc (db_chain header) (hdr_parent_hash hdr) h \<and> hdr_parent_hash hdr \<noteq> h"
    using anc_parent_of [OF v, of h "hdr_number hdr - 1" "hdr_parent_hash hdr"] c by auto
  then show ?thesis using c hs by (simp add: describes_def metadata_from_def)
qed

interpretation db: header_backend "db_header_metadata ops hash_of header" "db_insert_header_metadata ops"
  "\<lambda>c. db_chain header" "db_ok ops content hash_of header" for ops content hash_of header
proof (unfold_locales, goal_cases)
  case (1 c h n p)
  obtain c1 where c: "lru_get ops h c = (content c h, c1)" "db_ok ops content hash_of header c1"
    by (rule db_ok_got [OF 1(1)])
  show ?case
  proof (cases "content c h")
    case (Some m)
    then have "meta_hash m = h" "describes (db_chain header) m" using 1(1) by (auto simp: db_ok_def)
    then show ?thesis using c Some by (simp add: db_header_metadata_def cache_header_metadata_def)
  next
    case None
    obtain hdr where h: "header h = Inr (Some hdr)"
      using 1(2) by (auto simp: db_chain_def split: sum.splits option.splits)
    have hs: "hash_of hdr = h" "valid_chain (db_chain header)" using 1(1) h by (auto simp: db_ok_def)
    have d: "describes (db_chain header) (metadata_from hash_of hdr)"
      using describes_from [where header = header and h = h and hash_of = hash_of] hs h by blast
    have "meta_hash (metadata_from hash_of hdr) = h" using hs by (simp add: metadata_from_def)
    then show ?thesis using c None h d db_ok_put [OF c(2) d]
      by (simp add: db_header_metadata_def cache_header_metadata_def cache_insert_header_metadata_def Let_def)
  qed
next
  case (2 c h)
  have "content c h = None"
  proof (cases "content c h")
    case (Some m)
    then have "meta_hash m = h" "describes (db_chain header) m" using 2(1) by (auto simp: db_ok_def)
    then show ?thesis using 2(2) by (simp add: describes_def)
  qed
  then obtain c1 where "lru_get ops h c = (None, c1)" "db_ok ops content hash_of header c1"
    using db_ok_got [OF 2(1), of h] by metis
  then show ?case using 2
    by (auto simp: db_header_metadata_def cache_header_metadata_def db_chain_def split: sum.splits option.splits)
next
  case (3 c m)
  then show ?case by (simp add: db_insert_header_metadata_def cache_insert_header_metadata_def db_ok_put)
next
  case (4 c)
  then show ?case by (simp add: db_ok_def)
qed

section \<open>Properties\<close>

text \<open>A cache that never evicts, and a database with genesis 1 and the branches 2, 3 and 4, 5.\<close>

definition ex_lru :: "(nat, nat \<rightharpoonup> nat cached_header_metadata) lru_ops" where
  "ex_lru = \<lparr>lru_get = (\<lambda>h c. (c h, c)), lru_put = (\<lambda>h m c. c(h \<mapsto> m)), lru_pop = (\<lambda>h c. c(h := None))\<rparr>"

definition ex_header :: "nat \<Rightarrow> nat chain_error + (nat, unit) header option" where
  "ex_header h =
     (if h = 1 then Inr (Some (ex_hdr 0 0 1)) else if h = 2 then Inr (Some (ex_hdr 1 1 2))
      else if h = 3 then Inr (Some (ex_hdr 2 2 3)) else if h = 4 then Inr (Some (ex_hdr 1 1 4))
      else if h = 5 then Inr (Some (ex_hdr 2 4 5)) else Inr None)"

lemma ex_db_chain: "db_chain ex_header = [1 \<mapsto> (0, 0), 2 \<mapsto> (1, 1), 3 \<mapsto> (2, 2), 4 \<mapsto> (1, 1), 5 \<mapsto> (2, 4)]"
  by (auto simp: fun_eq_iff db_chain_def ex_header_def)

lemma ex_db_ok: "db_ok ex_lru id hdr_state_root ex_header Map.empty"
proof -
  have "valid_chain (db_chain ex_header)" unfolding ex_db_chain by (auto simp: valid_chain_def split: if_splits)
  moreover have "hdr_state_root hdr = h" if "ex_header h = Inr (Some hdr)" for h hdr
    using that by (auto simp: ex_header_def split: if_splits)
  ultimately show ?thesis by (auto simp: db_ok_def lru_laws_def ex_lru_def)
qed

lemma ex_is_lca: "is_lca (db_chain ex_header) 3 5 l \<Longrightarrow> l = 1"
proof -
  assume l: "is_lca (db_chain ex_header) 3 5 l"
  have e: "anc (db_chain ex_header) x 3 \<longleftrightarrow> x = 3 \<or> anc (db_chain ex_header) x 2"
    "anc (db_chain ex_header) x 2 \<longleftrightarrow> x = 2 \<or> anc (db_chain ex_header) x 1"
    "anc (db_chain ex_header) x 5 \<longleftrightarrow> x = 5 \<or> anc (db_chain ex_header) x 4"
    "anc (db_chain ex_header) x 4 \<longleftrightarrow> x = 4 \<or> anc (db_chain ex_header) x 1"
    "anc (db_chain ex_header) x 1 \<longleftrightarrow> x = 1" for x
    by (rule anc_step_iff, simp add: ex_db_chain)+ (rule anc_genesis_iff, simp add: ex_db_chain)
  show "l = 1" using l unfolding is_lca_def e by auto
qed

text \<open>
  C11. The lowest common ancestor of two stored blocks is computed, in finitely many steps, whatever
  ancestor links earlier queries have left in the cache, and the links it leaves there are right.
\<close>

theorem lowest_common_ancestor_correct:
  assumes "db_ok ops content hash_of header c" and "db_chain header a \<noteq> None" and "db_chain header b \<noteq> None"
  shows "\<exists>l c'. lowest_common_ancestor (db_header_metadata ops hash_of header) (db_insert_header_metadata ops) a b c
      = Some (Inr l, c') \<and> is_lca (db_chain header) a b (hn_hash l)
    \<and> hn_number l = num (db_chain header) (hn_hash l) \<and> db_ok ops content hash_of header c'"
  using db.lca_ok [OF assms] by blast

theorem lowest_common_ancestor_correct_witness:
  "\<exists>l c'. lowest_common_ancestor (db_header_metadata ex_lru hdr_state_root ex_header)
       (db_insert_header_metadata ex_lru) 3 5 Map.empty = Some (Inr l, c') \<and> hn_hash l = 1"
  using lowest_common_ancestor_correct [OF ex_db_ok, of 3 5] ex_is_lca by (auto simp: ex_db_chain)

text \<open>
  C25. The tree route between two stored blocks runs from the first up to their lowest common ancestor
  and down to the second: the retracted and the enacted blocks are the two branches, in order.
\<close>

theorem tree_route_correct:
  assumes "db_ok ops content hash_of header c" and "db_chain header a \<noteq> None" and "db_chain header b \<noteq> None"
  shows "\<exists>r c' l re en. compute_tree_route (db_header_metadata ops hash_of header) a b c = Some (Inr r, c')
    \<and> retracted r = Some re \<and> common_block r = Some l \<and> enacted r = Some en
    \<and> is_lca (db_chain header) a b (hn_hash l)
    \<and> walks (db_chain header) a (map hn_hash re) (hn_hash l)
    \<and> walks (db_chain header) b (rev (map hn_hash en)) (hn_hash l)
    \<and> (\<forall>x \<in> set (re @ l # en). hn_number x = num (db_chain header) (hn_hash x))"
  using db.tree_route_ok [OF assms] by (fastforce simp: branch_of_def rev_map)

theorem tree_route_correct_witness:
  "\<exists>r c' re en. compute_tree_route (db_header_metadata ex_lru hdr_state_root ex_header) 3 5 Map.empty = Some (Inr r, c')
     \<and> retracted r = Some re \<and> enacted r = Some en \<and> length re = 2 \<and> length en = 2"
proof -
  have k: "db_chain ex_header 3 \<noteq> None" "db_chain ex_header 5 \<noteq> None" by (simp_all add: ex_db_chain)
  obtain r c' l re en where r: "compute_tree_route (db_header_metadata ex_lru hdr_state_root ex_header) 3 5 Map.empty
        = Some (Inr r, c')" "retracted r = Some re" "enacted r = Some en" "is_lca (db_chain ex_header) 3 5 (hn_hash l)"
      "common_block r = Some l"
      "walks (db_chain ex_header) 3 (map hn_hash re) (hn_hash l)"
      "walks (db_chain ex_header) 5 (rev (map hn_hash en)) (hn_hash l)"
    using tree_route_correct [OF ex_db_ok k] by blast
  have v: "valid_chain (db_chain ex_header)" using ex_db_ok by (simp add: db_ok_def)
  have "hn_hash l = 1" by (rule ex_is_lca [OF r(4)])
  then have "length re = 2" "length en = 2"
    using walks_length [OF v r(6), of 2 2] walks_length [OF v r(7), of 2 4] by (simp_all add: ex_db_chain num_def)
  with r show ?thesis by blast
qed

text \<open>
  C26. The ancestry test answers whether its base is a proper ancestor of the block, also for the block
  being imported, which is not in the database yet.
\<close>

theorem is_descendent_of_correct:
  assumes "db_ok ops content hash_of header c" and "db_chain header h0 = None" and "db_chain header p \<noteq> None"
    and "extended (db_chain header) h0 p base \<noteq> None" and "extended (db_chain header) h0 p h \<noteq> None"
  shows "\<exists>c'. is_descendent_of (db_header_metadata ops hash_of header) (db_insert_header_metadata ops)
        (Some (h0, p)) base h c
      = Some (Inr (base \<noteq> h \<and> anc (extended (db_chain header) h0 p) base h), c') \<and> db_ok ops content hash_of header c'"
  using db.descendent_of_current_ok [OF assms] by blast

theorem is_descendent_of_correct_witness:
  "\<exists>c'. is_descendent_of (db_header_metadata ex_lru hdr_state_root ex_header) (db_insert_header_metadata ex_lru)
       (Some (6, 3)) 2 6 Map.empty = Some (Inr True, c')"
proof -
  have "anc (extended (db_chain ex_header) 6 3) 2 6"
    by (rule anc_parent [of _ _ 2 3], simp add: extended_def ex_db_chain num_def,
        rule anc_parent [of _ _ 1 2], simp add: extended_def ex_db_chain,
        rule anc_self [of _ _ 1 1], simp add: extended_def ex_db_chain)
  then show ?thesis
    using is_descendent_of_correct [OF ex_db_ok, of 6 3 2 6] by (auto simp: ex_db_chain extended_def)
qed

end
