(* ===== verification/Fork_Tree_Chain.thy ===== *)
theory Fork_Tree_Chain
  imports Fork_Tree_Safety Chain_Db
begin

text \<open>
  The fork tree over the ancestry test that the database backend provides: the laws of the interface
  hold for it, and the operations of the tree follow the chain.
\<close>

section \<open>On the ancestry test of the database\<close>

text \<open>
  The test the clients of the tree pass: \<open>is_descendent_of\<close> over the headers of the database and, while
  a block is being imported, over that block too.  What it answers does not depend on what the metadata
  cache holds, so one cache stands for all the calls an operation makes.
\<close>

definition db_test where
  "db_test ops hash_of header current c base h =
     fst (the (is_descendent_of (db_header_metadata ops hash_of header) (db_insert_header_metadata ops) current base h c))"

definition view where
  "view header current = (case current of None \<Rightarrow> db_chain header | Some (h0, p) \<Rightarrow> extended (db_chain header) h0 p)"

definition view_ok where
  "view_ok ops content hash_of header current c = (db_ok ops content hash_of header c
     \<and> (case current of None \<Rightarrow> True | Some (h0, p) \<Rightarrow> db_chain header h0 = None \<and> db_chain header p \<noteq> None))"

lemma view_valid: "view_ok ops content hash_of header current c \<Longrightarrow> valid_chain (view header current)"
  by (auto simp: view_ok_def view_def db_ok_def intro: valid_extended split: option.splits)

lemma db_test_eq:
  assumes "view_ok ops content hash_of header current c" and "a \<in> dom (view header current)" and "b \<in> dom (view header current)"
  shows "db_test ops hash_of header current c a b = Inr (a \<noteq> b \<and> anc (view header current) a b)"
proof (cases current)
  case None
  then show ?thesis
    using db.descendent_ok [of ops content hash_of header c a b] assms by (auto simp: db_test_def view_def view_ok_def)
next
  case (Some hp)
  obtain h0 p where hp: "hp = (h0, p)" by (cases hp)
  then show ?thesis
    using db.descendent_of_current_ok [of ops content hash_of header c h0 p a b] assms Some
    by (auto simp: db_test_def view_def view_ok_def domIff)
qed

lemma db_test_anc:
  "view_ok ops content hash_of header current c \<Longrightarrow> a \<in> dom (view header current) \<Longrightarrow> b \<in> dom (view header current) \<Longrightarrow>
    proper_anc (db_test ops hash_of header current c) a b \<longleftrightarrow> a \<noteq> b \<and> anc (view header current) a b"
  by (simp add: proper_anc_def db_test_eq)

interpretation chain: ancestry "db_test ops hash_of header current" "\<lambda>c. num (view header current)"
  "\<lambda>c. dom (view header current)" "view_ok ops content hash_of header current" for ops content hash_of header current
proof (unfold_locales, goal_cases)
  case (1 c a b)
  then show ?case by (simp add: db_test_eq)
next
  case (2 c a b)
  then show ?case using anc_num [OF view_valid [OF 2(1)], of a b] by (auto simp: db_test_anc)
next
  case (3 c x y z)
  note v = view_valid [OF 3(1)]
  have e: "x \<noteq> y" "anc (view header current) x y" "y \<noteq> z" "anc (view header current) y z"
    using 3 by (simp_all add: db_test_anc)
  have "x \<noteq> z" using anc_num [OF v e(2)] anc_num [OF v e(4)] e(1,3) by auto
  then show ?case using 3 anc_trans [OF e(4) e(2)] by (simp add: db_test_anc)
next
  case (4 c x y z)
  note v = view_valid [OF 4(1)]
  have "anc (view header current) x z" "anc (view header current) y z" using 4 by (simp_all add: db_test_anc)
  then have "anc (view header current) x y \<or> anc (view header current) y x" using anc_linear [OF v] by (meson nat_le_linear)
  then show ?case using 4 by (auto simp: db_test_anc)
qed

text \<open>A tree over the blocks of the chain whose nodes are arranged by ancestry.\<close>

definition follows_chain where
  "follows_chain ops content hash_of header current c t = (view_ok ops content hash_of header current c
     \<and> forest_ok (db_test ops hash_of header current c) (num (view header current)) (dom (view header current)) (roots t))"

definition descendants :: "'h header_table \<Rightarrow> 'h \<Rightarrow> ('h \<times> 'n \<times> 'v) set \<Rightarrow> ('h \<times> 'n \<times> 'v) set" where
  "descendants V h I = {i \<in> I. fst i \<noteq> h \<and> anc V h (fst i)}"

lemma tree_iter_items: "set (tree_iter t) = items (roots t)"
  by (simp add: tree_iter_def node_iter_preorder items_def item_of_def [abs_def])

lemma follows_known:
  "follows_chain ops content hash_of header current c t \<Longrightarrow> i \<in> items (roots t) \<Longrightarrow> fst i \<in> dom (view header current)"
  using chain.tree_nodes_ok(2) [of ops content hash_of header current c "roots t"]
  by (force simp: follows_chain_def items_def item_of_def simp del: domIff)

lemma follows_after:
  assumes "follows_chain ops content hash_of header current c t" and "view header current h = Some v"
  shows "{i \<in> items (roots t). proper_anc (db_test ops hash_of header current c) h (fst i)}
    = descendants (view header current) h (set (tree_iter t))"
proof -
  have "proper_anc (db_test ops hash_of header current c) h (fst i) \<longleftrightarrow> h \<noteq> fst i \<and> anc (view header current) h (fst i)"
    if "i \<in> items (roots t)" for i
    using db_test_anc [of ops content hash_of header current c h "fst i"] follows_known [OF assms(1) that] assms
    by (auto simp: follows_chain_def)
  then show ?thesis by (auto simp: descendants_def tree_iter_items)
qed

lemma follows_ancestor:
  assumes f: "follows_chain ops content hash_of header current c t" and h: "view header current h = Some v"
  shows "(\<exists>r \<in> set (roots t). proper_anc (db_test ops hash_of header current c) (node_hash r) h)
    \<longleftrightarrow> (\<exists>x \<in> set (tree_iter t). fst x \<noteq> h \<and> anc (view header current) (fst x) h)"
proof -
  have o: "view_ok ops content hash_of header current c"
    and t: "forest_ok (db_test ops hash_of header current c) (num (view header current)) (dom (view header current)) (roots t)"
    using f by (simp_all add: follows_chain_def)
  have hk: "h \<in> dom (view header current)" using h by auto
  have "(\<exists>r \<in> set (roots t). proper_anc (db_test ops hash_of header current c) (node_hash r) h)
    \<longleftrightarrow> (\<exists>y \<in> set (forest_nodes (roots t)). proper_anc (db_test ops hash_of header current c) (node_hash y) h)"
  proof
    assume "\<exists>y \<in> set (forest_nodes (roots t)). proper_anc (db_test ops hash_of header current c) (node_hash y) h"
    then obtain y r where y: "r \<in> set (roots t)" "y \<in> set (subnodes r)"
      "proper_anc (db_test ops hash_of header current c) (node_hash y) h"
      by (auto simp: forest_nodes_mem)
    have "node_ok (db_test ops hash_of header current c) (num (view header current)) (dom (view header current)) r"
      using t y(1) by (simp add: forest_ok_def)
    from chain.ancestor_root [OF o this y(2) hk y(3)] y(1)
    show "\<exists>r \<in> set (roots t). proper_anc (db_test ops hash_of header current c) (node_hash r) h" by blast
  qed (blast intro: root_node)
  also have "\<dots> \<longleftrightarrow> (\<exists>i \<in> items (roots t). proper_anc (db_test ops hash_of header current c) (fst i) h)"
    by (auto simp: items_def item_of_def)
  also have "\<dots> \<longleftrightarrow> (\<exists>i \<in> items (roots t). fst i \<noteq> h \<and> anc (view header current) (fst i) h)"
    using db_test_anc [OF o _ hk] follows_known [OF f] by blast
  finally show ?thesis by (simp add: tree_iter_items)
qed

text \<open>Over the example database: the blocks 2 and 3, with a change each.\<close>

definition ex_tree :: "(nat, nat, nat) fork_tree" where
  "ex_tree = \<lparr>roots = [Node 2 1 20 [Node 3 2 30 []]], best_finalized_number = None\<rparr>"

abbreviation "ex_test \<equiv> db_test ex_lru hdr_state_root ex_header None Map.empty"

lemma ex_anc:
  "anc (view ex_header None) x 3 \<longleftrightarrow> x = 3 \<or> x = 2 \<or> x = 1" "anc (view ex_header None) x 2 \<longleftrightarrow> x = 2 \<or> x = 1"
  "anc (view ex_header None) x 5 \<longleftrightarrow> x = 5 \<or> x = 4 \<or> x = 1" "anc (view ex_header None) x 4 \<longleftrightarrow> x = 4 \<or> x = 1"
proof -
  have "anc (db_chain ex_header) x 3 \<longleftrightarrow> x = 3 \<or> anc (db_chain ex_header) x 2"
    "anc (db_chain ex_header) x 2 \<longleftrightarrow> x = 2 \<or> anc (db_chain ex_header) x 1"
    "anc (db_chain ex_header) x 5 \<longleftrightarrow> x = 5 \<or> anc (db_chain ex_header) x 4"
    "anc (db_chain ex_header) x 4 \<longleftrightarrow> x = 4 \<or> anc (db_chain ex_header) x 1"
    "anc (db_chain ex_header) x 1 \<longleftrightarrow> x = 1"
    by (rule anc_step_iff, simp add: ex_db_chain)+ (rule anc_genesis_iff, simp add: ex_db_chain)
  then show "anc (view ex_header None) x 3 \<longleftrightarrow> x = 3 \<or> x = 2 \<or> x = 1" "anc (view ex_header None) x 2 \<longleftrightarrow> x = 2 \<or> x = 1"
    "anc (view ex_header None) x 5 \<longleftrightarrow> x = 5 \<or> x = 4 \<or> x = 1" "anc (view ex_header None) x 4 \<longleftrightarrow> x = 4 \<or> x = 1"
    by (auto simp: view_def)
qed

lemma ex_view: "view ex_header None = [1 \<mapsto> (0, 0), 2 \<mapsto> (1, 1), 3 \<mapsto> (2, 2), 4 \<mapsto> (1, 1), 5 \<mapsto> (2, 4)]"
  by (simp add: view_def ex_db_chain)

lemma ex_follows: "follows_chain ex_lru id hdr_state_root ex_header None Map.empty ex_tree"
proof -
  have o: "view_ok ex_lru id hdr_state_root ex_header None Map.empty" by (simp add: view_ok_def ex_db_ok)
  have "proper_anc ex_test 2 3" using db_test_anc [OF o, of 2 3] by (simp add: ex_anc) (simp add: ex_view)
  then show ?thesis using o by (simp add: follows_chain_def ex_tree_def forks_def) (simp add: ex_view num_def)
qed

lemma ex_items: "tree_iter ex_tree = [(2, 1, 20), (3, 2, 30)]" "node_iter (roots ex_tree) = [Node 2 1 20 [Node 3 2 30 []], Node 3 2 30 []]"
  "\<not> reverts n ex_tree"
  by (simp_all add: tree_iter_def ex_tree_def reverts_def)

lemma ex_descendants: "descendants (view ex_header None) 5 (set (tree_iter ex_tree)) = {}"
  "descendants (view ex_header None) 3 (set (tree_iter ex_tree)) = {}"
  "descendants (view ex_header None) 2 (set (tree_iter ex_tree)) = {(3, 2, 30)}"
  by (auto simp: descendants_def ex_items ex_anc)

section \<open>Properties\<close>

text \<open>
  C24. In a tree that follows the chain, the nodes below a node are exactly those of the descendants of
  its block, and no block has two nodes.
\<close>

theorem fork_tree_shape_is_ancestry:
  assumes "follows_chain ops content hash_of header current c t"
    and "x \<in> set (node_iter (roots t))" and "y \<in> set (node_iter (roots t))"
  shows "(node_hash x = node_hash y \<longrightarrow> x = y)
    \<and> (y \<in> set (node_iter (node_children x)) \<longleftrightarrow>
        node_hash x \<noteq> node_hash y \<and> anc (view header current) (node_hash x) (node_hash y))"
proof -
  have o: "view_ok ops content hash_of header current c" and xy: "x \<in> set (forest_nodes (roots t))" "y \<in> set (forest_nodes (roots t))"
    and t: "forest_ok (db_test ops hash_of header current c) (num (view header current)) (dom (view header current)) (roots t)"
    using assms by (simp_all add: follows_chain_def node_iter_preorder)
  have k: "node_hash x \<in> dom (view header current)" "node_hash y \<in> dom (view header current)"
    using chain.tree_nodes_ok(2) [OF o t] xy by blast+
  have "(node_hash x = node_hash y \<longrightarrow> x = y) \<and> (proper_anc (db_test ops hash_of header current c) (node_hash x) (node_hash y)
      \<longleftrightarrow> y \<in> set (forest_nodes (node_children x)))"
    using chain.tree_represents [OF o t] xy unfolding represents_def by blast
  then show ?thesis unfolding node_iter_preorder db_test_anc [OF o k] by simp
qed

theorem fork_tree_shape_is_ancestry_witness:
  "set (node_iter (roots ex_tree)) = {Node 2 1 20 [Node 3 2 30 []], Node 3 2 30 []} \<and> anc (view ex_header None) 2 3"
  using fork_tree_shape_is_ancestry [OF ex_follows, of "Node 2 1 20 [Node 3 2 30 []]" "Node 3 2 30 []"] by (simp add: ex_items)

text \<open>
  C6. Importing a block of the chain into a tree that follows it and has no descendant of the block: a
  block at or below the last finalised number is refused with \<open>Revert\<close> and a block that is there with
  \<open>Duplicate\<close>, and the tree is unchanged; any other is added, as a root exactly when no ancestor of it is
  there, and the tree still follows the chain.
\<close>

theorem fork_tree_import_correct:
  assumes "follows_chain ops content hash_of header current c t" and "view header current h = Some (n, p)"
    and "descendants (view header current) h (set (tree_iter t)) = {}"
  shows "if reverts n t then import (db_test ops hash_of header current c) h n data t = (Inl Revert, t)
    else if h \<in> fst ` set (tree_iter t) then import (db_test ops hash_of header current c) h n data t = (Inl Duplicate, t)
    else \<exists>t'. import (db_test ops hash_of header current c) h n data t
        = (Inr (\<forall>x \<in> set (tree_iter t). \<not> anc (view header current) (fst x) h), t')
      \<and> follows_chain ops content hash_of header current c t'
      \<and> set (tree_iter t') = insert (h, n, data) (set (tree_iter t))
      \<and> best_finalized_number t' = best_finalized_number t"
proof (cases "reverts n t")
  case new: False
  have o: "view_ok ops content hash_of header current c" and h: "h \<in> dom (view header current)" "n = num (view header current) h"
    and t: "forest_ok (db_test ops hash_of header current c) (num (view header current)) (dom (view header current)) (roots t)"
    using assms by (auto simp: follows_chain_def num_def)
  have e: "{i \<in> items (roots t). proper_anc (db_test ops hash_of header current c) h (fst i)} = {}"
    using follows_after [OF assms(1,2)] assms(3) by (rule trans)
  have "\<forall>y \<in> hashes_in (roots t). \<not> proper_anc (db_test ops hash_of header current c) h y"
  proof (intro ballI notI)
    fix y assume y: "y \<in> hashes_in (roots t)" "proper_anc (db_test ops hash_of header current c) h y"
    from y(1) obtain i where "i \<in> items (roots t)" "y = fst i" unfolding hashes_in_items by (rule imageE)
    then have "i \<in> {i \<in> items (roots t). proper_anc (db_test ops hash_of header current c) h (fst i)}" using y(2) by simp
    then show False unfolding e by (rule emptyE)
  qed
  note imp = chain.import_ok [OF o t h new this, of data, unfolded hashes_in_items follows_ancestor [OF assms(1,2)],
      folded tree_iter_items]
  show ?thesis
  proof (cases "h \<in> fst ` set (tree_iter t)")
    case True
    then show ?thesis using imp new by simp
  next
    case False
    then have "(\<forall>x \<in> set (tree_iter t). \<not> anc (view header current) (fst x) h)
        \<longleftrightarrow> \<not> (\<exists>x \<in> set (tree_iter t). fst x \<noteq> h \<and> anc (view header current) (fst x) h)" by force
    with imp False new o show ?thesis by (simp add: follows_chain_def)
  qed
qed (simp add: import_def)

theorem fork_tree_import_correct_witness:
  "\<exists>t'. import ex_test 5 2 50 ex_tree = (Inr True, t') \<and> set (tree_iter t') = {(5, 2, 50), (2, 1, 20), (3, 2, 30)}"
proof -
  have "view ex_header None 5 = Some (2, 4)" by (simp add: ex_view)
  from fork_tree_import_correct [OF ex_follows this ex_descendants(1), of 50] show ?thesis
    by (simp add: ex_items ex_anc) blast
qed

text \<open>
  C23. Finalising a block of the chain in a tree that follows it is refused with \<open>Revert\<close> when the block
  is at or below the last finalised number, and with \<open>UnfinalizedAncestor\<close> when the tree has an ancestor
  of it, and the tree is unchanged; otherwise exactly the descendants of the block stay in the tree and
  its number is the last finalised one.
\<close>

theorem fork_tree_finalize_correct:
  assumes "follows_chain ops content hash_of header current c t" and "view header current h = Some (n, p)"
  shows "if reverts n t then finalize (db_test ops hash_of header current c) h n t = (Inl Revert, t)
    else if \<exists>x \<in> set (tree_iter t). fst x \<noteq> h \<and> anc (view header current) (fst x) h
    then finalize (db_test ops hash_of header current c) h n t = (Inl UnfinalizedAncestor, t)
    else \<exists>r t'. finalize (db_test ops hash_of header current c) h n t = (Inr r, t')
      \<and> follows_chain ops content hash_of header current c t'
      \<and> set (tree_iter t') = descendants (view header current) h (set (tree_iter t))
      \<and> best_finalized_number t' = Some n"
proof (cases "reverts n t")
  case False
  have o: "view_ok ops content hash_of header current c" and h: "h \<in> dom (view header current)" "n = num (view header current) h"
    and t: "forest_ok (db_test ops hash_of header current c) (num (view header current)) (dom (view header current)) (roots t)"
    using assms by (auto simp: follows_chain_def num_def)
  show ?thesis
    using chain.finalize_ok [OF o t h False, unfolded follows_ancestor [OF assms(1,2)] follows_after [OF assms(1,2)],
        folded tree_iter_items] o False
    by (simp add: follows_chain_def)
qed (simp add: finalize_def)

theorem fork_tree_finalize_correct_witness:
  "finalize ex_test 3 2 ex_tree = (Inl UnfinalizedAncestor, ex_tree)
   \<and> (\<exists>r t'. finalize ex_test 2 1 ex_tree = (Inr r, t') \<and> set (tree_iter t') = {(3, 2, 30)})"
proof
  have v: "view ex_header None 3 = Some (2, 2)" "view ex_header None 2 = Some (1, 1)" by (simp_all add: ex_view)
  show "finalize ex_test 3 2 ex_tree = (Inl UnfinalizedAncestor, ex_tree)"
    using fork_tree_finalize_correct [OF ex_follows v(1)] by (simp add: ex_items ex_anc)
  show "\<exists>r t'. finalize ex_test 2 1 ex_tree = (Inr r, t') \<and> set (tree_iter t') = {(3, 2, 30)}"
    using fork_tree_finalize_correct [OF ex_follows v(2), unfolded ex_descendants] by (simp add: ex_items ex_anc) blast
qed

text \<open>
  C20. Finalising a block of the chain together with its ancestors, in a tree that follows the chain, is
  refused with \<open>Revert\<close> and changes nothing when the block is at or below the last finalised number;
  otherwise it succeeds, leaves exactly the descendants of the block in the tree, and its number is the
  last finalised one.
\<close>

theorem finalize_with_ancestors_correct:
  assumes "follows_chain ops content hash_of header current c t" and "view header current h = Some (n, p)"
  shows "if reverts n t then finalize_with_ancestors (db_test ops hash_of header current c) h n t = (Inl Revert, t)
    else \<exists>r t'. finalize_with_ancestors (db_test ops hash_of header current c) h n t = (Inr r, t')
      \<and> follows_chain ops content hash_of header current c t'
      \<and> set (tree_iter t') = descendants (view header current) h (set (tree_iter t))
      \<and> best_finalized_number t' = Some n"
proof (cases "reverts n t")
  case False
  have o: "view_ok ops content hash_of header current c" and h: "h \<in> dom (view header current)" "n = num (view header current) h"
    and t: "forest_ok (db_test ops hash_of header current c) (num (view header current)) (dom (view header current)) (roots t)"
    using assms by (auto simp: follows_chain_def num_def)
  show ?thesis
    using chain.finalize_with_ancestors_ok [OF o t h False, unfolded chain.finalizes_def follows_after [OF assms(1,2)],
        folded tree_iter_items] o False
    by (simp add: follows_chain_def)
qed (simp add: finalize_with_ancestors_def)

theorem finalize_with_ancestors_correct_witness:
  "\<exists>r t'. finalize_with_ancestors ex_test 3 2 ex_tree = (Inr r, t') \<and> tree_iter t' = [] \<and> best_finalized_number t' = Some 2"
proof -
  have "view ex_header None 3 = Some (2, 2)" by (simp add: ex_view)
  from finalize_with_ancestors_correct [OF ex_follows this, unfolded ex_descendants] show ?thesis by (simp add: ex_items) auto
qed

text \<open>
  C21. Searching for a block of the chain ends with the deepest of its ancestors in the tree whose data
  pass the predicate, and with nothing exactly when there is none.
\<close>

theorem find_node_where_deepest:
  assumes "follows_chain ops content hash_of header current c t" and "view header current h = Some (n, p)"
  shows "\<exists>found. find_node_where (db_test ops hash_of header current c) P h n t = Some (Inr found)
    \<and> (let above = (\<lambda>x b. node_hash x \<noteq> b \<and> anc (view header current) (node_hash x) b);
           candidates = {x \<in> set (node_iter (roots t)). above x h \<and> P (node_data x)}
       in (case found of
             None \<Rightarrow> candidates = {}
           | Some y \<Rightarrow> y \<in> candidates \<and> (\<forall>z \<in> candidates. z = y \<or> above z (node_hash y))))"
proof -
  have o: "view_ok ops content hash_of header current c" and h: "h \<in> dom (view header current)" "n = num (view header current) h"
    and t: "forest_ok (db_test ops hash_of header current c) (num (view header current)) (dom (view header current)) (roots t)"
    using assms by (auto simp: follows_chain_def num_def)
  have a: "proper_anc (db_test ops hash_of header current c) (node_hash z) b \<longleftrightarrow> node_hash z \<noteq> b \<and> anc (view header current) (node_hash z) b"
    if "z \<in> set (forest_nodes (roots t))" "b \<in> dom (view header current)" for z b
    using db_test_anc [OF o chain.tree_nodes_ok(2) [OF o t that(1)] that(2)] .
  have k: "node_hash y \<in> dom (view header current)" if "y \<in> set (forest_nodes (roots t))" for y
    using chain.tree_nodes_ok(2) [OF o t that] .
  let ?pa = "proper_anc (db_test ops hash_of header current c)" and ?N = "set (forest_nodes (roots t))"
  from chain.roots_find_ok [OF o h t, of P, unfolded chain.deepest_def] obtain found
    where "find_node_where (db_test ops hash_of header current c) P h n t = Some (Inr found)"
    and f: "case found of Some y \<Rightarrow> y \<in> ?N \<and> ?pa (node_hash y) h \<and> P (node_data y)
        \<and> (\<forall>z \<in> ?N. ?pa (node_hash z) h \<and> P (node_data z) \<longrightarrow> z = y \<or> ?pa (node_hash z) (node_hash y))
      | None \<Rightarrow> \<forall>z \<in> set (forest_nodes (roots t)). proper_anc (db_test ops hash_of header current c) (node_hash z) h \<longrightarrow> \<not> P (node_data z)"
    by (auto simp: find_node_where_def)
  then show ?thesis
    by (intro exI [of _ found]) (auto simp: Let_def node_iter_preorder a [OF _ h(1)] a [OF _ k] split: option.splits)
qed

theorem find_node_where_deepest_witness:
  "\<exists>y. find_node_where ex_test (\<lambda>d. d < 30) 3 2 ex_tree = Some (Inr (Some y)) \<and> node_hash y = 2"
proof -
  have "view ex_header None 3 = Some (2, 2)" by (simp add: ex_view)
  from find_node_where_deepest [OF ex_follows this, of "\<lambda>d. d < 30"] show ?thesis
    by (auto simp: ex_items ex_anc Let_def split: option.splits)
qed

text \<open>
  C29. Pruning never panics, whatever the ancestry test answers; when it succeeds, the entries it returns
  and the entries left in the tree are together those the tree had.
\<close>

theorem prune_partitions:
  "\<exists>r t'. prune F P hash number t = Some (r, t')
     \<and> (case r of Inr removed \<Rightarrow> mset (tree_iter t) = mset removed + mset (tree_iter t') | Inl e \<Rightarrow> True)
     \<and> best_finalized_number t' = best_finalized_number t"
  by (rule prune_cases [of F P hash number t]) auto

text \<open>
  C36. An error of the ancestry test in the last phase of \<open>finalize\<close> loses roots: with the block
  below every root, an error on the first one leaves the tree empty.
\<close>

theorem finalize_error_empties_tree:
  assumes "\<not> reverts number t" and "roots t = r # rs" and "F hash (node_hash r) = Inl e"
    and "\<forall>x \<in> set (roots t). number < node_number x \<and> node_hash x \<noteq> hash"
  shows "finalize F hash number t = (Inl (Client_Error e), t\<lparr>roots := []\<rparr>)"
proof -
  have "any_ancestor F hash number (roots t) = Inr False" using assms(4) by (intro any_ancestor_lower) blast
  moreover have "finalize_root hash t = None" using assms(4) by (simp add: finalize_root_def position_of_None)
  ultimately show ?thesis using assms by (simp add: finalize_def)
qed

theorem finalize_error_empties_tree_witness:
  "finalize (\<lambda>a b. Inl ''db'') 1 0 ex_tree = (Inl (Client_Error ''db''), ex_tree\<lparr>roots := []\<rparr>)"
  by (rule finalize_error_empties_tree) (simp_all add: ex_tree_def reverts_def)

end
