(* ===== verification/Grandpa_Authorities.thy ===== *)
theory Grandpa_Authorities
  imports Fork_Tree "HOL-Library.Product_Lexorder"
begin

text \<open>
  The authority sets of GRANDPA (\<open>client/finality-grandpa/src/authorities.rs\<close>): the current
  authorities, the changes signalled by blocks of several forks, which wait in a fork tree or, when
  forced, in a sorted vector, and the history of the sets.  Block numbers are natural numbers; logging
  and telemetry are left out.
\<close>

section \<open>Pending changes and the history\<close>

type_synonym 'id authority_list = "('id \<times> u64) list"

datatype delay_kind = DelayFinalized | DelayBest (median_last_finalized: nat)

record ('h, 'id) pending_change =
  next_authorities :: "'id authority_list"
  delay :: nat
  canon_height :: nat
  canon_hash :: 'h
  delay_kind :: delay_kind

definition effective_number :: "('h, 'id) pending_change \<Rightarrow> nat" where
  "effective_number c = canon_height c + delay c"

type_synonym authority_set_changes = "(u64 \<times> nat) list"

datatype authority_set_change_id = LatestSet | InSet u64 nat | UnknownSet

definition changes_append :: "u64 \<Rightarrow> nat \<Rightarrow> authority_set_changes \<Rightarrow> authority_set_changes" where
  "changes_append i n cs = cs @ [(i, n)]"

fun search_index :: "nat + nat \<Rightarrow> nat" where
  "search_index (Inr i) = i"
| "search_index (Inl i) = i"

definition get_set_id :: "nat \<Rightarrow> authority_set_changes \<Rightarrow> authority_set_change_id" where
  "get_set_id block_number cs =
     (if cs \<noteq> [] \<and> snd (last cs) < block_number then LatestSet
      else
        let idx = search_index (binary_search_by_key block_number snd cs)
        in if idx < length cs then
             (case cs ! idx of (i, n) \<Rightarrow> if idx = 0 \<and> i \<noteq> 0 then UnknownSet else InSet i n)
           else UnknownSet)"

definition iter_from :: "nat \<Rightarrow> authority_set_changes \<Rightarrow> authority_set_changes option" where
  "iter_from block_number cs =
     (let idx = (case binary_search_by_key block_number snd cs of Inr n \<Rightarrow> n + 1 | Inl b \<Rightarrow> b)
      in if idx < length cs \<and> idx = 0 \<and> fst (cs ! idx) \<noteq> 0 then None
         else Some (drop idx cs))"

section \<open>The authority set\<close>

datatype 'e authority_error =
  InvalidAuthoritySet
| ClientError 'e
| DuplicateAuthoritySetChange
| MultiplePendingForcedAuthoritySetChanges
| ForcedAuthoritySetChangeDependencyUnsatisfied nat
| ForkTreeError "'e fork_error"

fun from_fork_error :: "'e fork_error \<Rightarrow> 'e authority_error" where
  "from_fork_error (Client_Error e) = ClientError e"
| "from_fork_error Duplicate = DuplicateAuthoritySetChange"
| "from_fork_error err = ForkTreeError err"

record ('h, 'id) authority_set =
  current_authorities :: "'id authority_list"
  set_id :: u64
  pending_standard_changes :: "('h, nat, ('h, 'id) pending_change) fork_tree"
  pending_forced_changes :: "('h, 'id) pending_change list"
  set_changes :: authority_set_changes

definition invalid_authority_list :: "'id authority_list \<Rightarrow> bool" where
  "invalid_authority_list as = (as = [] \<or> list_ex (\<lambda>(_, w). w = 0) as)"

definition authority_genesis :: "'id authority_list \<Rightarrow> ('h, 'id) authority_set option" where
  "authority_genesis initial =
     (if invalid_authority_list initial then None
      else Some \<lparr>current_authorities = initial, set_id = 0, pending_standard_changes = fork_tree_new,
             pending_forced_changes = [], set_changes = []\<rparr>)"

definition authority_new ::
    "'id authority_list \<Rightarrow> u64 \<Rightarrow> ('h, nat, ('h, 'id) pending_change) fork_tree \<Rightarrow> ('h, 'id) pending_change list
      \<Rightarrow> authority_set_changes \<Rightarrow> ('h, 'id) authority_set option" where
  "authority_new as i standard forced changes =
     (if invalid_authority_list as then None
      else Some \<lparr>current_authorities = as, set_id = i, pending_standard_changes = standard,
             pending_forced_changes = forced, set_changes = changes\<rparr>)"

definition current_set :: "('h, 'id) authority_set \<Rightarrow> u64 \<times> 'id authority_list" where
  "current_set s = (set_id s, current_authorities s)"

text \<open>The first of some changes that the best block descends from.\<close>

fun first_signalled ::
    "('h, 'e) ancestry_test \<Rightarrow> 'h \<Rightarrow> ('h, 'id) pending_change list \<Rightarrow> 'e authority_error + ('h \<times> nat) option" where
  "first_signalled F best_hash [] = Inr None"
| "first_signalled F best_hash (c # cs) =
     (case F (canon_hash c) best_hash of
        Inl e \<Rightarrow> Inl (ClientError e)
      | Inr True \<Rightarrow> Inr (Some (canon_hash c, canon_height c))
      | Inr False \<Rightarrow> first_signalled F best_hash cs)"

definition root_changes :: "('h, 'id) authority_set \<Rightarrow> ('h, 'id) pending_change list" where
  "root_changes s = map node_data (roots (pending_standard_changes s))"

definition next_change ::
    "('h, 'e) ancestry_test \<Rightarrow> 'h \<Rightarrow> ('h, 'id) authority_set \<Rightarrow> 'e authority_error + ('h \<times> nat) option" where
  "next_change F best_hash s =
     and_then (first_signalled F best_hash (pending_forced_changes s)) (\<lambda>forced.
     and_then (first_signalled F best_hash (root_changes s)) (\<lambda>standard.
       Inr (case (forced, standard) of
              (Some f, Some st) \<Rightarrow> Some (if snd f < snd st then f else st)
            | (Some f, None) \<Rightarrow> Some f
            | (None, Some st) \<Rightarrow> Some st
            | (None, None) \<Rightarrow> None)))"

definition add_standard_change ::
    "('h, 'e) ancestry_test \<Rightarrow> ('h, 'id) pending_change \<Rightarrow> ('h, 'id) authority_set
      \<Rightarrow> ('e authority_error + unit) \<times> ('h, 'id) authority_set" where
  "add_standard_change F pending s =
     (case import F (canon_hash pending) (canon_height pending) pending (pending_standard_changes s) of
        (Inl e, t) \<Rightarrow> (Inl (from_fork_error e), s\<lparr>pending_standard_changes := t\<rparr>)
      | (Inr _, t) \<Rightarrow> (Inr (), s\<lparr>pending_standard_changes := t\<rparr>))"

fun check_forced ::
    "('h, 'e) ancestry_test \<Rightarrow> ('h, 'id) pending_change \<Rightarrow> ('h, 'id) pending_change list \<Rightarrow> 'e authority_error + unit" where
  "check_forced F pending [] = Inr ()"
| "check_forced F pending (c # cs) =
     (if canon_hash c = canon_hash pending then Inl DuplicateAuthoritySetChange
      else
        (case F (canon_hash c) (canon_hash pending) of
           Inl e \<Rightarrow> Inl (ClientError e)
         | Inr True \<Rightarrow> Inl MultiplePendingForcedAuthoritySetChanges
         | Inr False \<Rightarrow> check_forced F pending cs))"

definition forced_key :: "('h, 'id) pending_change \<Rightarrow> nat \<times> nat" where
  "forced_key c = (effective_number c, canon_height c)"

definition add_forced_change ::
    "('h, 'e) ancestry_test \<Rightarrow> ('h, 'id) pending_change \<Rightarrow> ('h, 'id) authority_set
      \<Rightarrow> ('e authority_error + unit) \<times> ('h, 'id) authority_set" where
  "add_forced_change F pending s =
     (case check_forced F pending (pending_forced_changes s) of
        Inl e \<Rightarrow> (Inl e, s)
      | Inr _ \<Rightarrow>
          let idx = search_index (binary_search_by_key (forced_key pending) forced_key (pending_forced_changes s))
          in (Inr (), s\<lparr>pending_forced_changes := vec_insert idx pending (pending_forced_changes s)\<rparr>))"

definition add_pending_change ::
    "('h, 'e) ancestry_test \<Rightarrow> ('h, 'id) pending_change \<Rightarrow> ('h, 'id) authority_set
      \<Rightarrow> ('e authority_error + unit) \<times> ('h, 'id) authority_set" where
  "add_pending_change F pending s =
     (if invalid_authority_list (next_authorities pending) then (Inl InvalidAuthoritySet, s)
      else
        (case delay_kind pending of
           DelayBest _ \<Rightarrow> add_forced_change F pending s
         | DelayFinalized \<Rightarrow> add_standard_change F pending s))"

definition pending_changes :: "('h, 'id) authority_set \<Rightarrow> ('h, 'id) pending_change list" where
  "pending_changes s = map (\<lambda>(_, _, c). c) (tree_iter (pending_standard_changes s)) @ pending_forced_changes s"

definition current_limit :: "nat \<Rightarrow> ('h, 'id) authority_set \<Rightarrow> nat option" where
  "current_limit lower s =
     (case filter (\<lambda>n. lower \<le> n) (map effective_number (root_changes s)) of
        [] \<Rightarrow> None
      | n # ns \<Rightarrow> Some (fold min ns n))"

text \<open>The standard changes a forced change depends on.\<close>

fun check_dependencies ::
    "('h, 'e) ancestry_test \<Rightarrow> nat \<Rightarrow> 'h \<Rightarrow> ('h, 'id) pending_change list \<Rightarrow> 'e authority_error + unit" where
  "check_dependencies F median h [] = Inr ()"
| "check_dependencies F median h (c # cs) =
     (if effective_number c \<le> median then
        (case F (canon_hash c) h of
           Inl e \<Rightarrow> Inl (ClientError e)
         | Inr True \<Rightarrow> Inl (ForcedAuthoritySetChangeDependencyUnsatisfied (effective_number c))
         | Inr False \<Rightarrow> check_dependencies F median h cs)
      else check_dependencies F median h cs)"

definition forced_set :: "('h, 'id) pending_change \<Rightarrow> nat \<Rightarrow> ('h, 'id) authority_set \<Rightarrow> ('h, 'id) authority_set" where
  "forced_set c median s =
     \<lparr>current_authorities = next_authorities c, set_id = set_id s + 1, pending_standard_changes = fork_tree_new,
      pending_forced_changes = [], set_changes = changes_append (set_id s) median (set_changes s)\<rparr>"

text \<open>The loop over the forced changes that are effective at the best block; \<open>None\<close> is the unreachable branch.\<close>

fun try_forced ::
    "('h, 'e) ancestry_test \<Rightarrow> 'h \<Rightarrow> ('h, 'id) authority_set \<Rightarrow> ('h, 'id) pending_change list
      \<Rightarrow> ('e authority_error + (nat \<times> ('h, 'id) authority_set) option) option" where
  "try_forced F best_hash s [] = Some (Inr None)"
| "try_forced F best_hash s (c # cs) =
     (case (if canon_hash c = best_hash then Inr True else F (canon_hash c) best_hash) of
        Inl e \<Rightarrow> Some (Inl (ClientError e))
      | Inr False \<Rightarrow> try_forced F best_hash s cs
      | Inr True \<Rightarrow>
          (case delay_kind c of
             DelayFinalized \<Rightarrow> None
           | DelayBest median \<Rightarrow>
               Some (and_then (check_dependencies F median (canon_hash c) (root_changes s))
                 (\<lambda>_. Inr (Some (median, forced_set c median s))))))"

definition apply_forced_changes ::
    "('h, 'e) ancestry_test \<Rightarrow> 'h \<Rightarrow> nat \<Rightarrow> ('h, 'id) authority_set
      \<Rightarrow> ('e authority_error + (nat \<times> ('h, 'id) authority_set) option) option" where
  "apply_forced_changes F best_hash best_number s =
     try_forced F best_hash s
       (filter (\<lambda>c. effective_number c = best_number)
         (takeWhile (\<lambda>c. effective_number c \<le> best_number) (pending_forced_changes s)))"

record 'h change_status =
  changed :: bool
  new_set_block :: "('h \<times> nat) option"

text \<open>The forced changes kept after a finalisation; an error loses the rest.\<close>

fun keep_forced ::
    "('h, 'e) ancestry_test \<Rightarrow> 'h \<Rightarrow> nat \<Rightarrow> ('h, 'id) pending_change list
      \<Rightarrow> ('e option) \<times> ('h, 'id) pending_change list" where
  "keep_forced F h n [] = (None, [])"
| "keep_forced F h n (c # cs) =
     (case (if n < effective_number c then F h (canon_hash c) else Inr False) of
        Inl e \<Rightarrow> (Some e, [])
      | Inr keep \<Rightarrow> (case keep_forced F h n cs of (r, kept) \<Rightarrow> (r, if keep then c # kept else kept)))"

definition apply_standard_changes ::
    "('h, 'e) ancestry_test \<Rightarrow> 'h \<Rightarrow> nat \<Rightarrow> ('h, 'id) authority_set
      \<Rightarrow> ('e authority_error + 'h change_status) \<times> ('h, 'id) authority_set" where
  "apply_standard_changes F finalized_hash finalized_number s =
     (case finalize_with_descendent_if F (\<lambda>c. effective_number c \<le> finalized_number) finalized_hash finalized_number
             (pending_standard_changes s) of
        (Inl e, t) \<Rightarrow> (Inl (from_fork_error e), s\<lparr>pending_standard_changes := t\<rparr>)
      | (Inr Unchanged, t) \<Rightarrow>
          (Inr \<lparr>changed = False, new_set_block = None\<rparr>, s\<lparr>pending_standard_changes := t\<rparr>)
      | (Inr (Changed change), t) \<Rightarrow>
          (case keep_forced F finalized_hash finalized_number (pending_forced_changes s) of
             (Some e, kept) \<Rightarrow>
               (Inl (ClientError e), s\<lparr>pending_standard_changes := t, pending_forced_changes := kept\<rparr>)
           | (None, kept) \<Rightarrow>
               let s' = s\<lparr>pending_standard_changes := t, pending_forced_changes := kept\<rparr>
               in (case change of
                     None \<Rightarrow> (Inr \<lparr>changed = True, new_set_block = None\<rparr>, s')
                   | Some c \<Rightarrow>
                       (Inr \<lparr>changed = True, new_set_block = Some (finalized_hash, finalized_number)\<rparr>,
                        s'\<lparr>set_changes := changes_append (set_id s') finalized_number (set_changes s'),
                           current_authorities := next_authorities c,
                           set_id := set_id s' + 1\<rparr>))))"

definition enacts_standard_change ::
    "('h, 'e) ancestry_test \<Rightarrow> 'h \<Rightarrow> nat \<Rightarrow> ('h, 'id) authority_set \<Rightarrow> 'e authority_error + bool option" where
  "enacts_standard_change F finalized_hash finalized_number s =
     map_err ForkTreeError
       (finalizes_any_with_descendent_if F (\<lambda>c. effective_number c = finalized_number) finalized_hash finalized_number
          (pending_standard_changes s))"

end
