(* ===== verification/Grandpa_Safety.thy ===== *)
theory Grandpa_Safety
  imports Fork_Tree_Chain Grandpa_Authorities
begin

text \<open>
  What holds of the authority set after every history: it is never empty, forced changes are sorted, the
  history numbers the sets; over the chain, a finalised block enacts exactly the change it must and
  prunes what it must; and the lookup of the set of a block is a search for the first set that ends at or
  after it.
\<close>

section \<open>Whatever the ancestry test answers\<close>

lemma items_Node: "items [Node h n d cs] = insert (h, n, d) (items cs)"
  by (simp add: items_node [of "Node h n d cs"] item_of_def)

lemma import_items_arbitrary:
  "case node_import F hash number data x of Inl e \<Rightarrow> True
   | Inr (Imported x') \<Rightarrow> items [x'] \<subseteq> insert (hash, number, data) (items [x])
   | Inr (Rejected h' n' d') \<Rightarrow> (h', n', d') = (hash, number, data)"
  "case children_import F hash number data cs of Inl e \<Rightarrow> True
   | Inr (Imported cs') \<Rightarrow> items cs' \<subseteq> insert (hash, number, data) (items cs)
   | Inr (Rejected h' n' d') \<Rightarrow> (h', n', d') = (hash, number, data)"
proof (induction F hash number data x and F hash number data cs rule: node_import_children_import.induct)
  case (1 F hash number data h n d cs)
  show ?case
  proof (cases "h = hash \<or> number \<le> n")
    case False
    then show ?thesis using 1
      by (auto simp: items_Node split: sum.splits import_result.splits bool.splits)
  qed auto
next
  case (3 F hash number data c cs)
  show ?case
  proof (cases "node_import F hash number data c")
    case (Inr r)
    show ?thesis
    proof (cases r)
      case (Imported c')
      then show ?thesis using 3(1) Inr items_Cons [of c' cs] items_Cons [of c cs] by auto
    next
      case (Rejected h' n' d')
      then have e: "h' = hash" "n' = number" "d' = data" using 3(1) Inr by simp_all
      have ih: "case children_import F hash number data cs of Inl e \<Rightarrow> True
         | Inr (Imported cs') \<Rightarrow> items cs' \<subseteq> insert (hash, number, data) (items cs)
         | Inr (Rejected h' n' d') \<Rightarrow> (h', n', d') = (hash, number, data)"
        using 3(2) [OF Inr Rejected] unfolding e .
      show ?thesis
      proof (cases "children_import F hash number data cs")
        case (Inr r2)
        show ?thesis
        proof (cases r2)
          case (Imported cs')
          then show ?thesis using ih Inr \<open>node_import F hash number data c = Inr r\<close> Rejected e
              items_Cons [of c cs] items_Cons [of c cs'] by auto
        qed (use ih Inr \<open>node_import F hash number data c = Inr r\<close> Rejected e in simp)
      qed (use \<open>node_import F hash number data c = Inr r\<close> Rejected e in simp)
    qed
  qed simp
qed simp

lemma import_items: "items (roots (snd (import F hash number data t))) \<subseteq> insert (hash, number, data) (items (roots t))"
proof -
  note im = import_items_arbitrary(2) [where F = F and hash = hash and number = number and data = data and cs = "roots t"]
  have new: "items (roots t @ [Node hash number data []]) = insert (hash, number, data) (items (roots t))"
    by (simp add: items_Node)
  show ?thesis using im new
    by (auto simp: import_def roots_import_eq rebalance_ok split: sum.splits import_result.splits)
qed

lemma find_finalized_mem: "find_finalized F P hash number xs = Inr (Some x) \<Longrightarrow> x \<in> set xs \<and> P (node_data x)"
  by (induction xs) (auto split: if_splits sum.splits bool.splits)

lemma keep_roots_mem:
  "keep_roots f rs = Inr kept \<Longrightarrow> set kept \<subseteq> set rs" "keep_roots f rs = Inl (e, kept) \<Longrightarrow> set kept \<subseteq> set rs"
  by (induction rs arbitrary: kept) (auto split: sum.splits if_splits)

lemma items_mono: "set ns \<subseteq> set ms \<Longrightarrow> items ns \<subseteq> items ms"
  using items_union [of ns] items_union [of ms] by blast

lemma finalize_with_descendent_items:
  assumes "finalize_with_descendent_if F P hash number t = (r, t')"
  shows "items (roots t') \<subseteq> items (roots t)"
    and "r = Inr (Changed (Some c)) \<Longrightarrow> c \<in> (\<lambda>(_, _, d). d) ` items (roots t)"
proof -
  have child: "items (node_children x) \<subseteq> items (roots t)" "node_data x \<in> (\<lambda>(_, _, d). d) ` items (roots t)"
    if "x \<in> set (roots t)" for x
  proof -
    have "items [x] \<subseteq> items (roots t)" using that by (intro items_mono) simp
    then show "items (node_children x) \<subseteq> items (roots t)" "node_data x \<in> (\<lambda>(_, _, d). d) ` items (roots t)"
      by (auto simp: items_node [of x] item_of_def intro: rev_image_eqI)
  qed
  show "items (roots t') \<subseteq> items (roots t)"
    using assms items_mono [OF keep_roots_mem(1)] items_mono [OF keep_roots_mem(2)] child(1)
    by (fastforce simp: finalize_with_descendent_if_def Let_def dest: find_finalized_mem
        split: if_splits sum.splits option.splits prod.splits)
  show "c \<in> (\<lambda>(_, _, d). d) ` items (roots t)" if "r = Inr (Changed (Some c))"
    using assms that child(2)
    by (auto simp: finalize_with_descendent_if_def finalization_result_def Let_def dest: find_finalized_mem
        split: if_splits sum.splits option.splits prod.splits)
qed

lemma search_index_eq: "search_index (binary_search_by_key k f xs) = length (takeWhile (\<lambda>x. f x < k) xs)"
  by (simp add: binary_search_by_key_def Let_def)

lemma sorted_vec_insert:
  assumes "sorted (map f xs)"
  shows "sorted (map f (vec_insert (search_index (binary_search_by_key (f x) f xs)) x xs))"
proof -
  let ?P = "\<lambda>y. f y < f x"
  have e: "vec_insert (search_index (binary_search_by_key (f x) f xs)) x xs = takeWhile ?P xs @ x # dropWhile ?P xs"
    by (simp add: vec_insert_def search_index_eq takeWhile_eq_take [symmetric] dropWhile_eq_drop [symmetric])
  have s: "sorted_wrt (\<lambda>a b. f a \<le> f b) (takeWhile ?P xs @ dropWhile ?P xs)" using assms by (simp add: sorted_map)
  have hi: "f x \<le> f y" if "y \<in> set (dropWhile ?P xs)" for y
  proof (cases "dropWhile ?P xs")
    case (Cons z zs)
    then have "\<not> f z < f x" using hd_dropWhile [of ?P xs] by simp
    moreover have "f z \<le> f y" using s that Cons by (auto simp: sorted_wrt_append)
    ultimately show ?thesis by simp
  next
    case Nil
    then show ?thesis using that by (simp only: list.set empty_iff)
  qed
  have lo: "f y < f x" if "y \<in> set (takeWhile ?P xs)" for y using that by (rule set_takeWhileD [THEN conjunct2])
  show ?thesis unfolding e sorted_map using s hi lo by (force simp: sorted_wrt_append)
qed

lemma set_vec_insert: "set (vec_insert i x xs) = insert x (set xs)"
  unfolding vec_insert_def using set_append [of "take i xs" "drop i xs"] by auto

lemma keep_forced_sub:
  "keep_forced F h n cs = (r, kept) \<Longrightarrow> set kept \<subseteq> set cs \<and> (sorted (map f cs) \<longrightarrow> sorted (map f kept))"
  by (induction cs arbitrary: r kept) (fastforce split: sum.splits prod.splits if_splits)+

section \<open>Histories of an authority set\<close>

definition change_ok :: "('h, 'id) pending_change \<Rightarrow> bool" where
  "change_ok c = (\<not> invalid_authority_list (next_authorities c))"

definition is_forced :: "('h, 'id) pending_change \<Rightarrow> bool" where
  "is_forced c = (delay_kind c \<noteq> DelayFinalized)"

definition standard_changes :: "('h, 'id) authority_set \<Rightarrow> ('h, 'id) pending_change set" where
  "standard_changes s = (\<lambda>(_, _, c). c) ` items (roots (pending_standard_changes s))"

definition authority_inv :: "('h, 'id) authority_set \<Rightarrow> bool" where
  "authority_inv s = (\<not> invalid_authority_list (current_authorities s)
     \<and> (\<forall>c \<in> standard_changes s. change_ok c \<and> \<not> is_forced c)
     \<and> (\<forall>c \<in> set (pending_forced_changes s). change_ok c \<and> is_forced c)
     \<and> sorted (map forced_key (pending_forced_changes s))
     \<and> set_id s = of_nat (length (set_changes s))
     \<and> map fst (set_changes s) = map of_nat [0..<length (set_changes s)])"

text \<open>Every history, with ancestry tests that may answer anything and fail at any time.\<close>

inductive authority_run :: "('h, 'id) authority_set \<Rightarrow> bool" where
  run_genesis: "authority_genesis initial = Some s \<Longrightarrow> authority_run s"
| run_pending: "authority_run s \<Longrightarrow> add_pending_change (F :: ('h, string) ancestry_test) c s = (r, s') \<Longrightarrow> authority_run s'"
| run_standard: "authority_run s \<Longrightarrow> apply_standard_changes (F :: ('h, string) ancestry_test) h n s = (r, s') \<Longrightarrow> authority_run s'"
| run_forced: "authority_run s \<Longrightarrow> apply_forced_changes (F :: ('h, string) ancestry_test) h n s = Some (Inr (Some (m, s')))
    \<Longrightarrow> authority_run s'"

lemma changes_append_inv:
  assumes "i = of_nat (length cs)" and "map fst cs = map of_nat [0..<length cs]"
  shows "i + 1 = of_nat (length (changes_append i n cs))"
    and "map fst (changes_append i n cs) = map of_nat [0..<length (changes_append i n cs)]"
  using assms by (simp_all add: changes_append_def)

lemma standard_changes_new: "roots (pending_standard_changes s) = [] \<Longrightarrow> standard_changes s = {}"
  by (simp add: standard_changes_def)

lemma authority_genesis_inv: "authority_genesis initial = Some s \<Longrightarrow> authority_inv s"
  by (auto simp: authority_genesis_def authority_inv_def standard_changes_def fork_tree_new_def split: if_splits)

lemma pending_inv:
  assumes inv: "authority_inv s" and r: "add_pending_change F c s = (r, s')"
  shows "authority_inv s'"
proof (cases "invalid_authority_list (next_authorities c)")
  case True
  then show ?thesis using inv r by (simp add: add_pending_change_def)
next
  case ok: False
  show ?thesis
  proof (cases "delay_kind c")
    case DelayFinalized
    have "standard_changes s' \<subseteq> insert c (standard_changes s)"
      using r ok DelayFinalized import_items [of F "canon_hash c" "canon_height c" c "pending_standard_changes s"]
      by (fastforce simp: add_pending_change_def add_standard_change_def standard_changes_def split: sum.splits prod.splits)
    moreover have "current_authorities s' = current_authorities s" "pending_forced_changes s' = pending_forced_changes s"
      "set_id s' = set_id s" "set_changes s' = set_changes s"
      using r ok DelayFinalized by (auto simp: add_pending_change_def add_standard_change_def split: sum.splits prod.splits)
    ultimately show ?thesis using inv ok DelayFinalized by (auto simp: authority_inv_def change_ok_def is_forced_def)
  next
    case (DelayBest m)
    then show ?thesis using inv r ok sorted_vec_insert [of forced_key "pending_forced_changes s" c]
      by (auto simp: add_pending_change_def add_forced_change_def authority_inv_def standard_changes_def Let_def set_vec_insert
          change_ok_def is_forced_def split: sum.splits)
  qed
qed

lemma forced_inv:
  assumes inv: "authority_inv s" and r: "apply_forced_changes F h n s = Some (Inr (Some (m, s')))"
  shows "authority_inv s' \<and> set_id s' = set_id s + 1"
proof -
  have "\<exists>c \<in> set cs. s' = forced_set c m s" if "try_forced F h s cs = Some (Inr (Some (m, s')))" for cs
    using that
  proof (induction cs)
    case (Cons c cs)
    then show ?case
      by (cases "check_dependencies F (median_last_finalized (delay_kind c)) (canon_hash c) (root_changes s)")
         (auto split: sum.splits bool.splits delay_kind.splits)
  qed simp
  from this [OF r [unfolded apply_forced_changes_def]] obtain c
    where c: "c \<in> set (pending_forced_changes s)" "s' = forced_set c m s" by (auto dest: set_takeWhileD)
  show ?thesis using inv c changes_append_inv [of "set_id s" "set_changes s" m]
    by (auto simp: authority_inv_def forced_set_def change_ok_def standard_changes_def fork_tree_new_def)
qed

lemma standard_inv:
  assumes inv: "authority_inv s" and r: "apply_standard_changes F h n s = (r, s')"
  shows "authority_inv s'"
proof -
  obtain fr t where f: "finalize_with_descendent_if F (\<lambda>c. effective_number c \<le> n) h n (pending_standard_changes s) = (fr, t)"
    by (cases "finalize_with_descendent_if F (\<lambda>c. effective_number c \<le> n) h n (pending_standard_changes s)")
  obtain e kept where k: "keep_forced F h n (pending_forced_changes s) = (e, kept)"
    by (cases "keep_forced F h n (pending_forced_changes s)")
  have sub: "(\<lambda>(_, _, c). c) ` items (roots t) \<subseteq> standard_changes s"
    unfolding standard_changes_def using finalize_with_descendent_items(1) [OF f] by (rule image_mono)
  have chg: "fr = Inr (Changed (Some c)) \<Longrightarrow> c \<in> standard_changes s" for c
    using finalize_with_descendent_items(2) [OF f] by (auto simp: standard_changes_def)
  have t_inv: "authority_inv (s\<lparr>pending_standard_changes := t\<rparr>)"
    using inv sub by (auto simp: authority_inv_def standard_changes_def)
  have k_inv: "authority_inv (s\<lparr>pending_standard_changes := t, pending_forced_changes := kept\<rparr>)"
    using t_inv keep_forced_sub [OF k, of forced_key] by (auto simp: authority_inv_def standard_changes_def)
  have enact: "authority_inv (s\<lparr>pending_standard_changes := t, pending_forced_changes := kept,
        set_changes := changes_append (set_id s) n (set_changes s), current_authorities := next_authorities c, set_id := set_id s + 1\<rparr>)"
    if "fr = Inr (Changed (Some c))" for c
  proof -
    have "change_ok c" using chg [OF that] inv by (simp add: authority_inv_def)
    then show ?thesis using k_inv changes_append_inv [of "set_id s" "set_changes s" n]
      by (auto simp: authority_inv_def standard_changes_def change_ok_def)
  qed
  show ?thesis
  proof (cases fr)
    case (Inl e)
    then show ?thesis using r f t_inv by (simp add: apply_standard_changes_def)
  next
    case (Inr res)
    show ?thesis
    proof (cases res)
      case Unchanged
      then show ?thesis using r f t_inv Inr by (simp add: apply_standard_changes_def)
    next
      case (Changed c)
      then show ?thesis using r f k k_inv enact Inr
        by (auto simp: apply_standard_changes_def Let_def split: option.splits)
    qed
  qed
qed

lemma run_inv: "authority_run s \<Longrightarrow> authority_inv s"
  by (induction rule: authority_run.induct) (auto dest: authority_genesis_inv pending_inv standard_inv forced_inv)

lemma try_forced_returns: "\<forall>c \<in> set cs. is_forced c \<Longrightarrow> try_forced F h s cs \<noteq> None"
  by (induction cs) (auto simp: is_forced_def split: sum.splits bool.splits delay_kind.splits)

lemma apply_forced_returns: "authority_inv s \<Longrightarrow> apply_forced_changes F h n s \<noteq> None"
  unfolding apply_forced_changes_def
  by (rule try_forced_returns) (auto simp: authority_inv_def dest: set_takeWhileD)

section \<open>The ends of the sets\<close>

text \<open>Histories without forced changes in which the ancestry tests answer, in any way.\<close>

inductive finality_run :: "('h, 'id) authority_set \<Rightarrow> bool" where
  finality_genesis: "authority_genesis initial = Some s \<Longrightarrow> finality_run s"
| finality_pending: "finality_run s \<Longrightarrow> add_pending_change (\<lambda>a b. Inr (f a b) :: string + bool) c s = (r, s') \<Longrightarrow> finality_run s'"
| finality_standard: "finality_run s \<Longrightarrow> apply_standard_changes (\<lambda>a b. Inr (f a b) :: string + bool) h n s = (r, s')
    \<Longrightarrow> finality_run s'"

lemma finality_run_run: "finality_run s \<Longrightarrow> authority_run s"
  by (induction rule: finality_run.induct) (auto intro: authority_run.intros)

lemma keep_forced_filter:
  "(\<And>c. c \<in> set cs \<Longrightarrow> F h (canon_hash c) = Inr (g c)) \<Longrightarrow>
    keep_forced F h n cs = (None, filter (\<lambda>c. n < effective_number c \<and> g c) cs)"
  by (induction cs) auto

definition ends_ok :: "('h, 'id) authority_set \<Rightarrow> bool" where
  "ends_ok s = (sorted_wrt (<) (map snd (set_changes s))
     \<and> (\<forall>e \<in> snd ` set (set_changes s).
          case best_finalized_number (pending_standard_changes s) of None \<Rightarrow> False | Some b \<Rightarrow> e \<le> b))"

lemma finalize_with_descendent_best:
  fixes t :: "('h, 'n::linorder, 'v) fork_tree"
  assumes "finalize_with_descendent_if (\<lambda>a b. Inr (f a b) :: string + bool) P hash number t = (r, t')"
  shows "(case r of Inl e \<Rightarrow> t' = t | Inr _ \<Rightarrow> \<not> reverts number t \<and> best_finalized_number t' = Some number)"
proof -
  have k: "keep_roots (\<lambda>root. case (if number < node_number root then Inr (f hash (node_hash root)) else Inr False) of
        Inl e \<Rightarrow> Inl e | Inr True \<Rightarrow> Inr True
      | Inr False \<Rightarrow> (if node_number root = number \<and> node_hash root = hash then Inr True
          else Inr (f (node_hash root) hash) :: string + bool)) rs
    = Inr (filter (\<lambda>root. (if number < node_number root then f hash (node_hash root) else False)
        \<or> (node_number root = number \<and> node_hash root = hash) \<or> f (node_hash root) hash) rs)"
    for rs :: "('h, 'n, 'v) node list"
    by (rule keep_roots_filter) (auto split: bool.split)
  show ?thesis
    using assms unfolding finalize_with_descendent_if_def Let_def k
    by (auto simp: Let_def split: if_splits sum.splits option.splits)
qed

lemma add_pending_keeps:
  assumes "add_pending_change F c s = (r, s')"
  shows "set_changes s' = set_changes s
    \<and> best_finalized_number (pending_standard_changes s') = best_finalized_number (pending_standard_changes s)"
  using assms
  by (auto simp: add_pending_change_def add_standard_change_def add_forced_change_def import_def rebalance_def Let_def
      split: if_splits delay_kind.splits sum.splits prod.splits import_result.splits)

lemma standard_ends:
  assumes o: "ends_ok s" and a: "apply_standard_changes (\<lambda>a b. Inr (f a b) :: string + bool) h n s = (r, s')"
  shows "ends_ok s'"
proof -
  let ?F = "\<lambda>a b. Inr (f a b) :: string + bool"
  obtain fr t where t: "finalize_with_descendent_if ?F (\<lambda>c. effective_number c \<le> n) h n (pending_standard_changes s) = (fr, t)"
    by fastforce
  have k: "keep_forced ?F h n (pending_forced_changes s)
      = (None, filter (\<lambda>c. n < effective_number c \<and> f h (canon_hash c)) (pending_forced_changes s))"
    by (rule keep_forced_filter) simp
  note best = finalize_with_descendent_best [OF t]
  show ?thesis
  proof (cases fr)
    case (Inl e)
    then show ?thesis using a t best o by (auto simp: apply_standard_changes_def)
  next
    case (Inr res)
    have b: "best_finalized_number t = Some n" "\<forall>e \<in> snd ` set (set_changes s). e < n"
      using best Inr o by (auto simp: ends_ok_def reverts_def split: option.splits)
    have "set_changes s' = set_changes s \<or> set_changes s' = set_changes s @ [(set_id s, n)]"
      and "pending_standard_changes s' = t"
      using a t k Inr
      by (auto simp: apply_standard_changes_def changes_append_def Let_def split: finalization_result.splits option.splits)
    then show ?thesis using b o by (force simp: ends_ok_def sorted_wrt_append)
  qed
qed

lemma finality_run_ends: "finality_run s \<Longrightarrow> ends_ok s"
proof (induction rule: finality_run.induct)
  case (finality_genesis initial s)
  then show ?case by (auto simp: authority_genesis_def ends_ok_def split: if_splits)
next
  case (finality_pending s f c r s')
  then show ?case using add_pending_keeps [OF finality_pending(2)] by (simp add: ends_ok_def)
next
  case (finality_standard s f h n r s')
  show ?case by (rule standard_ends [OF finality_standard(3,2)])
qed

section \<open>Finalising with a predicate\<close>

lemma length_filter_less_iff: "length (filter P xs) < length xs \<longleftrightarrow> \<not> (\<forall>x \<in> set xs. P x)"
  by (metis filter_True length_filter_less less_irrefl)

context ancestry
begin

abbreviation reaches where "reaches s r h \<equiv> node_hash r = h \<or> below s (node_hash r) h"
abbreviation related where "related s h r \<equiv> reaches s r h \<or> below s h (node_hash r)"

lemma any_child_ancestor_ok:
  assumes o: "ok s" and h: "hash \<in> known s" "number = num_of s hash"
  shows "\<forall>r \<in> set rs. node_ok (is_desc s) (num_of s) (known s) r \<Longrightarrow>
    any_child_ancestor (is_desc s) hash number rs = Inr (\<exists>r \<in> set rs. below s (node_hash r) hash)"
proof (induction rs)
  case (Cons r rs)
  have k: "node_hash r \<in> known s" "node_number r = num_of s (node_hash r)"
    using Cons.prems by (simp_all add: node_ok_iff [of _ _ _ r])
  have "(if node_number r \<le> number then is_desc s (node_hash r) hash else Inr False) = Inr (below s (node_hash r) hash)"
    using answer [OF o k(1) h(1)] higher [OF o k(1) h(1)] k(2) h(2) by auto
  with Cons show ?case by (auto split: bool.split)
qed simp

lemma find_finalized_ok:
  assumes o: "ok s" and h: "hash \<in> known s" "number = num_of s hash"
  shows "\<forall>r \<in> set rs. node_ok (is_desc s) (num_of s) (known s) r \<Longrightarrow>
    (case find_finalized (is_desc s) P hash number rs of
       Inl e \<Rightarrow> e = UnfinalizedAncestor
         \<and> (\<exists>r \<in> set rs. P (node_data r) \<and> reaches s r hash \<and> (\<exists>c \<in> set (node_children r). below s (node_hash c) hash))
     | Inr (Some r) \<Rightarrow> r \<in> set rs \<and> P (node_data r) \<and> reaches s r hash \<and> (\<forall>c \<in> set (node_children r). \<not> below s (node_hash c) hash)
     | Inr None \<Rightarrow> \<forall>r \<in> set rs. P (node_data r) \<longrightarrow> \<not> reaches s r hash)"
proof (induction rs)
  case (Cons r rs)
  have nr: "node_ok (is_desc s) (num_of s) (known s) r" using Cons.prems by simp
  have at: "at_or_below (is_desc s) hash r = Inr (reaches s r hash)"
    using answer [OF o node_okD [OF nr] h(1)] by (simp add: at_or_below_def)
  have "\<forall>c \<in> set (node_children r). node_ok (is_desc s) (num_of s) (known s) c"
    using nr by (simp add: node_ok_iff [of _ _ _ r] forest_ok_def)
  note ch = any_child_ancestor_ok [OF o h this]
  have ih: "case find_finalized (is_desc s) P hash number rs of
       Inl e \<Rightarrow> e = UnfinalizedAncestor
         \<and> (\<exists>r \<in> set rs. P (node_data r) \<and> reaches s r hash \<and> (\<exists>c \<in> set (node_children r). below s (node_hash c) hash))
     | Inr (Some r) \<Rightarrow> r \<in> set rs \<and> P (node_data r) \<and> reaches s r hash \<and> (\<forall>c \<in> set (node_children r). \<not> below s (node_hash c) hash)
     | Inr None \<Rightarrow> \<forall>r \<in> set rs. P (node_data r) \<longrightarrow> \<not> reaches s r hash"
    using Cons by simp
  show ?case
  proof (cases "P (node_data r) \<and> reaches s r hash")
    case True
    show ?thesis
    proof (cases "\<exists>c \<in> set (node_children r). below s (node_hash c) hash")
      case c: True
      then show ?thesis using True at ch by simp
    next
      case False
      then show ?thesis using True at ch by simp
    qed
  next
    case False
    then have "find_finalized (is_desc s) P hash number (r # rs) = find_finalized (is_desc s) P hash number rs" using at by auto
    then show ?thesis using ih False by (auto split: sum.splits option.splits)
  qed
qed simp

lemma reaching_root_unique:
  assumes o: "ok s" and t: "tree_ok s ns" and h: "hash \<in> known s"
    and r: "r \<in> set ns" "reaches s r hash" and q: "q \<in> set ns" "reaches s q hash"
  shows "r = q"
proof (rule ccontr)
  assume "r \<noteq> q"
  then have "node_hash r \<noteq> node_hash q" using t r(1) q(1) by (auto simp: forest_ok_def forks_iff distinct_map dest: inj_onD)
  then have u: "unrelated (is_desc s) (node_hash r) (node_hash q)" using t r(1) q(1) by (simp add: forest_ok_def forks_iff)
  have k: "node_hash r \<in> known s" "node_hash q \<in> known s" using t r(1) q(1) by (auto simp: forest_ok_def dest: node_okD)
  show False using siblings_apart [OF o u k h] r(2) q(2) by metis
qed

lemma retain_ok:
  assumes o: "ok s" and h: "hash \<in> known s" "number = num_of s hash"
    and n: "\<forall>r \<in> set rs. node_ok (is_desc s) (num_of s) (known s) r"
  shows "keep_roots (\<lambda>root. case (if number < node_number root then is_desc s hash (node_hash root) else Inr False) of
        Inl e \<Rightarrow> Inl e | Inr True \<Rightarrow> Inr True
      | Inr False \<Rightarrow> (if node_number root = number \<and> node_hash root = hash then Inr True else is_desc s (node_hash root) hash)) rs
    = Inr (filter (related s hash) rs)"
proof (rule keep_roots_filter)
  fix r assume "r \<in> set rs"
  then have nr: "node_ok (is_desc s) (num_of s) (known s) r" using n by blast
  then have k: "node_hash r \<in> known s" "node_number r = num_of s (node_hash r)" by (simp_all add: node_ok_iff [of _ _ _ r])
  have "(if number < node_number r then is_desc s hash (node_hash r) else Inr False) = Inr (below s hash (node_hash r))"
    using answer [OF o h(1) k(1)] higher [OF o h(1) k(1)] k(2) h(2) by auto
  then show "(case (if number < node_number r then is_desc s hash (node_hash r) else Inr False) of
        Inl e \<Rightarrow> Inl e | Inr True \<Rightarrow> Inr True
      | Inr False \<Rightarrow> (if node_number r = number \<and> node_hash r = hash then Inr True else is_desc s (node_hash r) hash))
    = Inr (related s hash r)"
    using answer [OF o k(1) h(1)] k(2) h(2) by (auto split: bool.split)
qed

lemma finalize_with_descendent_ok:
  assumes o: "ok s" and t: "tree_ok s (roots t)" and h: "hash \<in> known s" "number = num_of s hash" and v: "\<not> reverts number t"
  shows "r \<in> set (roots t) \<Longrightarrow> P (node_data r) \<Longrightarrow> reaches s r hash \<Longrightarrow>
      finalize_with_descendent_if (is_desc s) P hash number t =
        (if \<exists>c \<in> set (node_children r). below s (node_hash c) hash then (Inl UnfinalizedAncestor, t)
         else (Inr (Changed (Some (node_data r))),
           \<lparr>roots = filter (related s hash) (node_children r), best_finalized_number = Some number\<rparr>))"
    and "\<forall>r \<in> set (roots t). P (node_data r) \<longrightarrow> \<not> reaches s r hash \<Longrightarrow>
      \<exists>res. finalize_with_descendent_if (is_desc s) P hash number t =
        (Inr res, \<lparr>roots = filter (related s hash) (roots t), best_finalized_number = Some number\<rparr>)
        \<and> res = (if \<forall>r \<in> set (roots t). related s hash r then Unchanged else Changed None)"
proof -
  have nok: "\<forall>r \<in> set (roots t). node_ok (is_desc s) (num_of s) (known s) r" using t by (simp add: forest_ok_def)
  note found = find_finalized_ok [OF o h nok, of P]
  {
    assume r: "r \<in> set (roots t)" "P (node_data r)" "reaches s r hash"
    have uniq: "q = r" if "q \<in> set (roots t)" "reaches s q hash" for q
      using reaching_root_unique [OF o t h(1) that r(1,3)] .
    have outcome: "find_finalized (is_desc s) P hash number (roots t) = Inl UnfinalizedAncestor
          \<and> (\<exists>c \<in> set (node_children r). below s (node_hash c) hash)
        \<or> find_finalized (is_desc s) P hash number (roots t) = Inr (Some r)
          \<and> \<not> (\<exists>c \<in> set (node_children r). below s (node_hash c) hash)"
    proof (cases "find_finalized (is_desc s) P hash number (roots t)")
      case (Inl e)
      then obtain q where "e = UnfinalizedAncestor" "q \<in> set (roots t)" "reaches s q hash"
        "\<exists>c \<in> set (node_children q). below s (node_hash c) hash" using found by auto
      then show ?thesis using uniq [of q] Inl by simp
    next
      case (Inr f)
      then obtain q where q: "f = Some q" using found r by (cases f) auto
      have "q \<in> set (roots t)" "reaches s q hash" "\<not> (\<exists>c \<in> set (node_children q). below s (node_hash c) hash)"
        using found Inr unfolding q by auto
      then show ?thesis using uniq [of q] Inr q by simp
    qed
    show "finalize_with_descendent_if (is_desc s) P hash number t =
        (if \<exists>c \<in> set (node_children r). below s (node_hash c) hash then (Inl UnfinalizedAncestor, t)
         else (Inr (Changed (Some (node_data r))),
           \<lparr>roots = filter (related s hash) (node_children r), best_finalized_number = Some number\<rparr>))"
    proof (cases "\<exists>c \<in> set (node_children r). below s (node_hash c) hash")
      case True
      have "find_finalized (is_desc s) P hash number (roots t) = Inl UnfinalizedAncestor"
        using outcome True by blast
      then show ?thesis using v True by (simp add: finalize_with_descendent_if_def)
    next
      case False
      have "find_finalized (is_desc s) P hash number (roots t) = Inr (Some r)" using outcome False by blast
      moreover have "\<forall>c \<in> set (node_children r). node_ok (is_desc s) (num_of s) (known s) c"
        using nok r(1) by (auto simp: node_ok_iff [of _ _ _ r] forest_ok_def)
      ultimately show ?thesis using v False retain_ok [OF o h, of "node_children r"]
        by (simp add: finalize_with_descendent_if_def finalization_result_def Let_def)
    qed
  }
  assume none: "\<forall>r \<in> set (roots t). P (node_data r) \<longrightarrow> \<not> reaches s r hash"
  then have "find_finalized (is_desc s) P hash number (roots t) = Inr None"
    using found by (auto split: sum.splits option.splits)
  then show "\<exists>res. finalize_with_descendent_if (is_desc s) P hash number t =
        (Inr res, \<lparr>roots = filter (related s hash) (roots t), best_finalized_number = Some number\<rparr>)
        \<and> res = (if \<forall>r \<in> set (roots t). related s hash r then Unchanged else Changed None)"
    using v retain_ok [OF o h nok]
    by (simp add: finalize_with_descendent_if_def finalization_result_def Let_def length_filter_less_iff)
qed

end

section \<open>Properties\<close>

lemma view_reaches:
  assumes "view_ok ops content hash_of header current c" and "a \<in> dom (view header current)" and "b \<in> dom (view header current)"
  shows "a = b \<or> proper_anc (db_test ops hash_of header current c) a b \<longleftrightarrow> anc (view header current) a b"
  using db_test_anc [OF assms] assms(3) by (auto intro: anc_self)

lemma update_tree_same [simp]: "s\<lparr>pending_standard_changes := pending_standard_changes s\<rparr> = s"
  by (cases s) simp

text \<open>
  C9. After every history, whatever the ancestry tests answered, there is an authority and none has
  weight zero, so that the voter set can always be built; the recorded changes number the sets from zero
  to the current one; forced changes are sorted, and looking for one to apply never panics.
\<close>

theorem authority_set_valid:
  assumes "authority_run s"
  shows "current_authorities s \<noteq> [] \<and> list_all (\<lambda>(_, w). w \<noteq> 0) (current_authorities s)
    \<and> map fst (set_changes s) = map of_nat [0..<length (set_changes s)] \<and> set_id s = of_nat (length (set_changes s))
    \<and> sorted (map forced_key (pending_forced_changes s)) \<and> apply_forced_changes F h n s \<noteq> None"
  using run_inv [OF assms] apply_forced_returns [OF run_inv [OF assms]]
  by (auto simp: authority_inv_def invalid_authority_list_def list_all_iff list_ex_iff)

definition ex_change :: "(nat, nat) pending_change" where
  "ex_change = \<lparr>next_authorities = [(8, 1)], delay = 1, canon_height = 1, canon_hash = 2, delay_kind = DelayFinalized\<rparr>"

definition ex_set :: "(nat, nat) authority_set" where
  "ex_set = \<lparr>current_authorities = [(7, 1)], set_id = 0,
     pending_standard_changes = \<lparr>roots = [Node 2 1 ex_change []], best_finalized_number = None\<rparr>,
     pending_forced_changes = [], set_changes = []\<rparr>"

lemma ex_set_run: "authority_run ex_set"
proof -
  let ?g = "\<lparr>current_authorities = [(7, 1)], set_id = 0, pending_standard_changes = fork_tree_new,
     pending_forced_changes = [], set_changes = []\<rparr> :: (nat, nat) authority_set"
  have "authority_run ?g"
    by (rule run_genesis [of "[(7, 1)]"]) (simp add: authority_genesis_def invalid_authority_list_def)
  moreover have "add_pending_change (\<lambda>a b. Inr False :: string + bool) ex_change ?g = (Inr (), ex_set)"
    by (simp add: add_pending_change_def add_standard_change_def invalid_authority_list_def ex_change_def ex_set_def import_def
        fork_tree_new_def reverts_def rebalance_def by_depth_def)
  ultimately show ?thesis by (rule run_pending)
qed

theorem authority_set_valid_witness:
  "current_authorities ex_set \<noteq> [] \<and> apply_forced_changes (\<lambda>a b. Inl ''db'') 3 2 ex_set \<noteq> None"
  using authority_set_valid [OF ex_set_run] by blast

text \<open>A change that the finalised block is due to enact: signalled at or above it, and effective.\<close>

definition due :: "'h header_table \<Rightarrow> 'h \<Rightarrow> nat \<Rightarrow> ('h, nat, ('h, 'id) pending_change) node \<Rightarrow> bool" where
  "due V h n r = (effective_number (node_data r) \<le> n \<and> anc V (node_hash r) h)"

text \<open>
  What finality leaves: the pending changes of the branch of the block, and the forced changes that
  were signalled below it and are not yet effective.
\<close>

definition on_branch :: "'h header_table \<Rightarrow> 'h \<Rightarrow> ('h, nat, ('h, 'id) pending_change) node \<Rightarrow> bool" where
  "on_branch V h r = (anc V (node_hash r) h \<or> anc V h (node_hash r))"

definition later_forced ::
    "'h header_table \<Rightarrow> 'h \<Rightarrow> nat \<Rightarrow> ('h, 'id) pending_change list \<Rightarrow> ('h, 'id) pending_change list" where
  "later_forced V h n fs = filter (\<lambda>f. n < effective_number f \<and> h \<noteq> canon_hash f \<and> anc V h (canon_hash f)) fs"

definition enacted_set ::
    "'h header_table \<Rightarrow> 'h \<Rightarrow> nat \<Rightarrow> ('h, nat, ('h, 'id) pending_change) node \<Rightarrow> ('h, 'id) authority_set \<Rightarrow> ('h, 'id) authority_set" where
  "enacted_set V h n r s =
     s\<lparr>current_authorities := next_authorities (node_data r), set_id := set_id s + 1,
       set_changes := set_changes s @ [(set_id s, n)],
       pending_standard_changes :=
         \<lparr>roots = filter (on_branch V h) (node_children r), best_finalized_number = Some n\<rparr>,
       pending_forced_changes := later_forced V h n (pending_forced_changes s)\<rparr>"

definition pruned_set ::
    "'h header_table \<Rightarrow> 'h \<Rightarrow> nat \<Rightarrow> ('h, 'id) authority_set \<Rightarrow> ('h, 'id) authority_set" where
  "pruned_set V h n s =
     (let rs = roots (pending_standard_changes s)
      in s\<lparr>pending_standard_changes := \<lparr>roots = filter (on_branch V h) rs, best_finalized_number = Some n\<rparr>,
           pending_forced_changes := (if list_all (on_branch V h) rs then pending_forced_changes s
             else later_forced V h n (pending_forced_changes s))\<rparr>)"

lemma related_on_branch:
  assumes "view_ok ops content hash_of header current c" and "h \<in> dom (view header current)"
    and "node_ok (db_test ops hash_of header current c) (num (view header current)) (dom (view header current)) r"
  shows "(node_hash r = h \<or> proper_anc (db_test ops hash_of header current c) (node_hash r) h)
      \<or> proper_anc (db_test ops hash_of header current c) h (node_hash r) \<longleftrightarrow> on_branch (view header current) h r"
  using view_reaches [OF assms(1) node_okD [OF assms(3)] assms(2)] view_reaches [OF assms(1,2) node_okD [OF assms(3)]]
  by (auto simp: on_branch_def)

lemma filter_on_branch:
  assumes "view_ok ops content hash_of header current c" and "h \<in> dom (view header current)"
    and "forest_ok (db_test ops hash_of header current c) (num (view header current)) (dom (view header current)) rs"
  shows "filter (\<lambda>r. (node_hash r = h \<or> proper_anc (db_test ops hash_of header current c) (node_hash r) h)
      \<or> proper_anc (db_test ops hash_of header current c) h (node_hash r)) rs = filter (on_branch (view header current) h) rs"
    and "(\<forall>r \<in> set rs. (node_hash r = h \<or> proper_anc (db_test ops hash_of header current c) (node_hash r) h)
      \<or> proper_anc (db_test ops hash_of header current c) h (node_hash r)) \<longleftrightarrow> list_all (on_branch (view header current) h) rs"
proof -
  have nok: "node_ok (db_test ops hash_of header current c) (num (view header current)) (dom (view header current)) r"
    if "r \<in> set rs" for r using assms(3) that by (simp add: forest_ok_def)
  show "filter (\<lambda>r. (node_hash r = h \<or> proper_anc (db_test ops hash_of header current c) (node_hash r) h)
      \<or> proper_anc (db_test ops hash_of header current c) h (node_hash r)) rs = filter (on_branch (view header current) h) rs"
    by (rule filter_cong [OF refl]) (rule related_on_branch [OF assms(1,2) nok])
  show "(\<forall>r \<in> set rs. (node_hash r = h \<or> proper_anc (db_test ops hash_of header current c) (node_hash r) h)
      \<or> proper_anc (db_test ops hash_of header current c) h (node_hash r)) \<longleftrightarrow> list_all (on_branch (view header current) h) rs"
    unfolding list_all_iff by (rule ball_cong [OF refl]) (rule related_on_branch [OF assms(1,2) nok])
qed

lemma keep_later_forced:
  assumes "view_ok ops content hash_of header current c" and "h \<in> dom (view header current)"
    and "\<forall>f \<in> set fs. canon_hash f \<in> dom (view header current)"
  shows "keep_forced (db_test ops hash_of header current c) h n fs = (None, later_forced (view header current) h n fs)"
  unfolding later_forced_def by (rule keep_forced_filter) (use db_test_eq [OF assms(1,2)] assms(3) in blast)

lemma apply_due_change:
  assumes fc: "follows_chain ops content hash_of header current c (pending_standard_changes s)"
    and v: "view header current h = Some (n, p)" and new: "\<not> reverts n (pending_standard_changes s)"
    and forced: "\<forall>f \<in> set (pending_forced_changes s). canon_hash f \<in> dom (view header current)"
    and r: "r \<in> set (roots (pending_standard_changes s))" "due (view header current) h n r"
  shows "if \<exists>c \<in> set (node_children r). node_hash c \<noteq> h \<and> anc (view header current) (node_hash c) h
    then apply_standard_changes (db_test ops hash_of header current c) h n s = (Inl (ForkTreeError UnfinalizedAncestor), s)
    else apply_standard_changes (db_test ops hash_of header current c) h n s
        = (Inr \<lparr>changed = True, new_set_block = Some (h, n)\<rparr>, enacted_set (view header current) h n r s)
      \<and> follows_chain ops content hash_of header current c
          (pending_standard_changes (enacted_set (view header current) h n r s))"
proof -
  let ?F = "db_test ops hash_of header current c" and ?V = "view header current" and ?t = "pending_standard_changes s"
  have o: "view_ok ops content hash_of header current c" and h: "h \<in> dom ?V" "n = num ?V h"
    and t: "forest_ok ?F (num ?V) (dom ?V) (roots ?t)" using fc v by (auto simp: follows_chain_def num_def)
  have nr: "node_ok ?F (num ?V) (dom ?V) r" using t r(1) by (simp add: forest_ok_def)
  then have ch: "forest_ok ?F (num ?V) (dom ?V) (node_children r)" by (simp add: node_ok_iff [of _ _ _ r])
  then have cn: "node_ok ?F (num ?V) (dom ?V) k" if "k \<in> set (node_children r)" for k
    using that by (simp add: forest_ok_def)
  have kids: "(\<exists>c \<in> set (node_children r). proper_anc ?F (node_hash c) h)
      \<longleftrightarrow> (\<exists>c \<in> set (node_children r). node_hash c \<noteq> h \<and> anc ?V (node_hash c) h)"
    by (rule bex_cong [OF refl]) (rule db_test_anc [OF o node_okD [OF cn] h(1)])
  have "effective_number (node_data r) \<le> n" "node_hash r = h \<or> proper_anc ?F (node_hash r) h"
    using r(2) view_reaches [OF o node_okD [OF nr] h(1)] by (simp_all add: due_def)
  note fin = chain.finalize_with_descendent_ok(1) [OF o t h new r(1), of "\<lambda>c. effective_number c \<le> n", OF this,
      unfolded kids filter_on_branch(1) [OF o h(1) ch]]
  show ?thesis
    using fin keep_later_forced [OF o h(1) forced, of n] forest_ok_filter [OF ch] o
    by (simp add: apply_standard_changes_def enacted_set_def follows_chain_def changes_append_def Let_def)
qed

lemma apply_no_due_change:
  assumes fc: "follows_chain ops content hash_of header current c (pending_standard_changes s)"
    and v: "view header current h = Some (n, p)" and new: "\<not> reverts n (pending_standard_changes s)"
    and forced: "\<forall>f \<in> set (pending_forced_changes s). canon_hash f \<in> dom (view header current)"
    and none: "\<forall>r \<in> set (roots (pending_standard_changes s)). \<not> due (view header current) h n r"
  shows "apply_standard_changes (db_test ops hash_of header current c) h n s
      = (Inr \<lparr>changed = \<not> list_all (on_branch (view header current) h) (roots (pending_standard_changes s)),
              new_set_block = None\<rparr>, pruned_set (view header current) h n s)
    \<and> follows_chain ops content hash_of header current c (pending_standard_changes (pruned_set (view header current) h n s))"
proof -
  let ?F = "db_test ops hash_of header current c" and ?V = "view header current" and ?t = "pending_standard_changes s"
  have o: "view_ok ops content hash_of header current c" and h: "h \<in> dom ?V" "n = num ?V h"
    and t: "forest_ok ?F (num ?V) (dom ?V) (roots ?t)" using fc v by (auto simp: follows_chain_def num_def)
  have "node_hash r = h \<or> proper_anc ?F (node_hash r) h \<longleftrightarrow> anc ?V (node_hash r) h" if "r \<in> set (roots ?t)" for r
  proof -
    have "node_ok ?F (num ?V) (dom ?V) r" using that t by (simp add: forest_ok_def)
    from view_reaches [OF o node_okD [OF this] h(1)] show ?thesis .
  qed
  then have "\<forall>r \<in> set (roots ?t). effective_number (node_data r) \<le> n \<longrightarrow> \<not> (node_hash r = h \<or> proper_anc ?F (node_hash r) h)"
    using none by (auto simp: due_def)
  from chain.finalize_with_descendent_ok(2) [OF o t h new, of "\<lambda>c. effective_number c \<le> n", OF this,
      unfolded filter_on_branch [OF o h(1) t]] keep_later_forced [OF o h(1) forced, of n] forest_ok_filter [OF t] o
  show ?thesis by (auto simp: apply_standard_changes_def pruned_set_def follows_chain_def Let_def split: if_splits)
qed

text \<open>
  C12. Finalising a block of the chain, with pending changes that follow the chain and forced changes
  signalled on known blocks.  A block at or below the last finalised number is refused with \<open>Revert\<close>.
  With a due change among the roots of the tree it is refused when the next change of that branch would
  be skipped, and otherwise exactly that change is enacted: its authorities become the current ones, the
  set id is raised and the end of the old set recorded, its children of the branch are the pending
  changes, and of the forced changes those stay that were signalled below the block and are not yet
  effective.  Without a due change authorities, set id and recorded ends stay; the roots of other
  branches are pruned and the finalised number is raised, and the forced changes are cut down as before
  exactly when a root was pruned.  The pending changes keep following the chain.
\<close>

theorem finality_enacts_change:
  assumes "follows_chain ops content hash_of header current c (pending_standard_changes s)"
    and "view header current h = Some (n, p)"
    and "\<forall>f \<in> set (pending_forced_changes s). canon_hash f \<in> dom (view header current)"
  shows "if reverts n (pending_standard_changes s)
    then apply_standard_changes (db_test ops hash_of header current c) h n s = (Inl (ForkTreeError Revert), s)
    else (\<forall>r \<in> set (roots (pending_standard_changes s)). due (view header current) h n r \<longrightarrow>
      (if \<exists>c \<in> set (node_children r). node_hash c \<noteq> h \<and> anc (view header current) (node_hash c) h
       then apply_standard_changes (db_test ops hash_of header current c) h n s = (Inl (ForkTreeError UnfinalizedAncestor), s)
       else apply_standard_changes (db_test ops hash_of header current c) h n s
           = (Inr \<lparr>changed = True, new_set_block = Some (h, n)\<rparr>, enacted_set (view header current) h n r s)
         \<and> follows_chain ops content hash_of header current c
             (pending_standard_changes (enacted_set (view header current) h n r s))))
    \<and> ((\<forall>r \<in> set (roots (pending_standard_changes s)). \<not> due (view header current) h n r) \<longrightarrow>
      apply_standard_changes (db_test ops hash_of header current c) h n s
        = (Inr \<lparr>changed = \<not> list_all (on_branch (view header current) h) (roots (pending_standard_changes s)),
                new_set_block = None\<rparr>, pruned_set (view header current) h n s)
      \<and> follows_chain ops content hash_of header current c
          (pending_standard_changes (pruned_set (view header current) h n s)))"
proof (cases "reverts n (pending_standard_changes s)")
  case True
  then show ?thesis by (simp add: apply_standard_changes_def finalize_with_descendent_if_def)
next
  case False
  then show ?thesis
    using apply_due_change [OF assms(1,2) _ assms(3)] apply_no_due_change [OF assms(1,2) _ assms(3)] by simp
qed

lemma ex_set_follows: "follows_chain ex_lru id hdr_state_root ex_header None Map.empty (pending_standard_changes ex_set)"
proof -
  have "view_ok ex_lru id hdr_state_root ex_header None Map.empty" by (simp add: view_ok_def ex_db_ok)
  then show ?thesis by (simp add: follows_chain_def ex_set_def forks_def) (simp add: ex_view num_def)
qed

theorem finality_enacts_change_witness:
  "\<exists>s'. apply_standard_changes ex_test 3 2 ex_set = (Inr \<lparr>changed = True, new_set_block = Some (3, 2)\<rparr>, s')
    \<and> current_authorities s' = [(8, 1)] \<and> set_id s' = 1"
proof -
  have v: "view ex_header None 3 = Some (2, 2)" by (simp add: ex_view)
  have n: "\<not> reverts 2 (pending_standard_changes ex_set)" and r: "\<forall>f \<in> set (pending_forced_changes ex_set). canon_hash f \<in> dom (view ex_header None)"
    by (simp_all add: ex_set_def reverts_def)
  have "due (view ex_header None) 3 2 (Node 2 1 ex_change [])" by (simp add: due_def effective_number_def ex_change_def ex_anc)
  then show ?thesis
    using finality_enacts_change [OF ex_set_follows v r] n by (auto simp: ex_set_def enacted_set_def ex_change_def)
qed

text \<open>The set a block belongs to: the first one that ends at or after it.\<close>

definition set_of_block :: "nat \<Rightarrow> authority_set_changes \<Rightarrow> authority_set_change_id" where
  "set_of_block n cs =
     (case find (\<lambda>(_, e). n \<le> e) cs of
        Some (i, e) \<Rightarrow> InSet i e
      | None \<Rightarrow> (if cs = [] then UnknownSet else LatestSet))"

lemma increasing_last: "sorted_wrt (<) (map snd cs) \<Longrightarrow> x \<in> set cs \<Longrightarrow> snd x \<le> (snd (last cs) :: nat)"
  by (induction cs) (auto intro: less_imp_le split: if_splits)

lemma get_set_id_search:
  assumes "sorted_wrt (<) (map snd cs)"
  shows "get_set_id n cs =
    (if cs \<noteq> [] \<and> n \<le> snd (hd cs) \<and> fst (hd cs) \<noteq> 0 then UnknownSet else set_of_block n cs)"
proof (cases "cs \<noteq> [] \<and> snd (last cs) < n")
  case True
  then have all: "\<forall>x \<in> set cs. snd x < n" using increasing_last [OF assms] by force
  then have "find (\<lambda>(_, e). n \<le> e) cs = None" by (auto simp: find_None_iff)
  moreover have "\<not> n \<le> snd (hd cs)" using True all by (simp add: not_le)
  ultimately show ?thesis using True by (simp add: get_set_id_def set_of_block_def)
next
  case False
  show ?thesis
  proof (cases "cs = []")
    case True
    then show ?thesis by (simp add: get_set_id_def set_of_block_def search_index_eq)
  next
    case ne: False
    let ?i = "length (takeWhile (\<lambda>x. snd x < n) cs)"
    have i: "?i < length cs"
    proof (rule ccontr)
      assume "\<not> ?i < length cs"
      then have "takeWhile (\<lambda>x. snd x < n) cs = cs" by (subst takeWhile_eq_take) simp
      then have "\<forall>x \<in> set cs. snd x < n" by (simp add: takeWhile_eq_all_conv)
      then show False using False ne by simp
    qed
    have "n \<le> snd (cs ! ?i)" using nth_length_takeWhile [OF i] by simp
    moreover have "snd (cs ! j) < n" if "j < ?i" for j
      using set_takeWhileD [OF nth_mem [OF that]] takeWhile_nth [OF that] by simp
    ultimately have "find (\<lambda>(_, e). n \<le> e) cs = Some (cs ! ?i)"
      using i by (auto simp: find_Some_iff split_beta not_le intro!: exI [of _ ?i])
    moreover have "?i = 0 \<longleftrightarrow> n \<le> snd (hd cs)" using ne by (cases cs) (auto simp: not_le)
    moreover have "cs ! 0 = hd cs" using ne by (simp add: hd_conv_nth)
    ultimately show ?thesis
      using False ne i by (auto simp: get_set_id_def set_of_block_def search_index_eq Let_def split: prod.splits)
  qed
qed

text \<open>
  C32. With recorded ends that increase strictly, the binary search finds for a block the first set that
  ends at or after it, and the latest set when it is after all recorded ends; it answers \<open>Unknown\<close>
  when nothing is recorded, and when that first set is the first recorded one and its id is not zero.
  After every history of standard changes from genesis, with no forced change applied and ancestry tests
  that do not fail, the recorded ends do increase strictly and no set is missing, so that the answer is
  the set of the block.
\<close>

theorem get_set_id_correct:
  "(sorted_wrt (<) (map snd cs) \<longrightarrow> get_set_id n cs =
      (if cs \<noteq> [] \<and> n \<le> snd (hd cs) \<and> fst (hd cs) \<noteq> 0 then UnknownSet else set_of_block n cs))
   \<and> (finality_run s \<longrightarrow> sorted_wrt (<) (map snd (set_changes s))
      \<and> map fst (set_changes s) = map of_nat [0..<length (set_changes s)]
      \<and> get_set_id n (set_changes s) = set_of_block n (set_changes s))"
proof -
  have run: "sorted_wrt (<) (map snd (set_changes s)) \<and> map fst (set_changes s) = map of_nat [0..<length (set_changes s)]"
    if "finality_run s"
    using finality_run_ends [OF that] run_inv [OF finality_run_run [OF that]] by (simp add: ends_ok_def authority_inv_def)
  then have "fst (hd (set_changes s)) = 0" if "finality_run s" "set_changes s \<noteq> []"
    using that by (cases "set_changes s") (auto simp: upt_rec)
  then show ?thesis using get_set_id_search [of cs n] get_set_id_search [of "set_changes s" n] run by auto
qed

lemma ex_set_finality_run: "finality_run ex_set"
proof -
  let ?g = "\<lparr>current_authorities = [(7, 1)], set_id = 0, pending_standard_changes = fork_tree_new,
     pending_forced_changes = [], set_changes = []\<rparr> :: (nat, nat) authority_set"
  have "finality_run ?g"
    by (rule finality_genesis [of "[(7, 1)]"]) (simp add: authority_genesis_def invalid_authority_list_def)
  moreover have "add_pending_change (\<lambda>a b. Inr False :: string + bool) ex_change ?g = (Inr (), ex_set)"
    by (simp add: add_pending_change_def add_standard_change_def invalid_authority_list_def ex_change_def ex_set_def import_def
        fork_tree_new_def reverts_def rebalance_def by_depth_def)
  ultimately show ?thesis by (rule finality_pending)
qed

theorem get_set_id_correct_witness:
  "get_set_id 15 [(0, 10), (1, 20)] = InSet 1 20 \<and> get_set_id 25 [(0, 10), (1, 20)] = LatestSet
   \<and> get_set_id 5 [(1, 10), (2, 20)] = UnknownSet
   \<and> (\<exists>s :: (nat, nat) authority_set. finality_run s \<and> set_changes s = [(0, 2)] \<and> get_set_id 2 (set_changes s) = InSet 0 2)"
proof (intro conjI)
  let ?a = "[(0 :: u64, 10 :: nat), (1, 20)]" and ?b = "[(1 :: u64, 10 :: nat), (2, 20)]"
  have a: "sorted_wrt (<) (map snd ?a)" "sorted_wrt (<) (map snd ?b)" by simp_all
  show "get_set_id 15 ?a = InSet 1 20"
    using get_set_id_correct [of ?a 15 ex_set] a by (simp add: set_of_block_def)
  show "get_set_id 25 ?a = LatestSet"
    using get_set_id_correct [of ?a 25 ex_set] a by (simp add: set_of_block_def)
  show "get_set_id 5 ?b = UnknownSet"
    using get_set_id_correct [of ?b 5 ex_set] a by simp
  obtain r s' where s: "apply_standard_changes (\<lambda>a b. Inr True :: string + bool) 3 2 ex_set = (r, s')" "set_changes s' = [(0, 2)]"
    by (simp add: apply_standard_changes_def finalize_with_descendent_if_def ex_set_def ex_change_def reverts_def
        at_or_below_def effective_number_def finalization_result_def changes_append_def Let_def)
  have "finality_run s'" by (rule finality_standard [OF ex_set_finality_run s(1)])
  then show "\<exists>s :: (nat, nat) authority_set. finality_run s \<and> set_changes s = [(0, 2)]
      \<and> get_set_id 2 (set_changes s) = InSet 0 2"
    using get_set_id_correct [of "[]" 2 s'] s(2) by (auto simp: set_of_block_def intro!: exI [of _ s'])
qed

text \<open>
  Before the first change of the authority set every block is reported as unknown, although all
  blocks are in the latest set.
\<close>

theorem first_set_unknown:
  assumes "authority_genesis initial = Some s"
  shows "set_id s = 0 \<and> get_set_id n (set_changes s) = UnknownSet"
  using assms by (auto simp: authority_genesis_def get_set_id_def search_index_eq Let_def split: if_splits)

theorem first_set_unknown_witness: "get_set_id 5 [] = UnknownSet"
proof -
  have "authority_genesis [(7 :: nat, 1)] = Some (\<lparr>current_authorities = [(7, 1)], set_id = 0, pending_standard_changes = fork_tree_new,
      pending_forced_changes = [], set_changes = []\<rparr> :: (nat, nat) authority_set)"
    by (simp add: authority_genesis_def invalid_authority_list_def)
  from first_set_unknown [OF this, of 5] show ?thesis by simp
qed

end
