(* ===== verification/Freeing_Bump.thy ===== *)
theory Freeing_Bump
  imports Rust_Prelude
begin

text \<open>
  The freeing bump allocator of the Wasm heap (\<open>client/allocator/src/freeing_bump.rs\<close>) over the
  linear memory as a slice of bytes.  Arithmetic wraps as in the release profile; \<open>None\<close> as the
  result of an operation stands for a panic.
\<close>

unbundle bit_operations_syntax

section \<open>Orders, links and headers\<close>

datatype alloc_error = RequestedAllocationTooLarge | AllocatorOutOfSpace | Other string

definition ALIGNMENT :: u32 where "ALIGNMENT = 8"
definition HEADER_SIZE :: u32 where "HEADER_SIZE = 8"
definition N_ORDERS :: nat where "N_ORDERS = 23"
definition MAX_POSSIBLE_ALLOCATION :: u32 where "MAX_POSSIBLE_ALLOCATION = 33554432"
definition MIN_POSSIBLE_ALLOCATION :: u32 where "MIN_POSSIBLE_ALLOCATION = 8"
definition NIL_MARKER :: u32 where "NIL_MARKER = - 1"

text \<open>\<open>next_power_of_two\<close> and \<open>trailing_zeros\<close> of the standard library.\<close>

definition next_power_of_two :: "u32 \<Rightarrow> u32" where
  "next_power_of_two w = (case find (\<lambda>k. unat w \<le> 2 ^ k) [0..<32] of Some k \<Rightarrow> 2 ^ k | None \<Rightarrow> 0)"

definition trailing_zeros :: "u32 \<Rightarrow> u32" where
  "trailing_zeros w = (case find (bit w) [0..<32] of Some k \<Rightarrow> of_nat k | None \<Rightarrow> 32)"

type_synonym order = u32

definition order_from_raw :: "u32 \<Rightarrow> alloc_error + order" where
  "order_from_raw k = (if k < of_nat N_ORDERS then Inr k else Inl (Other ''invalid order''))"

definition order_from_size :: "u32 \<Rightarrow> alloc_error + order" where
  "order_from_size s =
     (if MAX_POSSIBLE_ALLOCATION < s then Inl RequestedAllocationTooLarge
      else
        let clamped_size = (if s < MIN_POSSIBLE_ALLOCATION then MIN_POSSIBLE_ALLOCATION else s);
            power_of_two_size = next_power_of_two clamped_size
        in Inr (trailing_zeros power_of_two_size - trailing_zeros MIN_POSSIBLE_ALLOCATION))"

definition order_size :: "order \<Rightarrow> u32" where
  "order_size k = push_bit (unat k) MIN_POSSIBLE_ALLOCATION"

datatype link = Nil_Link | Ptr u32

definition link_from_raw :: "u32 \<Rightarrow> link" where
  "link_from_raw raw = (if raw \<noteq> NIL_MARKER then Ptr raw else Nil_Link)"

fun link_into_raw :: "link \<Rightarrow> u32" where
  "link_into_raw Nil_Link = NIL_MARKER"
| "link_into_raw (Ptr p) = p"

datatype alloc_header = Free link | Occupied order

section \<open>Linear memory\<close>

type_synonym memory = "u8 list"

definition heap_range :: "u32 \<Rightarrow> u32 \<Rightarrow> nat \<Rightarrow> (nat \<times> nat) option" where
  "heap_range offset len heap_len =
     (case checked_add offset len of
        None \<Rightarrow> None
      | Some e \<Rightarrow> if unat e \<le> heap_len then Some (unat offset, unat e) else None)"

text \<open>\<open>u64::to_le_bytes\<close> and \<open>u64::from_le_bytes\<close>: the lowest byte first.\<close>

fun le_bytes :: "nat \<Rightarrow> u64 \<Rightarrow> u8 list" where
  "le_bytes 0 w = []"
| "le_bytes (Suc k) w = ucast w # le_bytes k (drop_bit 8 w)"

fun from_le_bytes :: "u8 list \<Rightarrow> u64" where
  "from_le_bytes [] = 0"
| "from_le_bytes (b # bs) = ucast b OR push_bit 8 (from_le_bytes bs)"

definition read_le_u64 :: "memory \<Rightarrow> u32 \<Rightarrow> alloc_error + u64" where
  "read_le_u64 mem p =
     (case heap_range p 8 (length mem) of
        None \<Rightarrow> Inl (Other ''read out of heap bounds'')
      | Some (start, end_) \<Rightarrow> Inr (from_le_bytes (take (end_ - start) (drop start mem))))"

definition write_le_u64 :: "u32 \<Rightarrow> u64 \<Rightarrow> memory \<Rightarrow> alloc_error + memory" where
  "write_le_u64 p val mem =
     (case heap_range p 8 (length mem) of
        None \<Rightarrow> Inl (Other ''write out of heap bounds'')
      | Some (start, end_) \<Rightarrow> Inr (take start mem @ le_bytes 8 val @ drop end_ mem))"

definition mem_size :: "memory \<Rightarrow> u32 option" where
  "mem_size mem = (if length mem < 2 ^ 32 then Some (of_nat (length mem)) else None)"

definition read_from :: "memory \<Rightarrow> u32 \<Rightarrow> alloc_error + alloc_header" where
  "read_from mem header_ptr =
     and_then (read_le_u64 mem header_ptr) (\<lambda>raw_header.
       let occupied = (raw_header AND 0x0000000100000000 \<noteq> 0);
           header_data = (ucast raw_header :: u32)
       in if occupied then and_then (order_from_raw header_data) (\<lambda>k. Inr (Occupied k))
          else Inr (Free (link_from_raw header_data)))"

fun header_raw :: "alloc_header \<Rightarrow> u64" where
  "header_raw (Occupied k) = (ucast k :: u64) OR 0x0000000100000000"
| "header_raw (Free l) = (ucast (link_into_raw l) :: u64) OR 0"

definition write_into :: "alloc_header \<Rightarrow> u32 \<Rightarrow> memory \<Rightarrow> alloc_error + memory" where
  "write_into h header_ptr mem = write_le_u64 header_ptr (header_raw h) mem"

fun into_occupied :: "alloc_header \<Rightarrow> order option" where
  "into_occupied (Occupied k) = Some k"
| "into_occupied (Free l) = None"

fun into_free :: "alloc_header \<Rightarrow> link option" where
  "into_free (Free l) = Some l"
| "into_free (Occupied k) = None"

section \<open>The allocator\<close>

record allocator =
  bumper :: u32
  heads :: "link list"
  total_size :: u32
  poisoned :: bool
  max_total_size :: u32
  max_bumper :: u32

definition free_lists_new :: "link list" where
  "free_lists_new = replicate N_ORDERS Nil_Link"

definition allocator_new :: "u32 \<Rightarrow> allocator" where
  "allocator_new heap_base =
     (let aligned_heap_base = (heap_base + ALIGNMENT - 1) div ALIGNMENT * ALIGNMENT
      in \<lparr>bumper = aligned_heap_base, heads = free_lists_new, total_size = 0, poisoned = False,
          max_total_size = 0, max_bumper = aligned_heap_base\<rparr>)"

definition bump :: "u32 \<Rightarrow> u32 \<Rightarrow> u32 \<Rightarrow> (alloc_error + u32) \<times> u32" where
  "bump b n heap_end =
     (if heap_end < b + n then (Inl AllocatorOutOfSpace, b) else (Inr b, b + n))"

text \<open>The armed bomb: every early return poisons the allocator.\<close>

definition poison :: "allocator \<Rightarrow> allocator" where
  "poison a = a\<lparr>poisoned := True\<rparr>"

text \<open>Taking a header from the free list of the order, or from the end of the used heap.\<close>

definition take_free :: "order \<Rightarrow> u32 \<Rightarrow> memory \<Rightarrow> allocator \<Rightarrow> ((alloc_error + u32) \<times> allocator) option" where
  "take_free k header_ptr mem a =
     (case mem_size mem of
        None \<Rightarrow> None
      | Some end_ \<Rightarrow>
          (if header_ptr + order_size k + HEADER_SIZE \<le> end_ then
             (case read_from mem header_ptr of
                Inl e \<Rightarrow> Some (Inl e, a)
              | Inr h \<Rightarrow>
                  (case into_free h of
                     None \<Rightarrow> Some (Inl (Other ''free list points to a occupied header''), a)
                   | Some next_free \<Rightarrow> Some (Inr header_ptr, a\<lparr>heads := (heads a)[unat k := next_free]\<rparr>)))
           else None))"

definition take_new :: "order \<Rightarrow> memory \<Rightarrow> allocator \<Rightarrow> ((alloc_error + u32) \<times> allocator) option" where
  "take_new k mem a =
     (case mem_size mem of
        None \<Rightarrow> None
      | Some end_ \<Rightarrow>
          (case bump (bumper a) (order_size k + HEADER_SIZE) end_ of
             (r, b) \<Rightarrow> Some (r, a\<lparr>bumper := b\<rparr>)))"

definition take_header :: "order \<Rightarrow> memory \<Rightarrow> allocator \<Rightarrow> ((alloc_error + u32) \<times> allocator) option" where
  "take_header k mem a =
     (if unat k < length (heads a) then
        (case heads a ! unat k of Ptr p \<Rightarrow> take_free k p mem a | Nil_Link \<Rightarrow> take_new k mem a)
      else None)"

definition note_allocated :: "order \<Rightarrow> allocator \<Rightarrow> allocator" where
  "note_allocated k a =
     (let t = total_size a + (order_size k + HEADER_SIZE)
      in a\<lparr>total_size := t, max_total_size := (if max_total_size a < t then t else max_total_size a),
           max_bumper := (if max_bumper a < bumper a then bumper a else max_bumper a)\<rparr>)"

definition allocate :: "u32 \<Rightarrow> memory \<Rightarrow> allocator \<Rightarrow> ((alloc_error + u32) \<times> memory \<times> allocator) option" where
  "allocate n mem a =
     (if poisoned a then Some (Inl (Other ''the allocator has been poisoned''), mem, a)
      else
        (case order_from_size n of
           Inl e \<Rightarrow> Some (Inl e, mem, poison a)
         | Inr k \<Rightarrow>
             (case take_header k mem a of
                None \<Rightarrow> None
              | Some (Inl e, a') \<Rightarrow> Some (Inl e, mem, poison a')
              | Some (Inr header_ptr, a') \<Rightarrow>
                  (case write_into (Occupied k) header_ptr mem of
                     Inl e \<Rightarrow> Some (Inl e, mem, poison a')
                   | Inr mem' \<Rightarrow> Some (Inr (header_ptr + HEADER_SIZE), mem', note_allocated k a')))))"

definition deallocate :: "u32 \<Rightarrow> memory \<Rightarrow> allocator \<Rightarrow> ((alloc_error + unit) \<times> memory \<times> allocator) option" where
  "deallocate p mem a =
     (if poisoned a then Some (Inl (Other ''the allocator has been poisoned''), mem, a)
      else
        (case checked_sub p HEADER_SIZE of
           None \<Rightarrow> Some (Inl (Other ''Invalid pointer for deallocation''), mem, poison a)
         | Some header_ptr \<Rightarrow>
             (case and_then (read_from mem header_ptr)
                     (\<lambda>h. ok_or (into_occupied h) (Other ''the allocation points to an empty header'')) of
                Inl e \<Rightarrow> Some (Inl e, mem, poison a)
              | Inr k \<Rightarrow>
                  (if unat k < length (heads a) then
                     let prev_head = heads a ! unat k;
                         a' = a\<lparr>heads := (heads a)[unat k := Ptr header_ptr]\<rparr>
                     in (case write_into (Free prev_head) header_ptr mem of
                           Inl e \<Rightarrow> Some (Inl e, mem, poison a')
                         | Inr mem' \<Rightarrow>
                             (case checked_sub (total_size a') (order_size k + HEADER_SIZE) of
                                None \<Rightarrow> Some (Inl (Other ''Unable to subtract from total heap size without overflow''),
                                  mem', poison a')
                              | Some t \<Rightarrow> Some (Inr (), mem', a'\<lparr>total_size := t\<rparr>)))
                   else None))))"

section \<open>Orders\<close>

lemma find_least:
  assumes "P (n :: nat)" and "n < m"
  shows "\<exists>k \<le> n. find P [0..<m] = Some k \<and> P k \<and> (\<forall>j < k. \<not> P j)"
proof (cases "find P [0..<m]")
  case None
  then show ?thesis using assms by (auto simp: find_None_iff)
next
  case (Some k)
  then obtain i where i: "i < m" "P i" "k = i" "\<forall>j < i. \<not> P j" by (auto simp: find_Some_iff)
  then have "k \<le> n" using assms(1) by (metis not_le)
  then show ?thesis using i Some by auto
qed

lemma next_power_of_two_eq:
  assumes "unat w \<le> 2 ^ 31"
  obtains k where "next_power_of_two w = 2 ^ k" "k \<le> 31" "unat w \<le> 2 ^ k" "\<forall>j < k. 2 ^ j < unat w"
  using find_least [where P = "\<lambda>k. unat w \<le> 2 ^ k", OF assms, of 32] that
  by (auto simp: next_power_of_two_def not_le)

lemma trailing_zeros_power: "k < 32 \<Longrightarrow> trailing_zeros (2 ^ k) = of_nat k"
  using find_least [where P = "bit (2 ^ k :: u32)" and n = k and m = 32]
  by (auto simp: trailing_zeros_def bit_exp_iff)

lemma order_from_size_ok:
  assumes "order_from_size s = Inr k"
  shows "unat k < 23" and "unat s \<le> 8 * 2 ^ unat k" and "k \<noteq> 0 \<Longrightarrow> 8 * 2 ^ unat k < 2 * unat s"
proof -
  have le: "unat s \<le> 2 ^ 25"
    using assms by (auto simp: order_from_size_def MAX_POSSIBLE_ALLOCATION_def word_less_nat_alt split: if_splits)
  define c where "c = (if s < 8 then 8 else s)"
  have c: "unat c = max 8 (unat s)" by (simp add: c_def word_less_nat_alt)
  obtain j where j: "next_power_of_two c = 2 ^ j" "j \<le> 31" "unat c \<le> 2 ^ j" "\<forall>i < j. 2 ^ i < unat c"
    by (rule next_power_of_two_eq [of c]) (use c le in auto)
  have j25: "j \<le> 25"
  proof (rule ccontr)
    assume "\<not> j \<le> 25"
    then have "2 ^ 25 < unat c" by (intro j(4) [rule_format]) simp
    then show False using c le by simp
  qed
  have j3: "3 \<le> j"
  proof (rule ccontr)
    assume "\<not> 3 \<le> j"
    then have "(2 :: nat) ^ j \<le> 2 ^ 2" by (intro power_increasing) auto
    then show False using j(3) c by simp
  qed
  have tz: "trailing_zeros 8 = 3" using trailing_zeros_power [of 3] by simp
  have k: "k = of_nat (j - 3)"
    using assms j(1,2) j3 trailing_zeros_power [of j]
    by (simp add: order_from_size_def MIN_POSSIBLE_ALLOCATION_def c_def tz Let_def of_nat_diff split: if_splits)
  have uk: "unat k = j - 3" using j25 by (simp add: k unat_of_nat)
  have e: "8 * 2 ^ unat k = (2 :: nat) ^ j"
    using j3 power_add [of "2 :: nat" 3 "j - 3"] by (simp add: uk)
  show "unat k < 23" using j25 by (simp add: uk)
  show "unat s \<le> 8 * 2 ^ unat k" using j(3) c e by simp
  show "8 * 2 ^ unat k < 2 * unat s" if "k \<noteq> 0"
  proof -
    have "3 < j" using that j3 uk by (metis diff_is_0_eq le_neq_implies_less unat_0 word_unat_eq_iff order.refl)
    then have "2 ^ (j - 1) < unat c" "(2 :: nat) ^ 3 \<le> 2 ^ (j - 1)"
      using j(4) power_increasing [of 3 "j - 1" "2 :: nat"] by simp_all
    moreover have "(2 :: nat) ^ j = 2 * 2 ^ (j - 1)" using j3 by (simp flip: power_Suc)
    ultimately show ?thesis unfolding e using c by simp
  qed
qed

lemma order_from_size_total: "s \<le> MAX_POSSIBLE_ALLOCATION \<longleftrightarrow> (\<exists>k. order_from_size s = Inr k)"
  by (auto simp: order_from_size_def Let_def not_less)

lemma unat_order_size: "unat k < 23 \<Longrightarrow> unat (order_size k) = 8 * 2 ^ unat k"
proof -
  assume "unat k < 23"
  then have "(2 :: nat) ^ unat k \<le> 2 ^ 22" by (intro power_increasing) auto
  moreover have "order_size k = of_nat (8 * 2 ^ unat k)"
    by (simp add: order_size_def MIN_POSSIBLE_ALLOCATION_def push_bit_eq_mult)
  ultimately show ?thesis by (simp only: unat_of_nat) simp
qed

section \<open>Headers in memory\<close>

lemma from_le_bytes_le_bytes: "from_le_bytes (le_bytes k w) = take_bit (8 * k) w"
proof (induction k arbitrary: w)
  case (Suc k)
  have "ucast (ucast w :: u8) OR push_bit 8 (take_bit (8 * k) (drop_bit 8 w)) = take_bit (8 * Suc k) w"
  proof (rule bit_eqI)
    fix n assume "possible_bit TYPE(64 word) n"
    then show "bit (ucast (ucast w :: u8) OR push_bit 8 (take_bit (8 * k) (drop_bit 8 w))) n = bit (take_bit (8 * Suc k) w) n"
      by (auto simp: bit_simps)
  qed
  then show ?case using Suc by simp
qed simp

lemma length_le_bytes [simp]: "length (le_bytes k w) = k"
  by (induction k arbitrary: w) auto

lemma header_fields:
  fixes d :: u32
  shows "((ucast d :: u64) OR 0x100000000) AND 0x100000000 \<noteq> 0" "(ucast d :: u64) AND 0x100000000 = 0"
    and "ucast ((ucast d :: u64) OR 0x100000000) = d" "ucast (ucast d :: u64) = d"
proof -
  have e: "bit (0x100000000 :: int) n \<longleftrightarrow> n = 32" for n using bit_exp_iff [of 32 n, where 'a = int] by auto
  have "bit (((ucast d :: u64) OR 0x100000000) AND 0x100000000) 32" by (simp add: bit_simps e)
  then show "((ucast d :: u64) OR 0x100000000) AND 0x100000000 \<noteq> 0" by (metis bit_0_eq bot_apply bot_bool_def)
  show "(ucast d :: u64) AND 0x100000000 = 0" by (rule bit_eqI) (auto simp: bit_simps e dest: bit_imp_le_length)
  show "ucast ((ucast d :: u64) OR 0x100000000) = d" by (rule bit_eqI) (auto simp: bit_simps e)
  show "ucast (ucast d :: u64) = d" by (rule bit_eqI) (auto simp: bit_simps)
qed

text \<open>A header fits at an address.\<close>

definition room :: "memory \<Rightarrow> u32 \<Rightarrow> bool" where
  "room mem p = (unat p + 8 \<le> length mem \<and> unat p + 8 < 2 ^ 32)"

lemma heap_range_room: "room mem p \<Longrightarrow> heap_range p 8 (length mem) = Some (unat p, unat p + 8)"
  by (auto simp: heap_range_def room_def checked_add_def unat_word_ariths)

lemma heap_range_not_room: "\<not> room mem p \<Longrightarrow> heap_range p 8 (length mem) = None"
  by (auto simp: heap_range_def room_def checked_add_def unat_word_ariths)

lemma write_into_room:
  assumes "room mem p"
  obtains mem' where "write_into h p mem = Inr mem'" "length mem' = length mem"
    "\<And>i. i < unat p \<or> unat p + 8 \<le> i \<Longrightarrow> mem' ! i = mem ! i"
    "take 8 (drop (unat p) mem') = le_bytes 8 (header_raw h)"
proof (rule that)
  let ?m = "take (unat p) mem @ le_bytes 8 (header_raw h) @ drop (unat p + 8) mem"
  have l: "unat p + 8 \<le> length mem" using assms by (simp add: room_def)
  show "write_into h p mem = Inr ?m" using heap_range_room [OF assms] by (simp add: write_into_def write_le_u64_def)
  show "length ?m = length mem" using l by simp
  show "take 8 (drop (unat p) ?m) = le_bytes 8 (header_raw h)" using l by (simp add: take_drop)
  show "?m ! i = mem ! i" if "i < unat p \<or> unat p + 8 \<le> i" for i
    using that l by (auto simp: nth_append)
qed

lemma read_from_room: "room mem p \<Longrightarrow> read_le_u64 mem p = Inr (from_le_bytes (take 8 (drop (unat p) mem)))"
  by (simp add: read_le_u64_def heap_range_room)

definition header_ok :: "alloc_header \<Rightarrow> bool" where
  "header_ok h = (case h of Occupied k \<Rightarrow> unat k < N_ORDERS | Free l \<Rightarrow> l \<noteq> Ptr NIL_MARKER)"

lemma read_written:
  assumes "write_into h p mem = Inr mem'" and "header_ok h"
  shows "read_from mem' p = Inr h"
proof -
  have r: "room mem p"
    using assms(1) heap_range_not_room [of mem p] by (cases "room mem p") (auto simp: write_into_def write_le_u64_def)
  obtain m where m: "write_into h p mem = Inr m" "length m = length mem"
      "take 8 (drop (unat p) m) = le_bytes 8 (header_raw h)" by (rule write_into_room [OF r])
  have mm: "mem' = m" using m(1) assms(1) by simp
  have "room mem' p" using r m(2) by (simp add: room_def mm)
  then have raw: "read_le_u64 mem' p = Inr (header_raw h)"
    using from_le_bytes_le_bytes [of 8 "header_raw h"] by (simp add: read_from_room mm m(3) take_bit_word_eq_self)
  show ?thesis
  proof (cases h)
    case (Free l)
    have "link_from_raw (link_into_raw l) = l"
      using assms(2) Free by (cases l) (auto simp: header_ok_def link_from_raw_def)
    then show ?thesis by (simp add: read_from_def raw Free header_fields Let_def)
  next
    case (Occupied k)
    have "k < of_nat N_ORDERS" using assms(2) Occupied by (simp add: header_ok_def N_ORDERS_def word_less_nat_alt)
    then show ?thesis
      using header_fields(1,3) [of k] by (simp add: read_from_def raw Occupied Let_def order_from_raw_def)
  qed
qed

lemma read_from_cong:
  assumes "room mem q" and "room mem' q" and "\<And>i. unat q \<le> i \<Longrightarrow> i < unat q + 8 \<Longrightarrow> mem' ! i = mem ! i"
  shows "read_from mem' q = read_from mem q"
proof -
  have "take 8 (drop (unat q) mem') = take 8 (drop (unat q) mem)"
    using assms by (intro nth_equalityI) (auto simp: room_def)
  then show ?thesis by (simp add: read_from_def read_from_room assms(1,2))
qed

end
