(* ===== verification/Freeing_Bump_Safety.thy ===== *)
theory Freeing_Bump_Safety
  imports Freeing_Bump
begin

text \<open>
  The heap the allocator manages is tiled by blocks, each a header and a payload; a block is live or on
  the free list of its order.  The client may write into the payloads of its live blocks and the memory
  may grow between two calls.
\<close>

section \<open>Blocks\<close>

definition block_size :: "nat \<Rightarrow> nat" where
  "block_size k = 8 + 8 * 2 ^ k"

lemma block_pos [simp]: "8 < block_size k" "8 dvd block_size k"
  by (simp_all add: block_size_def)

lemma block_le: "k < 23 \<Longrightarrow> block_size k \<le> 2 ^ 25 + 8"
  using power_increasing [of k 22 "2 :: nat"] by (simp add: block_size_def)

lemma unat_block: "unat k < 23 \<Longrightarrow> unat (order_size k + HEADER_SIZE) = block_size (unat k)"
  using block_le [of "unat k"]
  by (simp add: HEADER_SIZE_def block_size_def unat_order_size unat_word_ariths)

text \<open>Blocks that follow each other from one address to another.\<close>

fun tiles :: "nat \<Rightarrow> (nat \<times> nat) list \<Rightarrow> nat \<Rightarrow> bool" where
  "tiles b [] e = (b = e)"
| "tiles b ((x, k) # L) e = (x = b \<and> tiles (b + block_size k) L e)"

lemma tiles_snoc: "tiles b L e \<Longrightarrow> tiles b (L @ [(e, k)]) (e + block_size k)"
  by (induction b L e rule: tiles.induct) auto

lemma tiles_le: "tiles b L e \<Longrightarrow> b \<le> e"
  by (induction b L e rule: tiles.induct) auto

lemma tiles_bounds: "tiles b L e \<Longrightarrow> (x, k) \<in> set L \<Longrightarrow> b \<le> x \<and> x + block_size k \<le> e"
  by (induction b L e rule: tiles.induct) (auto dest: tiles_le)

lemma tiles_disjoint:
  "tiles b L e \<Longrightarrow> (x, k) \<in> set L \<Longrightarrow> (y, j) \<in> set L \<Longrightarrow> x = y \<and> k = j \<or> x + block_size k \<le> y \<or> y + block_size j \<le> x"
  by (induction b L e rule: tiles.induct) (auto dest: tiles_bounds)

lemma tiles_aligned: "tiles b L e \<Longrightarrow> 8 dvd b \<Longrightarrow> 8 dvd e \<and> (\<forall>(x, k) \<in> set L. 8 dvd x)"
  by (induction b L e rule: tiles.induct) auto

lemma tiles_sum: "tiles b L e \<Longrightarrow> e = b + (\<Sum>(x, k) \<in> set L. block_size k)"
proof (induction b L e rule: tiles.induct)
  case (2 b x k L e)
  have "(x, k) \<notin> set L" using 2(2) tiles_bounds [of "b + block_size k" L e x k] block_pos(1) [of k] by auto
  then show ?case using 2 by simp
qed simp

section \<open>The invariant\<close>

fun free_chain :: "memory \<Rightarrow> link \<Rightarrow> u32 list \<Rightarrow> bool" where
  "free_chain mem l [] = (l = Nil_Link)"
| "free_chain mem l (x # xs) = (l = Ptr x \<and> (\<exists>l'. read_from mem x = Inr (Free l') \<and> free_chain mem l' xs))"

lemma free_chain_cong: "(\<And>x. x \<in> set xs \<Longrightarrow> read_from mem' x = read_from mem x) \<Longrightarrow> free_chain mem l xs \<Longrightarrow> free_chain mem' l xs"
  by (induction xs arbitrary: l) auto

text \<open>
  The bound on the memory keeps the sums of the allocator from wrapping; it is 32 MiB short of what
  32 bits address.
\<close>

definition HEAP_MAX :: nat where "HEAP_MAX = 2 ^ 32 - 2 ^ 25 - 16"

definition heap_inv ::
    "nat \<Rightarrow> (nat \<times> nat) list \<Rightarrow> (nat \<Rightarrow> u32 list) \<Rightarrow> (u32 \<rightharpoonup> nat) \<Rightarrow> memory \<Rightarrow> allocator \<Rightarrow> bool" where
  "heap_inv base L fl live mem a =
     (tiles base L (unat (bumper a)) \<and> 8 dvd base \<and> unat (bumper a) \<le> length mem \<and> length mem \<le> HEAP_MAX
      \<and> length (heads a) = N_ORDERS \<and> (\<forall>(x, k) \<in> set L. k < N_ORDERS)
      \<and> (\<forall>k < N_ORDERS. free_chain mem (heads a ! k) (fl k) \<and> distinct (fl k) \<and> (\<forall>x \<in> set (fl k). (unat x, k) \<in> set L))
      \<and> (\<forall>h k. live (h + 8) = Some k \<longleftrightarrow> (unat h, k) \<in> set L \<and> h \<notin> set (fl k))
      \<and> (\<forall>h k. live (h + 8) = Some k \<longrightarrow> read_from mem h = Inr (Occupied (of_nat k)))
      \<and> unat (total_size a) = (\<Sum>p \<in> dom live. block_size (the (live p))))"

lemma header_room:
  assumes "tiles base L (unat (bumper a))" and "unat (bumper a) \<le> length mem" and "length mem \<le> HEAP_MAX" and "(unat h, k) \<in> set L"
  shows "room mem h"
  using tiles_bounds [OF assms(1,4)] assms(2,3) by (auto simp: room_def HEAP_MAX_def block_size_def)

lemma live_sum_le:
  assumes t: "tiles base L e" and l: "\<And>h k. live (h + 8) = Some k \<Longrightarrow> (unat (h :: u32), k) \<in> set L"
  shows "(\<Sum>p \<in> dom live. block_size (the (live p))) \<le> e - base"
proof -
  let ?f = "\<lambda>p. (unat (p - 8), the (live p))"
  have inj: "inj_on ?f (dom live)" by (auto simp: inj_on_def dest: word_unat_eq_iff [THEN iffD2])
  have sub: "?f ` dom live \<subseteq> set L" using l [of "p - 8" for p] by auto
  have "(\<Sum>p \<in> dom live. block_size (the (live p))) = (\<Sum>(x, k) \<in> ?f ` dom live. block_size k)"
    by (subst sum.reindex [OF inj]) simp
  also have "\<dots> \<le> (\<Sum>(x, k) \<in> set L. block_size k)" by (rule sum_mono2 [OF _ sub]) auto
  also have "\<dots> = e - base" using tiles_sum [OF t] by simp
  finally show ?thesis .
qed

lemma header_kept:
  assumes w: "write_into hdr p mem = Inr mem'" and r: "room mem p" "room mem x"
    and apart: "unat x + 8 \<le> unat p \<or> unat p + 8 \<le> unat x"
  shows "read_from mem' x = read_from mem x"
proof -
  obtain m where m: "write_into hdr p mem = Inr m" "length m = length mem"
    "\<And>i. i < unat p \<or> unat p + 8 \<le> i \<Longrightarrow> m ! i = mem ! i" by (rule write_into_room [OF r(1)]) blast
  show ?thesis
  proof (rule read_from_cong [OF r(2)])
    show "room mem' x" using r(2) m(1,2) w by (simp add: room_def)
    show "mem' ! i = mem ! i" if "unat x \<le> i" "i < unat x + 8" for i using m(1,3) w apart that by auto
  qed
qed

lemma headers_apart:
  assumes "tiles b L e" and "(unat x, j) \<in> set L" and "(unat p, k) \<in> set L" and "x \<noteq> p"
  shows "unat x + 8 \<le> unat p \<or> unat p + 8 \<le> unat x"
proof -
  have "unat x \<noteq> unat p" using assms(4) by (simp add: word_unat_eq_iff)
  then show ?thesis using tiles_disjoint [OF assms(1-3)] by (auto simp: block_size_def)
qed

lemma live_finite:
  assumes "heap_inv base L fl live mem a"
  shows "finite (dom live)"
proof (rule finite_subset)
  show "dom live \<subseteq> (\<lambda>(x, k). word_of_nat x + 8) ` set L"
  proof
    fix p assume "p \<in> dom live"
    then obtain k where "live ((p - 8) + 8) = Some k" by auto
    then have "(unat (p - 8), k) \<in> set L" using assms unfolding heap_inv_def by blast
    then show "p \<in> (\<lambda>(x, k). word_of_nat x + 8) ` set L" by (rule rev_image_eqI) simp
  qed
qed simp

text \<open>A block, new or from a free list, becomes live.\<close>

lemma occupy_inv:
  assumes inv: "heap_inv base L fl live mem a" and k: "unat k < N_ORDERS"
    and t: "tiles base L' (unat (bumper a'))" and b: "unat (bumper a') \<le> length mem"
    and L: "set L' = insert (unat h, unat k) (set L)" and len: "length (heads a') = N_ORDERS"
    and fl: "\<forall>j < N_ORDERS. free_chain mem (heads a' ! j) (fl' j) \<and> distinct (fl' j)
      \<and> (\<forall>x. x \<in> set (fl' j) \<longleftrightarrow> x \<in> set (fl j) \<and> x \<noteq> h)"
    and new: "live (h + 8) = None" and tot: "total_size a' = total_size a + (order_size k + HEADER_SIZE)"
    and w: "write_into (Occupied k) h mem = Inr mem'"
  shows "heap_inv base L' fl' (live(h + 8 \<mapsto> unat k)) mem' a'"
proof -
  note i = inv [unfolded heap_inv_def]
  have hL: "(unat h, unat k) \<in> set L'" using L by simp
  have room: "room mem x" if "(unat x, j) \<in> set L'" for x j
    using header_room [where a = a' and L = L', OF t b _ that] i by blast
  obtain m where "write_into (Occupied k) h mem = Inr m" "length m = length mem"
    by (rule write_into_room [OF room [OF hL], of "Occupied k"])
  then have lm: "length mem' = length mem" using w by simp
  have kept: "read_from mem' x = read_from mem x" if "(unat x, j) \<in> set L'" "x \<noteq> h" for x j
    using header_kept [OF w room [OF hL] room [OF that(1)]] headers_apart [OF t that(1) hL that(2)] by blast
  have only: "j = unat k" if "(unat h, j) \<in> set L'" for j using tiles_disjoint [OF t that hL] by (auto simp: block_size_def)
  have old: "(unat x, j) \<in> set L' \<longleftrightarrow> (unat x, j) \<in> set L" if "x \<noteq> h" for x j using that L by (auto simp: word_unat_eq_iff)
  have small: "j < N_ORDERS" if "(x, j) \<in> set L'" for x j using that L i k by auto
  have live': "(live(h + 8 \<mapsto> unat k)) (x + 8) = Some j \<longleftrightarrow> (unat x, j) \<in> set L' \<and> x \<notin> set (fl' j)" for x j
  proof (cases "x = h")
    case True
    then show ?thesis using only [of j] hL fl k by auto
  next
    case False
    then have "(live(h + 8 \<mapsto> unat k)) (x + 8) = Some j \<longleftrightarrow> (unat x, j) \<in> set L \<and> x \<notin> set (fl j)" using i by simp
    then show ?thesis using old [OF False, of j] small [of "unat x" j] fl False by blast
  qed
  have reads: "read_from mem' x = Inr (Occupied (of_nat j))" if "(live(h + 8 \<mapsto> unat k)) (x + 8) = Some j" for x j
  proof (cases "x = h")
    case True
    then have "of_nat j = k" using that by auto
    then show ?thesis using read_written [OF w] k True by (simp add: header_ok_def)
  next
    case False
    then show ?thesis using that i kept [of x j] live' [of x j] by simp
  qed
  have chains: "free_chain mem' (heads a' ! j) (fl' j) \<and> distinct (fl' j) \<and> (\<forall>x \<in> set (fl' j). (unat x, j) \<in> set L')"
    if "j < N_ORDERS" for j
  proof -
    have f: "free_chain mem (heads a' ! j) (fl' j)" "distinct (fl' j)" "set (fl' j) = set (fl j) - {h}" using fl that by auto
    have "\<forall>x \<in> set (fl j). (unat x, j) \<in> set L" using i that by blast
    then have s: "(unat x, j) \<in> set L'" "x \<noteq> h" if "x \<in> set (fl' j)" for x using that f(3) L by auto
    have "free_chain mem' (heads a' ! j) (fl' j)"
      by (rule free_chain_cong [OF _ f(1)]) (rule kept [OF s])
    then show ?thesis using s(1) f(2) by blast
  qed
  let ?live = "live(h + 8 \<mapsto> unat k)"
  let ?sum = "\<lambda>live. \<Sum>p \<in> dom live. block_size (the (live p))"
  have "(\<Sum>p \<in> dom live. block_size (the (?live p))) = ?sum live" using new by (intro sum.cong) auto
  then have s1: "?sum ?live = block_size (unat k) + ?sum live" using new live_finite [OF inv] by (simp add: domIff)
  have s2: "?sum ?live \<le> unat (bumper a') - base" by (rule live_sum_le [OF t]) (use live' in blast)
  have s3: "unat (total_size a) = ?sum live" "unat (bumper a') \<le> HEAP_MAX" using i b by auto
  have s4: "unat (order_size k + HEADER_SIZE) = block_size (unat k)" using k by (intro unat_block) (simp add: N_ORDERS_def)
  have "unat (total_size a') = ?sum ?live"
    unfolding tot s1 by (subst unat_add_nowrap) (use s1 s2 s3 s4 in \<open>simp_all add: HEAP_MAX_def\<close>)
  moreover have "\<forall>(x, j) \<in> set L'. j < N_ORDERS" using small by auto
  ultimately show ?thesis unfolding heap_inv_def using t i b lm len live' reads chains by (simp del: fun_upd_apply)
qed

lemma heap_inv_poison [simp]: "heap_inv base L fl live mem (poison a) = heap_inv base L fl live mem a"
  by (simp add: heap_inv_def poison_def)

lemma note_allocated_simps [simp]:
  "bumper (note_allocated k a) = bumper a" "heads (note_allocated k a) = heads a"
  "total_size (note_allocated k a) = total_size a + (order_size k + HEADER_SIZE)" "poisoned (note_allocated k a) = poisoned a"
  by (simp_all add: note_allocated_def Let_def)

text \<open>What writing the header of a block leaves alone.\<close>

definition only_header :: "u32 \<Rightarrow> memory \<Rightarrow> memory \<Rightarrow> bool" where
  "only_header h mem mem' = (length mem' = length mem \<and> (\<forall>i. i < unat h \<or> unat h + 8 \<le> i \<longrightarrow> mem' ! i = mem ! i))"

lemma write_only_header:
  assumes "room mem h"
  obtains mem' where "write_into hdr h mem = Inr mem'" "only_header h mem mem'"
  by (rule write_into_room [OF assms, of hdr]) (simp add: only_header_def)

lemma size_of_memory:
  "heap_inv base L fl live mem a \<Longrightarrow> mem_size mem = Some (of_nat (length mem)) \<and> unat (of_nat (length mem) :: u32) = length mem"
  by (auto simp: heap_inv_def mem_size_def HEAP_MAX_def unat_of_nat)

lemma order_index:
  assumes "heap_inv base L fl live mem a" and "unat k < N_ORDERS"
  shows "unat k < length (heads a)" and "free_chain mem (heads a ! unat k) (fl (unat k))" and "distinct (fl (unat k))"
    and "x \<in> set (fl (unat k)) \<Longrightarrow> (unat x, unat k) \<in> set L"
  using assms by (auto simp: heap_inv_def)

lemma take_free_ok:
  assumes inv: "heap_inv base L fl live mem a" and k: "unat k < N_ORDERS" and p: "heads a ! unat k = Ptr h"
  shows "\<exists>l xs. fl (unat k) = h # xs \<and> free_chain mem l xs \<and> (unat h, unat k) \<in> set L
    \<and> take_header k mem a = Some (Inr h, a\<lparr>heads := (heads a)[unat k := l]\<rparr>)"
proof -
  note o = order_index [OF inv k]
  obtain l xs where l: "fl (unat k) = h # xs" "read_from mem h = Inr (Free l)" "free_chain mem l xs"
    using o(2) p by (cases "fl (unat k)") auto
  have L: "(unat h, unat k) \<in> set L" using o(4) l(1) by simp
  have t: "tiles base L (unat (bumper a))" "unat (bumper a) \<le> length mem" "length mem \<le> HEAP_MAX" using inv by (auto simp: heap_inv_def)
  have s: "unat (order_size k + HEADER_SIZE) = block_size (unat k)" using k by (intro unat_block) (simp add: N_ORDERS_def)
  have "unat (h + (order_size k + HEADER_SIZE)) = unat h + block_size (unat k)"
    by (subst unat_add_nowrap) (use tiles_bounds [OF t(1) L] t s in \<open>simp_all add: HEAP_MAX_def\<close>)
  then have "h + order_size k + HEADER_SIZE \<le> of_nat (length mem)"
    using tiles_bounds [OF t(1) L] t(2) size_of_memory [OF inv] by (simp add: word_le_nat_alt add.assoc)
  then have "take_header k mem a = Some (Inr h, a\<lparr>heads := (heads a)[unat k := l]\<rparr>)"
    using p l(2) o(1) size_of_memory [OF inv] by (simp add: take_header_def take_free_def)
  then show ?thesis using l L by blast
qed

lemma take_new_ok:
  assumes inv: "heap_inv base L fl live mem a" and k: "unat k < N_ORDERS" and p: "heads a ! unat k = Nil_Link"
  shows "if unat (bumper a) + block_size (unat k) \<le> length mem
    then take_header k mem a = Some (Inr (bumper a), a\<lparr>bumper := bumper a + (order_size k + HEADER_SIZE)\<rparr>)
      \<and> unat (bumper a + (order_size k + HEADER_SIZE)) = unat (bumper a) + block_size (unat k)
    else take_header k mem a = Some (Inl AllocatorOutOfSpace, a)"
proof -
  note o = order_index [OF inv k]
  have t: "unat (bumper a) \<le> length mem" "length mem \<le> HEAP_MAX" using inv by (auto simp: heap_inv_def)
  have s: "unat (order_size k + HEADER_SIZE) = block_size (unat k)" using k by (intro unat_block) (simp add: N_ORDERS_def)
  have u: "unat (bumper a + (order_size k + HEADER_SIZE)) = unat (bumper a) + block_size (unat k)"
    by (subst unat_add_nowrap) (use t s block_le [of "unat k"] k in \<open>simp_all add: HEAP_MAX_def N_ORDERS_def\<close>)
  then show ?thesis
    using p o(1) size_of_memory [OF inv] by (simp add: take_header_def take_new_def bump_def word_less_nat_alt not_less)
qed

text \<open>When a request of an order can be served.\<close>

definition servable :: "order \<Rightarrow> memory \<Rightarrow> allocator \<Rightarrow> bool" where
  "servable k mem a = (heads a ! unat k \<noteq> Nil_Link \<or> unat (bumper a) + block_size (unat k) \<le> length mem)"

lemma allocate_served:
  assumes inv: "heap_inv base L fl live mem a" and np: "\<not> poisoned a" and n: "order_from_size n = Inr k"
    and k: "unat k < N_ORDERS" and th: "take_header k mem a = Some (Inr h, a1)" "\<not> poisoned a1" "total_size a1 = total_size a"
    and t: "tiles base L' (unat (bumper a1))" "unat (bumper a1) \<le> length mem" "set L' = insert (unat h, unat k) (set L)"
    and len: "length (heads a1) = N_ORDERS"
    and fl: "\<forall>j < N_ORDERS. free_chain mem (heads a1 ! j) (fl' j) \<and> distinct (fl' j)
      \<and> (\<forall>x. x \<in> set (fl' j) \<longleftrightarrow> x \<in> set (fl j) \<and> x \<noteq> h)"
    and new: "live (h + 8) = None"
  shows "\<exists>mem' a'. allocate n mem a = Some (Inr (h + 8), mem', a') \<and> \<not> poisoned a' \<and> only_header h mem mem'
    \<and> heads a' = heads a1 \<and> heap_inv base L' fl' (live(h + 8 \<mapsto> unat k)) mem' a'"
proof -
  have "length mem \<le> HEAP_MAX" using inv by (simp add: heap_inv_def)
  then have r: "room mem h" using header_room [OF t(1,2)] t(3) by blast
  obtain mem' where w: "write_into (Occupied k) h mem = Inr mem'" "only_header h mem mem'" by (rule write_only_header [OF r])
  have "heap_inv base L' fl' (live(h + 8 \<mapsto> unat k)) mem' (note_allocated k a1)"
    by (rule occupy_inv [OF inv k]) (use t len fl new w th in simp_all)
  then show ?thesis using np n th w by (simp add: allocate_def HEADER_SIZE_def)
qed

lemma allocate_ok:
  assumes inv: "heap_inv base L fl live mem a" and np: "\<not> poisoned a" and n: "order_from_size n = Inr k"
  shows "if servable k mem a
    then \<exists>h mem' a' L' fl'. allocate n mem a = Some (Inr (h + 8), mem', a') \<and> \<not> poisoned a' \<and> only_header h mem mem'
      \<and> live (h + 8) = None \<and> heap_inv base L' fl' (live(h + 8 \<mapsto> unat k)) mem' a'
      \<and> (\<forall>p. heads a ! unat k = Ptr p \<longrightarrow> h = p)
    else allocate n mem a = Some (Inl AllocatorOutOfSpace, mem, poison a)"
proof -
  have k: "unat k < N_ORDERS" using order_from_size_ok(1) [OF n] by (simp add: N_ORDERS_def)
  note o = order_index [OF inv k]
  note i = inv [unfolded heap_inv_def]
  show ?thesis
  proof (cases "heads a ! unat k")
    case (Ptr h)
    obtain l xs where f: "fl (unat k) = h # xs" "free_chain mem l xs" "(unat h, unat k) \<in> set L"
      "take_header k mem a = Some (Inr h, a\<lparr>heads := (heads a)[unat k := l]\<rparr>)"
      using take_free_ok [OF inv k Ptr] by blast
    have other: "h \<notin> set (fl j)" if "j < N_ORDERS" "j \<noteq> unat k" for j
    proof
      assume "h \<in> set (fl j)"
      then have "(unat h, j) \<in> set L" using i that(1) by blast
      then show False using tiles_disjoint [OF _ f(3), of base "unat (bumper a)" "unat h" j] i that(2) by (auto simp: block_size_def)
    qed
    have new: "live (h + 8) = None"
    proof (rule ccontr)
      assume "live (h + 8) \<noteq> None"
      then obtain j where j: "live (h + 8) = Some j" by auto
      then have "(unat h, j) \<in> set L" "h \<notin> set (fl j)" using i by blast+
      moreover have "j = unat k"
        using tiles_disjoint [OF _ f(3), of base "unat (bumper a)" "unat h" j] i calculation(1) by (auto simp: block_size_def)
      ultimately show False using f(1) by simp
    qed
    have "\<exists>mem' a'. allocate n mem a = Some (Inr (h + 8), mem', a') \<and> \<not> poisoned a' \<and> only_header h mem mem'
        \<and> heads a' = heads (a\<lparr>heads := (heads a)[unat k := l]\<rparr>)
        \<and> heap_inv base L (fl(unat k := xs)) (live(h + 8 \<mapsto> unat k)) mem' a'"
    proof (rule allocate_served [OF inv np n k f(4)])
      show "\<forall>j < N_ORDERS. free_chain mem (heads (a\<lparr>heads := (heads a)[unat k := l]\<rparr>) ! j) ((fl(unat k := xs)) j)
          \<and> distinct ((fl(unat k := xs)) j) \<and> (\<forall>x. x \<in> set ((fl(unat k := xs)) j) \<longleftrightarrow> x \<in> set (fl j) \<and> x \<noteq> h)"
      proof (intro allI impI)
        fix j assume j: "j < N_ORDERS"
        show "free_chain mem (heads (a\<lparr>heads := (heads a)[unat k := l]\<rparr>) ! j) ((fl(unat k := xs)) j)
          \<and> distinct ((fl(unat k := xs)) j) \<and> (\<forall>x. x \<in> set ((fl(unat k := xs)) j) \<longleftrightarrow> x \<in> set (fl j) \<and> x \<noteq> h)"
          using f(1,2) o(1,3) other [OF j] i j by (cases "j = unat k") auto
      qed
    qed (use np i f(3) new in auto)
    then show ?thesis using Ptr new unfolding servable_def by fastforce
  next
    case Nil_Link
    show ?thesis
    proof (cases "unat (bumper a) + block_size (unat k) \<le> length mem")
      case False
      then show ?thesis using take_new_ok [OF inv k Nil_Link] Nil_Link np n by (simp add: allocate_def servable_def)
    next
      case True
      let ?h = "bumper a" and ?a = "a\<lparr>bumper := bumper a + (order_size k + HEADER_SIZE)\<rparr>"
      have th: "take_header k mem a = Some (Inr ?h, ?a)" "unat (bumper ?a) = unat ?h + block_size (unat k)"
        using take_new_ok [OF inv k Nil_Link] True by simp_all
      have fresh: "(unat ?h, j) \<notin> set L" for j using tiles_bounds [of base L "unat ?h" "unat ?h" j] i by (auto simp: block_size_def)
      have "\<exists>mem' a'. allocate n mem a = Some (Inr (?h + 8), mem', a') \<and> \<not> poisoned a' \<and> only_header ?h mem mem'
          \<and> heads a' = heads ?a \<and> heap_inv base (L @ [(unat ?h, unat k)]) fl (live(?h + 8 \<mapsto> unat k)) mem' a'"
      proof (rule allocate_served [OF inv np n k th(1)])
        show "tiles base (L @ [(unat ?h, unat k)]) (unat (bumper ?a))" unfolding th(2) using i by (intro tiles_snoc) blast
        show "live (?h + 8) = None" using fresh i by (metis not_None_eq)
        show "\<forall>j < N_ORDERS. free_chain mem (heads ?a ! j) (fl j) \<and> distinct (fl j)
            \<and> (\<forall>x. x \<in> set (fl j) \<longleftrightarrow> x \<in> set (fl j) \<and> x \<noteq> ?h)" using i fresh by auto
      qed (use np i True th(2) in simp_all)
      moreover have "live (?h + 8) = None" using fresh i by (metis not_None_eq)
      ultimately show ?thesis using True Nil_Link unfolding servable_def by fastforce
    qed
  qed
qed

text \<open>A live block is in the heap, aligned, and its pointer is eight bytes after its header.\<close>

lemma live_block:
  assumes inv: "heap_inv base L fl live mem a" and l: "live p = Some j"
  shows "(unat (p - 8), j) \<in> set L" and "p - 8 \<notin> set (fl j)" and "unat p = unat (p - 8) + 8" and "j < N_ORDERS"
    and "8 dvd unat p" and "base + 8 \<le> unat p" and "unat p + 8 * 2 ^ j \<le> unat (bumper a)"
    and "read_from mem (p - 8) = Inr (Occupied (of_nat j))"
proof -
  note i = inv [unfolded heap_inv_def]
  have l8: "live ((p - 8) + 8) = Some j" using l by simp
  show L: "(unat (p - 8), j) \<in> set L" "p - 8 \<notin> set (fl j)" using i l8 by blast+
  show "read_from mem (p - 8) = Inr (Occupied (of_nat j))" using i l8 by blast
  show "j < N_ORDERS" using i L(1) by auto
  have tl: "tiles base L (unat (bumper a))" "8 dvd base" using i by blast+
  have t: "base \<le> unat (p - 8)" "unat (p - 8) + block_size j \<le> unat (bumper a)" "8 dvd unat (p - 8)"
    using tiles_bounds [OF tl(1) L(1)] tiles_aligned [OF tl] L(1) by auto
  have "unat ((p - 8) + 8) = unat (p - 8) + unat (8 :: u32)"
    by (rule unat_add_nowrap) (use t i in \<open>auto simp: HEAP_MAX_def block_size_def\<close>)
  then show u: "unat p = unat (p - 8) + 8" by simp
  show "8 dvd unat p" "base + 8 \<le> unat p" "unat p + 8 * 2 ^ j \<le> unat (bumper a)"
    unfolding u using t by (simp_all add: block_size_def)
qed

lemma release_inv:
  assumes inv: "heap_inv base L fl live mem a" and l: "live p = Some j"
    and w: "write_into (Free (heads a ! j)) (p - 8) mem = Inr mem'" and tot: "unat t + block_size j = unat (total_size a)"
  shows "heap_inv base L (fl(j := (p - 8) # fl j)) (live(p := None)) mem'
    (a\<lparr>heads := (heads a)[j := Ptr (p - 8)], total_size := t\<rparr>)"
proof -
  note i = inv [unfolded heap_inv_def] and b = live_block [OF inv l]
  let ?h = "p - 8"
  have room: "room mem x" if "(unat x, k) \<in> set L" for x k using header_room [where a = a and L = L, OF _ _ _ that] i by blast
  obtain m where "write_into (Free (heads a ! j)) ?h mem = Inr m" "length m = length mem" by (rule write_into_room [OF room [OF b(1)]])
  then have lm: "length mem' = length mem" using w by simp
  have kept: "read_from mem' x = read_from mem x" if "(unat x, k) \<in> set L" "x \<noteq> ?h" for x k
    using header_kept [OF w room [OF b(1)] room [OF that(1)]] headers_apart [OF _ that(1) b(1) that(2)] i by blast
  have ok: "header_ok (Free (heads a ! j))"
  proof (cases "fl j")
    case Nil
    then show ?thesis using i b(4) by (auto simp: header_ok_def)
  next
    case (Cons x xs)
    then have "heads a ! j = Ptr x" "(unat x, j) \<in> set L" using i b(4) by auto
    moreover have "unat x + 8 < 2 ^ 32" using room [OF calculation(2)] by (simp add: room_def)
    moreover have "unat NIL_MARKER = 2 ^ 32 - 1" by (simp add: NIL_MARKER_def unat_max_word)
    ultimately show ?thesis by (auto simp: header_ok_def)
  qed
  have only: "k = j" if "(unat ?h, k) \<in> set L" for k using tiles_disjoint [OF _ that b(1)] i by (auto simp: block_size_def)
  have live': "(live(p := None)) (x + 8) = Some k \<longleftrightarrow> (unat x, k) \<in> set L \<and> x \<notin> set ((fl(j := ?h # fl j)) k)" for x k
  proof (cases "x = ?h")
    case True
    then show ?thesis using only [of k] by auto
  next
    case False
    then have "x + 8 \<noteq> p" by (auto simp: algebra_simps)
    then show ?thesis using i False by auto
  qed
  have reads: "read_from mem' x = Inr (Occupied (of_nat k))" if "(live(p := None)) (x + 8) = Some k" for x k
  proof -
    have ne: "x \<noteq> ?h" "live (x + 8) = Some k" using that by (auto split: if_splits)
    then show ?thesis using i kept [of x k] by auto
  qed
  have chains: "free_chain mem' ((heads a)[j := Ptr ?h] ! k) ((fl(j := ?h # fl j)) k) \<and> distinct ((fl(j := ?h # fl j)) k)
      \<and> (\<forall>x \<in> set ((fl(j := ?h # fl j)) k). (unat x, k) \<in> set L)" if k: "k < N_ORDERS" for k
  proof -
    have f: "free_chain mem (heads a ! k) (fl k)" "distinct (fl k)" "\<forall>x \<in> set (fl k). (unat x, k) \<in> set L" using i k by auto
    have ne: "x \<noteq> ?h" if "x \<in> set (fl k)" for x using that f(3) only b(2) by auto
    have c: "free_chain mem' (heads a ! k) (fl k)"
      by (rule free_chain_cong [OF _ f(1)]) (use f(3) ne kept in blast)
    show ?thesis using c f(2,3) b(1,2,4) i read_written [OF w ok] by (cases "k = j") auto
  qed
  have "(\<Sum>q \<in> dom live. block_size (the (live q))) = block_size j + (\<Sum>q \<in> dom live - {p}. block_size (the (live q)))"
    using sum.remove [OF live_finite [OF inv], of p "\<lambda>q. block_size (the (live q))"] l by auto
  moreover have "(\<Sum>q \<in> dom (live(p := None)). block_size (the ((live(p := None)) q)))
      = (\<Sum>q \<in> dom live - {p}. block_size (the (live q)))" by (rule sum.cong) auto
  ultimately have "unat t = (\<Sum>q \<in> dom (live(p := None)). block_size (the ((live(p := None)) q)))"
    using tot i by simp
  then show ?thesis unfolding heap_inv_def using i lm live' reads chains by (simp del: fun_upd_apply)
qed

lemma deallocate_ok:
  assumes inv: "heap_inv base L fl live mem a" and np: "\<not> poisoned a" and l: "live p = Some j"
  shows "\<exists>mem' a'. deallocate p mem a = Some (Inr (), mem', a') \<and> \<not> poisoned a' \<and> only_header (p - 8) mem mem'
    \<and> heads a' ! j = Ptr (p - 8) \<and> heap_inv base L (fl(j := (p - 8) # fl j)) (live(p := None)) mem' a'"
proof -
  note i = inv [unfolded heap_inv_def] and b = live_block [OF inv l]
  have uj: "unat (of_nat j :: u32) = j" using b(4) by (simp add: N_ORDERS_def unat_of_nat)
  have room: "room mem (p - 8)" using header_room [where a = a and L = L, OF _ _ _ b(1)] i by blast
  obtain mem' where w: "write_into (Free (heads a ! j)) (p - 8) mem = Inr mem'" "only_header (p - 8) mem mem'"
    by (rule write_only_header [OF room])
  have s: "unat (order_size (of_nat j) + HEADER_SIZE) = block_size j"
    using unat_block [of "of_nat j"] b(4) by (simp add: uj N_ORDERS_def)
  have "block_size j \<le> (\<Sum>q \<in> dom live. block_size (the (live q)))"
    using member_le_sum [of p "dom live" "\<lambda>q. block_size (the (live q))"] l live_finite [OF inv] by auto
  then have le: "order_size (of_nat j) + HEADER_SIZE \<le> total_size a" using s i by (simp add: word_le_nat_alt)
  let ?t = "total_size a - (order_size (of_nat j) + HEADER_SIZE)"
  have "unat ?t + block_size j = unat (total_size a)" using unat_sub [OF le] le s by (simp add: word_le_nat_alt)
  from release_inv [OF inv l w(1) this]
  have "heap_inv base L (fl(j := (p - 8) # fl j)) (live(p := None)) mem'
      (a\<lparr>heads := (heads a)[j := Ptr (p - 8)], total_size := ?t\<rparr>)" .
  moreover have "HEADER_SIZE \<le> p" using b(3) by (simp add: HEADER_SIZE_def word_le_nat_alt)
  ultimately show ?thesis using np w b(4,8) i le
    by (simp add: deallocate_def checked_sub_def HEADER_SIZE_def [symmetric] uj Let_def)
qed

section \<open>Histories\<close>

text \<open>The bytes that belong to the client.\<close>

definition payload :: "(u32 \<rightharpoonup> nat) \<Rightarrow> nat set" where
  "payload live = {i. \<exists>p j. live p = Some j \<and> unat p \<le> i \<and> i < unat p + 8 * 2 ^ j}"

definition client_step :: "(u32 \<rightharpoonup> nat) \<Rightarrow> memory \<Rightarrow> memory \<Rightarrow> bool" where
  "client_step live mem mem' = (length mem \<le> length mem' \<and> length mem' \<le> HEAP_MAX
     \<and> (\<forall>i < length mem. i \<notin> payload live \<longrightarrow> mem' ! i = mem ! i))"

lemma payload_mono: "live q = None \<Longrightarrow> payload live \<subseteq> payload (live(q \<mapsto> k))"
proof
  fix i assume q: "live q = None" and "i \<in> payload live"
  then obtain p j where p: "live p = Some j" "unat p \<le> i" "i < unat p + 8 * 2 ^ j" by (auto simp: payload_def)
  have "(live(q \<mapsto> k)) p = Some j" using p(1) q by auto
  then show "i \<in> payload (live(q \<mapsto> k))" using p(2,3) unfolding payload_def by blast
qed

lemma header_not_payload:
  assumes inv: "heap_inv base L fl live mem a" and x: "(unat x, k) \<in> set L" and i: "unat x \<le> i" "i < unat x + 8"
  shows "i \<notin> payload live"
proof
  assume "i \<in> payload live"
  then obtain p j where p: "live p = Some j" "unat p \<le> i" "i < unat p + 8 * 2 ^ j" by (auto simp: payload_def)
  note b = live_block [OF inv p(1)]
  have "tiles base L (unat (bumper a))" using inv by (simp add: heap_inv_def)
  from tiles_disjoint [OF this x b(1)] show False using p(2,3) i b(3) by (auto simp: block_size_def)
qed

lemma client_inv:
  assumes inv: "heap_inv base L fl live mem a" and c: "client_step live mem mem'"
  shows "heap_inv base L fl live mem' a"
proof -
  note i = inv [unfolded heap_inv_def]
  have kept: "read_from mem' x = read_from mem x" if x: "(unat x, k) \<in> set L" for x k
  proof (rule read_from_cong)
    show r: "room mem x" using header_room [where a = a and L = L, OF _ _ _ x] i by blast
    then show "room mem' x" using c by (auto simp: room_def client_step_def)
    show "mem' ! n = mem ! n" if "unat x \<le> n" "n < unat x + 8" for n
      using header_not_payload [OF inv x that] r that c by (auto simp: room_def client_step_def)
  qed
  have chains: "free_chain mem' (heads a ! k) (fl k)" if "k < N_ORDERS" for k
  proof -
    have f: "free_chain mem (heads a ! k) (fl k)" "\<forall>x \<in> set (fl k). (unat x, k) \<in> set L" using i that by auto
    show ?thesis by (rule free_chain_cong [OF _ f(1)]) (use f(2) kept in blast)
  qed
  have "read_from mem' h = Inr (Occupied (of_nat k))" if "live (h + 8) = Some k" for h k
    using that i kept [of h k] by auto
  then show ?thesis unfolding heap_inv_def using i chains c by (auto simp: client_step_def)
qed

definition heap_start :: "u32 \<Rightarrow> nat" where
  "heap_start heap_base = (unat heap_base + 7) div 8 * 8"

lemma bumper_new:
  assumes "unat heap_base + 7 < 2 ^ 32"
  shows "unat (bumper (allocator_new heap_base)) = heap_start heap_base"
proof -
  have "unat (7 + heap_base) = unat heap_base + 7" using assms by (simp add: unat_word_ariths)
  moreover have "unat ((7 + heap_base) div 8 * 8) = unat (7 + heap_base) div 8 * 8"
    by (simp add: unat_word_ariths unat_div)
  ultimately show ?thesis by (simp add: allocator_new_def ALIGNMENT_def heap_start_def Let_def)
qed

lemma new_inv:
  assumes "unat heap_base + 7 < 2 ^ 32" and "heap_start heap_base \<le> length mem" and "length mem \<le> HEAP_MAX"
  shows "heap_inv (heap_start heap_base) [] (\<lambda>_. []) Map.empty mem (allocator_new heap_base)"
  using assms bumper_new [OF assms(1)]
  by (simp add: heap_inv_def heap_start_def allocator_new_def free_lists_new_def Let_def)

text \<open>
  What can happen to a heap: requests, served or refused, releases of live pointers, and anything the
  client writes into its blocks while the memory may grow.  \<open>live\<close> gives for each pointer handed out and
  not given back the order of its block.
\<close>

inductive heap_run :: "u32 \<Rightarrow> (u32 \<rightharpoonup> nat) \<Rightarrow> memory \<Rightarrow> allocator \<Rightarrow> bool" for heap_base where
  heap_created: "unat heap_base + 7 < 2 ^ 32 \<Longrightarrow> heap_start heap_base \<le> length mem \<Longrightarrow> length mem \<le> HEAP_MAX
    \<Longrightarrow> heap_run heap_base Map.empty mem (allocator_new heap_base)"
| heap_allocated: "heap_run heap_base live mem a \<Longrightarrow> allocate n mem a = Some (Inr p, mem', a') \<Longrightarrow> order_from_size n = Inr k
    \<Longrightarrow> heap_run heap_base (live(p \<mapsto> unat k)) mem' a'"
| heap_refused: "heap_run heap_base live mem a \<Longrightarrow> allocate n mem a = Some (Inl e, mem', a') \<Longrightarrow> heap_run heap_base live mem' a'"
| heap_released: "heap_run heap_base live mem a \<Longrightarrow> p \<in> dom live \<Longrightarrow> deallocate p mem a = Some (Inr (), mem', a')
    \<Longrightarrow> heap_run heap_base (live(p := None)) mem' a'"
| heap_used: "heap_run heap_base live mem a \<Longrightarrow> client_step live mem mem' \<Longrightarrow> heap_run heap_base live mem' a"

lemma heap_run_inv:
  "heap_run heap_base live mem a \<Longrightarrow> \<exists>L fl. heap_inv (heap_start heap_base) L fl live mem a"
proof (induction rule: heap_run.induct)
  case (heap_created mem)
  then show ?case using new_inv by blast
next
  case (heap_allocated live mem a n p mem' a' k)
  then obtain L fl where inv: "heap_inv (heap_start heap_base) L fl live mem a" by blast
  have np: "\<not> poisoned a" using heap_allocated(2) by (auto simp: allocate_def)
  show ?case using allocate_ok [OF inv np heap_allocated(3)] heap_allocated(2) by (auto simp del: fun_upd_apply split: if_splits)
next
  case (heap_refused live mem a n e mem' a')
  then obtain L fl where inv: "heap_inv (heap_start heap_base) L fl live mem a" by blast
  show ?case
  proof (cases "poisoned a \<or> (\<exists>e. order_from_size n = Inl e)")
    case True
    then have "mem' = mem \<and> (a' = a \<or> a' = poison a)" using heap_refused(2) by (auto simp: allocate_def split: if_splits)
    then show ?thesis using inv heap_inv_poison by blast
  next
    case False
    then obtain k where "order_from_size n = Inr k" by (cases "order_from_size n") auto
    from allocate_ok [OF inv _ this] have "mem' = mem \<and> a' = poison a" using heap_refused(2) False by (auto split: if_splits)
    then show ?thesis using inv heap_inv_poison by blast
  qed
next
  case (heap_released live mem a p mem' a')
  then obtain L fl j where inv: "heap_inv (heap_start heap_base) L fl live mem a" and j: "live p = Some j" by blast
  have np: "\<not> poisoned a" using heap_released(3) by (auto simp: deallocate_def)
  show ?case using deallocate_ok [OF inv np j] heap_released(3) by (auto simp del: fun_upd_apply)
next
  case (heap_used live mem a mem')
  then show ?case using client_inv by blast
qed

section \<open>Properties\<close>

text \<open>A heap of 96 bytes with one block.\<close>

definition ex_mem :: memory where
  "ex_mem = replicate 96 0"

lemma ex_order: "order_from_size 12 = Inr 1"
  by (simp add: order_from_size_def MAX_POSSIBLE_ALLOCATION_def MIN_POSSIBLE_ALLOCATION_def next_power_of_two_def
      trailing_zeros_def upt_rec bit_simps)

lemma ex_new:
  "heap_run 16 Map.empty ex_mem (allocator_new 16)" "\<not> poisoned (allocator_new 16)"
  "unat (bumper (allocator_new 16)) + block_size 1 \<le> length ex_mem"
proof -
  have "unat (bumper (allocator_new 16)) = 16" by (subst bumper_new) (simp_all add: heap_start_def)
  then show "unat (bumper (allocator_new 16)) + block_size 1 \<le> length ex_mem" by (simp add: ex_mem_def block_size_def)
  show "heap_run 16 Map.empty ex_mem (allocator_new 16)"
    by (rule heap_created) (simp_all add: heap_start_def ex_mem_def HEAP_MAX_def)
qed (simp add: allocator_new_def Let_def)

lemma ex_heap: "\<exists>p mem a. heap_run 16 [p \<mapsto> 1] mem a \<and> \<not> poisoned a \<and> length mem = 96"
proof -
  obtain L fl where inv: "heap_inv (heap_start 16) L fl Map.empty ex_mem (allocator_new 16)" using heap_run_inv [OF ex_new(1)] by blast
  obtain h mem' a' where a: "allocate 12 ex_mem (allocator_new 16) = Some (Inr (h + 8), mem', a')" "\<not> poisoned a'"
      "only_header h ex_mem mem'"
    using allocate_ok [OF inv ex_new(2) ex_order] ex_new(3) by (auto simp: servable_def)
  have "heap_run 16 [h + 8 \<mapsto> 1] mem' a'" using heap_allocated [OF ex_new(1) a(1) ex_order] by simp
  then show ?thesis using a(2,3) by (auto simp: only_header_def ex_mem_def)
qed

text \<open>
  C3. The blocks handed out and not given back never overlap, are aligned to eight bytes and lie in the
  heap, after every history of requests, releases and writes of the client into its own blocks.
\<close>

theorem live_blocks_disjoint:
  assumes "heap_run heap_base live mem a" and "live p = Some j" and "live q = Some k"
  shows "8 dvd unat p \<and> unat heap_base + 8 \<le> unat p \<and> unat p + 8 * 2 ^ j \<le> length mem
    \<and> (p = q \<or> unat p + 8 * 2 ^ j + 8 \<le> unat q \<or> unat q + 8 * 2 ^ k + 8 \<le> unat p)"
proof -
  obtain L fl where inv: "heap_inv (heap_start heap_base) L fl live mem a" using heap_run_inv [OF assms(1)] by blast
  note p = live_block [OF inv assms(2)] and q = live_block [OF inv assms(3)]
  have t: "tiles (heap_start heap_base) L (unat (bumper a))" "unat (bumper a) \<le> length mem" using inv by (auto simp: heap_inv_def)
  have "unat heap_base \<le> heap_start heap_base" by (simp add: heap_start_def)
  moreover have "p = q \<or> unat p + 8 * 2 ^ j + 8 \<le> unat q \<or> unat q + 8 * 2 ^ k + 8 \<le> unat p"
    using tiles_disjoint [OF t(1) p(1) q(1)] p(3) q(3) by (auto simp: block_size_def word_unat_eq_iff)
  ultimately show ?thesis using p(5-7) t(2) by auto
qed

theorem live_blocks_disjoint_witness: "\<exists>p mem a. heap_run 16 [p \<mapsto> 1] mem a \<and> 8 dvd unat p \<and> unat p + 16 \<le> 96"
proof -
  obtain p mem a where r: "heap_run 16 [p \<mapsto> 1] mem a" "length mem = 96" using ex_heap by blast
  show ?thesis using live_blocks_disjoint [OF r(1), of p 1 p 1] r by auto
qed

text \<open>
  C19. After every history of requests, releases and writes of the client into its own blocks, in a
  memory of at most \<open>HEAP_MAX\<close> bytes, a request does not panic.  A poisoned allocator refuses it and
  changes nothing.  Otherwise it is served exactly when its size is allowed and the free list of its
  order has a block or the memory has room for one; then the block is new, holds the requested bytes,
  and no byte of a block of the client changes.  A request that is not served gets the error of its
  case and poisons the allocator.
\<close>

theorem allocate_serves:
  assumes "heap_run heap_base live mem a"
  shows "if poisoned a then allocate n mem a = Some (Inl (Other ''the allocator has been poisoned''), mem, a)
    else (case order_from_size n of
      Inl e \<Rightarrow> allocate n mem a = Some (Inl RequestedAllocationTooLarge, mem, poison a) \<and> MAX_POSSIBLE_ALLOCATION < n
    | Inr k \<Rightarrow>
        (if heads a ! unat k \<noteq> Nil_Link \<or> unat (bumper a) + block_size (unat k) \<le> length mem
         then \<exists>p mem' a'. allocate n mem a = Some (Inr p, mem', a') \<and> p \<notin> dom live \<and> unat n \<le> 8 * 2 ^ unat k
           \<and> (\<forall>i \<in> payload live. mem' ! i = mem ! i)
         else allocate n mem a = Some (Inl AllocatorOutOfSpace, mem, poison a)))"
proof (cases "poisoned a")
  case False
  note np = this
  show ?thesis
  proof (cases "order_from_size n")
    case (Inl e)
    then have "MAX_POSSIBLE_ALLOCATION < n" "e = RequestedAllocationTooLarge"
      by (auto simp: order_from_size_def Let_def split: if_splits)
    then show ?thesis using Inl np by (simp add: allocate_def)
  next
    case (Inr k)
    obtain L fl where inv: "heap_inv (heap_start heap_base) L fl live mem a" using heap_run_inv [OF assms(1)] by blast
    note ok = allocate_ok [OF inv np Inr] and size = order_from_size_ok(2) [OF Inr]
    show ?thesis
    proof (cases "servable k mem a")
      case False
      then show ?thesis using ok Inr np by (simp add: servable_def)
    next
      case True
      then obtain h mem' a' L' fl' where r: "allocate n mem a = Some (Inr (h + 8), mem', a')" "only_header h mem mem'"
        "live (h + 8) = None" "heap_inv (heap_start heap_base) L' fl' (live(h + 8 \<mapsto> unat k)) mem' a'"
        using ok by auto
      have h: "(unat h, unat k) \<in> set L'" using live_block(1) [OF r(4), of "h + 8"] by simp
      have "mem' ! i = mem ! i" if "i \<in> payload live" for i
      proof -
        have "i \<in> payload (live(h + 8 \<mapsto> unat k))" using that payload_mono [of live "h + 8"] r(3) by blast
        then have "\<not> (unat h \<le> i \<and> i < unat h + 8)" using header_not_payload [OF r(4) h] by blast
        then show ?thesis using r(2) by (auto simp: only_header_def)
      qed
      then show ?thesis using r(1,3) True Inr np size unfolding servable_def by auto
    qed
  qed
qed (simp add: allocate_def)

theorem allocate_serves_witness: "\<exists>p mem' a'. allocate 12 ex_mem (allocator_new 16) = Some (Inr p, mem', a')"
  using allocate_serves [OF ex_new(1), of 12] ex_new(2,3) unfolding ex_order by auto

text \<open>
  C30. A block that is released is handed out again by the next request of its order, with its contents.
\<close>

theorem release_then_allocate:
  assumes "heap_run heap_base live mem a" and "\<not> poisoned a" and "live p = Some (unat k)" and "order_from_size n = Inr k"
  shows "\<exists>mem1 a1 mem2 a2. deallocate p mem a = Some (Inr (), mem1, a1) \<and> allocate n mem1 a1 = Some (Inr p, mem2, a2)
    \<and> \<not> poisoned a2 \<and> total_size a2 = total_size a \<and> (\<forall>i \<in> payload live. mem2 ! i = mem ! i)"
proof -
  obtain L fl where inv: "heap_inv (heap_start heap_base) L fl live mem a" using heap_run_inv [OF assms(1)] by blast
  obtain mem1 a1 where d: "deallocate p mem a = Some (Inr (), mem1, a1)" "\<not> poisoned a1" "only_header (p - 8) mem mem1"
      "heads a1 ! unat k = Ptr (p - 8)"
      "heap_inv (heap_start heap_base) L (fl(unat k := (p - 8) # fl (unat k))) (live(p := None)) mem1 a1"
    using deallocate_ok [OF inv assms(2,3)] by blast
  have "servable k mem1 a1" using d(4) by (simp add: servable_def)
  then obtain h mem2 a2 L' fl' where r: "allocate n mem1 a1 = Some (Inr (h + 8), mem2, a2)" "\<not> poisoned a2"
      "only_header h mem1 mem2" "h = p - 8" "heap_inv (heap_start heap_base) L' fl' ((live(p := None))(h + 8 \<mapsto> unat k)) mem2 a2"
    using allocate_ok [OF d(5,2) assms(4)] d(4) by auto
  have same: "(live(p := None))(h + 8 \<mapsto> unat k) = live" using r(4) assms(3) by auto
  have "unat (total_size a2) = unat (total_size a)" using inv r(5) unfolding same by (simp add: heap_inv_def)
  moreover have "mem2 ! i = mem ! i" if "i \<in> payload live" for i
  proof -
    have "i < unat (p - 8) \<or> unat (p - 8) + 8 \<le> i"
      using header_not_payload [OF inv live_block(1) [OF inv assms(3)], of i] that by (meson not_le)
    then show ?thesis using d(3) r(3,4) by (auto simp: only_header_def)
  qed
  ultimately show ?thesis using d(1) r(1,2,4) by (auto simp: word_unat_eq_iff)
qed

theorem release_then_allocate_witness:
  "\<exists>p mem a mem1 a1 mem2 a2. heap_run 16 [p \<mapsto> 1] mem a \<and> deallocate p mem a = Some (Inr (), mem1, a1)
   \<and> allocate 12 mem1 a1 = Some (Inr p, mem2, a2)"
proof -
  obtain p mem a where r: "heap_run 16 [p \<mapsto> 1] mem a" "\<not> poisoned a" using ex_heap by blast
  obtain mem1 a1 mem2 a2 where "deallocate p mem a = Some (Inr (), mem1, a1)" "allocate 12 mem1 a1 = Some (Inr p, mem2, a2)"
    using release_then_allocate [OF r, of p 1 12] ex_order by auto
  then show ?thesis using r(1) by blast
qed

text \<open>The order of a request is the smallest whose blocks hold it, and the 23 orders are enough.\<close>

theorem order_bounds:
  assumes "order_from_size n = Inr k"
  shows "unat k < N_ORDERS \<and> unat (order_size k) = 8 * 2 ^ unat k \<and> unat n \<le> unat (order_size k)
    \<and> (k = 0 \<or> unat (order_size k) < 2 * unat n)"
  using order_from_size_ok [OF assms] unat_order_size [of k] by (auto simp: N_ORDERS_def)

theorem order_bounds_witness: "order_from_size 12 = Inr 1 \<and> unat (order_size 1) = 16"
  using order_bounds [OF ex_order] ex_order by simp

text \<open>
  An error is final: an allocator that has refused a request refuses every later one and every
  release, and changes nothing any more.
\<close>

theorem errors_poison:
  assumes "allocate n mem a = Some (Inl e, mem', a')"
  shows "allocate n2 m a' = Some (Inl (Other ''the allocator has been poisoned''), m, a')
    \<and> deallocate p m a' = Some (Inl (Other ''the allocator has been poisoned''), m, a')"
proof -
  have "poisoned a'" using assms by (auto simp: allocate_def poison_def split: if_splits sum.splits option.splits)
  then show ?thesis by (simp add: allocate_def deallocate_def)
qed

theorem errors_poison_witness:
  "\<exists>a'. allocate 40000000 [] (allocator_new 0) = Some (Inl RequestedAllocationTooLarge, [], a')
    \<and> allocate 8 [] a' = Some (Inl (Other ''the allocator has been poisoned''), [], a')"
proof -
  have "allocate 40000000 [] (allocator_new 0) = Some (Inl RequestedAllocationTooLarge, [], poison (allocator_new 0))"
    by (simp add: allocate_def order_from_size_def MAX_POSSIBLE_ALLOCATION_def allocator_new_def Let_def)
  with errors_poison [OF this] show ?thesis by blast
qed





end
