(* ===== verification/State_Db_Types.thy ===== *)
theory State_Db_Types
  imports Rust_Prelude
begin

text \<open>
  The types the parts of the state database share (\<open>src/client/state-db/src/lib.rs\<close>): change sets
  and commit sets, errors, pruning modes, the keys of the metadata column, and the application of
  a commit set to the two columns of the backing store (\<open>apply_state_commit\<close> of
  \<open>src/client/db/src/lib.rs\<close>).

  The SCALE codec is not part of the sources.  Its functions are the fields of a record that every
  operation that encodes takes as an argument; what reading the pruning journal back relies on is
  \<open>codec_ok\<close>: decoding inverts encoding, of a number below the width of \<open>u64\<close> and of a journal
  record.  Block numbers and reference counters (\<open>u64\<close>, \<open>u32\<close>) are natural numbers:
  they count blocks held in memory or on the chain, which do not reach the width.  The bit mask of
  the journal indices is kept at its 64 bits.  Errors carry what decides them: \<open>Decoding\<close> without
  the message of the codec, \<open>InvalidPruningMode\<close> with the bytes the code shows as a string.
\<close>

type_synonym bytes = "u8 list"
type_synonym db_value = bytes

datatype 'e state_db_error =
    Db 'e
  | Decoding
  | InvalidBlock
  | InvalidBlockNumber
  | InvalidParent
  | InvalidPruningMode bytes
  | TooManySiblingBlocks

datatype pin_error = PinInvalidBlock

record 'k change_set =
  inserted :: "('k \<times> db_value) list"
  deleted :: "'k list"

record 'k commit_set =
  commit_data :: "'k change_set"
  commit_meta :: "bytes change_set"

definition empty_change :: "'k change_set" where
  "empty_change = \<lparr>inserted = [], deleted = []\<rparr>"

definition empty_commit :: "'k commit_set" where
  "empty_commit = \<lparr>commit_data = empty_change, commit_meta = empty_change\<rparr>"

definition insert_meta :: "bytes \<Rightarrow> db_value \<Rightarrow> 'k commit_set \<Rightarrow> 'k commit_set" where
  "insert_meta key value c =
     c\<lparr>commit_meta := (commit_meta c)\<lparr>inserted := inserted (commit_meta c) @ [(key, value)]\<rparr>\<rparr>"

definition delete_meta :: "bytes list \<Rightarrow> 'k commit_set \<Rightarrow> 'k commit_set" where
  "delete_meta keys c =
     c\<lparr>commit_meta := (commit_meta c)\<lparr>deleted := deleted (commit_meta c) @ keys\<rparr>\<rparr>"

definition extend_data :: "('k \<times> db_value) list \<Rightarrow> 'k list \<Rightarrow> 'k commit_set \<Rightarrow> 'k commit_set" where
  "extend_data ins del c =
     c\<lparr>commit_data := \<lparr>inserted = inserted (commit_data c) @ ins,
                      deleted = deleted (commit_data c) @ del\<rparr>\<rparr>"

section \<open>Pruning modes\<close>

record constraints =
  max_blocks :: "nat option"
  max_mem :: "nat option"

datatype pruning_mode = Constrained constraints | ArchiveAll | ArchiveCanonical

definition keep_blocks :: "nat \<Rightarrow> pruning_mode" where
  "keep_blocks n = Constrained \<lparr>max_blocks = Some n, max_mem = None\<rparr>"

fun is_archive :: "pruning_mode \<Rightarrow> bool" where
  "is_archive ArchiveAll = True"
| "is_archive ArchiveCanonical = True"
| "is_archive (Constrained _) = False"

definition ascii :: "string \<Rightarrow> bytes" where
  "ascii s = map of_char s"

fun mode_id :: "pruning_mode \<Rightarrow> bytes" where
  "mode_id ArchiveAll = ascii ''archive''"
| "mode_id ArchiveCanonical = ascii ''archive_canonical''"
| "mode_id (Constrained _) = ascii ''constrained''"

definition default_mode :: pruning_mode where
  "default_mode = keep_blocks 256"

section \<open>Journal records and the codec\<close>

record ('h, 'k) prune_journal =
  pj_hash :: 'h
  pj_inserted :: "'k list"
  pj_deleted :: "'k list"

record ('h, 'k) overlay_journal =
  oj_hash :: 'h
  oj_parent_hash :: 'h
  oj_inserted :: "('k \<times> db_value) list"
  oj_deleted :: "'k list"

record ('h, 'k) codec =
  encode_unit :: bytes
  encode_u64 :: "nat \<Rightarrow> bytes"
  decode_u64 :: "bytes \<Rightarrow> nat option"
  encode_u64_pair :: "nat \<times> nat \<Rightarrow> bytes"
  encode_block_id :: "'h \<times> nat \<Rightarrow> bytes"
  decode_block_id :: "bytes \<Rightarrow> ('h \<times> nat) option"
  encode_prune :: "('h, 'k) prune_journal \<Rightarrow> bytes"
  decode_prune :: "bytes \<Rightarrow> ('h, 'k) prune_journal option"
  encode_overlay :: "('h, 'k) overlay_journal \<Rightarrow> bytes"
  decode_overlay :: "bytes \<Rightarrow> ('h, 'k) overlay_journal option"

definition codec_ok :: "('h, 'k) codec \<Rightarrow> bool" where
  "codec_ok C \<longleftrightarrow>
     (\<forall>n < 2 ^ 64. decode_u64 C (encode_u64 C n) = Some n) \<and>
     (\<forall>r. decode_prune C (encode_prune C r) = Some r)"

definition to_meta_key :: "string \<Rightarrow> bytes \<Rightarrow> bytes" where
  "to_meta_key suffix data = data @ ascii suffix"

definition pruning_mode_key :: "('h, 'k) codec \<Rightarrow> bytes" where
  "pruning_mode_key C = to_meta_key ''mode'' (encode_unit C)"

definition last_pruned_key :: "('h, 'k) codec \<Rightarrow> bytes" where
  "last_pruned_key C = to_meta_key ''last_pruned'' (encode_unit C)"

definition prune_journal_key :: "('h, 'k) codec \<Rightarrow> nat \<Rightarrow> bytes" where
  "prune_journal_key C block = to_meta_key ''pruning_journal'' (encode_u64 C block)"

definition last_canonical_key :: "('h, 'k) codec \<Rightarrow> bytes" where
  "last_canonical_key C = to_meta_key ''last_canonical'' (encode_unit C)"

definition overlay_journal_key :: "('h, 'k) codec \<Rightarrow> nat \<Rightarrow> nat \<Rightarrow> bytes" where
  "overlay_journal_key C block index = to_meta_key ''noncanonical_journal'' (encode_u64_pair C (block, index))"

lemmas meta_key_defs =
  pruning_mode_key_def last_pruned_key_def prune_journal_key_def last_canonical_key_def
  overlay_journal_key_def to_meta_key_def

section \<open>The backing store\<close>

record 'k node_store =
  state_col :: "'k \<rightharpoonup> db_value"
  meta_col :: "bytes \<rightharpoonup> db_value"

definition put_all :: "('k \<times> 'v) list \<Rightarrow> ('k \<rightharpoonup> 'v) \<Rightarrow> 'k \<rightharpoonup> 'v" where
  "put_all kvs m = fold (\<lambda>(k, v) m. m(k \<mapsto> v)) kvs m"

definition remove_all :: "'k list \<Rightarrow> ('k \<rightharpoonup> 'v) \<Rightarrow> 'k \<rightharpoonup> 'v" where
  "remove_all ks m = fold (\<lambda>k m. m(k := None)) ks m"

definition apply_change :: "'k change_set \<Rightarrow> ('k \<rightharpoonup> db_value) \<Rightarrow> 'k \<rightharpoonup> db_value" where
  "apply_change c m = remove_all (deleted c) (put_all (inserted c) m)"

definition apply_state_commit :: "'k commit_set \<Rightarrow> 'k node_store \<Rightarrow> 'k node_store" where
  "apply_state_commit c d =
     d\<lparr>state_col := apply_change (commit_data c) (state_col d),
       meta_col := apply_change (commit_meta c) (meta_col d)\<rparr>"

section \<open>Lemmas\<close>

lemma put_all_map_of: "put_all kvs m = m ++ map_of (rev kvs)"
  by (induction kvs arbitrary: m) (auto simp: put_all_def)

lemma remove_all_apply: "remove_all ks m k = (if k \<in> set ks then None else m k)"
  by (induction ks arbitrary: m) (auto simp: remove_all_def)

lemma dom_put_all [simp]: "dom (put_all kvs m) = dom m \<union> fst ` set kvs"
  by (auto simp: put_all_map_of dom_map_of_conv_image_fst)

lemma dom_remove_all [simp]: "dom (remove_all ks m) = dom m - set ks"
  by (auto simp: remove_all_apply dom_def)

lemma put_all_apply:
  assumes "\<forall>(k, v) \<in> set kvs. v = V k"
  shows "put_all kvs m k = (if k \<in> fst ` set kvs then Some (V k) else m k)"
  using assms by (induction kvs arbitrary: m) (auto simp: put_all_def)

lemma put_all_same [simp]: "put_all [] m = m" "remove_all [] m = m"
  by (simp_all add: put_all_def remove_all_def)

lemma put_all_append: "put_all (xs @ ys) m = put_all ys (put_all xs m)"
  by (simp add: put_all_def)

text \<open>The families of metadata keys are told apart by their suffixes.\<close>

lemma meta_key_families:
  "prune_journal_key C b \<noteq> overlay_journal_key C n i" "prune_journal_key C b \<noteq> last_pruned_key C"
  "prune_journal_key C b \<noteq> last_canonical_key C" "prune_journal_key C b \<noteq> pruning_mode_key C"
  "overlay_journal_key C n i \<noteq> last_pruned_key C" "overlay_journal_key C n i \<noteq> last_canonical_key C"
  "overlay_journal_key C n i \<noteq> pruning_mode_key C"
  "last_pruned_key C \<noteq> last_canonical_key C" "last_pruned_key C \<noteq> pruning_mode_key C"
  "last_canonical_key C \<noteq> pruning_mode_key C"
  by (auto simp: meta_key_defs ascii_def of_char_def dest!: arg_cong [where f = rev])

lemma prune_journal_key_inject:
  assumes "codec_ok C" "a < 2 ^ 64" "b < 2 ^ 64"
  shows "prune_journal_key C a = prune_journal_key C b \<longleftrightarrow> a = b"
proof -
  have "encode_u64 C a = encode_u64 C b \<Longrightarrow> a = b"
    using assms unfolding codec_ok_def by (metis option.inject)
  then show ?thesis by (auto simp: meta_key_defs)
qed

end
