(* ===== verification/Pruning_Window.thy ===== *)
theory Pruning_Window
  imports State_Db_Types
begin

text \<open>
  The pruning window of \<open>src/client/state-db/src/pruning.rs\<close>: for every canonical block in the
  window the keys its state no longer has, and an index from such a key to its block.  A
  \<open>HashSet\<close> of keys is a list without repetitions; \<open>None\<close> is a panic of the code.  The second part
  proves the invariant of the window: a key waits for its deletion in exactly one row, which is the
  one the index names, and no later block of the window has the key in its state.
\<close>

record ('h, 'k) death_row =
  row_hash :: 'h
  row_journal_key :: bytes
  row_deleted :: "'k list"

record ('h, 'k) ref_window =
  death_rows :: "('h, 'k) death_row list"
  death_index :: "'k \<rightharpoonup> nat"
  pending_number :: nat
  rw_pending_canonicalizations :: nat
  pending_prunings :: nat
  count_insertions :: bool

definition ref_window_empty :: "nat \<Rightarrow> bool \<Rightarrow> ('h, 'k) ref_window" where
  "ref_window_empty number counting =
     \<lparr>death_rows = [], death_index = Map.empty, pending_number = number,
      rw_pending_canonicalizations = 0, pending_prunings = 0, count_insertions = counting\<rparr>"

definition forget_in_row :: "'k \<Rightarrow> ('h, 'k) death_row \<Rightarrow> ('h, 'k) death_row" where
  "forget_in_row k row = row\<lparr>row_deleted := removeAll k (row_deleted row)\<rparr>"

fun forget_reinserted :: "'k list \<Rightarrow> ('h, 'k) ref_window \<Rightarrow> ('h, 'k) ref_window option" where
  "forget_reinserted [] w = Some w"
| "forget_reinserted (k # ks) w =
     (case death_index w k of
        None \<Rightarrow> forget_reinserted ks w
      | Some block \<Rightarrow>
          (if pending_number w \<le> block \<and> block - pending_number w < length (death_rows w) then
             forget_reinserted ks
               (w\<lparr>death_index := (death_index w)(k := None),
                  death_rows := (death_rows w)[block - pending_number w :=
                    forget_in_row k (death_rows w ! (block - pending_number w))]\<rparr>)
           else None))"

definition index_deleted :: "'k list \<Rightarrow> nat \<Rightarrow> ('k \<rightharpoonup> nat) \<Rightarrow> 'k \<rightharpoonup> nat" where
  "index_deleted ks block m = fold (\<lambda>k m. m(k \<mapsto> block)) ks m"

definition rw_import ::
    "'h \<Rightarrow> bytes \<Rightarrow> 'k list \<Rightarrow> 'k list \<Rightarrow> ('h, 'k) ref_window \<Rightarrow> ('h, 'k) ref_window option" where
  "rw_import hash jkey ins del w =
     map_option (\<lambda>w. w\<lparr>death_rows := death_rows w @
                         [\<lparr>row_hash = hash, row_journal_key = jkey, row_deleted = remdups del\<rparr>]\<rparr>)
       (if count_insertions w then
          map_option (\<lambda>w. w\<lparr>death_index :=
              index_deleted del (pending_number w + length (death_rows w)) (death_index w)\<rparr>)
            (forget_reinserted ins w)
        else Some w)"

text \<open>
  \<open>RefWindow::new\<close> reads journal records from the number after the last pruned block on until there is
  none.  A store that has a record for every number is read forever, which is \<open>None\<close> here.
\<close>

partial_function (option) read_prune_journal ::
    "('h, 'k) codec \<Rightarrow> (bytes \<Rightarrow> 'e + db_value option) \<Rightarrow> nat \<Rightarrow> ('h, 'k) ref_window
      \<Rightarrow> ('e state_db_error + ('h, 'k) ref_window) option" where
  "read_prune_journal C get_meta block w =
     (case get_meta (prune_journal_key C block) of
        Inl e \<Rightarrow> Some (Inl (Db e))
      | Inr None \<Rightarrow> Some (Inr w)
      | Inr (Some record) \<Rightarrow>
          (case decode_prune C record of
             None \<Rightarrow> Some (Inl Decoding)
           | Some r \<Rightarrow>
               (case rw_import (pj_hash r) (prune_journal_key C block) (pj_inserted r) (pj_deleted r) w of
                  None \<Rightarrow> None
                | Some w' \<Rightarrow> read_prune_journal C get_meta (block + 1) w')))"

declare read_prune_journal.simps [code]

definition ref_window_new ::
    "('h, 'k) codec \<Rightarrow> (bytes \<Rightarrow> 'e + db_value option) \<Rightarrow> bool
      \<Rightarrow> ('e state_db_error + ('h, 'k) ref_window) option" where
  "ref_window_new C get_meta counting =
     (case get_meta (last_pruned_key C) of
        Inl e \<Rightarrow> Some (Inl (Db e))
      | Inr None \<Rightarrow> read_prune_journal C get_meta 0 (ref_window_empty 0 counting)
      | Inr (Some buffer) \<Rightarrow>
          (case decode_u64 C buffer of
             None \<Rightarrow> Some (Inl Decoding)
           | Some n \<Rightarrow> read_prune_journal C get_meta (n + 1) (ref_window_empty (n + 1) counting)))"

definition window_size :: "('h, 'k) ref_window \<Rightarrow> nat" where
  "window_size w = length (death_rows w) - pending_prunings w"

definition next_hash :: "('h, 'k) ref_window \<Rightarrow> 'h option" where
  "next_hash w =
     (if pending_prunings w < length (death_rows w) then Some (row_hash (death_rows w ! pending_prunings w))
      else None)"

definition mem_used :: "('h, 'k) ref_window \<Rightarrow> nat" where
  "mem_used w = 0"

definition rw_pending :: "('h, 'k) ref_window \<Rightarrow> nat" where
  "rw_pending w = pending_number w + pending_prunings w"

definition rw_have_block :: "'h \<Rightarrow> ('h, 'k) ref_window \<Rightarrow> bool" where
  "rw_have_block hash w = list_ex (\<lambda>r. row_hash r = hash) (drop (pending_prunings w) (death_rows w))"

definition prune_one ::
    "('h, 'k) codec \<Rightarrow> 'k commit_set \<Rightarrow> ('h, 'k) ref_window \<Rightarrow> 'k commit_set \<times> ('h, 'k) ref_window" where
  "prune_one C commit w =
     (if pending_prunings w < length (death_rows w) then
        let pruned = death_rows w ! pending_prunings w;
            index = pending_number w + pending_prunings w
        in (delete_meta [row_journal_key pruned]
              (insert_meta (last_pruned_key C) (encode_u64 C index)
                (extend_data [] (row_deleted pruned) commit)),
            w\<lparr>pending_prunings := pending_prunings w + 1\<rparr>)
      else (commit, w))"

definition note_canonical ::
    "('h, 'k) codec \<Rightarrow> 'h \<Rightarrow> 'k commit_set \<Rightarrow> ('h, 'k) ref_window
      \<Rightarrow> ('k commit_set \<times> ('h, 'k) ref_window) option" where
  "note_canonical C hash commit w =
     (let ins = (if count_insertions w then map fst (inserted (commit_data commit)) else []);
          del = deleted (commit_data commit);
          commit' = commit\<lparr>commit_data := (commit_data commit)\<lparr>deleted := []\<rparr>\<rparr>;
          journal_record = \<lparr>pj_hash = hash, pj_inserted = ins, pj_deleted = del\<rparr>;
          block = pending_number w + length (death_rows w);
          jkey = prune_journal_key C block
      in map_option
           (\<lambda>w'. (insert_meta jkey (encode_prune C journal_record) commit',
                  w'\<lparr>rw_pending_canonicalizations := rw_pending_canonicalizations w' + 1\<rparr>))
           (rw_import hash jkey ins del w))"

fun pop_pruned :: "nat \<Rightarrow> ('h, 'k) ref_window \<Rightarrow> ('h, 'k) ref_window option" where
  "pop_pruned 0 w = Some w"
| "pop_pruned (Suc n) w =
     (case death_rows w of
        [] \<Rightarrow> None
      | pruned # rows \<Rightarrow>
          pop_pruned n
            (w\<lparr>death_rows := rows,
               death_index := (if count_insertions w then remove_all (row_deleted pruned) (death_index w)
                               else death_index w),
               pending_number := pending_number w + 1\<rparr>))"

definition rw_apply_pending :: "('h, 'k) ref_window \<Rightarrow> ('h, 'k) ref_window option" where
  "rw_apply_pending w =
     map_option (\<lambda>w'. w'\<lparr>pending_prunings := 0\<rparr>)
       (pop_pruned (pending_prunings w) (w\<lparr>rw_pending_canonicalizations := 0\<rparr>))"

definition retain_below :: "nat \<Rightarrow> ('k \<rightharpoonup> nat) \<Rightarrow> 'k \<rightharpoonup> nat" where
  "retain_below n m = (\<lambda>k. case m k of Some b \<Rightarrow> if b < n then Some b else None | None \<Rightarrow> None)"

definition rw_revert_pending :: "('h, 'k) ref_window \<Rightarrow> ('h, 'k) ref_window" where
  "rw_revert_pending w =
     (let rows = take (length (death_rows w) - rw_pending_canonicalizations w) (death_rows w)
      in w\<lparr>death_rows := rows,
           death_index := (if count_insertions w then retain_below (length rows + pending_number w) (death_index w)
                           else death_index w),
           rw_pending_canonicalizations := 0,
           pending_prunings := 0\<rparr>)"

section \<open>The invariant of the window\<close>

definition index_ok :: "('h, 'k) ref_window \<Rightarrow> bool" where
  "index_ok w \<longleftrightarrow>
     (\<forall>k b. death_index w k = Some b \<longleftrightarrow>
        pending_number w \<le> b \<and> b - pending_number w < length (death_rows w) \<and>
        k \<in> set (row_deleted (death_rows w ! (b - pending_number w))))"

definition rows_ok :: "('h \<Rightarrow> 'k set) \<Rightarrow> ('h, 'k) death_row list \<Rightarrow> bool" where
  "rows_ok st rows \<longleftrightarrow>
     (\<forall>j < length rows. \<forall>i \<le> j. set (row_deleted (rows ! i)) \<inter> st (row_hash (rows ! j)) = {})"

definition journal_keys_ok :: "('h, 'k) codec \<Rightarrow> ('h, 'k) ref_window \<Rightarrow> bool" where
  "journal_keys_ok C w \<longleftrightarrow>
     (\<forall>i < length (death_rows w). row_journal_key (death_rows w ! i) = prune_journal_key C (pending_number w + i))"

definition window_ok :: "('h, 'k) codec \<Rightarrow> ('h \<Rightarrow> 'k set) \<Rightarrow> ('h, 'k) ref_window \<Rightarrow> bool" where
  "window_ok C st w \<longleftrightarrow>
     count_insertions w \<and> index_ok w \<and> rows_ok st (death_rows w) \<and> journal_keys_ok C w \<and>
     pending_prunings w \<le> length (death_rows w) \<and>
     rw_pending_canonicalizations w \<le> length (death_rows w)"

lemma index_okD:
  assumes "index_ok w" "i < length (death_rows w)" "k \<in> set (row_deleted (death_rows w ! i))"
  shows "death_index w k = Some (pending_number w + i)"
  using assms by (simp add: index_ok_def)

lemma index_ok_alt:
  "index_ok w \<longleftrightarrow>
     (\<forall>k b. death_index w k = Some b \<longrightarrow> pending_number w \<le> b \<and> b < pending_number w + length (death_rows w)) \<and>
     (\<forall>i < length (death_rows w). \<forall>k.
        k \<in> set (row_deleted (death_rows w ! i)) \<longleftrightarrow> death_index w k = Some (pending_number w + i))"
  (is "_ \<longleftrightarrow> ?bounds \<and> ?rows")
proof
  assume "index_ok w"
  then show "?bounds \<and> ?rows" by (auto simp: index_ok_def)
next
  assume a: "?bounds \<and> ?rows"
  have "b - pending_number w < length (death_rows w) \<longleftrightarrow> b < pending_number w + length (death_rows w)"
    if "pending_number w \<le> b" for b
    using that by auto
  with a show "index_ok w"
    unfolding index_ok_def by (metis le_add_diff_inverse)
qed

lemma index_ok_unique:
  assumes "index_ok w" "i < length (death_rows w)" "k \<in> set (row_deleted (death_rows w ! i))"
    and "j < length (death_rows w)" "k \<in> set (row_deleted (death_rows w ! j))"
  shows "i = j"
  using index_okD [OF assms(1-3)] index_okD [OF assms(1,4,5)] by simp

definition forget_rows :: "'k set \<Rightarrow> ('h, 'k) death_row list \<Rightarrow> ('h, 'k) death_row list" where
  "forget_rows K rows = map (\<lambda>r. r\<lparr>row_deleted := filter (\<lambda>k. k \<notin> K) (row_deleted r)\<rparr>) rows"

lemma forget_rows_simps [simp]:
  "length (forget_rows K rows) = length rows" "map row_hash (forget_rows K rows) = map row_hash rows"
  "i < length rows \<Longrightarrow> row_hash (forget_rows K rows ! i) = row_hash (rows ! i)"
  "i < length rows \<Longrightarrow> row_journal_key (forget_rows K rows ! i) = row_journal_key (rows ! i)"
  "i < length rows \<Longrightarrow> row_deleted (forget_rows K rows ! i) = filter (\<lambda>k. k \<notin> K) (row_deleted (rows ! i))"
  by (simp_all add: forget_rows_def)

lemma filter_absent: "k \<notin> set xs \<Longrightarrow> filter (\<lambda>x. x \<noteq> k \<and> P x) xs = filter P xs"
  by (auto intro!: filter_cong)

lemma forget_rows_insert:
  assumes "\<And>i. i < length rows \<Longrightarrow> k \<in> set (row_deleted (rows ! i)) \<Longrightarrow> i = b" and "b < length rows"
  shows "forget_rows (insert k K) rows = forget_rows K (rows[b := forget_in_row k (rows ! b)])"
proof (rule nth_equalityI, goal_cases)
  case (2 i)
  then have i: "i < length rows" by simp
  show ?case
  proof (cases "i = b")
    case True
    then show ?thesis
      using assms(2)
      by (auto simp: forget_rows_def forget_in_row_def removeAll_filter_not_eq eq_commute [of k])
  next
    case False
    then have "k \<notin> set (row_deleted (rows ! i))" using assms(1) [OF i] by blast
    then show ?thesis using False i by (simp add: forget_rows_def filter_absent)
  qed
qed simp

lemma forget_rows_absent:
  assumes "\<And>i. i < length rows \<Longrightarrow> k \<notin> set (row_deleted (rows ! i))"
  shows "forget_rows (insert k K) rows = forget_rows K rows"
  using assms by (intro nth_equalityI) (auto simp: forget_rows_def filter_absent)

lemma forget_reinserted_ok:
  assumes "index_ok w"
  shows "forget_reinserted ks w =
    Some (w\<lparr>death_index := remove_all ks (death_index w), death_rows := forget_rows (set ks) (death_rows w)\<rparr>)"
  using assms
proof (induction ks arbitrary: w)
  case Nil
  then show ?case by (simp add: forget_rows_def)
next
  case (Cons k ks)
  show ?case
  proof (cases "death_index w k")
    case None
    then have "k \<notin> set (row_deleted (death_rows w ! i))" if "i < length (death_rows w)" for i
      using index_okD [OF Cons.prems that] by auto
    moreover have "(death_index w)(k := None) = death_index w"
      using None by auto
    ultimately show ?thesis
      using None Cons.IH [OF Cons.prems] by (simp add: forget_rows_absent remove_all_def)
  next
    case (Some b)
    let ?i = "b - pending_number w"
    let ?w = "w\<lparr>death_index := (death_index w)(k := None),
      death_rows := (death_rows w)[?i := forget_in_row k (death_rows w ! ?i)]\<rparr>"
    from Some Cons.prems have b: "pending_number w \<le> b" "?i < length (death_rows w)"
      "k \<in> set (row_deleted (death_rows w ! ?i))" by (auto simp: index_ok_def)
    have u: "i = ?i" if "i < length (death_rows w)" "k \<in> set (row_deleted (death_rows w ! i))" for i
      using index_ok_unique [OF Cons.prems that b(2,3)] .
    have "(k' \<in> set (row_deleted (death_rows ?w ! i))) = (death_index ?w k' = Some (pending_number w + i))"
      if i: "i < length (death_rows w)" for i k'
    proof -
      have *: "(k' \<in> set (row_deleted (death_rows w ! i))) = (death_index w k' = Some (pending_number w + i))"
        using Cons.prems i by (simp add: index_ok_alt)
      show ?thesis
        using * u [OF i] b(2) by (cases "i = ?i") (auto simp: forget_in_row_def)
    qed
    moreover have "pending_number w \<le> c \<and> c < pending_number w + length (death_rows w)"
      if "death_index ?w k' = Some c" for k' c
      using Cons.prems that by (auto simp: index_ok_alt split: if_splits)
    ultimately have "index_ok ?w" unfolding index_ok_alt by simp
    from Cons.IH [OF this] show ?thesis
      using Some b forget_rows_insert [OF u b(2), where K = "set ks"]
      by (simp add: remove_all_def del: fun_upd_apply)
  qed
qed

lemma index_deleted_apply: "index_deleted ks b m k = (if k \<in> set ks then Some b else m k)"
  by (induction ks arbitrary: m) (auto simp: index_deleted_def)

text \<open>
  What \<open>note_canonical\<close> does to a window with a consistent index: the keys the block inserts leave
  the rows, and the keys it deletes, which no row has yet, become its own row.
\<close>

definition noted :: "('h, 'k) codec \<Rightarrow> 'h \<Rightarrow> 'k list \<Rightarrow> 'k list \<Rightarrow> ('h, 'k) ref_window \<Rightarrow> ('h, 'k) ref_window" where
  "noted C hash ins del w =
     w\<lparr>death_rows := forget_rows (set ins) (death_rows w) @
         [\<lparr>row_hash = hash,
           row_journal_key = prune_journal_key C (pending_number w + length (death_rows w)),
           row_deleted = remdups del\<rparr>],
       death_index := index_deleted del (pending_number w + length (death_rows w)) (remove_all ins (death_index w)),
       rw_pending_canonicalizations := rw_pending_canonicalizations w + 1\<rparr>"

lemma note_canonical_eq:
  assumes "index_ok w" "count_insertions w"
  shows "note_canonical C hash commit w =
    Some (insert_meta (prune_journal_key C (pending_number w + length (death_rows w)))
           (encode_prune C \<lparr>pj_hash = hash, pj_inserted = map fst (inserted (commit_data commit)),
                            pj_deleted = deleted (commit_data commit)\<rparr>)
           (commit\<lparr>commit_data := (commit_data commit)\<lparr>deleted := []\<rparr>\<rparr>),
          noted C hash (map fst (inserted (commit_data commit))) (deleted (commit_data commit)) w)"
  using assms by (simp add: note_canonical_def rw_import_def forget_reinserted_ok noted_def Let_def)

lemma noted_index_ok:
  assumes "index_ok w" and "\<And>i. i < length (death_rows w) \<Longrightarrow> set (row_deleted (death_rows w ! i)) \<inter> set del = {}"
  shows "index_ok (noted C hash ins del w)"
proof -
  let ?n = "pending_number w" and ?r = "length (death_rows w)"
  have "death_index (noted C hash ins del w) k = Some b \<longleftrightarrow>
        ?n \<le> b \<and> b - ?n < Suc ?r \<and> k \<in> set (row_deleted (death_rows (noted C hash ins del w) ! (b - ?n)))" for k b
  proof (cases "b - ?n < ?r")
    case True
    then show ?thesis
      using assms(1) assms(2) [OF True]
      by (auto simp: index_ok_def noted_def index_deleted_apply remove_all_apply nth_append)
  next
    case False
    then show ?thesis
      using assms(1) assms(2)
      by (auto simp: index_ok_def noted_def index_deleted_apply remove_all_apply nth_append not_less less_Suc_eq)
  qed
  then show ?thesis
    unfolding index_ok_def by (simp add: noted_def)
qed

lemma noted_window_ok:
  assumes w: "window_ok C st w" and del: "set del \<subseteq> tip" and st: "st hash = (tip - set del) \<union> set ins"
    and last: "\<And>row. row \<in> set (death_rows w) \<Longrightarrow> set (row_deleted row) \<inter> tip = {}"
    and disj: "set ins \<inter> set del = {}"
  shows "window_ok C st (noted C hash ins del w)"
proof -
  have "index_ok (noted C hash ins del w)"
    using w del last by (intro noted_index_ok) (auto simp: window_ok_def dest!: nth_mem)
  moreover have "rows_ok st (death_rows (noted C hash ins del w))"
    unfolding rows_ok_def
  proof (intro allI impI)
    fix j i
    assume j: "j < length (death_rows (noted C hash ins del w))" and i: "i \<le> j"
    show "set (row_deleted (death_rows (noted C hash ins del w) ! i)) \<inter>
          st (row_hash (death_rows (noted C hash ins del w) ! j)) = {}"
    proof (cases "j < length (death_rows w)")
      case True
      then show ?thesis
        using w i by (auto simp: noted_def nth_append window_ok_def rows_ok_def)
    next
      case False
      then have "j = length (death_rows w)" using j by (simp add: noted_def)
      then show ?thesis
        using i last [OF nth_mem, of i] disj st by (auto simp: noted_def nth_append)
    qed
  qed
  moreover have "journal_keys_ok C (noted C hash ins del w)"
    using w by (auto simp: window_ok_def journal_keys_ok_def noted_def nth_append less_Suc_eq)
  ultimately show ?thesis
    using w by (simp add: window_ok_def noted_def)
qed

lemma rows_ok_drop: "rows_ok st rows \<Longrightarrow> rows_ok st (drop n rows)"
  by (auto simp: rows_ok_def)

lemma rows_ok_take: "rows_ok st rows \<Longrightarrow> rows_ok st (take n rows)"
  by (auto simp: rows_ok_def)

lemma pop_pruned_ok:
  assumes "index_ok w" "count_insertions w" "n \<le> length (death_rows w)"
  shows "\<exists>idx. pop_pruned n w = Some (w\<lparr>death_rows := drop n (death_rows w), death_index := idx,
             pending_number := pending_number w + n\<rparr>) \<and>
           index_ok (w\<lparr>death_rows := drop n (death_rows w), death_index := idx,
             pending_number := pending_number w + n\<rparr>)"
  using assms
proof (induction n arbitrary: w)
  case 0
  then have "w\<lparr>death_rows := drop 0 (death_rows w), death_index := death_index w,
             pending_number := pending_number w + 0\<rparr> = w" by simp
  then show ?case using 0 by (intro exI [of _ "death_index w"]) simp
next
  case (Suc n)
  then obtain row rows where r: "death_rows w = row # rows"
    by (cases "death_rows w") auto
  let ?w = "w\<lparr>death_rows := rows, death_index := remove_all (row_deleted row) (death_index w),
              pending_number := pending_number w + 1\<rparr>"
  have "k \<notin> set (row_deleted row)" if "i < length rows" "k \<in> set (row_deleted (rows ! i))" for i k
    using index_ok_unique [OF Suc.prems(1), of "Suc i" k 0] r that by auto
  then have "index_ok ?w"
    using Suc.prems(1) r unfolding index_ok_alt
    by (auto simp: remove_all_apply nth_Cons less_Suc_eq_0_disj all_conj_distrib le_less_Suc_eq
        split: if_splits) (metis Suc_leI le_neq_implies_less)
  from Suc.IH [OF this] Suc.prems show ?case by (simp add: r)
qed

lemma rw_apply_pending_ok:
  assumes "window_ok C st w"
  shows "\<exists>w'. rw_apply_pending w = Some w' \<and> window_ok C st w' \<and>
    death_rows w' = drop (pending_prunings w) (death_rows w) \<and>
    pending_number w' = pending_number w + pending_prunings w \<and>
    rw_pending_canonicalizations w' = 0 \<and> pending_prunings w' = 0"
proof -
  let ?w = "w\<lparr>rw_pending_canonicalizations := 0\<rparr>" and ?n = "pending_prunings w"
  have "index_ok ?w" "count_insertions ?w" "?n \<le> length (death_rows ?w)"
    using assms by (auto simp: window_ok_def index_ok_def)
  from pop_pruned_ok [OF this] obtain idx where
    p: "pop_pruned ?n ?w = Some (?w\<lparr>death_rows := drop ?n (death_rows w), death_index := idx,
          pending_number := pending_number w + ?n\<rparr>)"
    and i: "index_ok (?w\<lparr>death_rows := drop ?n (death_rows w), death_index := idx,
          pending_number := pending_number w + ?n\<rparr>)" by auto
  from i have "index_ok (?w\<lparr>death_rows := drop ?n (death_rows w), death_index := idx,
          pending_number := pending_number w + ?n, pending_prunings := 0\<rparr>)"
    by (simp add: index_ok_def)
  then show ?thesis
    using assms p rows_ok_drop [of st "death_rows w" ?n]
    by (auto simp: rw_apply_pending_def window_ok_def journal_keys_ok_def add.assoc)
qed

lemma retain_below_Some: "retain_below n m k = Some b \<longleftrightarrow> m k = Some b \<and> b < n"
  by (auto simp: retain_below_def split: option.splits)

lemma rw_revert_pending_ok:
  assumes "window_ok C st w"
  shows "window_ok C st (rw_revert_pending w)"
proof -
  let ?n = "length (death_rows w) - rw_pending_canonicalizations w"
  have "index_ok (rw_revert_pending w)"
    using assms by (auto simp: index_ok_alt window_ok_def rw_revert_pending_def Let_def retain_below_Some)
  then show ?thesis
    using assms rows_ok_take [of st "death_rows w" ?n]
    by (auto simp: window_ok_def journal_keys_ok_def rw_revert_pending_def Let_def)
qed

end
