(* ===== verification/Noncanonical.thy ===== *)
theory Noncanonical
  imports State_Db_Types "HOL-Library.AList"
begin

text \<open>
  The overlay of the blocks that are not canonical yet (\<open>src/client/state-db/src/noncanonical.rs\<close>):
  levels of block overlays by height, the parent of every block, the values the blocks inserted with
  reference counts, and the blocks that were discarded while pinned.  The double-ended queue of the
  levels is a list; the hash map of the parents is an association list, since the code also searches
  its values.  \<open>None\<close> is a panic of the code.  The debug assertions, which the release profile
  leaves out, are not part of the model.
\<close>

unbundle bit_operations_syntax

record ('h, 'k) block_overlay =
  bo_hash :: 'h
  journal_index :: nat
  bo_journal_key :: bytes
  bo_inserted :: "'k list"
  bo_deleted :: "'k list"

record ('h, 'k) overlay_level =
  level_blocks :: "('h, 'k) block_overlay list"
  used_indicies :: u64

type_synonym 'k counted_values = "'k \<rightharpoonup> nat \<times> db_value"

record ('h, 'k) kept_blocks =
  node_values :: "'k counted_values"
  parents :: "('h \<times> 'h) list"
  pinned_insertions :: "'h \<rightharpoonup> 'k list \<times> nat"

record ('h, 'k) overlay = "('h, 'k) kept_blocks" +
  last_canonicalized :: "('h \<times> nat) option"
  overlay_levels :: "('h, 'k) overlay_level list"
  pending_canonicalizations :: "'h list"
  pending_insertions :: "'h list"
  overlay_pinned :: "'h \<rightharpoonup> nat"

definition MAX_BLOCKS_PER_LEVEL :: nat where
  "MAX_BLOCKS_PER_LEVEL = 32"

section \<open>Levels\<close>

definition level_new :: "('h, 'k) overlay_level" where
  "level_new = \<lparr>level_blocks = [], used_indicies = 0\<rparr>"

definition level_push :: "('h, 'k) block_overlay \<Rightarrow> ('h, 'k) overlay_level \<Rightarrow> ('h, 'k) overlay_level" where
  "level_push b l =
     l\<lparr>used_indicies := used_indicies l OR push_bit (journal_index b) 1, level_blocks := level_blocks l @ [b]\<rparr>"

definition trailing_ones :: "u64 \<Rightarrow> nat" where
  "trailing_ones w = length (takeWhile (\<lambda>n. bit w n) [0..<64])"

definition available_index :: "('h, 'k) overlay_level \<Rightarrow> nat" where
  "available_index l = trailing_ones (used_indicies l)"

definition level_remove ::
    "nat \<Rightarrow> ('h, 'k) overlay_level \<Rightarrow> (('h, 'k) block_overlay \<times> ('h, 'k) overlay_level) option" where
  "level_remove i l =
     (if i < length (level_blocks l) then
        Some (level_blocks l ! i,
              l\<lparr>used_indicies := used_indicies l AND NOT (push_bit (journal_index (level_blocks l ! i)) 1),
                level_blocks := vec_remove i (level_blocks l)\<rparr>)
      else None)"

fun position :: "('a \<Rightarrow> bool) \<Rightarrow> 'a list \<Rightarrow> nat option" where
  "position P [] = None"
| "position P (x # xs) = (if P x then Some 0 else map_option Suc (position P xs))"

section \<open>Counted values\<close>

fun insert_values :: "('k \<times> db_value) list \<Rightarrow> 'k counted_values \<Rightarrow> 'k counted_values" where
  "insert_values [] m = m"
| "insert_values ((k, v) # ins) m =
     (case m k of
        None \<Rightarrow> insert_values ins (m(k \<mapsto> (1, v)))
      | Some (counter, w) \<Rightarrow> insert_values ins (m(k \<mapsto> (counter + 1, w))))"

fun discard_values :: "'k list \<Rightarrow> 'k counted_values \<Rightarrow> 'k counted_values" where
  "discard_values [] m = m"
| "discard_values (k # ks) m =
     (case m k of
        None \<Rightarrow> discard_values ks m
      | Some (counter, v) \<Rightarrow>
          discard_values ks (if counter - 1 = 0 then m(k := None) else m(k \<mapsto> (counter - 1, v))))"

section \<open>Discarding subtrees\<close>

text \<open>
  A block that leaves the levels is either kept for the pins on it and on its descendants, or its
  parent entry and its values go at once.  Both \<open>discard_descendants\<close> and
  \<open>apply_canonicalizations\<close> end with this step.
\<close>

definition retire_block ::
    "nat \<Rightarrow> ('h, 'k) block_overlay \<Rightarrow> ('h, 'k, 'z) kept_blocks_scheme \<Rightarrow> ('h, 'k, 'z) kept_blocks_scheme" where
  "retire_block num_pinned b d =
     (if num_pinned \<noteq> 0 then
        d\<lparr>pinned_insertions := (pinned_insertions d)(bo_hash b \<mapsto> (bo_inserted b, num_pinned))\<rparr>
      else
        d\<lparr>parents := AList.delete (bo_hash b) (parents d),
          node_values := discard_values (bo_inserted b) (node_values d)\<rparr>)"

text \<open>
  The first child of a block in a level.  The code takes the parent of every block it passes with
  \<open>expect\<close>: a block without a parent entry is a panic.
\<close>

fun find_child :: "('h \<times> 'h) list \<Rightarrow> 'h \<Rightarrow> ('h, 'k) block_overlay list \<Rightarrow> nat option option" where
  "find_child ps hash [] = Some None"
| "find_child ps hash (b # bs) =
     (case map_of ps (bo_hash b) of
        None \<Rightarrow> None
      | Some p \<Rightarrow> if p = hash then Some (Some 0) else map_option (map_option Suc) (find_child ps hash bs))"

text \<open>
  The loop over the children of \<open>hash\<close> in the first level: \<open>below\<close> discards the descendants of a
  block in the levels underneath.
\<close>

function discard_children ::
    "('h \<Rightarrow> ('h, 'k) overlay_level list \<Rightarrow> ('h, 'k, 'z) kept_blocks_scheme
        \<Rightarrow> (nat \<times> ('h, 'k) overlay_level list \<times> ('h, 'k, 'z) kept_blocks_scheme) option)
      \<Rightarrow> ('h \<rightharpoonup> nat) \<Rightarrow> 'h \<Rightarrow> ('h, 'k) overlay_level \<Rightarrow> ('h, 'k) overlay_level list \<Rightarrow> ('h, 'k, 'z) kept_blocks_scheme
      \<Rightarrow> (nat \<times> ('h, 'k) overlay_level list \<times> ('h, 'k, 'z) kept_blocks_scheme) option" where
  "discard_children below pinned hash level rest d =
     (case find_child (parents d) hash (level_blocks level) of
        None \<Rightarrow> None
      | Some None \<Rightarrow> Some (0, level # rest, d)
      | Some (Some i) \<Rightarrow>
          (case level_remove i level of
             None \<Rightarrow> None
           | Some (b, level') \<Rightarrow>
               (case below (bo_hash b) rest d of
                  None \<Rightarrow> None
                | Some (n, rest', d') \<Rightarrow>
                    let num_pinned = (if pinned (bo_hash b) \<noteq> None then n + 1 else n)
                    in map_option (\<lambda>(m, r). (num_pinned + m, r))
                         (discard_children below pinned hash level' rest' (retire_block num_pinned b d')))))"
  by pat_completeness auto
termination
  by (relation "measure (\<lambda>(below, pinned, hash, level, rest, d). length (level_blocks level))")
    (auto simp: level_remove_def vec_remove_def split: if_splits)

text \<open>The recursion goes down one level at a time; its depth is the number of levels.\<close>

primrec discard_to_depth ::
    "nat \<Rightarrow> ('h \<rightharpoonup> nat) \<Rightarrow> 'h \<Rightarrow> ('h, 'k) overlay_level list \<Rightarrow> ('h, 'k, 'z) kept_blocks_scheme
      \<Rightarrow> (nat \<times> ('h, 'k) overlay_level list \<times> ('h, 'k, 'z) kept_blocks_scheme) option" where
  "discard_to_depth 0 pinned hash ls d = Some (0, ls, d)"
| "discard_to_depth (Suc n) pinned hash ls d =
     (case ls of
        [] \<Rightarrow> Some (0, ls, d)
      | level # rest \<Rightarrow> discard_children (discard_to_depth n pinned) pinned hash level rest d)"

definition discard_descendants ::
    "('h \<rightharpoonup> nat) \<Rightarrow> 'h \<Rightarrow> ('h, 'k) overlay_level list \<Rightarrow> ('h, 'k, 'z) kept_blocks_scheme
      \<Rightarrow> (nat \<times> ('h, 'k) overlay_level list \<times> ('h, 'k, 'z) kept_blocks_scheme) option" where
  "discard_descendants pinned hash ls d = discard_to_depth (length ls) pinned hash ls d"

declare discard_children.simps [simp del]

section \<open>Opening the overlay\<close>

definition overlay_empty :: "('h \<times> nat) option \<Rightarrow> ('h, 'k) overlay" where
  "overlay_empty canonical =
     \<lparr>node_values = Map.empty, parents = [], pinned_insertions = Map.empty, last_canonicalized = canonical,
      overlay_levels = [], pending_canonicalizations = [], pending_insertions = [], overlay_pinned = Map.empty\<rparr>"

fun read_level ::
    "('h, 'k) codec \<Rightarrow> (bytes \<Rightarrow> 'e + db_value option) \<Rightarrow> nat \<Rightarrow> nat list \<Rightarrow> ('h, 'k) overlay_level \<Rightarrow> ('h, 'k) overlay
      \<Rightarrow> 'e state_db_error + ('h, 'k) overlay_level \<times> ('h, 'k) overlay" where
  "read_level C get_meta block [] level s = Inr (level, s)"
| "read_level C get_meta block (index # ixs) level s =
     (case get_meta (overlay_journal_key C block index) of
        Inl e \<Rightarrow> Inl (Db e)
      | Inr None \<Rightarrow> read_level C get_meta block ixs level s
      | Inr (Some record) \<Rightarrow>
          (case decode_overlay C record of
             None \<Rightarrow> Inl Decoding
           | Some r \<Rightarrow>
               let b = \<lparr>bo_hash = oj_hash r, journal_index = index,
                        bo_journal_key = overlay_journal_key C block index,
                        bo_inserted = map fst (oj_inserted r), bo_deleted = oj_deleted r\<rparr>
               in read_level C get_meta block ixs (level_push b level)
                    (s\<lparr>node_values := insert_values (oj_inserted r) (node_values s),
                       parents := AList.update (oj_hash r) (oj_parent_hash r) (parents s)\<rparr>)))"

partial_function (option) read_levels ::
    "('h, 'k) codec \<Rightarrow> (bytes \<Rightarrow> 'e + db_value option) \<Rightarrow> nat \<Rightarrow> ('h, 'k) overlay
      \<Rightarrow> ('e state_db_error + ('h, 'k) overlay) option" where
  "read_levels C get_meta block s =
     (case read_level C get_meta block [0..<MAX_BLOCKS_PER_LEVEL] level_new s of
        Inl e \<Rightarrow> Some (Inl e)
      | Inr (level, s') \<Rightarrow>
          (if level_blocks level = [] then Some (Inr s')
           else read_levels C get_meta (block + 1) (s'\<lparr>overlay_levels := overlay_levels s' @ [level]\<rparr>)))"

declare read_levels.simps [code]

definition overlay_new ::
    "('h, 'k) codec \<Rightarrow> (bytes \<Rightarrow> 'e + db_value option) \<Rightarrow> ('e state_db_error + ('h, 'k) overlay) option" where
  "overlay_new C get_meta =
     (case get_meta (last_canonical_key C) of
        Inl e \<Rightarrow> Some (Inl (Db e))
      | Inr None \<Rightarrow> Some (Inr (overlay_empty None))
      | Inr (Some buffer) \<Rightarrow>
          (case decode_block_id C buffer of
             None \<Rightarrow> Some (Inl Decoding)
           | Some (hash, block) \<Rightarrow> read_levels C get_meta (block + 1) (overlay_empty (Some (hash, block)))))"

section \<open>Inserting a block\<close>

definition front_block_number :: "('h, 'k) overlay \<Rightarrow> nat" where
  "front_block_number s = (case last_canonicalized s of Some (_, n) \<Rightarrow> n + 1 | None \<Rightarrow> 0)"

definition insert_check :: "nat \<Rightarrow> 'h \<Rightarrow> ('h, 'k) overlay \<Rightarrow> 'e state_db_error + unit" where
  "insert_check number parent_hash s =
     (let front = front_block_number s
      in if number < front \<or> number \<ge> front + length (overlay_levels s) + 1 then Inl InvalidBlockNumber
         else if number = front then
           (if last_canonicalized s = Some (parent_hash, number - 1) then Inr () else Inl InvalidParent)
         else if map_of (parents s) parent_hash = None then Inl InvalidParent
         else Inr ())"

definition insert_at_level ::
    "('h, 'k) codec \<Rightarrow> 'h \<Rightarrow> nat \<Rightarrow> 'h \<Rightarrow> 'k change_set \<Rightarrow> nat \<Rightarrow> 'k commit_set \<Rightarrow> ('h, 'k) overlay
      \<Rightarrow> ('e state_db_error + 'k commit_set) \<times> ('h, 'k) overlay" where
  "insert_at_level C hash number parent_hash changeset l commit s =
     (let level = overlay_levels s ! l
      in if length (level_blocks level) \<ge> MAX_BLOCKS_PER_LEVEL then (Inl TooManySiblingBlocks, s)
         else
           let index = available_index level;
               jkey = overlay_journal_key C number index;
               b = \<lparr>bo_hash = hash, journal_index = index, bo_journal_key = jkey,
                    bo_inserted = map fst (inserted changeset), bo_deleted = deleted changeset\<rparr>;
               journal_record = \<lparr>oj_hash = hash, oj_parent_hash = parent_hash,
                    oj_inserted = inserted changeset, oj_deleted = deleted changeset\<rparr>
           in (Inr (insert_meta jkey (encode_overlay C journal_record) commit),
               s\<lparr>overlay_levels := (overlay_levels s)[l := level_push b level],
                 parents := AList.update hash parent_hash (parents s),
                 node_values := insert_values (inserted changeset) (node_values s),
                 pending_insertions := pending_insertions s @ [hash]\<rparr>))"

definition push_level :: "('h, 'k) overlay \<Rightarrow> ('h, 'k) overlay" where
  "push_level s = s\<lparr>overlay_levels := overlay_levels s @ [level_new]\<rparr>"

text \<open>
  \<open>front\<close> is the front block number before the last canonicalized block is noted, as in the code.
\<close>

definition overlay_insert ::
    "('h, 'k) codec \<Rightarrow> 'h \<Rightarrow> nat \<Rightarrow> 'h \<Rightarrow> 'k change_set \<Rightarrow> ('h, 'k) overlay
      \<Rightarrow> (('e state_db_error + 'k commit_set) \<times> ('h, 'k) overlay) option" where
  "overlay_insert C hash number parent_hash changeset s =
     (let front = front_block_number s;
          first = (overlay_levels s = [] \<and> last_canonicalized s = None \<and> number > 0);
          canonical = (parent_hash, number - 1);
          commit = (if first then insert_meta (last_canonical_key C) (encode_block_id C canonical) empty_commit
                    else empty_commit);
          s1 = (if first then s\<lparr>last_canonicalized := Some canonical\<rparr> else s)
      in case (if \<not> first \<and> last_canonicalized s \<noteq> None then insert_check number parent_hash s else Inr ()) of
           Inl e \<Rightarrow> Some (Inl e, s)
         | Inr _ \<Rightarrow>
             (if overlay_levels s1 = [] \<or> number = front + length (overlay_levels s1) then
                Some (insert_at_level C hash number parent_hash changeset (length (overlay_levels s1)) commit (push_level s1))
              else if front \<le> number \<and> number - front < length (overlay_levels s1) then
                Some (insert_at_level C hash number parent_hash changeset (number - front) commit s1)
              else None))"

section \<open>Canonicalizing a block\<close>

fun collect :: "('a \<Rightarrow> 'b list option) \<Rightarrow> 'a list \<Rightarrow> 'b list option" where
  "collect f [] = Some []"
| "collect f (x # xs) = (case f x of None \<Rightarrow> None | Some r \<Rightarrow> map_option ((@) r) (collect f xs))"

lemma collect_cong [fundef_cong]:
  "xs = ys \<Longrightarrow> (\<And>x. x \<in> set ys \<Longrightarrow> f x = g x) \<Longrightarrow> collect f xs = collect g ys"
  by (induction xs arbitrary: ys) (auto split: option.splits)

fun discard_journals ::
    "('h \<times> 'h) list \<Rightarrow> 'h \<Rightarrow> ('h, 'k) overlay_level list \<Rightarrow> (bytes \<times> 'h) list option" where
  "discard_journals ps hash [] = Some []"
| "discard_journals ps hash (level # rest) =
     collect (\<lambda>b. case map_of ps (bo_hash b) of
                None \<Rightarrow> None
              | Some p \<Rightarrow>
                  if p = hash then map_option ((#) (bo_journal_key b, bo_hash b)) (discard_journals ps (bo_hash b) rest)
                  else Some [])
       (level_blocks level)"

definition last_canonicalized_block_number :: "('h, 'k) overlay \<Rightarrow> nat option" where
  "last_canonicalized_block_number s =
     (case last_canonicalized s of
        Some (_, n) \<Rightarrow> Some (n + length (pending_canonicalizations s))
      | None \<Rightarrow> if pending_canonicalizations s \<noteq> [] then Some (length (pending_canonicalizations s)) else None)"

definition last_canonicalized_hash :: "('h, 'k) overlay \<Rightarrow> 'h option" where
  "last_canonicalized_hash s = map_option fst (last_canonicalized s)"

definition top_level :: "('h, 'k) overlay \<Rightarrow> ('h \<times> nat) list" where
  "top_level s =
     (let start = unwrap_or_default 0 (last_canonicalized_block_number s);
          c = length (pending_canonicalizations s)
      in if c < length (overlay_levels s) then map (\<lambda>b. (bo_hash b, start)) (level_blocks (overlay_levels s ! c))
         else [])"

fun node_value_list :: "'k counted_values \<Rightarrow> 'k list \<Rightarrow> ('k \<times> db_value) list option" where
  "node_value_list m [] = Some []"
| "node_value_list m (k # ks) =
     (case m k of None \<Rightarrow> None | Some (_, v) \<Rightarrow> map_option ((#) (k, v)) (node_value_list m ks))"

definition overlay_canonicalize ::
    "('h, 'k) codec \<Rightarrow> 'h \<Rightarrow> 'k commit_set \<Rightarrow> ('h, 'k) overlay
      \<Rightarrow> (('e state_db_error + 'k commit_set) \<times> ('h, 'k) overlay) option" where
  "overlay_canonicalize C hash commit s =
     (let c = length (pending_canonicalizations s)
      in if c < length (overlay_levels s) then
           let blocks = level_blocks (overlay_levels s ! c)
           in case position (\<lambda>b. bo_hash b = hash) blocks of
                None \<Rightarrow> Some (Inl InvalidBlock, s)
              | Some index \<Rightarrow>
                  (case collect (\<lambda>(i, b). map_option (\<lambda>js. js @ [(bo_journal_key b, bo_hash b)])
                          (if i \<noteq> index then discard_journals (parents s) (bo_hash b) (drop (c + 1) (overlay_levels s))
                           else Some []))
                        (enumerate 0 blocks) of
                     None \<Rightarrow> None
                   | Some discarded \<Rightarrow>
                       map_option (\<lambda>ins.
                         (Inr (insert_meta (last_canonical_key C) (encode_block_id C (hash, front_block_number s + c))
                            (delete_meta (map fst discarded)
                              (extend_data ins (bo_deleted (blocks ! index)) commit))),
                          s\<lparr>pending_canonicalizations := pending_canonicalizations s @ [hash]\<rparr>))
                         (node_value_list (node_values s) (bo_inserted (blocks ! index))))
         else Some (Inl InvalidBlock, s))"

fun retire_level ::
    "nat \<Rightarrow> (nat \<times> ('h, 'k) block_overlay) list \<Rightarrow> ('h, 'k) overlay \<Rightarrow> ('h, 'k) overlay option" where
  "retire_level index [] s = Some s"
| "retire_level index ((i, b) # bs) s =
     (case (if i \<noteq> index then discard_descendants (overlay_pinned s) (bo_hash b) (overlay_levels s) s
            else Some (0, overlay_levels s, s)) of
        None \<Rightarrow> None
      | Some (n, ls, s') \<Rightarrow>
          let pinned_children = (if overlay_pinned s (bo_hash b) \<noteq> None then n + 1 else n)
          in retire_level index bs (retire_block pinned_children b (s'\<lparr>overlay_levels := ls\<rparr>)))"

fun post_canonicalize :: "'h list \<Rightarrow> ('h, 'k) overlay \<Rightarrow> ('h, 'k) overlay option" where
  "post_canonicalize [] s = Some s"
| "post_canonicalize (hash # hs) s =
     (case overlay_levels s of
        [] \<Rightarrow> None
      | level # rest \<Rightarrow>
          (case position (\<lambda>b. bo_hash b = hash) (level_blocks level) of
             None \<Rightarrow> None
           | Some index \<Rightarrow>
               (case retire_level index (enumerate 0 (level_blocks level)) (s\<lparr>overlay_levels := rest\<rparr>) of
                  None \<Rightarrow> None
                | Some s' \<Rightarrow> post_canonicalize hs s')))"

definition apply_canonicalizations :: "('h, 'k) overlay \<Rightarrow> ('h, 'k) overlay option" where
  "apply_canonicalizations s =
     (let pending = pending_canonicalizations s; count = length pending
      in map_option
           (\<lambda>s'. if pending = [] then s'
                 else s'\<lparr>last_canonicalized :=
                        Some (last pending, case last_canonicalized s' of Some (_, n) \<Rightarrow> n + count | None \<Rightarrow> count - 1)\<rparr>)
           (post_canonicalize pending (s\<lparr>pending_canonicalizations := []\<rparr>)))"

section \<open>Queries and the removal of blocks\<close>

definition noncanonical_get :: "'k \<Rightarrow> ('h, 'k) overlay \<Rightarrow> db_value option" where
  "noncanonical_get k s = map_option snd (node_values s k)"

definition overlay_have_block :: "'h \<Rightarrow> ('h, 'k) overlay \<Rightarrow> bool" where
  "overlay_have_block hash s \<longleftrightarrow>
     (map_of (parents s) hash \<noteq> None \<or> hash \<in> set (pending_insertions s)) \<and>
     hash \<notin> set (pending_canonicalizations s)"

definition drop_block :: "('h, 'k) block_overlay \<Rightarrow> ('h, 'k) overlay \<Rightarrow> ('h, 'k) overlay" where
  "drop_block b s =
     s\<lparr>parents := AList.delete (bo_hash b) (parents s),
       node_values := discard_values (bo_inserted b) (node_values s)\<rparr>"

definition overlay_revert_one :: "('h, 'k) overlay \<Rightarrow> 'k commit_set option \<times> ('h, 'k) overlay" where
  "overlay_revert_one s =
     (if overlay_levels s = [] then (None, s)
      else
        let level = last (overlay_levels s)
        in (Some (delete_meta (map bo_journal_key (level_blocks level)) empty_commit),
            fold drop_block (level_blocks level) (s\<lparr>overlay_levels := butlast (overlay_levels s)\<rparr>)))"

definition pop_empty_level :: "('h, 'k) overlay \<Rightarrow> ('h, 'k) overlay" where
  "pop_empty_level s =
     (if overlay_levels s \<noteq> [] \<and> level_blocks (last (overlay_levels s)) = [] then
        s\<lparr>overlay_levels := butlast (overlay_levels s)\<rparr>
      else s)"

fun find_from_back :: "'h \<Rightarrow> (nat \<times> ('h, 'k) overlay_level) list \<Rightarrow> (nat \<times> nat) option" where
  "find_from_back hash [] = None"
| "find_from_back hash ((l, level) # ls) =
     (case position (\<lambda>b. bo_hash b = hash) (level_blocks level) of
        None \<Rightarrow> find_from_back hash ls
      | Some i \<Rightarrow> Some (l, i))"

definition overlay_remove :: "'h \<Rightarrow> ('h, 'k) overlay \<Rightarrow> ('k commit_set option \<times> ('h, 'k) overlay) option" where
  "overlay_remove hash s =
     (case find_from_back hash (rev (enumerate 0 (overlay_levels s))) of
        None \<Rightarrow> Some (None, pop_empty_level s)
      | Some (l, i) \<Rightarrow>
          (if l \<noteq> length (overlay_levels s) - 1 \<and> hash \<in> snd ` set (parents s) then Some (None, s)
           else
             (case level_remove i (overlay_levels s ! l) of
                None \<Rightarrow> None
              | Some (b, level) \<Rightarrow>
                  Some (Some (delete_meta [bo_journal_key b] empty_commit),
                        pop_empty_level (drop_block b (s\<lparr>overlay_levels := (overlay_levels s)[l := level]\<rparr>))))))"

section \<open>Applying and reverting\<close>

fun find_last :: "'h \<Rightarrow> ('h, 'k) overlay_level list \<Rightarrow> nat option" where
  "find_last hash [] = None"
| "find_last hash (l # ls) =
     (if level_blocks l = [] then None
      else if bo_hash (last (level_blocks l)) = hash then Some 0
      else map_option Suc (find_last hash ls))"

definition revert_insertion :: "'h \<Rightarrow> ('h, 'k) overlay \<Rightarrow> ('h, 'k) overlay option" where
  "revert_insertion hash s =
     (case find_last hash (overlay_levels s) of
        None \<Rightarrow> None
      | Some l \<Rightarrow>
          (case level_remove (length (level_blocks (overlay_levels s ! l)) - 1) (overlay_levels s ! l) of
             None \<Rightarrow> None
           | Some (b, level) \<Rightarrow>
               let s' = s\<lparr>parents := AList.delete hash (parents s),
                          overlay_levels := (overlay_levels s)[l := level],
                          node_values := discard_values (bo_inserted b) (node_values s)\<rparr>
               in Some (if level_blocks level = [] then s'\<lparr>overlay_levels := butlast (overlay_levels s')\<rparr> else s')))"

fun revert_insertions :: "'h list \<Rightarrow> ('h, 'k) overlay \<Rightarrow> ('h, 'k) overlay option" where
  "revert_insertions [] s = Some s"
| "revert_insertions (h # hs) s =
     (case revert_insertion h s of None \<Rightarrow> None | Some s' \<Rightarrow> revert_insertions hs s')"

definition overlay_apply_pending :: "('h, 'k) overlay \<Rightarrow> ('h, 'k) overlay option" where
  "overlay_apply_pending s = map_option (\<lambda>s'. s'\<lparr>pending_insertions := []\<rparr>) (apply_canonicalizations s)"

definition overlay_revert_pending :: "('h, 'k) overlay \<Rightarrow> ('h, 'k) overlay option" where
  "overlay_revert_pending s =
     revert_insertions (rev (pending_insertions s))
       (s\<lparr>pending_canonicalizations := [], pending_insertions := []\<rparr>)"

section \<open>Pinning\<close>

definition overlay_pin :: "'h \<Rightarrow> ('h, 'k) overlay \<Rightarrow> ('h, 'k) overlay" where
  "overlay_pin hash s =
     (if hash \<in> set (pending_insertions s) then s
      else s\<lparr>overlay_pinned := (overlay_pinned s)(hash \<mapsto> unwrap_or_default 0 (overlay_pinned s hash) + 1)\<rparr>)"

partial_function (option) unpin_ancestors :: "'h \<Rightarrow> ('h, 'k) overlay \<Rightarrow> ('h, 'k) overlay option" where
  "unpin_ancestors hash s =
     (let parent = map_of (parents s) hash
      in case pinned_insertions s hash of
           None \<Rightarrow> Some s
         | Some (ins, refs) \<Rightarrow>
             let s' = (if refs - 1 = 0 then
                         s\<lparr>pinned_insertions := (pinned_insertions s)(hash := None),
                           node_values := discard_values ins (node_values s),
                           parents := AList.delete hash (parents s)\<rparr>
                       else s\<lparr>pinned_insertions := (pinned_insertions s)(hash \<mapsto> (ins, refs - 1))\<rparr>)
             in case parent of
                  None \<Rightarrow> Some s'
                | Some p \<Rightarrow> unpin_ancestors p s')"

declare unpin_ancestors.simps [code]

definition overlay_unpin :: "'h \<Rightarrow> ('h, 'k) overlay \<Rightarrow> ('h, 'k) overlay option" where
  "overlay_unpin hash s =
     (case overlay_pinned s hash of
        None \<Rightarrow> Some s
      | Some refs \<Rightarrow>
          (if refs - 1 = 0 then unpin_ancestors hash (s\<lparr>overlay_pinned := (overlay_pinned s)(hash := None)\<rparr>)
           else Some (s\<lparr>overlay_pinned := (overlay_pinned s)(hash \<mapsto> refs - 1)\<rparr>)))"

end
