(* ===== verification/State_Db.thy ===== *)
theory State_Db
  imports Pruning_Window Noncanonical
begin

text \<open>
  The state database (\<open>StateDbSync\<close> of \<open>src/client/state-db/src/lib.rs\<close>) on top of the overlay of
  non-canonical blocks and of the pruning window.  Every operation that writes returns the commit set
  the caller applies to the store.  \<open>None\<close> is a panic of the code.  The lock around it (\<open>StateDb\<close>)
  makes each operation one step.
\<close>

record ('h, 'k) state_db =
  mode :: pruning_mode
  non_canonical :: "('h, 'k) overlay"
  pruning :: "('h, 'k) ref_window option"
  db_pinned :: "'h \<rightharpoonup> nat"

section \<open>Opening\<close>

definition check_meta ::
    "('h, 'k) codec \<Rightarrow> pruning_mode \<Rightarrow> (bytes \<Rightarrow> 'e + db_value option) \<Rightarrow> 'e state_db_error + unit" where
  "check_meta C m get_meta =
     (case get_meta (pruning_mode_key C) of
        Inl e \<Rightarrow> Inl (Db e)
      | Inr None \<Rightarrow> Inr ()
      | Inr (Some v) \<Rightarrow> if v = mode_id m then Inr () else Inl (InvalidPruningMode v))"

definition open_pruning ::
    "('h, 'k) codec \<Rightarrow> pruning_mode \<Rightarrow> bool \<Rightarrow> (bytes \<Rightarrow> 'e + db_value option)
      \<Rightarrow> ('e state_db_error + ('h, 'k) ref_window option) option" where
  "open_pruning C m ref_counting get_meta =
     (case m of
        Constrained c \<Rightarrow>
          (if max_mem c \<noteq> None then None
           else map_option (\<lambda>r. case r of Inl e \<Rightarrow> Inl e | Inr w \<Rightarrow> Inr (Some w)) (ref_window_new C get_meta ref_counting))
      | ArchiveAll \<Rightarrow> Some (Inr None)
      | ArchiveCanonical \<Rightarrow> Some (Inr None))"

definition state_db_new ::
    "('h, 'k) codec \<Rightarrow> pruning_mode \<Rightarrow> bool \<Rightarrow> (bytes \<Rightarrow> 'e + db_value option)
      \<Rightarrow> ('e state_db_error + ('h, 'k) state_db) option" where
  "state_db_new C m ref_counting get_meta =
     (case check_meta C m get_meta of
        Inl e \<Rightarrow> Some (Inl e)
      | Inr _ \<Rightarrow>
          (case overlay_new C get_meta of
             None \<Rightarrow> None
           | Some (Inl e) \<Rightarrow> Some (Inl e)
           | Some (Inr nc) \<Rightarrow>
               (case open_pruning C m ref_counting get_meta of
                  None \<Rightarrow> None
                | Some (Inl e) \<Rightarrow> Some (Inl e)
                | Some (Inr w) \<Rightarrow>
                    Some (Inr \<lparr>mode = m, non_canonical = nc, pruning = w, db_pinned = Map.empty\<rparr>))))"

section \<open>Operations\<close>

definition insert_block ::
    "('h, 'k) codec \<Rightarrow> 'h \<Rightarrow> nat \<Rightarrow> 'h \<Rightarrow> 'k change_set \<Rightarrow> ('h, 'k) state_db
      \<Rightarrow> (('e state_db_error + 'k commit_set) \<times> ('h, 'k) state_db) option" where
  "insert_block C hash number parent_hash changeset s =
     (let extra = (if number = 0 then [(pruning_mode_key C, mode_id (mode s))] else [])
      in case mode s of
           ArchiveAll \<Rightarrow>
             Some (Inr \<lparr>commit_data = changeset\<lparr>deleted := []\<rparr>, commit_meta = \<lparr>inserted = extra, deleted = []\<rparr>\<rparr>, s)
         | _ \<Rightarrow>
             map_option (\<lambda>(r, nc).
               (case r of Inl e \<Rightarrow> Inl e
                  | Inr c \<Rightarrow> Inr (c\<lparr>commit_meta := (commit_meta c)\<lparr>inserted := inserted (commit_meta c) @ extra\<rparr>\<rparr>),
                s\<lparr>non_canonical := nc\<rparr>))
               (overlay_insert C hash number parent_hash changeset (non_canonical s)))"

function prune_loop ::
    "('h, 'k) codec \<Rightarrow> constraints \<Rightarrow> ('h \<rightharpoonup> nat) \<Rightarrow> 'k commit_set \<Rightarrow> ('h, 'k) ref_window
      \<Rightarrow> 'k commit_set \<times> ('h, 'k) ref_window" where
  "prune_loop C cons pinned commit w =
     (if window_size w \<le> unwrap_or_default 0 (max_blocks cons) then (commit, w)
      else if (case max_mem cons of Some m \<Rightarrow> mem_used w > m | None \<Rightarrow> False) then (commit, w)
      else if (case next_hash w of Some h \<Rightarrow> pinned h \<noteq> None | None \<Rightarrow> False) then (commit, w)
      else prune_loop C cons pinned (fst (prune_one C commit w)) (snd (prune_one C commit w)))"
  by pat_completeness auto
termination
  by (relation "measure (\<lambda>(C, cons, pinned, commit, w). window_size w)")
    (auto simp: prune_one_def window_size_def Let_def)

declare prune_loop.simps [simp del]

definition prune_window :: "('h, 'k) codec \<Rightarrow> 'k commit_set \<Rightarrow> ('h, 'k) state_db \<Rightarrow> 'k commit_set \<times> ('h, 'k) state_db" where
  "prune_window C commit s =
     (case (pruning s, mode s) of
        (Some w, Constrained cons) \<Rightarrow>
          let (commit', w') = prune_loop C cons (db_pinned s) commit w
          in (commit', s\<lparr>pruning := Some w'\<rparr>)
      | _ \<Rightarrow> (commit, s))"

definition canonicalize_block ::
    "('h, 'k) codec \<Rightarrow> 'h \<Rightarrow> ('h, 'k) state_db
      \<Rightarrow> (('e state_db_error + 'k commit_set) \<times> ('h, 'k) state_db) option" where
  "canonicalize_block C hash s =
     (if mode s = ArchiveAll then Some (Inr empty_commit, s)
      else
        (case overlay_canonicalize C hash empty_commit (non_canonical s) of
           None \<Rightarrow> None
         | Some (Inl e, nc) \<Rightarrow> Some (Inl e, s\<lparr>non_canonical := nc\<rparr>)
         | Some (Inr commit, nc) \<Rightarrow>
             let commit1 = (if mode s = ArchiveCanonical
                            then commit\<lparr>commit_data := (commit_data commit)\<lparr>deleted := []\<rparr>\<rparr> else commit);
                 s1 = s\<lparr>non_canonical := nc\<rparr>
             in case (case pruning s of
                        None \<Rightarrow> Some (commit1, s1)
                      | Some w \<Rightarrow> map_option (\<lambda>(c, w'). (c, s1\<lparr>pruning := Some w'\<rparr>)) (note_canonical C hash commit1 w)) of
                  None \<Rightarrow> None
                | Some (commit2, s2) \<Rightarrow>
                    let (commit3, s3) = prune_window C commit2 s2 in Some (Inr commit3, s3)))"

definition best_canonical :: "('h, 'k) state_db \<Rightarrow> nat option" where
  "best_canonical s = last_canonicalized_block_number (non_canonical s)"

definition is_pruned :: "'h \<Rightarrow> nat \<Rightarrow> ('h, 'k) state_db \<Rightarrow> bool" where
  "is_pruned hash number s =
     (case mode s of
        ArchiveAll \<Rightarrow> False
      | _ \<Rightarrow>
          (if (case best_canonical s of Some c \<Rightarrow> number > c | None \<Rightarrow> True)
           then \<not> overlay_have_block hash (non_canonical s)
           else (case pruning s of None \<Rightarrow> False | Some w \<Rightarrow> number < rw_pending w \<or> \<not> rw_have_block hash w)))"

definition revert_one :: "('h, 'k) state_db \<Rightarrow> 'k commit_set option \<times> ('h, 'k) state_db" where
  "revert_one s =
     (case mode s of
        ArchiveAll \<Rightarrow> (Some empty_commit, s)
      | _ \<Rightarrow> let (c, nc) = overlay_revert_one (non_canonical s) in (c, s\<lparr>non_canonical := nc\<rparr>))"

definition remove_block :: "'h \<Rightarrow> ('h, 'k) state_db \<Rightarrow> ('k commit_set option \<times> ('h, 'k) state_db) option" where
  "remove_block hash s =
     (case mode s of
        ArchiveAll \<Rightarrow> Some (Some empty_commit, s)
      | _ \<Rightarrow> map_option (\<lambda>(c, nc). (c, s\<lparr>non_canonical := nc\<rparr>)) (overlay_remove hash (non_canonical s)))"

definition pin :: "'h \<Rightarrow> ('h, 'k) state_db \<Rightarrow> (pin_error + unit) \<times> ('h, 'k) state_db" where
  "pin hash s =
     (case mode s of
        ArchiveAll \<Rightarrow> (Inr (), s)
      | _ \<Rightarrow>
          (if overlay_have_block hash (non_canonical s) \<or>
              (case pruning s of None \<Rightarrow> False | Some w \<Rightarrow> rw_have_block hash w) then
             let refs = unwrap_or_default 0 (db_pinned s hash);
                 nc = (if refs = 0 then overlay_pin hash (non_canonical s) else non_canonical s)
             in (Inr (), s\<lparr>non_canonical := nc, db_pinned := (db_pinned s)(hash \<mapsto> refs + 1)\<rparr>)
           else (Inl PinInvalidBlock, s)))"

definition unpin :: "'h \<Rightarrow> ('h, 'k) state_db \<Rightarrow> ('h, 'k) state_db option" where
  "unpin hash s =
     (case db_pinned s hash of
        None \<Rightarrow> Some s
      | Some refs \<Rightarrow>
          (if refs - 1 = 0 then
             map_option (\<lambda>nc. s\<lparr>non_canonical := nc, db_pinned := (db_pinned s)(hash := None)\<rparr>)
               (overlay_unpin hash (non_canonical s))
           else Some (s\<lparr>db_pinned := (db_pinned s)(hash \<mapsto> refs - 1)\<rparr>)))"

definition state_get ::
    "'k \<Rightarrow> ('k \<Rightarrow> 'e + db_value option) \<Rightarrow> ('h, 'k) state_db \<Rightarrow> 'e state_db_error + db_value option" where
  "state_get key db_get s =
     (case noncanonical_get key (non_canonical s) of
        Some value \<Rightarrow> Inr (Some value)
      | None \<Rightarrow> map_err Db (db_get key))"

definition apply_pending :: "('h, 'k) state_db \<Rightarrow> ('h, 'k) state_db option" where
  "apply_pending s =
     (case overlay_apply_pending (non_canonical s) of
        None \<Rightarrow> None
      | Some nc \<Rightarrow>
          (case pruning s of
             None \<Rightarrow> Some (s\<lparr>non_canonical := nc\<rparr>)
           | Some w \<Rightarrow>
               map_option (\<lambda>w'. s\<lparr>non_canonical := nc, pruning := Some w'\<rparr>) (rw_apply_pending w)))"

definition revert_pending :: "('h, 'k) state_db \<Rightarrow> ('h, 'k) state_db option" where
  "revert_pending s =
     map_option (\<lambda>nc. s\<lparr>non_canonical := nc, pruning := map_option rw_revert_pending (pruning s)\<rparr>)
       (overlay_revert_pending (non_canonical s))"

end
