(* ===== verification/Noncanonical_Shape.thy ===== *)
theory Noncanonical_Shape
  imports State_Db "HOL-Library.Multiset"
begin

text \<open>
  The invariant of the overlay of non-canonical blocks.  The blocks, their numbers, their change
  sets and the states they lead to are those of a fixed tree of blocks, a \<open>world\<close>: the callers of the
  state database insert blocks of it.  The counters of the values are the numbers of uses by the blocks
  that are kept; every block has its parent in the level before; the bit mask of a level holds the
  journal indices of its blocks.
\<close>

record ('h, 'k) world =
  parent_of :: "'h \<Rightarrow> 'h"
  number_of :: "'h \<Rightarrow> nat"
  change_of :: "'h \<Rightarrow> 'k change_set"
  state_of :: "'h \<Rightarrow> 'k set"
  value_of :: "'k \<Rightarrow> db_value"

abbreviation inserted_keys :: "('h, 'k) world \<Rightarrow> 'h \<Rightarrow> 'k list" where
  "inserted_keys W h \<equiv> map fst (inserted (change_of W h))"

abbreviation deleted_keys :: "('h, 'k) world \<Rightarrow> 'h \<Rightarrow> 'k list" where
  "deleted_keys W h \<equiv> deleted (change_of W h)"

definition parent_state :: "('h, 'k) world \<Rightarrow> 'h \<Rightarrow> 'k set" where
  "parent_state W h = (if number_of W h = 0 then {} else state_of W (parent_of W h))"

definition world_ok :: "('h, 'k) world \<Rightarrow> bool" where
  "world_ok W \<longleftrightarrow>
     (\<forall>h. state_of W h = (parent_state W h - set (deleted_keys W h)) \<union> set (inserted_keys W h) \<and>
          set (deleted_keys W h) \<subseteq> parent_state W h \<and>
          set (inserted_keys W h) \<inter> set (deleted_keys W h) = {} \<and>
          (\<forall>(k, v) \<in> set (inserted (change_of W h)). v = value_of W k) \<and>
          (number_of W h \<noteq> 0 \<longrightarrow> number_of W h = Suc (number_of W (parent_of W h))))"

section \<open>Counted values\<close>

definition tally :: "('h, 'k) world \<Rightarrow> 'k \<Rightarrow> nat \<Rightarrow> (nat \<times> db_value) option" where
  "tally W k n = (if n = 0 then None else Some (n, value_of W k))"

lemma insert_values_tally:
  assumes "\<And>k. m k = tally W k (f k)" and "\<forall>(k, v) \<in> set ins. v = value_of W k"
  shows "insert_values ins m k = tally W k (f k + count_list (map fst ins) k)"
  using assms
proof (induction ins arbitrary: m f)
  case (Cons kv ins)
  obtain k' v where kv: "kv = (k', v)" by force
  let ?f = "f(k' := f k' + 1)"
  let ?m = "m(k' \<mapsto> (f k' + 1, value_of W k'))"
  have "insert_values (kv # ins) m = insert_values ins ?m"
    using Cons.prems kv by (auto simp: tally_def split: option.splits)
  moreover have "insert_values ins ?m k = tally W k (?f k + count_list (map fst ins) k)"
    using Cons.prems by (intro Cons.IH) (auto simp: tally_def)
  ultimately show ?case
    using kv by (simp del: insert_values.simps)
qed (simp)

lemma discard_values_tally:
  assumes "\<And>k. m k = tally W k (f k + count_list ks k)"
  shows "discard_values ks m k = tally W k (f k)"
  using assms
proof (induction ks arbitrary: m)
  case (Cons k' ks)
  let ?n = "f k' + count_list ks k'"
  let ?m = "if ?n = 0 then m(k' := None) else m(k' \<mapsto> (?n, value_of W k'))"
  have "discard_values (k' # ks) m = discard_values ks ?m"
    using Cons.prems [of k'] by (simp add: tally_def)
  moreover have "discard_values ks ?m k = tally W k (f k)"
    using Cons.prems by (intro Cons.IH) (auto simp: tally_def)
  ultimately show ?case by (simp del: discard_values.simps)
qed simp

definition occurrences :: "('h, 'k) block_overlay list \<Rightarrow> 'k \<Rightarrow> nat" where
  "occurrences bs k = (\<Sum>b\<leftarrow>bs. count_list (bo_inserted b) k)"

definition pinned_occurrences :: "('h \<rightharpoonup> 'k list \<times> nat) \<Rightarrow> 'k \<Rightarrow> nat" where
  "pinned_occurrences p k = (\<Sum>h\<in>dom p. count_list (fst (the (p h))) k)"

lemma pinned_occurrences_upd:
  assumes "finite (dom p)" "h \<notin> dom p"
  shows "pinned_occurrences (p(h \<mapsto> (ks, n))) k = pinned_occurrences p k + count_list ks k"
proof -
  have "(\<Sum>x\<in>dom p. count_list (fst (the ((p(h \<mapsto> (ks, n))) x))) k) = pinned_occurrences p k"
    unfolding pinned_occurrences_def using assms(2) by (intro sum.cong) auto
  then show ?thesis
    using assms by (simp add: pinned_occurrences_def)
qed

lemma pinned_occurrences_recount:
  assumes "p h = Some (ks, n)"
  shows "pinned_occurrences (p(h \<mapsto> (ks, n'))) k = pinned_occurrences p k"
proof -
  have "dom (p(h \<mapsto> (ks, n'))) = dom p" using assms by auto
  then show ?thesis
    unfolding pinned_occurrences_def using assms by (intro sum.cong) auto
qed

lemma pinned_occurrences_del:
  assumes "finite (dom p)" "p h = Some (ks, n)"
  shows "pinned_occurrences p k = pinned_occurrences (p(h := None)) k + count_list ks k"
proof -
  have "pinned_occurrences ((p(h := None))(h \<mapsto> (ks, n))) k = pinned_occurrences (p(h := None)) k + count_list ks k"
    using assms by (intro pinned_occurrences_upd) auto
  moreover have "(p(h := None))(h \<mapsto> (ks, n)) = p" using assms by auto
  ultimately show ?thesis by simp
qed

text \<open>The parts of the state that belong to the kept blocks: those in \<open>bs\<close> and the pinned ones.\<close>

definition kept_ok :: "('h, 'k) world \<Rightarrow> ('h, 'k) block_overlay list \<Rightarrow> ('h, 'k, 'z) kept_blocks_scheme \<Rightarrow> bool" where
  "kept_ok W bs d \<longleftrightarrow>
     finite (dom (pinned_insertions d)) \<and>
     (\<forall>k. node_values d k = tally W k (occurrences bs k + pinned_occurrences (pinned_insertions d) k)) \<and>
     distinct (map bo_hash bs) \<and> bo_hash ` set bs \<inter> dom (pinned_insertions d) = {} \<and>
     (\<forall>h. map_of (parents d) h =
        (if h \<in> bo_hash ` set bs \<union> dom (pinned_insertions d) then Some (parent_of W h) else None)) \<and>
     (\<forall>h ks n. pinned_insertions d h = Some (ks, n) \<longrightarrow> n > 0)"

lemma kept_ok_perm:
  assumes "mset bs = mset bs'"
  shows "kept_ok W bs d \<longleftrightarrow> kept_ok W bs' d"
proof -
  have "occurrences xs k = (\<Sum>b\<in>#mset xs. count_list (bo_inserted b) k)" for xs :: "('a, 'b) block_overlay list" and k
    by (simp add: occurrences_def flip: sum_mset_sum_list)
  then have "occurrences bs k = occurrences bs' k" for k
    using assms by simp
  moreover have "set bs = set bs'" using assms by (rule mset_eq_setD)
  moreover have "distinct (map bo_hash bs) \<longleftrightarrow> distinct (map bo_hash bs')"
    using assms by (metis mset_eq_imp_distinct_iff mset_map)
  ultimately show ?thesis unfolding kept_ok_def by simp
qed

lemma kept_ok_frame [simp]:
  "kept_ok W bs (s\<lparr>overlay_levels := ls\<rparr>) = kept_ok W bs s"
  "kept_ok W bs (s\<lparr>last_canonicalized := lc\<rparr>) = kept_ok W bs s"
  "kept_ok W bs (s\<lparr>pending_canonicalizations := pc\<rparr>) = kept_ok W bs s"
  "kept_ok W bs (s\<lparr>pending_insertions := pi\<rparr>) = kept_ok W bs s"
  "kept_ok W bs (s\<lparr>overlay_pinned := pn\<rparr>) = kept_ok W bs s"
  by (simp_all add: kept_ok_def)

lemma retire_block_ok:
  assumes "kept_ok W (b # bs) d"
  shows "kept_ok W bs (retire_block n b d)"
proof (cases "n = 0")
  case True
  have "discard_values (bo_inserted b) (node_values d) k =
      tally W k (occurrences bs k + pinned_occurrences (pinned_insertions d) k)" for k
    using assms by (intro discard_values_tally) (simp add: kept_ok_def occurrences_def ac_simps)
  moreover have "map_of (AList.delete (bo_hash b) (parents d)) h =
      (if h \<in> bo_hash ` set bs \<union> dom (pinned_insertions d) then Some (parent_of W h) else None)" for h
    using assms by (auto simp: kept_ok_def delete_conv')
  ultimately show ?thesis
    using assms True by (simp add: kept_ok_def retire_block_def)
next
  case False
  have "occurrences (b # bs) k + pinned_occurrences (pinned_insertions d) k =
      occurrences bs k + pinned_occurrences ((pinned_insertions d)(bo_hash b \<mapsto> (bo_inserted b, n))) k" for k
    using assms by (subst pinned_occurrences_upd) (auto simp: kept_ok_def occurrences_def)
  then have "node_values d k = tally W k (occurrences bs k +
      pinned_occurrences ((pinned_insertions d)(bo_hash b \<mapsto> (bo_inserted b, n))) k)" for k
    using assms by (simp add: kept_ok_def)
  moreover have "bo_hash b \<notin> bo_hash ` set bs"
    using assms by (simp add: kept_ok_def)
  ultimately show ?thesis
    using assms False unfolding kept_ok_def retire_block_def by simp
qed

lemma retire_block_frame:
  "\<exists>v p q. retire_block n b d = d\<lparr>node_values := v, parents := p, pinned_insertions := q\<rparr>"
proof (cases "n = 0")
  case True
  then show ?thesis
    by (intro exI [of _ "discard_values (bo_inserted b) (node_values d)"]
        exI [of _ "AList.delete (bo_hash b) (parents d)"] exI [of _ "pinned_insertions d"])
      (simp add: retire_block_def)
next
  case False
  then show ?thesis
    by (intro exI [of _ "node_values d"] exI [of _ "parents d"]
        exI [of _ "(pinned_insertions d)(bo_hash b \<mapsto> (bo_inserted b, n))"])
      (simp add: retire_block_def)
qed

section \<open>Journal indices\<close>

definition indices_ok :: "('h, 'k) overlay_level \<Rightarrow> bool" where
  "indices_ok l \<longleftrightarrow>
     (\<forall>n < 64. bit (used_indicies l) n \<longleftrightarrow> n \<in> journal_index ` set (level_blocks l)) \<and>
     distinct (map journal_index (level_blocks l)) \<and>
     (\<forall>b \<in> set (level_blocks l). journal_index b < MAX_BLOCKS_PER_LEVEL)"

lemma bit_single: "bit (push_bit i (1 :: u64)) n \<longleftrightarrow> n = i \<and> n < 64"
  by (auto simp: bit_exp_iff possible_bit_word)

lemma bit_single_exp: "bit ((2 :: u64) ^ i) n \<longleftrightarrow> n = i \<and> n < 64"
  by (auto simp: bit_exp_iff possible_bit_word)

lemma length_le_of_indices:
  assumes "indices_ok l"
  shows "length (level_blocks l) \<le> MAX_BLOCKS_PER_LEVEL"
proof -
  have "journal_index ` set (level_blocks l) \<subseteq> {0..<MAX_BLOCKS_PER_LEVEL}"
    using assms by (auto simp: indices_ok_def)
  then have "card (journal_index ` set (level_blocks l)) \<le> MAX_BLOCKS_PER_LEVEL"
    using card_mono [of "{0..<MAX_BLOCKS_PER_LEVEL}"] by fastforce
  moreover have "card (journal_index ` set (level_blocks l)) = length (level_blocks l)"
    using assms distinct_card [of "map journal_index (level_blocks l)"] by (simp add: indices_ok_def)
  ultimately show ?thesis by simp
qed

lemma takeWhile_upt_free:
  assumes "m < n" "\<not> P m"
  shows "length (takeWhile P [0..<n]) \<le> m" "\<not> P (length (takeWhile P [0..<n]))"
    "\<And>i. i < length (takeWhile P [0..<n]) \<Longrightarrow> P i"
proof -
  let ?t = "takeWhile P [0..<n]"
  have nth: "?t ! i = i" if "i < length ?t" for i
    using that length_takeWhile_le [of P "[0..<n]"] by (simp add: takeWhile_nth)
  then show *: "P i" if "i < length ?t" for i
    using that nth_mem [OF that] set_takeWhileD [of "?t ! i" P "[0..<n]"] by simp
  show le: "length ?t \<le> m" using * assms(2) by (meson not_le_imp_less)
  then have "length ?t < length [0..<n]" using assms(1) by simp
  from nth_length_takeWhile [OF this] show "\<not> P (length ?t)"
    using le assms(1) by simp
qed

text \<open>A level that is not full has a free index, and the index given out is free and below the limit.\<close>

lemma available_index_ok:
  assumes "indices_ok l" "length (level_blocks l) < MAX_BLOCKS_PER_LEVEL"
  shows "available_index l < MAX_BLOCKS_PER_LEVEL" "available_index l \<notin> journal_index ` set (level_blocks l)"
proof -
  let ?J = "journal_index ` set (level_blocks l)"
  have "card ?J < MAX_BLOCKS_PER_LEVEL"
    using assms(2) card_length [of "map journal_index (level_blocks l)"] by simp
  then obtain m where m: "m < MAX_BLOCKS_PER_LEVEL" "m \<notin> ?J"
    by (metis atLeastLessThan_iff card_atLeastLessThan card_mono diff_zero finite_imageI finite_set
        leD subsetI zero_le)
  have m64: "m < 64" "\<not> bit (used_indicies l) m"
    using m assms(1) by (auto simp: indices_ok_def MAX_BLOCKS_PER_LEVEL_def)
  note * = takeWhile_upt_free [where P = "\<lambda>n. bit (used_indicies l) n", OF m64]
  show "available_index l < MAX_BLOCKS_PER_LEVEL"
    using *(1) m(1) by (simp add: available_index_def trailing_ones_def)
  show "available_index l \<notin> ?J"
    using *(1,2) m64(1) assms(1) by (simp add: available_index_def trailing_ones_def indices_ok_def)
qed

lemma level_push_indices:
  assumes "indices_ok l" "journal_index b < MAX_BLOCKS_PER_LEVEL" "journal_index b \<notin> journal_index ` set (level_blocks l)"
  shows "indices_ok (level_push b l)"
  using assms by (auto simp: indices_ok_def level_push_def bit_or_iff bit_single bit_single_exp)

lemma level_new_indices [simp]: "indices_ok level_new"
  by (simp add: indices_ok_def level_new_def)

lemma set_vec_remove: "i < length xs \<Longrightarrow> mset xs = add_mset (xs ! i) (mset (vec_remove i xs))"
  by (simp add: vec_remove_def) (metis add_mset_add_single id_take_nth_drop mset.simps(2) mset_append union_mset_add_mset_right)

lemma level_remove_ok:
  assumes "i < length (level_blocks l)" "indices_ok l"
  obtains l' where "level_remove i l = Some (level_blocks l ! i, l')"
    "level_blocks l' = vec_remove i (level_blocks l)" "indices_ok l'"
proof -
  let ?b = "level_blocks l ! i"
  let ?l = "l\<lparr>used_indicies := used_indicies l AND NOT (push_bit (journal_index ?b) 1),
              level_blocks := vec_remove i (level_blocks l)\<rparr>"
  have m: "mset (level_blocks l) = add_mset ?b (mset (vec_remove i (level_blocks l)))"
    using assms(1) by (rule set_vec_remove)
  have "distinct (map journal_index (level_blocks l)) \<longleftrightarrow>
      distinct (map journal_index (?b # vec_remove i (level_blocks l)))"
    by (rule mset_eq_imp_distinct_iff) (simp add: m)
  then have d: "distinct (map journal_index (?b # vec_remove i (level_blocks l)))"
    using assms(2) by (simp add: indices_ok_def)
  have s: "set (level_blocks l) = insert ?b (set (vec_remove i (level_blocks l)))"
    using m by (metis list.simps(15) mset.simps(2) mset_eq_setD)
  have "indices_ok ?l"
    using assms(2) d unfolding indices_ok_def
    by (auto simp: s bit_and_iff bit_not_iff bit_single bit_single_exp) (metis imageI)
  then show ?thesis
    using that [of ?l] assms(1) by (simp add: level_remove_def)
qed

section \<open>Discarding subtrees\<close>

lemma position_Some:
  "position P xs = Some i \<Longrightarrow> i < length xs \<and> P (xs ! i)"
  by (induction xs arbitrary: i) (auto split: if_splits)

lemma position_None: "position P xs = None \<longleftrightarrow> (\<forall>x \<in> set xs. \<not> P x)"
  by (induction xs) auto

lemma find_child_position:
  assumes "\<And>b. b \<in> set bs \<Longrightarrow> map_of ps (bo_hash b) = Some (parent_of W (bo_hash b))"
  shows "find_child ps hash bs = Some (position (\<lambda>b. parent_of W (bo_hash b) = hash) bs)"
  using assms by (induction bs) auto

fun drop_tree :: "('h, 'k) world \<Rightarrow> 'h set \<Rightarrow> ('h, 'k) block_overlay list list \<Rightarrow> ('h, 'k) block_overlay list list" where
  "drop_tree W H [] = []"
| "drop_tree W H (bs # bss) =
     filter (\<lambda>b. parent_of W (bo_hash b) \<notin> H) bs #
     drop_tree W (bo_hash ` {b \<in> set bs. parent_of W (bo_hash b) \<in> H}) bss"

lemma drop_tree_Un: "drop_tree W H' (drop_tree W H bss) = drop_tree W (H \<union> H') bss"
proof (induction bss arbitrary: H H')
  case (Cons bs bss)
  have "bo_hash ` {b \<in> set bs. parent_of W (bo_hash b) \<in> H} \<union>
        bo_hash ` {b \<in> set (filter (\<lambda>b. parent_of W (bo_hash b) \<notin> H) bs). parent_of W (bo_hash b) \<in> H'} =
        bo_hash ` {b \<in> set bs. parent_of W (bo_hash b) \<in> H \<union> H'}"
    by auto
  then show ?case using Cons.IH by (auto intro!: filter_cong)
qed simp

lemma drop_tree_empty [simp]: "drop_tree W {} bss = bss"
  by (induction bss) auto

lemma drop_tree_none:
  assumes "\<forall>b \<in> set bs. parent_of W (bo_hash b) \<notin> H"
  shows "drop_tree W H (bs # bss) = bs # bss"
proof -
  have e: "{b \<in> set bs. parent_of W (bo_hash b) \<in> H} = {}" using assms by auto
  show ?thesis
    unfolding drop_tree.simps e using assms by (simp add: filter_id_conv)
qed

lemma length_drop_tree [simp]: "length (drop_tree W H bss) = length bss"
  by (induction bss arbitrary: H) auto

lemma drop_tree_child:
  assumes "i < length bs" "parent_of W (bo_hash (bs ! i)) = hash"
  shows "drop_tree W {hash} (vec_remove i bs # drop_tree W {bo_hash (bs ! i)} bss) = drop_tree W {hash} (bs # bss)"
proof -
  have "filter (\<lambda>b. parent_of W (bo_hash b) \<notin> {hash}) (vec_remove i bs) =
        filter (\<lambda>b. parent_of W (bo_hash b) \<notin> {hash}) bs"
    using assms by (subst (2) id_take_nth_drop [of i bs]) (auto simp: vec_remove_def)
  moreover have "set bs = insert (bs ! i) (set (vec_remove i bs))"
    using set_vec_remove [OF assms(1)] by (metis list.simps(15) mset.simps(2) mset_eq_setD)
  then have "{bo_hash (bs ! i)} \<union> bo_hash ` {b \<in> set (vec_remove i bs). parent_of W (bo_hash b) \<in> {hash}} =
        bo_hash ` {b \<in> set bs. parent_of W (bo_hash b) \<in> {hash}}"
    using assms(2) by auto
  ultimately show ?thesis by (simp add: drop_tree_Un)
qed

abbreviation blocks_in :: "('h, 'k) overlay_level list \<Rightarrow> ('h, 'k) block_overlay list" where
  "blocks_in ls \<equiv> concat (map level_blocks ls)"

definition discards ::
    "('h, 'k) world \<Rightarrow> ('h, 'k) block_overlay list \<Rightarrow> 'h \<Rightarrow> ('h, 'k) overlay_level list \<Rightarrow> ('h, 'k, 'z) kept_blocks_scheme
      \<Rightarrow> (nat \<times> ('h, 'k) overlay_level list \<times> ('h, 'k, 'z) kept_blocks_scheme) option \<Rightarrow> bool" where
  "discards W X hash ls d r \<longleftrightarrow>
     (\<exists>m ls' d' v p q. r = Some (m, ls', d') \<and> d' = d\<lparr>node_values := v, parents := p, pinned_insertions := q\<rparr> \<and>
        map level_blocks ls' = drop_tree W {hash} (map level_blocks ls) \<and>
        (\<forall>l \<in> set ls'. indices_ok l) \<and> kept_ok W (blocks_in ls' @ X) d')"

lemma discardsI:
  assumes "d' = d\<lparr>node_values := v, parents := p, pinned_insertions := q\<rparr>"
    "map level_blocks ls' = drop_tree W {hash} (map level_blocks ls)"
    "\<forall>l \<in> set ls'. indices_ok l" "kept_ok W (blocks_in ls' @ X) d'"
  shows "discards W X hash ls d (Some (m, ls', d'))"
  unfolding discards_def using assms by blast

lemma discardsE:
  assumes "discards W X hash ls d r"
  obtains m ls' d' v p q where "r = Some (m, ls', d')"
    "d' = d\<lparr>node_values := v, parents := p, pinned_insertions := q\<rparr>"
    "map level_blocks ls' = drop_tree W {hash} (map level_blocks ls)" "length ls' = length ls"
    "\<forall>l \<in> set ls'. indices_ok l" "kept_ok W (blocks_in ls' @ X) d'"
proof -
  obtain m ls' d' v p q where a: "r = Some (m, ls', d')"
    "d' = d\<lparr>node_values := v, parents := p, pinned_insertions := q\<rparr>"
    "map level_blocks ls' = drop_tree W {hash} (map level_blocks ls)"
    "\<forall>l \<in> set ls'. indices_ok l" "kept_ok W (blocks_in ls' @ X) d'"
    using assms unfolding discards_def by blast
  from a(3) have "length ls' = length ls" by (metis length_drop_tree length_map)
  with a that show ?thesis by blast
qed

lemma discards_none:
  assumes "kept_ok W (blocks_in (l # ls) @ X) d" "\<forall>l \<in> set (l # ls). indices_ok l"
    and "position (\<lambda>b. parent_of W (bo_hash b) = hash) (level_blocks l) = None"
  shows "discards W X hash (l # ls) d (Some (0, l # ls, d))"
proof -
  have "drop_tree W {hash} (map level_blocks (l # ls)) = map level_blocks (l # ls)"
    using assms(3) by (simp only: list.map, intro drop_tree_none) (auto simp: position_None)
  then show ?thesis
    using assms(1,2)
    by (intro discardsI [where v = "node_values d" and p = "parents d" and q = "pinned_insertions d"]) auto
qed

lemma kept_ok_parents:
  assumes "kept_ok W bs d" "b \<in> set bs"
  shows "map_of (parents d) (bo_hash b) = Some (parent_of W (bo_hash b))"
  using assms by (auto simp: kept_ok_def)

lemma discards_step:
  assumes r: "discards W X' (bo_hash (level_blocks l ! i)) rest d (Some (n, rest', d'))"
    and l: "level_blocks l' = vec_remove i (level_blocks l)" and i: "i < length (level_blocks l)"
    and b: "parent_of W (bo_hash (level_blocks l ! i)) = hash"
    and n: "discards W X hash (l' # rest') (retire_block m b d') (Some (m', ls, d''))"
  shows "discards W X hash (l # rest) d (Some (c, ls, d''))"
proof -
  obtain v p q where f: "d' = d\<lparr>node_values := v, parents := p, pinned_insertions := q\<rparr>"
    and r': "map level_blocks rest' = drop_tree W {bo_hash (level_blocks l ! i)} (map level_blocks rest)"
    using r by (auto elim!: discardsE)
  obtain v1 p1 q1 where f1: "retire_block m b d' = d'\<lparr>node_values := v1, parents := p1, pinned_insertions := q1\<rparr>"
    using retire_block_frame by blast
  obtain v' p' q' where f': "d'' = (retire_block m b d')\<lparr>node_values := v', parents := p', pinned_insertions := q'\<rparr>"
    and ls: "map level_blocks ls = drop_tree W {hash} (map level_blocks (l' # rest'))"
      "\<forall>l \<in> set ls. indices_ok l" "kept_ok W (blocks_in ls @ X) d''"
    using n by (auto elim!: discardsE)
  have "map level_blocks ls = drop_tree W {hash} (map level_blocks (l # rest))"
    using ls(1) r' l drop_tree_child [OF i b] by (simp del: drop_tree.simps)
  then show ?thesis
    using ls(2,3) f f1 f' by (intro discardsI [where v = v' and p = p' and q = q']) simp_all
qed

lemma discard_children_ok:
  assumes below: "\<And>h ls (d :: ('h, 'k, 'z) kept_blocks_scheme) X.
      length ls = n \<Longrightarrow> kept_ok W (blocks_in ls @ X) d \<Longrightarrow> \<forall>l \<in> set ls. indices_ok l \<Longrightarrow> discards W X h ls d (below h ls d)"
    and "length rest = n" "kept_ok W (blocks_in (level # rest) @ X) d" "\<forall>l \<in> set (level # rest). indices_ok l"
  shows "discards W X hash (level # rest) (d :: ('h, 'k, 'z) kept_blocks_scheme) (discard_children below pinned hash level rest d)"
  using assms(2-)
proof (induction "length (level_blocks level)" arbitrary: level rest d rule: less_induct)
  case less
  let ?pos = "position (\<lambda>b. parent_of W (bo_hash b) = hash) (level_blocks level)"
  have find: "find_child (parents d) hash (level_blocks level) = Some ?pos"
    using less.prems(2) by (intro find_child_position) (auto intro: kept_ok_parents)
  show ?case
  proof (cases ?pos)
    case None
    then show ?thesis
      using find discards_none [OF less.prems(2,3) None] by (subst discard_children.simps) simp
  next
    case (Some i)
    let ?b = "level_blocks level ! i"
    have i: "i < length (level_blocks level)" "parent_of W (bo_hash ?b) = hash"
      using position_Some [OF Some] by auto
    obtain level' where l': "level_remove i level = Some (?b, level')"
      "level_blocks level' = vec_remove i (level_blocks level)" "indices_ok level'"
      using level_remove_ok [OF i(1)] less.prems(3) by auto
    let ?X = "?b # level_blocks level' @ X"
    have "mset (blocks_in (level # rest) @ X) = mset (blocks_in rest @ ?X)"
      using set_vec_remove [OF i(1)] l'(2) by simp
    then have "kept_ok W (blocks_in rest @ ?X) d"
      using kept_ok_perm less.prems(2) by blast
    then have D: "discards W ?X (bo_hash ?b) rest d (below (bo_hash ?b) rest d)"
      using less.prems by (intro below) auto
    then obtain m rest' d' where r: "below (bo_hash ?b) rest d = Some (m, rest', d')"
      and len: "length rest' = length rest" and ix: "\<forall>l \<in> set rest'. indices_ok l"
      and k: "kept_ok W (blocks_in rest' @ ?X) d'"
      by (auto elim!: discardsE)
    let ?m = "if pinned (bo_hash ?b) \<noteq> None then m + 1 else m"
    have "mset (blocks_in rest' @ ?X) = mset (?b # blocks_in (level' # rest') @ X)" by simp
    then have "kept_ok W (?b # blocks_in (level' # rest') @ X) d'"
      using kept_ok_perm k by blast
    then have "kept_ok W (blocks_in (level' # rest') @ X) (retire_block ?m ?b d')"
      by (rule retire_block_ok)
    then have N: "discards W X hash (level' # rest') (retire_block ?m ?b d')
        (discard_children below pinned hash level' rest' (retire_block ?m ?b d'))"
      using l' i len ix less.prems by (intro less.hyps) (auto simp: vec_remove_def)
    then obtain m' ls d'' where n: "discard_children below pinned hash level' rest' (retire_block ?m ?b d') = Some (m', ls, d'')"
      by (rule discardsE)
    have "discards W X hash (level # rest) d (Some (?m + m', ls, d''))"
      by (rule discards_step [OF D [unfolded r] l'(2) i(1,2) N [unfolded n]])
    then show ?thesis
      using find Some l'(1) r n by (subst discard_children.simps) (simp add: Let_def)
  qed
qed

lemma discard_to_depth_ok:
  assumes "length ls = n" "kept_ok W (blocks_in ls @ X) d" "\<forall>l \<in> set ls. indices_ok l"
  shows "discards W X hash ls d (discard_to_depth n pinned hash ls d)"
  using assms
proof (induction n arbitrary: hash ls d X)
  case 0
  then show ?case
    by (auto intro!: discardsI [where v = "node_values d" and p = "parents d" and q = "pinned_insertions d"])
next
  case (Suc n)
  then obtain l rest where "ls = l # rest" "length rest = n" by (cases ls) auto
  then show ?case
    using Suc discard_children_ok [of n W "discard_to_depth n pinned" rest l X d] by simp
qed

lemma discard_descendants_ok:
  assumes "kept_ok W (blocks_in ls @ X) d" "\<forall>l \<in> set ls. indices_ok l"
  shows "discards W X hash ls d (discard_descendants pinned hash ls d)"
  unfolding discard_descendants_def using assms by (intro discard_to_depth_ok) auto

section \<open>The shape of the levels\<close>

definition level_at :: "('h, 'k) overlay_level list \<Rightarrow> nat \<Rightarrow> ('h, 'k) block_overlay list" where
  "level_at ls i = (if i < length ls then level_blocks (ls ! i) else [])"

definition block_ok :: "('h, 'k) codec \<Rightarrow> ('h, 'k) world \<Rightarrow> nat \<Rightarrow> ('h, 'k) block_overlay \<Rightarrow> bool" where
  "block_ok C W n b \<longleftrightarrow>
     number_of W (bo_hash b) = n \<and> bo_inserted b = inserted_keys W (bo_hash b) \<and>
     bo_deleted b = deleted_keys W (bo_hash b) \<and> bo_journal_key b = overlay_journal_key C n (journal_index b)"

definition shape_ok ::
    "('h, 'k) codec \<Rightarrow> ('h, 'k) world \<Rightarrow> 'h set \<Rightarrow> nat \<Rightarrow> (nat \<Rightarrow> ('h, 'k) block_overlay list) \<Rightarrow> bool" where
  "shape_ok C W P n f \<longleftrightarrow>
     (\<forall>i. \<forall>b \<in> set (f i). block_ok C W (n + i) b \<and>
        parent_of W (bo_hash b) \<in> (case i of 0 \<Rightarrow> P | Suc j \<Rightarrow> bo_hash ` set (f j)))"

lemma level_at_Cons [simp]:
  "level_at (l # ls) 0 = level_blocks l" "level_at (l # ls) (Suc i) = level_at ls i"
  by (simp_all add: level_at_def)

lemma level_at_Nil [simp]: "level_at [] i = []"
  by (simp add: level_at_def)

lemma shape_ok_Cons:
  "shape_ok C W P n (level_at (l # ls)) \<longleftrightarrow>
     (\<forall>b \<in> set (level_blocks l). block_ok C W n b \<and> parent_of W (bo_hash b) \<in> P) \<and>
     shape_ok C W (bo_hash ` set (level_blocks l)) (Suc n) (level_at ls)"
  (is "?L \<longleftrightarrow> ?A \<and> ?B")
proof -
  have "?L \<longleftrightarrow> (\<forall>i. case i of 0 \<Rightarrow> ?A | Suc i \<Rightarrow>
      (\<forall>b \<in> set (level_at ls i). block_ok C W (n + Suc i) b \<and>
        parent_of W (bo_hash b) \<in> bo_hash ` set (level_at (l # ls) i)))"
    unfolding shape_ok_def by (intro all_cong1) (simp split: nat.splits)
  also have "\<dots> \<longleftrightarrow> ?A \<and> (\<forall>i. \<forall>b \<in> set (level_at ls i). block_ok C W (n + Suc i) b \<and>
        parent_of W (bo_hash b) \<in> bo_hash ` set (level_at (l # ls) i))"
    by (auto split: nat.splits)
  also have "(\<forall>i. \<forall>b \<in> set (level_at ls i). block_ok C W (n + Suc i) b \<and>
        parent_of W (bo_hash b) \<in> bo_hash ` set (level_at (l # ls) i)) \<longleftrightarrow> ?B"
    unfolding shape_ok_def by (intro all_cong1) (simp split: nat.splits)
  finally show ?thesis .
qed

lemma shape_ok_Nil: "shape_ok C W P n (level_at [])"
  by (simp add: shape_ok_def)

lemma set_blocks_in: "set (blocks_in ls) = (\<Union>i. set (level_at ls i))"
proof (induction ls)
  case (Cons l ls)
  have "(\<Union>i. f i) = f 0 \<union> (\<Union>i. f (Suc i))" for f :: "nat \<Rightarrow> ('a, 'b) block_overlay set"
    by (rule set_eqI) (metis UN_iff Un_iff UNIV_I not0_implies_Suc)
  note this [of "\<lambda>i. set (level_at (l # ls) i)"]
  then show ?case using Cons.IH by simp
qed simp

lemma shape_ok_mono:
  assumes "shape_ok C W P n f" "P \<subseteq> P'"
  shows "shape_ok C W P' n f"
  unfolding shape_ok_def
proof (intro allI ballI)
  fix i b
  assume "b \<in> set (f i)"
  then show "block_ok C W (n + i) b \<and> parent_of W (bo_hash b) \<in> (case i of 0 \<Rightarrow> P' | Suc j \<Rightarrow> bo_hash ` set (f j))"
    using assms unfolding shape_ok_def by (cases i) fastforce+
qed

lemma drop_tree_shape:
  assumes "shape_ok C W P n (level_at ls)" "map level_blocks ls' = drop_tree W H (map level_blocks ls)"
  shows "shape_ok C W (P - H) n (level_at ls')"
  using assms
proof (induction ls arbitrary: ls' P H n)
  case Nil
  then show ?case by (simp add: shape_ok_def)
next
  case (Cons l ls)
  let ?H = "bo_hash ` {b \<in> set (level_blocks l). parent_of W (bo_hash b) \<in> H}"
  obtain l' ls1 where ls': "ls' = l' # ls1"
    and l': "level_blocks l' = filter (\<lambda>b. parent_of W (bo_hash b) \<notin> H) (level_blocks l)"
    and ls1: "map level_blocks ls1 = drop_tree W ?H (map level_blocks ls)"
    using Cons.prems(2) by (cases ls') auto
  have s: "(\<forall>b \<in> set (level_blocks l). block_ok C W n b \<and> parent_of W (bo_hash b) \<in> P)"
    "shape_ok C W (bo_hash ` set (level_blocks l)) (Suc n) (level_at ls)"
    using Cons.prems(1) by (simp_all add: shape_ok_Cons)
  have "shape_ok C W (bo_hash ` set (level_blocks l) - ?H) (Suc n) (level_at ls1)"
    by (rule Cons.IH [OF s(2) ls1])
  moreover have "bo_hash ` set (level_blocks l) - ?H \<subseteq> bo_hash ` set (level_blocks l')"
    by (auto simp: l')
  ultimately have "shape_ok C W (bo_hash ` set (level_blocks l')) (Suc n) (level_at ls1)"
    by (rule shape_ok_mono)
  then show ?case
    using s(1) by (auto simp: ls' shape_ok_Cons l')
qed

section \<open>Canonicalization\<close>

abbreviation static :: "('h, 'k) overlay \<Rightarrow> _" where
  "static s \<equiv> (last_canonicalized s, pending_canonicalizations s, pending_insertions s, overlay_pinned s)"

lemma retire_level_ok:
  assumes "kept_ok W (blocks_in (overlay_levels s) @ map snd ibs) s" "\<forall>l \<in> set (overlay_levels s). indices_ok l"
  shows "\<exists>s'. retire_level index ibs s = Some s' \<and> static s' = static s \<and>
    map level_blocks (overlay_levels s') =
      drop_tree W ({bo_hash b |i b. (i, b) \<in> set ibs \<and> i \<noteq> index}) (map level_blocks (overlay_levels s)) \<and>
    (\<forall>l \<in> set (overlay_levels s'). indices_ok l) \<and> kept_ok W (blocks_in (overlay_levels s')) s'"
  using assms
proof (induction ibs arbitrary: s)
  case Nil
  then show ?case by simp
next
  case (Cons ib ibs)
  obtain i b where ib: "ib = (i, b)" by force
  let ?X = "b # map snd ibs"
  let ?H = "if i \<noteq> index then {bo_hash b} else {}"
  have "\<exists>m ls d v p q. (if i \<noteq> index then discard_descendants (overlay_pinned s) (bo_hash b) (overlay_levels s) s
             else Some (0, overlay_levels s, s)) = Some (m, ls, d) \<and>
           d = s\<lparr>node_values := v, parents := p, pinned_insertions := q\<rparr> \<and>
           map level_blocks ls = drop_tree W ?H (map level_blocks (overlay_levels s)) \<and>
           (\<forall>l \<in> set ls. indices_ok l) \<and> kept_ok W (blocks_in ls @ ?X) d"
  proof (cases "i = index")
    case True
    have "s = s\<lparr>node_values := node_values s, parents := parents s, pinned_insertions := pinned_insertions s\<rparr>" by simp
    then show ?thesis using True Cons.prems ib by (simp, metis)
  next
    case False
    have "discards W ?X (bo_hash b) (overlay_levels s) s
        (discard_descendants (overlay_pinned s) (bo_hash b) (overlay_levels s) s)"
      using Cons.prems ib by (intro discard_descendants_ok) auto
    then show ?thesis using False by (simp add: discards_def)
  qed
  then obtain m ls d v p q where r:
    "(if i \<noteq> index then discard_descendants (overlay_pinned s) (bo_hash b) (overlay_levels s) s
             else Some (0, overlay_levels s, s)) = Some (m, ls, d)"
    "d = s\<lparr>node_values := v, parents := p, pinned_insertions := q\<rparr>"
    "map level_blocks ls = drop_tree W ?H (map level_blocks (overlay_levels s))"
    "\<forall>l \<in> set ls. indices_ok l" "kept_ok W (blocks_in ls @ ?X) d"
    by blast
  let ?m = "if overlay_pinned s (bo_hash b) \<noteq> None then m + 1 else m"
  let ?s = "retire_block ?m b (d\<lparr>overlay_levels := ls\<rparr>)"
  obtain v' p' q' where f: "?s = d\<lparr>overlay_levels := ls, node_values := v', parents := p', pinned_insertions := q'\<rparr>"
    using retire_block_frame [of ?m b "d\<lparr>overlay_levels := ls\<rparr>"] by auto
  have lv: "overlay_levels ?s = ls" "static ?s = static s"
    unfolding f using r(2) by simp_all
  have "mset (blocks_in ls @ ?X) = mset (b # blocks_in ls @ map snd ibs)" by simp
  then have "kept_ok W (b # blocks_in ls @ map snd ibs) d"
    using r(5) kept_ok_perm by blast
  then have "kept_ok W (b # blocks_in ls @ map snd ibs) (d\<lparr>overlay_levels := ls\<rparr>)" by simp
  then have "kept_ok W (blocks_in (overlay_levels ?s) @ map snd ibs) ?s"
    unfolding lv by (rule retire_block_ok)
  from Cons.IH [OF this] r(4) obtain s' where s': "retire_level index ibs ?s = Some s'" "static s' = static ?s"
    "map level_blocks (overlay_levels s') =
      drop_tree W ({bo_hash b |i b. (i, b) \<in> set ibs \<and> i \<noteq> index}) (map level_blocks ls)"
    "\<forall>l \<in> set (overlay_levels s'). indices_ok l" "kept_ok W (blocks_in (overlay_levels s')) s'"
    unfolding lv(1) by blast
  have "?H \<union> {bo_hash b |i b. (i, b) \<in> set ibs \<and> i \<noteq> index} = {bo_hash b |i b. (i, b) \<in> set (ib # ibs) \<and> i \<noteq> index}"
    by (auto simp: ib)
  with s' r show ?case
    unfolding lv(2) by (simp add: ib Let_def drop_tree_Un)
qed

end
