(* ===== verification/Noncanonical_Growth.thy ===== *)
theory Noncanonical_Growth
  imports Noncanonical_Shape
begin

text \<open>
  Every operation of the overlay of non-canonical blocks keeps its invariant and does not panic: a
  canonicalization leaves exactly the subtree of the canonicalized block, reverting takes the pending
  insertions out again, and unpinning ends.
\<close>

definition path_ok :: "('h, 'k) world \<Rightarrow> 'h list \<Rightarrow> (nat \<Rightarrow> ('h, 'k) block_overlay list) \<Rightarrow> bool" where
  "path_ok W hs f \<longleftrightarrow>
     (\<forall>i < length hs. hs ! i \<in> bo_hash ` set (f i)) \<and>
     (\<forall>i. Suc i < length hs \<longrightarrow> parent_of W (hs ! Suc i) = hs ! i)"

primrec undoable :: "('h, 'k) world \<Rightarrow> 'h list \<Rightarrow> (nat \<Rightarrow> ('h, 'k) block_overlay list) \<Rightarrow> bool" where
  "undoable W [] f = True"
| "undoable W (h # hs) f =
     (\<exists>l. f l \<noteq> [] \<and> bo_hash (last (f l)) = h \<and> (\<forall>b \<in> set (f (Suc l)). parent_of W (bo_hash b) \<noteq> h) \<and>
        undoable W hs (f(l := butlast (f l))))"

definition base :: "('h, 'k) overlay \<Rightarrow> 'h set" where
  "base s = (case last_canonicalized s of None \<Rightarrow> UNIV | Some (h, n) \<Rightarrow> {h})"

definition kept_levels_ok :: "('h, 'k) codec \<Rightarrow> ('h, 'k) world \<Rightarrow> 'h set \<Rightarrow> nat \<Rightarrow> ('h, 'k) overlay \<Rightarrow> bool" where
  "kept_levels_ok C W P n s \<longleftrightarrow>
     kept_ok W (blocks_in (overlay_levels s)) s \<and> (\<forall>l \<in> set (overlay_levels s). indices_ok l) \<and>
     shape_ok C W P n (level_at (overlay_levels s))"

definition noncanonical_ok :: "('h, 'k) codec \<Rightarrow> ('h, 'k) world \<Rightarrow> ('h, 'k) overlay \<Rightarrow> bool" where
  "noncanonical_ok C W s \<longleftrightarrow>
     kept_levels_ok C W (base s) (front_block_number s) s \<and>
     (\<forall>h n. last_canonicalized s = Some (h, n) \<longrightarrow> number_of W h = n) \<and>
     path_ok W (pending_canonicalizations s) (level_at (overlay_levels s)) \<and>
     undoable W (rev (pending_insertions s)) (level_at (overlay_levels s))"

section \<open>Applying canonicalizations\<close>

lemma drop_tree_path:
  assumes "path_ok W hs (level_at ls)" "hs \<noteq> [] \<Longrightarrow> parent_of W (hd hs) \<notin> H"
    and "map level_blocks ls' = drop_tree W H (map level_blocks ls)"
  shows "path_ok W hs (level_at ls')"
proof -
  have "hs ! i \<in> bo_hash ` set (level_at ls' i)" if "i < length hs" for i
    using assms that
  proof (induction i arbitrary: hs H ls ls')
    case 0
    then obtain l ls0 where ls: "ls = l # ls0" by (cases ls) (auto simp: path_ok_def)
    obtain b where b: "b \<in> set (level_blocks l)" "hs ! 0 = bo_hash b"
      using 0 ls by (auto simp: path_ok_def)
    have "parent_of W (bo_hash b) \<notin> H" using 0(2,4) b(2) by (simp add: hd_conv_nth)
    then show ?case using b 0(3) ls by (cases ls') auto
  next
    case (Suc i)
    then obtain l ls0 where ls: "ls = l # ls0"
      by (cases ls) (auto simp: path_ok_def)
    obtain h hs0 where hs: "hs = h # hs0" using Suc.prems(4) by (cases hs) auto
    then have ne: "hs0 \<noteq> []" using Suc.prems(4) by auto
    let ?H = "bo_hash ` {b \<in> set (level_blocks l). parent_of W (bo_hash b) \<in> H}"
    obtain l' ls1 where ls': "ls' = l' # ls1" "map level_blocks ls1 = drop_tree W ?H (map level_blocks ls0)"
      using Suc.prems(3) ls by (cases ls') auto
    have "parent_of W (hd hs0) = h"
      using Suc.prems(1) hs ne by (fastforce simp: path_ok_def hd_conv_nth)
    moreover have "h \<notin> ?H"
    proof
      assume "h \<in> ?H"
      then obtain b where b: "b \<in> set (level_blocks l)" "bo_hash b = h" "parent_of W (bo_hash b) \<in> H" by auto
      then show False using Suc.prems(2) hs by simp
    qed
    ultimately have p: "hs0 \<noteq> [] \<Longrightarrow> parent_of W (hd hs0) \<notin> ?H" by simp
    have q: "path_ok W hs0 (level_at ls0)"
      using Suc.prems(1) hs ls unfolding path_ok_def
      by (metis Suc_less_eq length_Cons level_at_Cons(2) nth_Cons_Suc)
    have "hs0 ! i \<in> bo_hash ` set (level_at ls1 i)"
      using Suc.prems(4) hs by (intro Suc.IH [OF q p ls'(2)]) auto
    then show ?case by (simp add: hs ls')
  qed
  then show ?thesis using assms(1) by (simp add: path_ok_def)
qed

lemma hashes_except_position:
  assumes "position (\<lambda>b. bo_hash b = h) bs = Some index" "distinct (map bo_hash bs)"
  shows "{bo_hash b |i b. (i, b) \<in> set (enumerate 0 bs) \<and> i \<noteq> index} = bo_hash ` set bs - {h}"
proof -
  have ix: "index < length bs" "bo_hash (bs ! index) = h" using position_Some [OF assms(1)] by auto
  have u: "bo_hash (bs ! i) = h \<longleftrightarrow> i = index" if "i < length bs" for i
    using ix that nth_eq_iff_index_eq [OF assms(2), of i index] by auto
  have "{bo_hash b |i b. (i, b) \<in> set (enumerate 0 bs) \<and> i \<noteq> index} = {bo_hash (bs ! i) |i. i < length bs \<and> i \<noteq> index}"
    by (auto simp: in_set_enumerate_eq)
  also have "\<dots> = {bo_hash (bs ! i) |i. i < length bs} - {h}" using u by blast
  also have "{bo_hash (bs ! i) |i. i < length bs} = bo_hash ` set bs" by (auto simp: set_conv_nth)
  finally show ?thesis .
qed

lemma post_canonicalize_ok:
  assumes "kept_levels_ok C W P n s" "path_ok W hs (level_at (overlay_levels s))"
  shows "\<exists>s'. post_canonicalize hs s = Some s' \<and> static s' = static s \<and>
    kept_levels_ok C W (if hs = [] then P else {last hs}) (n + length hs) s'"
  using assms
proof (induction hs arbitrary: s P n)
  case Nil
  then show ?case by simp
next
  case (Cons h hs)
  have "h \<in> bo_hash ` set (level_at (overlay_levels s) 0)"
    using Cons.prems(2) by (auto simp: path_ok_def)
  then obtain l rest where ls: "overlay_levels s = l # rest" and h: "h \<in> bo_hash ` set (level_blocks l)"
    by (cases "overlay_levels s") auto
  then obtain index where ix: "position (\<lambda>b. bo_hash b = h) (level_blocks l) = Some index"
    using position_None [of "\<lambda>b. bo_hash b = h" "level_blocks l"] by (cases "position (\<lambda>b. bo_hash b = h) (level_blocks l)") auto
  let ?ibs = "enumerate 0 (level_blocks l)"
  have k: "kept_ok W (blocks_in (l # rest)) s" and sh: "shape_ok C W P n (level_at (l # rest))"
    and ind: "\<forall>l \<in> set rest. indices_ok l"
    using Cons.prems(1) ls by (auto simp: kept_levels_ok_def)
  have "mset (blocks_in (l # rest)) = mset (blocks_in rest @ map snd ?ibs)" by simp
  then have "kept_ok W (blocks_in rest @ map snd ?ibs) s" using k kept_ok_perm by blast
  then obtain s1 where s1: "retire_level index ?ibs (s\<lparr>overlay_levels := rest\<rparr>) = Some s1"
    "static s1 = static (s\<lparr>overlay_levels := rest\<rparr>)"
    "map level_blocks (overlay_levels s1) =
      drop_tree W {bo_hash b |i b. (i, b) \<in> set ?ibs \<and> i \<noteq> index} (map level_blocks rest)"
    "\<forall>l \<in> set (overlay_levels s1). indices_ok l" "kept_ok W (blocks_in (overlay_levels s1)) s1"
    using retire_level_ok [of W "s\<lparr>overlay_levels := rest\<rparr>" ?ibs index] ind by auto
  have dist: "distinct (map bo_hash (level_blocks l @ blocks_in rest))" using k by (simp add: kept_ok_def)
  then have H: "{bo_hash b |i b. (i, b) \<in> set ?ibs \<and> i \<noteq> index} = bo_hash ` set (level_blocks l) - {h}"
    using hashes_except_position [OF ix] by simp
  have "shape_ok C W (bo_hash ` set (level_blocks l)) (Suc n) (level_at rest)"
    using sh by (simp add: shape_ok_Cons)
  then have "shape_ok C W (bo_hash ` set (level_blocks l) - (bo_hash ` set (level_blocks l) - {h})) (Suc n)
      (level_at (overlay_levels s1))"
    using s1(3) unfolding H by (rule drop_tree_shape)
  then have "shape_ok C W {h} (Suc n) (level_at (overlay_levels s1))"
    by (rule shape_ok_mono) auto
  then have inv: "kept_levels_ok C W {h} (Suc n) s1"
    using s1 by (simp add: kept_levels_ok_def)
  have pq: "path_ok W hs (level_at rest)"
    using Cons.prems(2) ls unfolding path_ok_def
    by (metis Suc_less_eq length_Cons level_at_Cons(2) nth_Cons_Suc)
  have nh: "parent_of W (hd hs) \<notin> bo_hash ` set (level_blocks l) - {h}" if "hs \<noteq> []"
  proof -
    have "parent_of W (hd hs) = h"
      using Cons.prems(2) that by (fastforce simp: path_ok_def hd_conv_nth)
    then show ?thesis by simp
  qed
  have "path_ok W hs (level_at (overlay_levels s1))"
    by (rule drop_tree_path [OF pq nh s1(3) [unfolded H]])
  from Cons.IH [OF inv this] obtain s' where s': "post_canonicalize hs s1 = Some s'" "static s' = static s1"
    "kept_levels_ok C W (if hs = [] then {h} else {last hs}) (Suc n + length hs) s'" by blast
  have "post_canonicalize (h # hs) s = Some s'" using ls ix s1(1) s'(1) by simp
  moreover have "static s' = static s" using s'(2) s1(2) by simp
  moreover have "kept_levels_ok C W {last (h # hs)} (n + length (h # hs)) s'"
    using s'(3) by (cases "hs = []") simp_all
  ultimately show ?case by (metis list.distinct(1))
qed

lemma overlay_apply_pending_ok:
  assumes "noncanonical_ok C W s"
  shows "\<exists>s'. overlay_apply_pending s = Some s' \<and> noncanonical_ok C W s' \<and>
    pending_canonicalizations s' = [] \<and> pending_insertions s' = [] \<and> overlay_pinned s' = overlay_pinned s \<and>
    last_canonicalized s' = (if pending_canonicalizations s = [] then last_canonicalized s
      else Some (last (pending_canonicalizations s), number_of W (last (pending_canonicalizations s)))) \<and>
    front_block_number s' = front_block_number s + length (pending_canonicalizations s)"
proof -
  let ?pc = "pending_canonicalizations s"
  let ?s = "s\<lparr>pending_canonicalizations := []\<rparr>"
  have "kept_levels_ok C W (base s) (front_block_number s) ?s" "path_ok W ?pc (level_at (overlay_levels ?s))"
    using assms by (simp_all add: noncanonical_ok_def kept_levels_ok_def)
  from post_canonicalize_ok [OF this] obtain s' where s': "post_canonicalize ?pc ?s = Some s'"
    "static s' = static ?s"
    "kept_levels_ok C W (if ?pc = [] then base s else {last ?pc}) (front_block_number s + length ?pc) s'"
    by blast
  show ?thesis
  proof (cases "?pc = []")
    case True
    then show ?thesis
      using assms s' by (auto simp: overlay_apply_pending_def apply_canonicalizations_def Let_def noncanonical_ok_def
          kept_levels_ok_def base_def front_block_number_def path_ok_def)
  next
    case False
    let ?h = "last ?pc" and ?c = "length ?pc"
    have "?h = ?pc ! (?c - 1)" "?c - 1 < ?c" using False by (simp_all add: last_conv_nth)
    then have "?h \<in> bo_hash ` set (level_at (overlay_levels s) (?c - 1))"
      using assms by (auto simp: noncanonical_ok_def path_ok_def)
    then have num: "number_of W ?h = front_block_number s + (?c - 1)"
      using assms by (auto simp: noncanonical_ok_def kept_levels_ok_def shape_ok_def block_ok_def)
    have lc: "last_canonicalized s' = last_canonicalized s" using s'(2) by simp
    let ?n = "case last_canonicalized s' of Some (_, n) \<Rightarrow> n + ?c | None \<Rightarrow> ?c - 1"
    have n: "?n = number_of W ?h"
      using num False unfolding lc by (cases ?pc) (auto simp: front_block_number_def split: option.splits)
    have f: "front_block_number s + ?c = Suc (number_of W ?h)"
      using num False by (cases ?pc) auto
    let ?t = "s'\<lparr>last_canonicalized := Some (?h, ?n), pending_insertions := []\<rparr>"
    have "overlay_apply_pending s = Some ?t"
      using s'(1) False by (simp add: overlay_apply_pending_def apply_canonicalizations_def Let_def)
    moreover have "noncanonical_ok C W ?t"
      using s'(2,3) False f n
      by (simp add: noncanonical_ok_def kept_levels_ok_def base_def front_block_number_def path_ok_def)
    moreover have "front_block_number ?t = front_block_number s + ?c"
      using f n by (simp add: front_block_number_def)
    ultimately show ?thesis using s'(2) False n by simp
  qed
qed

section \<open>Insertion\<close>

lemma mset_blocks_in_update:
  "l < length ls \<Longrightarrow>
     mset (blocks_in (ls[l := lv])) + mset (level_blocks (ls ! l)) = mset (blocks_in ls) + mset (level_blocks lv)"
  by (induction ls arbitrary: l) (auto split: nat.splits simp: nth_Cons' ac_simps)

lemma level_at_update: "l < length ls \<Longrightarrow> level_at (ls[l := lv]) = (level_at ls)(l := level_blocks lv)"
  by (auto simp: level_at_def fun_eq_iff)

lemma level_at_butlast:
  assumes "ls \<noteq> []" "level_blocks (last ls) = []"
  shows "level_at (butlast ls) = level_at ls"
proof
  fix i
  show "level_at (butlast ls) i = level_at ls i"
    using assms by (cases "i = length ls - 1") (auto simp: level_at_def nth_butlast last_conv_nth)
qed

lemma push_level_ok [simp]:
  "level_at (overlay_levels (push_level s)) = level_at (overlay_levels s)"
  "blocks_in (overlay_levels (push_level s)) = blocks_in (overlay_levels s)"
  "last_canonicalized (push_level s) = last_canonicalized s"
  "pending_canonicalizations (push_level s) = pending_canonicalizations s"
  "pending_insertions (push_level s) = pending_insertions s" "overlay_pinned (push_level s) = overlay_pinned s" "kept_ok W bs (push_level s) = kept_ok W bs s"
  by (auto simp: push_level_def level_at_def nth_append level_new_def fun_eq_iff less_Suc_eq)

lemma kept_levels_ok_push [simp]: "kept_levels_ok C W P n (push_level s) = kept_levels_ok C W P n s"
proof -
  have "(\<forall>l \<in> set (overlay_levels (push_level s)). indices_ok l) \<longleftrightarrow> (\<forall>l \<in> set (overlay_levels s). indices_ok l)"
    by (simp add: push_level_def)
  then show ?thesis unfolding kept_levels_ok_def by simp
qed

lemma kept_ok_insert:
  assumes "kept_ok W bs d" "map_of (parents d) (bo_hash b) = None"
    and "bo_inserted b = map fst ins" "\<forall>(k, v) \<in> set ins. v = value_of W k"
  shows "kept_ok W (b # bs) (d\<lparr>parents := AList.update (bo_hash b) (parent_of W (bo_hash b)) (parents d),
      node_values := insert_values ins (node_values d)\<rparr>)"
proof -
  have fresh: "bo_hash b \<notin> bo_hash ` set bs" "bo_hash b \<notin> dom (pinned_insertions d)"
    using assms(1,2) unfolding kept_ok_def by (metis UnI1 option.distinct(1), metis UnI2 option.distinct(1))
  have "insert_values ins (node_values d) k =
      tally W k (occurrences bs k + pinned_occurrences (pinned_insertions d) k + count_list (map fst ins) k)" for k
    using assms(1,4) by (intro insert_values_tally) (auto simp: kept_ok_def)
  then have "insert_values ins (node_values d) k =
      tally W k (occurrences (b # bs) k + pinned_occurrences (pinned_insertions d) k)" for k
    using assms(3) by (simp add: occurrences_def ac_simps)
  moreover have "map_of (AList.update (bo_hash b) (parent_of W (bo_hash b)) (parents d)) h =
      (if h \<in> bo_hash ` set (b # bs) \<union> dom (pinned_insertions d) then Some (parent_of W h) else None)" for h
    using assms(1) by (simp add: update_conv' kept_ok_def)
  ultimately show ?thesis
    using assms(1) fresh unfolding kept_ok_def by simp
qed

lemma shape_ok_add:
  assumes "shape_ok C W P n f" "block_ok C W (n + l) b"
    and "parent_of W (bo_hash b) \<in> (case l of 0 \<Rightarrow> P | Suc j \<Rightarrow> bo_hash ` set (f j))"
  shows "shape_ok C W P n (f(l := f l @ [b]))"
  unfolding shape_ok_def
proof (intro allI ballI)
  fix i x
  assume x: "x \<in> set ((f(l := f l @ [b])) i)"
  have sub: "bo_hash ` set (f j) \<subseteq> bo_hash ` set ((f(l := f l @ [b])) j)" for j by auto
  have "block_ok C W (n + i) x \<and> parent_of W (bo_hash x) \<in> (case i of 0 \<Rightarrow> P | Suc j \<Rightarrow> bo_hash ` set (f j))"
    using assms x by (auto simp: shape_ok_def split: if_splits)
  then show "block_ok C W (n + i) x \<and>
      parent_of W (bo_hash x) \<in> (case i of 0 \<Rightarrow> P | Suc j \<Rightarrow> bo_hash ` set ((f(l := f l @ [b])) j))"
    using sub by (auto split: nat.splits)
qed

lemma kept_hashes:
  assumes "kept_ok W bs d" "map_of (parents d) h = None"
  shows "h \<notin> bo_hash ` set bs"
  using assms unfolding kept_ok_def by (metis UnI1 option.distinct(1))

lemma insert_at_level_ok:
  assumes s: "kept_levels_ok C W P n s" "path_ok W pc (level_at (overlay_levels s))"
      "undoable W pi (level_at (overlay_levels s))"
    and W: "world_ok W" and l: "l < length (overlay_levels s)" and h: "map_of (parents s) h = None"
    and n: "number_of W h = n + l"
      "parent_of W h \<in> (case l of 0 \<Rightarrow> P | Suc j \<Rightarrow> bo_hash ` set (level_at (overlay_levels s) j))"
    and r: "insert_at_level C h (number_of W h) (parent_of W h) (change_of W h) l commit s = (Inr commit', s')"
  shows "kept_levels_ok C W P n s'" "path_ok W pc (level_at (overlay_levels s'))"
    "undoable W (h # pi) (level_at (overlay_levels s'))"
    "pending_insertions s' = pending_insertions s @ [h]" "last_canonicalized s' = last_canonicalized s"
    "pending_canonicalizations s' = pending_canonicalizations s" "overlay_pinned s' = overlay_pinned s"
    "pinned_insertions s' = pinned_insertions s" "commit_data commit' = commit_data commit"
proof -
  let ?ls = "overlay_levels s"
  let ?index = "available_index (?ls ! l)"
  let ?b = "\<lparr>bo_hash = h, journal_index = ?index, bo_journal_key = overlay_journal_key C (number_of W h) ?index,
             bo_inserted = inserted_keys W h, bo_deleted = deleted_keys W h\<rparr>"
  have len: "length (level_blocks (?ls ! l)) < MAX_BLOCKS_PER_LEVEL"
    using r by (auto simp: insert_at_level_def Let_def split: if_splits)
  define t where "t = s\<lparr>parents := AList.update h (parent_of W h) (parents s),
      node_values := insert_values (inserted (change_of W h)) (node_values s)\<rparr>"
  have s': "s' = t\<lparr>overlay_levels := ?ls[l := level_push ?b (?ls ! l)], pending_insertions := pending_insertions s @ [h]\<rparr>"
    and c: "commit_data commit' = commit_data commit"
    using r len by (auto simp: insert_at_level_def Let_def t_def insert_meta_def)
  have lv: "level_at (overlay_levels s') = (level_at ?ls)(l := level_at ?ls l @ [?b])"
    using l by (simp add: s' level_at_update level_push_def level_at_def [of _ l])
  have idx: "indices_ok (?ls ! l)" using s(1) l by (simp add: kept_levels_ok_def)
  have ind: "indices_ok (level_push ?b (?ls ! l))"
    using available_index_ok [OF idx len] by (intro level_push_indices [OF idx]) simp_all
  have "kept_ok W (?b # blocks_in ?ls) t"
    using s(1) W h kept_ok_insert [of W "blocks_in ?ls" s ?b "inserted (change_of W h)"]
    by (simp add: kept_levels_ok_def world_ok_def t_def)
  moreover have "mset (?b # blocks_in ?ls) = mset (blocks_in (overlay_levels s'))"
    using mset_blocks_in_update [OF l, of "level_push ?b (?ls ! l)"] by (simp add: s' level_push_def)
  ultimately have "kept_ok W (blocks_in (overlay_levels s')) s'"
    using kept_ok_perm by (fastforce simp: s')
  moreover have "shape_ok C W P n (level_at (overlay_levels s'))"
    unfolding lv using s(1) n by (intro shape_ok_add) (simp_all add: kept_levels_ok_def block_ok_def)
  moreover have "\<forall>l \<in> set (overlay_levels s'). indices_ok l"
    using s(1) ind set_update_subset_insert [of ?ls l] by (auto simp: s' kept_levels_ok_def)
  ultimately show "kept_levels_ok C W P n s'" by (simp add: kept_levels_ok_def)
  show "path_ok W pc (level_at (overlay_levels s'))"
    using s(2) unfolding lv by (auto simp: path_ok_def)
  have "h \<notin> bo_hash ` set (blocks_in ?ls)"
    using s(1) by (intro kept_hashes [OF _ h, of W]) (simp add: kept_levels_ok_def)
  then have "h \<notin> bo_hash ` set (level_at ?ls l)"
    unfolding set_blocks_in by blast
  then have "\<forall>b \<in> set (level_at ?ls (Suc l)). parent_of W (bo_hash b) \<noteq> h"
    using s(1) by (fastforce simp: kept_levels_ok_def shape_ok_def)
  then show "undoable W (h # pi) (level_at (overlay_levels s'))"
    unfolding lv using s(3) by (auto intro!: exI [of _ l])
  show "pending_insertions s' = pending_insertions s @ [h]" "last_canonicalized s' = last_canonicalized s"
    "pending_canonicalizations s' = pending_canonicalizations s" "overlay_pinned s' = overlay_pinned s"
    "pinned_insertions s' = pinned_insertions s" "commit_data commit' = commit_data commit"
    by (simp_all add: s' t_def c)
qed

text \<open>
  The proper use of \<open>insert\<close>: a new block whose parent is the last canonicalized block or a block
  of the levels.
\<close>

definition insertable :: "('h, 'k) world \<Rightarrow> 'h \<Rightarrow> ('h, 'k) overlay \<Rightarrow> bool" where
  "insertable W h s \<longleftrightarrow>
     map_of (parents s) h = None \<and>
     (number_of W h = 0 \<or> last_canonicalized s = Some (parent_of W h, number_of W h - 1) \<or>
      parent_of W h \<in> bo_hash ` set (blocks_in (overlay_levels s)))"

text \<open>The level where a block goes.\<close>

lemma insert_position:
  assumes s: "noncanonical_ok C W s" and W: "world_ok W" and h: "insertable W h s"
    and c: "last_canonicalized s \<noteq> None \<Longrightarrow> insert_check (number_of W h) (parent_of W h) s = (Inr () :: 'e state_db_error + unit)"
  shows "front_block_number s \<le> number_of W h"
    "number_of W h - front_block_number s \<le> length (overlay_levels s)"
    "parent_of W h \<in> (case number_of W h - front_block_number s of 0 \<Rightarrow> base s
       | Suc j \<Rightarrow> bo_hash ` set (level_at (overlay_levels s) j))"
    "number_of W h > 0 \<Longrightarrow> last_canonicalized s = None \<Longrightarrow> overlay_levels s \<noteq> []"
proof -
  let ?f = "front_block_number s" and ?n = "number_of W h" and ?p = "parent_of W h"
  have lvl: "\<exists>j. ?p \<in> bo_hash ` set (level_at (overlay_levels s) j) \<and> j < length (overlay_levels s) \<and> ?n = ?f + Suc j"
    if p: "?p \<in> bo_hash ` set (blocks_in (overlay_levels s))" and n: "?n \<noteq> 0"
  proof -
    obtain j b where j: "b \<in> set (level_at (overlay_levels s) j)" "?p = bo_hash b"
      using p unfolding set_blocks_in by blast
    then have "number_of W ?p = ?f + j"
      using s by (auto simp: noncanonical_ok_def kept_levels_ok_def shape_ok_def block_ok_def)
    moreover have "?n = Suc (number_of W ?p)" using W n by (simp add: world_ok_def)
    moreover have "j < length (overlay_levels s)" using j(1) by (simp add: level_at_def split: if_splits)
    ultimately show ?thesis using j by auto
  qed
  have "?f \<le> ?n \<and> ?n - ?f \<le> length (overlay_levels s) \<and>
      ?p \<in> (case ?n - ?f of 0 \<Rightarrow> base s | Suc j \<Rightarrow> bo_hash ` set (level_at (overlay_levels s) j)) \<and>
      (?n > 0 \<longrightarrow> last_canonicalized s = None \<longrightarrow> overlay_levels s \<noteq> [])"
  proof (cases "last_canonicalized s")
    case None
    then have f: "?f = 0" "base s = UNIV" by (simp_all add: front_block_number_def base_def)
    show ?thesis
    proof (cases "?n = 0")
      case False
      then have "?p \<in> bo_hash ` set (blocks_in (overlay_levels s))"
        using h None by (simp add: insertable_def)
      from lvl [OF this False] obtain j where "?p \<in> bo_hash ` set (level_at (overlay_levels s) j)"
        "j < length (overlay_levels s)" "?n = ?f + Suc j" by blast
      then show ?thesis using f by auto
    qed (simp add: f)
  next
    case (Some c)
    obtain hc nc where c: "last_canonicalized s = Some (hc, nc)" using Some by (cases c) auto
    then have f: "?f = Suc nc" "base s = {hc}" by (simp_all add: front_block_number_def base_def)
    have chk: "insert_check ?n ?p s = (Inr () :: 'e state_db_error + unit)" using assms(4) c by simp
    then have n: "?f \<le> ?n" "?n - ?f \<le> length (overlay_levels s)"
      by (auto simp: insert_check_def Let_def split: if_splits)
    show ?thesis
    proof (cases "?n = ?f")
      case True
      then show ?thesis using chk c n f by (auto simp: insert_check_def Let_def split: if_splits)
    next
      case False
      then have "?p \<in> bo_hash ` set (blocks_in (overlay_levels s))"
        using h c f n by (auto simp: insertable_def)
      moreover have "?n \<noteq> 0" using n f by simp
      ultimately obtain j where "?p \<in> bo_hash ` set (level_at (overlay_levels s) j)" "?n = ?f + Suc j"
        using lvl by blast
      then show ?thesis using n c by simp
    qed
  qed
  then show "?f \<le> ?n" "?n - ?f \<le> length (overlay_levels s)"
    "?p \<in> (case ?n - ?f of 0 \<Rightarrow> base s | Suc j \<Rightarrow> bo_hash ` set (level_at (overlay_levels s) j))"
    "?n > 0 \<Longrightarrow> last_canonicalized s = None \<Longrightarrow> overlay_levels s \<noteq> []"
    by blast+
qed

definition inserted_into :: "('h, 'k) codec \<Rightarrow> ('h, 'k) world \<Rightarrow> 'h \<Rightarrow> ('h, 'k) overlay \<Rightarrow> ('h, 'k) overlay \<Rightarrow> bool" where
  "inserted_into C W h s s' \<longleftrightarrow>
     noncanonical_ok C W s' \<and> pending_insertions s' = pending_insertions s @ [h] \<and>
     last_canonicalized s' = last_canonicalized s \<and>
     pending_canonicalizations s' = pending_canonicalizations s \<and> overlay_pinned s' = overlay_pinned s \<and>
     pinned_insertions s' = pinned_insertions s"

lemma insert_at_level_result:
  assumes s: "noncanonical_ok C W s" and t: "t = s \<or> t = push_level s"
    and W: "world_ok W" and h: "map_of (parents s) h = None"
    and l: "l < length (overlay_levels t)" "number_of W h = front_block_number s + l"
      "parent_of W h \<in> (case l of 0 \<Rightarrow> base s | Suc j \<Rightarrow> bo_hash ` set (level_at (overlay_levels s) j))"
    and r: "insert_at_level C h (number_of W h) (parent_of W h) (change_of W h) l commit t = (Inr commit', s')"
  shows "inserted_into C W h s s' \<and> commit_data commit' = commit_data commit"
proof -
  have st: "static t = static s" "level_at (overlay_levels t) = level_at (overlay_levels s)"
    "parents t = parents s" "pinned_insertions t = pinned_insertions s"
    using t push_level_ok(1) [of s] by (auto simp: push_level_def)
  have "kept_levels_ok C W (base s) (front_block_number s) t"
    using s t by (auto simp: noncanonical_ok_def)
  note * = insert_at_level_ok [OF this _ _ W l(1) _ l(2) _ r, unfolded st(2,3),
      of "pending_canonicalizations s" "rev (pending_insertions s)"]
  have pre: "path_ok W (pending_canonicalizations s) (level_at (overlay_levels s))"
    "undoable W (rev (pending_insertions s)) (level_at (overlay_levels s))"
    using s by (simp_all add: noncanonical_ok_def)
  note * = * [OF pre h l(3)]
  have "base s' = base s" "front_block_number s' = front_block_number s"
    using *(5) st(1) by (simp_all add: base_def front_block_number_def)
  then show ?thesis
    using * st s unfolding inserted_into_def noncanonical_ok_def by simp
qed

lemma overlay_insert_ok:
  assumes s: "noncanonical_ok C W s" and W: "world_ok W" and h: "insertable W h s"
  shows "\<exists>r s'. overlay_insert C h (number_of W h) (parent_of W h) (change_of W h) s = Some (r, s') \<and>
    (case r of Inl (e :: 'e state_db_error) \<Rightarrow> s' = s
     | Inr commit \<Rightarrow> inserted_into C W h s s' \<and> commit_data commit = empty_change)"
proof (cases "last_canonicalized s \<noteq> None \<and> insert_check (number_of W h) (parent_of W h) s \<noteq> (Inr () :: 'e state_db_error + unit)")
  case True
  then obtain e :: "'e state_db_error" where "insert_check (number_of W h) (parent_of W h) s = Inl e"
    by (cases "insert_check (number_of W h) (parent_of W h) s :: 'e state_db_error + unit") auto
  then show ?thesis using True by (auto simp: overlay_insert_def Let_def)
next
  case False
  let ?f = "front_block_number s" and ?n = "number_of W h" and ?ls = "overlay_levels s"
  have chk: "insert_check ?n (parent_of W h) s = (Inr () :: 'e state_db_error + unit)" if "last_canonicalized s \<noteq> None"
    using False that by blast
  note pos = insert_position [OF s W h chk]
  have first: "\<not> (?ls = [] \<and> last_canonicalized s = None \<and> ?n > 0)" using pos(4) by blast
  let ?l = "?n - ?f"
  let ?t = "if ?l = length ?ls then push_level s else s"
  let ?r = "insert_at_level C h ?n (parent_of W h) (change_of W h) ?l empty_commit ?t :: ('e state_db_error + 'b commit_set) \<times> _"
  have tl: "?l < length (overlay_levels ?t)" using pos(2) by (auto simp: push_level_def)
  have eq: "overlay_insert C h ?n (parent_of W h) (change_of W h) s = Some ?r"
  proof -
    have e: "(?ls = [] \<or> ?n = ?f + length ?ls) = (?l = length ?ls)" using pos(1,2) by auto
    have f: "(?ls = [] \<and> last_canonicalized s = None \<and> ?n > 0) = False" using first by simp
    have c: "(if \<not> False \<and> last_canonicalized s \<noteq> None then insert_check ?n (parent_of W h) s else Inr ()) =
        (Inr () :: 'e state_db_error + unit)" using chk by simp
    show ?thesis
      unfolding overlay_insert_def Let_def f c if_False e sum.case
      using pos(1,2) by (cases "?l = length ?ls") simp_all
  qed
  show ?thesis
  proof (cases ?r)
    case (Pair a s')
    show ?thesis
    proof (cases a)
      case (Inl e)
      have "?l \<noteq> length ?ls"
        using Pair Inl by (auto simp: insert_at_level_def Let_def push_level_def level_new_def MAX_BLOCKS_PER_LEVEL_def)
      then have "s' = s" using Pair Inl by (auto simp: insert_at_level_def Let_def split: if_splits)
      then show ?thesis using eq Pair Inl by simp
    next
      case (Inr commit)
      have "inserted_into C W h s s' \<and> commit_data commit = commit_data (empty_commit :: 'b commit_set)"
        using h pos(1,3) Pair Inr
        by (intro insert_at_level_result [OF s _ W _ tl, of h]) (auto simp: insertable_def)
      then show ?thesis using eq Pair Inr by (simp add: empty_commit_def)
    qed
  qed
qed

section \<open>Canonicalization\<close>

lemma collect_total: "(\<And>x. x \<in> set xs \<Longrightarrow> f x \<noteq> None) \<Longrightarrow> collect f xs \<noteq> None"
proof (induction xs)
  case (Cons x xs)
  have "f x \<noteq> None" using Cons.prems by simp
  moreover have "collect f xs \<noteq> None" using Cons by simp
  ultimately show ?case by auto
qed simp

lemma discard_journals_total:
  assumes "\<And>b. b \<in> set (blocks_in ls) \<Longrightarrow> map_of ps (bo_hash b) \<noteq> None"
  shows "discard_journals ps h ls \<noteq> None"
  using assms
proof (induction ls arbitrary: h)
  case (Cons l ls)
  have IH: "discard_journals ps h' ls \<noteq> None" for h'
    using Cons by simp
  show ?case
    unfolding discard_journals.simps
  proof (rule collect_total)
    fix b
    assume "b \<in> set (level_blocks l)"
    then obtain p where "map_of ps (bo_hash b) = Some p" using Cons.prems by fastforce
    then show "(case map_of ps (bo_hash b) of None \<Rightarrow> None
         | Some p \<Rightarrow> if p = h then map_option ((#) (bo_journal_key b, bo_hash b)) (discard_journals ps (bo_hash b) ls)
                     else Some []) \<noteq> None"
      using IH by auto
  qed
qed simp

lemma node_value_list_tally:
  assumes "\<And>k. k \<in> fst ` set kvs \<Longrightarrow> \<exists>c > 0. m k = tally W k c" and "\<forall>(k, v) \<in> set kvs. v = value_of W k"
  shows "node_value_list m (map fst kvs) = Some kvs"
  using assms
proof (induction kvs)
  case (Cons kv kvs)
  obtain k v where kv: "kv = (k, v)" by force
  obtain c where "c > 0" "m k = tally W k c" using Cons.prems(1) [of k] kv by auto
  then show ?case using Cons kv by (auto simp: tally_def)
qed simp

lemma occurrences_pos:
  assumes "b \<in> set bs" "k \<in> set (bo_inserted b)"
  shows "occurrences bs k > 0"
proof -
  have "count_list (bo_inserted b) k \<le> occurrences bs k"
    unfolding occurrences_def using assms(1) by (intro member_le_sum_list) auto
  moreover have "count_list (bo_inserted b) k > 0"
    using assms(2) by (simp add: count_list_0_iff flip: neq0_conv)
  ultimately show ?thesis by simp
qed

lemma kept_value:
  assumes "kept_ok W bs d" "b \<in> set bs" "k \<in> set (bo_inserted b)"
  shows "\<exists>c > 0. node_values d k = tally W k c"
  using assms occurrences_pos [OF assms(2,3)] unfolding kept_ok_def by (metis add_gr_0)

lemma level_at_in_blocks: "b \<in> set (level_at ls i) \<Longrightarrow> b \<in> set (blocks_in ls)"
  unfolding set_blocks_in by blast

lemma path_ok_snoc:
  assumes "path_ok W hs f" "h \<in> bo_hash ` set (f (length hs))" "hs \<noteq> [] \<Longrightarrow> parent_of W h = last hs"
  shows "path_ok W (hs @ [h]) f"
  unfolding path_ok_def
proof (intro conjI allI impI)
  fix i
  assume "i < length (hs @ [h])"
  then show "(hs @ [h]) ! i \<in> bo_hash ` set (f i)"
    using assms(1,2) by (cases "i = length hs") (auto simp: path_ok_def nth_append)
next
  fix i
  assume i: "Suc i < length (hs @ [h])"
  show "parent_of W ((hs @ [h]) ! Suc i) = (hs @ [h]) ! i"
  proof (cases "Suc i = length hs")
    case True
    then have ne: "hs \<noteq> []" and "length hs - 1 = i" by auto
    then have "last hs = hs ! i" by (simp add: last_conv_nth)
    then show ?thesis using True assms(3) ne by (simp add: nth_append)
  next
    case False
    then show ?thesis using i assms(1) by (simp add: path_ok_def nth_append)
  qed
qed

lemma overlay_canonicalize_ok:
  assumes s: "noncanonical_ok C W s" and W: "world_ok W"
    and h: "pending_canonicalizations s \<noteq> [] \<Longrightarrow> parent_of W h = last (pending_canonicalizations s)"
  shows "\<exists>r s'. overlay_canonicalize C h commit s = Some (r, s') \<and>
    (case r of Inl (e :: 'e state_db_error) \<Rightarrow> s' = s \<and> e = InvalidBlock
     | Inr c \<Rightarrow> s' = s\<lparr>pending_canonicalizations := pending_canonicalizations s @ [h]\<rparr> \<and> noncanonical_ok C W s' \<and>
         h \<in> bo_hash ` set (level_at (overlay_levels s) (length (pending_canonicalizations s))) \<and>
         commit_data c = \<lparr>inserted = inserted (commit_data commit) @ inserted (change_of W h),
                          deleted = deleted (commit_data commit) @ deleted_keys W h\<rparr>)"
proof -
  let ?pc = "pending_canonicalizations s" and ?ls = "overlay_levels s"
  let ?c = "length ?pc"
  let ?bs = "level_blocks (?ls ! ?c)"
  show ?thesis
  proof (cases "?c < length ?ls \<and> position (\<lambda>b. bo_hash b = h) ?bs \<noteq> None")
    case False
    then show ?thesis by (auto simp: overlay_canonicalize_def Let_def)
  next
    case True
    then obtain index where c: "?c < length ?ls" and ix: "position (\<lambda>b. bo_hash b = h) ?bs = Some index" by auto
    let ?b = "?bs ! index"
    have b: "index < length ?bs" "bo_hash ?b = h" using position_Some [OF ix] by auto
    have la: "level_at ?ls ?c = ?bs" using c by (simp add: level_at_def)
    have bin: "?b \<in> set (level_at ?ls ?c)" using b(1) la by simp
    have k: "kept_ok W (blocks_in ?ls) s" and sh: "shape_ok C W (base s) (front_block_number s) (level_at ?ls)"
      using s by (simp_all add: noncanonical_ok_def kept_levels_ok_def)
    have bo: "bo_inserted ?b = inserted_keys W h" "bo_deleted ?b = deleted_keys W h"
      using sh bin b(2) unfolding shape_ok_def block_ok_def by metis+
    have "collect (\<lambda>(i, b). map_option (\<lambda>js. js @ [(bo_journal_key b, bo_hash b)])
        (if i \<noteq> index then discard_journals (parents s) (bo_hash b) (drop (?c + 1) ?ls) else Some []))
        (enumerate 0 ?bs) \<noteq> None"
    proof (rule collect_total)
      fix x
      have "discard_journals (parents s) h' (drop (?c + 1) ?ls) \<noteq> None" for h'
        using kept_ok_parents [OF k] set_drop_subset [of "?c + 1" ?ls]
        by (intro discard_journals_total) fastforce
      then show "(case x of (i, b) \<Rightarrow> map_option (\<lambda>js. js @ [(bo_journal_key b, bo_hash b)])
        (if i \<noteq> index then discard_journals (parents s) (bo_hash b) (drop (?c + 1) ?ls) else Some [])) \<noteq> None"
        by (auto split: prod.splits)
    qed
    then obtain discarded where d: "collect (\<lambda>(i, b). map_option (\<lambda>js. js @ [(bo_journal_key b, bo_hash b)])
        (if i \<noteq> index then discard_journals (parents s) (bo_hash b) (drop (?c + 1) ?ls) else Some []))
        (enumerate 0 ?bs) = Some discarded" by blast
    have "\<exists>c > 0. node_values s x = tally W x c" if "x \<in> fst ` set (inserted (change_of W h))" for x
      using kept_value [OF k level_at_in_blocks [OF bin], of x] that bo(1) by simp
    then have v: "node_value_list (node_values s) (bo_inserted ?b) = Some (inserted (change_of W h))"
      unfolding bo using W by (intro node_value_list_tally) (auto simp: world_ok_def)
    have hin: "h \<in> bo_hash ` set (level_at ?ls ?c)" using bin b(2) by (metis imageI)
    have "path_ok W (?pc @ [h]) (level_at ?ls)"
      using s h hin by (intro path_ok_snoc) (auto simp: noncanonical_ok_def)
    then have "noncanonical_ok C W (s\<lparr>pending_canonicalizations := ?pc @ [h]\<rparr>)"
      using s by (simp add: noncanonical_ok_def kept_levels_ok_def base_def front_block_number_def)
    then show ?thesis
      using c ix d v bo hin
      by (simp add: overlay_canonicalize_def Let_def insert_meta_def delete_meta_def extend_data_def)
  qed
qed

section \<open>Taking blocks out\<close>

lemma shape_nonempty:
  assumes "shape_ok C W P n f" "f l \<noteq> []" "i \<le> l"
  shows "f i \<noteq> []"
  using assms(2,3)
proof (induction l)
  case (Suc l)
  then obtain b where "b \<in> set (f (Suc l))" by (meson last_in_set)
  then have "f l \<noteq> []" using assms(1) by (fastforce simp: shape_ok_def)
  then show ?case using Suc by (cases "i = Suc l") auto
qed simp

lemma shape_ok_del:
  assumes "shape_ok C W P n f" "set (f l) = insert b (set xs)" "\<forall>x \<in> set (f (Suc l)). parent_of W (bo_hash x) \<noteq> bo_hash b"
  shows "shape_ok C W P n (f(l := xs))"
  unfolding shape_ok_def
proof (intro allI ballI)
  fix i x
  assume x: "x \<in> set ((f(l := xs)) i)"
  then have xi: "x \<in> set (f i)" using assms(2) by (auto split: if_splits)
  have "parent_of W (bo_hash x) \<in> bo_hash ` set ((f(l := xs)) j)" if j: "i = Suc j" for j
  proof (cases "j = l")
    case True
    then have "parent_of W (bo_hash x) \<in> bo_hash ` insert b (set xs)"
      using assms(1,2) xi j by (fastforce simp: shape_ok_def)
    then show ?thesis using assms(3) xi j True by auto
  next
    case False
    then show ?thesis using assms(1) xi j by (fastforce simp: shape_ok_def)
  qed
  then show "block_ok C W (n + i) x \<and>
      parent_of W (bo_hash x) \<in> (case i of 0 \<Rightarrow> P | Suc j \<Rightarrow> bo_hash ` set ((f(l := xs)) j))"
    using assms(1) xi by (auto simp: shape_ok_def split: nat.splits)
qed

lemma drop_block_ok:
  assumes "kept_ok W (b # bs) s"
  shows "kept_ok W bs (drop_block b s)"
  using retire_block_ok [OF assms, of 0] by (simp add: retire_block_def drop_block_def)

lemma drop_block_frame [simp]:
  "last_canonicalized (drop_block b s) = last_canonicalized s"
  "pending_canonicalizations (drop_block b s) = pending_canonicalizations s"
  "pending_insertions (drop_block b s) = pending_insertions s" "overlay_pinned (drop_block b s) = overlay_pinned s" "overlay_levels (drop_block b s) = overlay_levels s"
  "pinned_insertions (drop_block b s) = pinned_insertions s"
  by (simp_all add: drop_block_def)

text \<open>Taking one block that has no children out of its level.\<close>

lemma take_block_ok:
  assumes s: "kept_levels_ok C W P n s" and l: "l < length (overlay_levels s)"
    and i: "i < length (level_blocks (overlay_levels s ! l))"
    and b: "b = level_blocks (overlay_levels s ! l) ! i"
    and nc: "\<forall>x \<in> set (level_at (overlay_levels s) (Suc l)). parent_of W (bo_hash x) \<noteq> bo_hash b"
  obtains lv where "level_remove i (overlay_levels s ! l) = Some (b, lv)"
    "level_blocks lv = vec_remove i (level_blocks (overlay_levels s ! l))"
    "kept_levels_ok C W P n (drop_block b (s\<lparr>overlay_levels := (overlay_levels s)[l := lv]\<rparr>))"
proof -
  let ?ls = "overlay_levels s"
  have idx: "indices_ok (?ls ! l)" using s l by (simp add: kept_levels_ok_def)
  obtain lv where lv: "level_remove i (?ls ! l) = Some (b, lv)"
    "level_blocks lv = vec_remove i (level_blocks (?ls ! l))" "indices_ok lv"
    using level_remove_ok [OF i idx] b by metis
  let ?ls' = "?ls[l := lv]"
  have m: "mset (level_blocks (?ls ! l)) = add_mset b (mset (level_blocks lv))"
    using set_vec_remove [OF i] b lv(2) by simp
  then have "mset (blocks_in ?ls) = mset (b # blocks_in ?ls')"
    using mset_blocks_in_update [OF l, of lv] by simp
  then have "kept_ok W (b # blocks_in ?ls') s"
    using s kept_ok_perm unfolding kept_levels_ok_def by blast
  then have k: "kept_ok W (blocks_in ?ls') (drop_block b (s\<lparr>overlay_levels := ?ls'\<rparr>))"
    by (intro drop_block_ok) simp
  have "set (level_at ?ls l) = insert b (set (level_blocks lv))"
    using m l by (metis level_at_def list.simps(15) mset.simps(2) mset_eq_setD)
  then have "shape_ok C W P n ((level_at ?ls)(l := level_blocks lv))"
    using s nc by (intro shape_ok_del) (auto simp: kept_levels_ok_def)
  then have sh: "shape_ok C W P n (level_at ?ls')"
    using level_at_update [OF l] by metis
  have "\<forall>l \<in> set ?ls'. indices_ok l"
    using s lv(3) set_update_subset_insert [of ?ls l lv] by (auto simp: kept_levels_ok_def)
  then have "kept_levels_ok C W P n (drop_block b (s\<lparr>overlay_levels := ?ls'\<rparr>))"
    using k sh by (simp add: kept_levels_ok_def)
  with lv(1,2) show ?thesis by (rule that)
qed

lemma blocks_in_butlast: "ls \<noteq> [] \<Longrightarrow> blocks_in ls = blocks_in (butlast ls) @ level_blocks (last ls)"
  by (cases ls rule: rev_cases) auto

lemma butlast_levels_ok:
  assumes "kept_levels_ok C W P n s" "overlay_levels s \<noteq> []" "level_blocks (last (overlay_levels s)) = []"
  shows "kept_levels_ok C W P n (s\<lparr>overlay_levels := butlast (overlay_levels s)\<rparr>)"
proof -
  let ?ls = "overlay_levels s"
  have "blocks_in (butlast ?ls) = blocks_in ?ls"
    using blocks_in_butlast [OF assms(2)] assms(3) by simp
  moreover have "\<forall>l \<in> set (butlast ?ls). indices_ok l"
    using assms(1) by (meson in_set_butlastD kept_levels_ok_def)
  ultimately show ?thesis
    using assms(1) level_at_butlast [OF assms(2,3)] by (simp add: kept_levels_ok_def)
qed

lemma pop_empty_level_ok:
  "kept_levels_ok C W P n s \<Longrightarrow> kept_levels_ok C W P n (pop_empty_level s)"
  by (simp add: pop_empty_level_def butlast_levels_ok)

lemma pop_empty_level_frame [simp]: "last_canonicalized (pop_empty_level s) = last_canonicalized s"
  "pending_canonicalizations (pop_empty_level s) = pending_canonicalizations s"
  "pending_insertions (pop_empty_level s) = pending_insertions s" "overlay_pinned (pop_empty_level s) = overlay_pinned s"
  "pinned_insertions (pop_empty_level s) = pinned_insertions s"
  by (simp_all add: pop_empty_level_def)

end
