(* ===== verification/Noncanonical_Undo.thy ===== *)
theory Noncanonical_Undo
  imports Noncanonical_Growth
begin

text \<open>
  The operations that take blocks out of the overlay keep its invariant and do not panic: reverting
  the pending insertions, removing a leaf, reverting the highest level, pinning and unpinning.
\<close>

section \<open>Reverting the pending insertions\<close>

lemma find_last_level:
  assumes "l < length ls" "\<And>i. i \<le> l \<Longrightarrow> level_at ls i \<noteq> []"
    and "bo_hash (last (level_at ls l)) = h" "\<And>i. i < l \<Longrightarrow> bo_hash (last (level_at ls i)) \<noteq> h"
  shows "find_last h ls = Some l"
  using assms
proof (induction ls arbitrary: l)
  case (Cons x ls)
  have ne: "level_blocks x \<noteq> []" using Cons.prems(2) [of 0] by simp
  show ?case
  proof (cases l)
    case 0
    then show ?thesis using ne Cons.prems(3) by simp
  next
    case (Suc m)
    have "find_last h ls = Some m"
    proof (rule Cons.IH)
      show "m < length ls" using Cons.prems(1) Suc by simp
      show "level_at ls i \<noteq> []" if "i \<le> m" for i using Cons.prems(2) [of "Suc i"] that Suc by simp
      show "bo_hash (last (level_at ls m)) = h" using Cons.prems(3) Suc by simp
      show "bo_hash (last (level_at ls i)) \<noteq> h" if "i < m" for i using Cons.prems(4) [of "Suc i"] that Suc by simp
    qed
    then show ?thesis using ne Suc Cons.prems(4) [of 0] by simp
  qed
qed simp

lemma vec_remove_last: "xs \<noteq> [] \<Longrightarrow> vec_remove (length xs - 1) xs = butlast xs"
  by (simp add: vec_remove_def butlast_conv_take)

lemma revert_insertion_ok:
  assumes s: "kept_levels_ok C W P n s" and u: "undoable W (h # hs) (level_at (overlay_levels s))"
  shows "\<exists>s'. revert_insertion h s = Some s' \<and> kept_levels_ok C W P n s' \<and>
    undoable W hs (level_at (overlay_levels s')) \<and> static s' = static s \<and>
    pinned_insertions s' = pinned_insertions s"
proof -
  let ?ls = "overlay_levels s"
  let ?f = "level_at ?ls"
  obtain l where l: "?f l \<noteq> []" "bo_hash (last (?f l)) = h" "\<forall>b \<in> set (?f (Suc l)). parent_of W (bo_hash b) \<noteq> h"
    "undoable W hs (?f(l := butlast (?f l)))" using u by auto
  have sh: "shape_ok C W P n ?f" using s by (simp add: kept_levels_ok_def)
  have len: "l < length ?ls" using l(1) by (simp add: level_at_def split: if_splits)
  then have fl: "?f l = level_blocks (?ls ! l)" by (simp add: level_at_def)
  have num: "number_of W (bo_hash (last (?f i))) = n + i" if "?f i \<noteq> []" for i
    using sh last_in_set [OF that] by (auto simp: shape_ok_def block_ok_def)
  have ne: "?f i \<noteq> []" if "i \<le> l" for i using shape_nonempty [OF sh l(1) that] .
  have other: "bo_hash (last (?f i)) \<noteq> h" if "i < l" for i
    using num [OF ne, of i] num [OF l(1)] that l(2) by auto
  have find: "find_last h ?ls = Some l"
    using find_last_level [OF len ne l(2) other] by simp
  let ?i = "length (level_blocks (?ls ! l)) - 1"
  let ?b = "level_blocks (?ls ! l) ! ?i"
  have i: "?i < length (level_blocks (?ls ! l))" using l(1) fl by simp
  have b: "bo_hash ?b = h" using l(1,2) fl by (simp add: last_conv_nth)
  obtain lv where lv: "level_remove ?i (?ls ! l) = Some (?b, lv)"
    "level_blocks lv = vec_remove ?i (level_blocks (?ls ! l))"
    "kept_levels_ok C W P n (drop_block ?b (s\<lparr>overlay_levels := ?ls[l := lv]\<rparr>))"
    using take_block_ok [OF s len i refl] l(3) b by blast
  let ?s = "drop_block ?b (s\<lparr>overlay_levels := ?ls[l := lv]\<rparr>)"
  have bl: "level_blocks lv = butlast (?f l)" using lv(2) vec_remove_last l(1) fl by metis
  have la: "level_at (overlay_levels ?s) = ?f(l := butlast (?f l))"
    using level_at_update [OF len, of lv] bl by simp
  have eq: "s\<lparr>parents := AList.delete h (parents s), overlay_levels := ?ls[l := lv],
      node_values := discard_values (bo_inserted ?b) (node_values s)\<rparr> = ?s"
    unfolding drop_block_def b by simp
  show ?thesis
  proof (cases "level_blocks lv = []")
    case False
    then have "revert_insertion h s = Some ?s"
      using find lv(1) eq by (simp add: revert_insertion_def Let_def)
    then show ?thesis using lv(3) la l(4) by simp
  next
    case True
    let ?t = "?s\<lparr>overlay_levels := butlast (overlay_levels ?s)\<rparr>"
    have r: "revert_insertion h s = Some ?t"
      using find lv(1) eq True by (simp add: revert_insertion_def Let_def)
    have "overlay_levels ?s \<noteq> []" using len by auto
    moreover have "level_blocks (last (overlay_levels ?s)) = []"
    proof (rule ccontr)
      let ?m = "length ?ls - 1"
      assume a: "level_blocks (last (overlay_levels ?s)) \<noteq> []"
      have "last (overlay_levels ?s) = overlay_levels ?s ! ?m"
        using \<open>overlay_levels ?s \<noteq> []\<close> last_conv_nth [of "overlay_levels ?s"] by simp
      then have "level_at (overlay_levels ?s) ?m \<noteq> []" using a len by (simp add: level_at_def)
      moreover have "shape_ok C W P n (level_at (overlay_levels ?s))"
        using lv(3) unfolding kept_levels_ok_def by blast
      moreover have "l \<le> ?m" using len by simp
      ultimately have "level_at (overlay_levels ?s) l \<noteq> []" using shape_nonempty by blast
      then show False using la bl True by simp
    qed
    ultimately have "kept_levels_ok C W P n ?t" "level_at (overlay_levels ?t) = level_at (overlay_levels ?s)"
      using butlast_levels_ok [OF lv(3)] level_at_butlast [of "overlay_levels ?s"] by simp_all
    then show ?thesis using r la l(4) by simp
  qed
qed

lemma revert_insertions_ok:
  assumes "kept_levels_ok C W P n s" "undoable W hs (level_at (overlay_levels s))"
  shows "\<exists>s'. revert_insertions hs s = Some s' \<and> kept_levels_ok C W P n s' \<and> static s' = static s \<and>
    pinned_insertions s' = pinned_insertions s"
  using assms
proof (induction hs arbitrary: s)
  case (Cons h hs)
  from revert_insertion_ok [OF Cons.prems] obtain s1 where s1: "revert_insertion h s = Some s1"
    "kept_levels_ok C W P n s1" "undoable W hs (level_at (overlay_levels s1))" "static s1 = static s"
    "pinned_insertions s1 = pinned_insertions s" by blast
  from Cons.IH [OF s1(2,3)] show ?case using s1(1,4,5) by auto
qed simp

lemma overlay_revert_pending_ok:
  assumes "noncanonical_ok C W s"
  shows "\<exists>s'. overlay_revert_pending s = Some s' \<and> noncanonical_ok C W s' \<and>
    pending_canonicalizations s' = [] \<and> pending_insertions s' = [] \<and> overlay_pinned s' = overlay_pinned s \<and>
    last_canonicalized s' = last_canonicalized s \<and> pinned_insertions s' = pinned_insertions s"
proof -
  let ?s = "s\<lparr>pending_canonicalizations := [], pending_insertions := []\<rparr>"
  have "kept_levels_ok C W (base s) (front_block_number s) ?s"
    "undoable W (rev (pending_insertions s)) (level_at (overlay_levels ?s))"
    using assms by (simp_all add: noncanonical_ok_def kept_levels_ok_def)
  from revert_insertions_ok [OF this] obtain s' where s': "revert_insertions (rev (pending_insertions s)) ?s = Some s'"
    "kept_levels_ok C W (base s) (front_block_number s) s'" "static s' = static ?s"
    "pinned_insertions s' = pinned_insertions ?s" by blast
  have "base s' = base s" "front_block_number s' = front_block_number s"
    using s'(3) by (simp_all add: base_def front_block_number_def)
  then have "noncanonical_ok C W s'"
    using s'(2,3) assms by (simp add: noncanonical_ok_def path_ok_def)
  then show ?thesis using s' by (simp add: overlay_revert_pending_def)
qed

section \<open>Removing blocks\<close>

lemma find_from_back_Some:
  assumes "find_from_back h (rev (enumerate 0 ls)) = Some (l, i)"
  shows "l < length ls" "i < length (level_blocks (ls ! l))" "bo_hash (level_blocks (ls ! l) ! i) = h"
proof -
  have "\<exists>lv. (l, lv) \<in> set xs \<and> position (\<lambda>b. bo_hash b = h) (level_blocks lv) = Some i"
    if "find_from_back h xs = Some (l, i)" for xs
    using that by (induction xs) (auto split: option.splits)
  from this [OF assms] obtain lv where "(l, lv) \<in> set (enumerate 0 ls)"
    "position (\<lambda>b. bo_hash b = h) (level_blocks lv) = Some i" by auto
  then show "l < length ls" "i < length (level_blocks (ls ! l))" "bo_hash (level_blocks (ls ! l) ! i) = h"
    using position_Some by (fastforce simp: in_set_enumerate_eq)+
qed

lemma overlay_remove_ok:
  assumes s: "noncanonical_ok C W s" and p: "pending_canonicalizations s = []" "pending_insertions s = []"
  shows "\<exists>c s'. overlay_remove h s = Some (c, s') \<and> noncanonical_ok C W s' \<and> static s' = static s \<and>
    pinned_insertions s' = pinned_insertions s \<and> (\<forall>x. c = Some x \<longrightarrow> commit_data x = empty_change)"
proof -
  let ?P = "base s" and ?n = "front_block_number s"
  have k: "kept_levels_ok C W ?P ?n s" using s by (simp add: noncanonical_ok_def)
  have fin: "noncanonical_ok C W s'" if "kept_levels_ok C W ?P ?n s'" "static s' = static s" for s'
    using that s p by (simp add: noncanonical_ok_def base_def front_block_number_def path_ok_def)
  show ?thesis
  proof (cases "find_from_back h (rev (enumerate 0 (overlay_levels s)))")
    case None
    then show ?thesis using fin [OF pop_empty_level_ok [OF k]] by (simp add: overlay_remove_def)
  next
    case (Some li)
    obtain l i where li: "li = (l, i)" by force
    note li = find_from_back_Some [OF Some [unfolded li]] li
    show ?thesis
    proof (cases "l \<noteq> length (overlay_levels s) - 1 \<and> h \<in> snd ` set (parents s)")
      case True
      then show ?thesis using Some li s by (simp add: overlay_remove_def)
    next
      case False
      let ?b = "level_blocks (overlay_levels s ! l) ! i"
      have "parent_of W (bo_hash x) \<noteq> h" if x: "x \<in> set (level_at (overlay_levels s) (Suc l))" for x
      proof (cases "l = length (overlay_levels s) - 1")
        case True
        then have "\<not> Suc l < length (overlay_levels s)" using li(1) by linarith
        then have "level_at (overlay_levels s) (Suc l) = []" by (simp add: level_at_def)
        then show ?thesis using x by simp
      next
        case ne: False
        have "map_of (parents s) (bo_hash x) = Some (parent_of W (bo_hash x))"
          using k level_at_in_blocks [OF x] by (intro kept_ok_parents) (auto simp: kept_levels_ok_def)
        then have "parent_of W (bo_hash x) \<in> snd ` set (parents s)"
          by (metis imageI map_of_SomeD snd_conv)
        then show ?thesis using False ne by auto
      qed
      then obtain lv where lv: "level_remove i (overlay_levels s ! l) = Some (?b, lv)"
        "kept_levels_ok C W ?P ?n (drop_block ?b (s\<lparr>overlay_levels := (overlay_levels s)[l := lv]\<rparr>))"
        using take_block_ok [OF k li(1,2) refl] li(3) by metis
      let ?s = "pop_empty_level (drop_block ?b (s\<lparr>overlay_levels := (overlay_levels s)[l := lv]\<rparr>))"
      have "overlay_remove h s = Some (Some (delete_meta [bo_journal_key ?b] empty_commit), ?s)"
        unfolding overlay_remove_def using Some li(4) False lv(1) by auto
      moreover have "noncanonical_ok C W ?s" by (rule fin [OF pop_empty_level_ok [OF lv(2)]]) simp
      ultimately show ?thesis by (simp add: delete_meta_def empty_commit_def)
    qed
  qed
qed

lemma fold_drop_block_ok:
  assumes "kept_ok W (bs @ xs) s"
  shows "kept_ok W xs (fold drop_block bs s)" "overlay_levels (fold drop_block bs s) = overlay_levels s"
    "static (fold drop_block bs s) = static s" "pinned_insertions (fold drop_block bs s) = pinned_insertions s"
  using assms by (induction bs arbitrary: s) (auto dest: drop_block_ok)

lemma overlay_revert_one_ok:
  assumes s: "noncanonical_ok C W s" and p: "pending_canonicalizations s = []" "pending_insertions s = []"
  shows "noncanonical_ok C W (snd (overlay_revert_one s))" "static (snd (overlay_revert_one s)) = static s"
    "pinned_insertions (snd (overlay_revert_one s)) = pinned_insertions s"
    "\<And>c. fst (overlay_revert_one s) = Some c \<Longrightarrow> commit_data c = empty_change"
proof -
  let ?ls = "overlay_levels s"
  let ?s = "snd (overlay_revert_one s)"
  have "noncanonical_ok C W ?s \<and> static ?s = static s \<and> pinned_insertions ?s = pinned_insertions s"
  proof (cases "?ls = []")
    case True
    then show ?thesis using s by (simp add: overlay_revert_one_def)
  next
    case False
    let ?t = "s\<lparr>overlay_levels := butlast ?ls\<rparr>" and ?bs = "level_blocks (last ?ls)"
    have r: "?s = fold drop_block ?bs ?t" using False by (simp add: overlay_revert_one_def Let_def)
    have k: "kept_ok W (blocks_in ?ls) s" and sh: "shape_ok C W (base s) (front_block_number s) (level_at ?ls)"
      and ind: "\<forall>l \<in> set ?ls. indices_ok l"
      using s by (simp_all add: noncanonical_ok_def kept_levels_ok_def)
    have "mset (blocks_in ?ls) = mset (?bs @ blocks_in (butlast ?ls))"
      using blocks_in_butlast [OF False] by (simp add: ac_simps)
    then have "kept_ok W (?bs @ blocks_in (butlast ?ls)) s" using k kept_ok_perm by blast
    then have "kept_ok W (?bs @ blocks_in (butlast ?ls)) ?t" by simp
    note * = fold_drop_block_ok [OF this, folded r]
    have la: "level_at (butlast ?ls) i = (if i < length ?ls - 1 then level_at ?ls i else [])" for i
      by (auto simp: level_at_def nth_butlast)
    have "shape_ok C W (base s) (front_block_number s) (level_at (butlast ?ls))"
      unfolding shape_ok_def
    proof (intro allI ballI)
      fix i b
      assume b: "b \<in> set (level_at (butlast ?ls) i)"
      then have "i < length ?ls - 1" "b \<in> set (level_at ?ls i)" by (auto simp: la split: if_splits)
      then show "block_ok C W (front_block_number s + i) b \<and>
          parent_of W (bo_hash b) \<in> (case i of 0 \<Rightarrow> base s | Suc j \<Rightarrow> bo_hash ` set (level_at (butlast ?ls) j))"
        using sh by (auto simp: shape_ok_def la split: nat.splits)
    qed
    moreover have "\<forall>l \<in> set (butlast ?ls). indices_ok l" using ind by (meson in_set_butlastD)
    moreover have "base ?s = base s" "front_block_number ?s = front_block_number s"
      using *(3) by (simp_all add: base_def front_block_number_def)
    ultimately show ?thesis
      using * s p by (simp add: noncanonical_ok_def kept_levels_ok_def path_ok_def)
  qed
  then show "noncanonical_ok C W ?s" "static ?s = static s" "pinned_insertions ?s = pinned_insertions s" by simp_all
  show "commit_data c = empty_change" if "fst (overlay_revert_one s) = Some c" for c
    using that by (auto simp: overlay_revert_one_def Let_def delete_meta_def empty_commit_def split: if_splits)
qed

section \<open>Pinning\<close>

lemma overlay_pin_ok: "noncanonical_ok C W s \<Longrightarrow> noncanonical_ok C W (overlay_pin h s)"
  by (simp add: overlay_pin_def noncanonical_ok_def kept_levels_ok_def base_def front_block_number_def)

definition pin_total :: "('h, 'k) overlay \<Rightarrow> nat" where
  "pin_total s = (\<Sum>h\<in>dom (pinned_insertions s). snd (the (pinned_insertions s h)))"

definition unpinned_from :: "('h, 'k) overlay \<Rightarrow> ('h, 'k) overlay \<Rightarrow> bool" where
  "unpinned_from s s' \<longleftrightarrow>
     overlay_levels s' = overlay_levels s \<and> static s' = static s \<and>
     dom (pinned_insertions s') \<subseteq> dom (pinned_insertions s)"

definition release_pin :: "'h \<Rightarrow> 'k list \<Rightarrow> nat \<Rightarrow> ('h, 'k) overlay \<Rightarrow> ('h, 'k) overlay" where
  "release_pin h ks n s =
     (if n - 1 = 0 then
        s\<lparr>pinned_insertions := (pinned_insertions s)(h := None),
          node_values := discard_values ks (node_values s),
          parents := AList.delete h (parents s)\<rparr>
      else s\<lparr>pinned_insertions := (pinned_insertions s)(h \<mapsto> (ks, n - 1))\<rparr>)"

lemma release_pin_ok:
  assumes k: "kept_ok W bs s" and h: "pinned_insertions s h = Some (ks, n)"
  shows "kept_ok W bs (release_pin h ks n s)" "unpinned_from s (release_pin h ks n s)"
    "pin_total (release_pin h ks n s) < pin_total s"
proof -
  let ?p = "pinned_insertions s"
  have fin: "finite (dom ?p)" and pos: "n > 0" using k h by (auto simp: kept_ok_def)
  have hd: "h \<in> dom ?p" using h by auto
  have total: "pin_total s = n + (\<Sum>x\<in>dom ?p - {h}. snd (the (?p x)))"
    unfolding pin_total_def using sum.remove [OF fin hd, of "\<lambda>x. snd (the (?p x))"] h by simp
  show "kept_ok W bs (release_pin h ks n s)"
  proof (cases "n - 1 = 0")
    case True
    have "discard_values ks (node_values s) k = tally W k (occurrences bs k + pinned_occurrences (?p(h := None)) k)" for k
      using k pinned_occurrences_del [OF fin h] by (intro discard_values_tally) (simp add: kept_ok_def ac_simps del: fun_upd_apply)
    moreover have "h \<notin> bo_hash ` set bs" using k hd by (auto simp: kept_ok_def)
    then have "map_of (AList.delete h (parents s)) x =
        (if x \<in> bo_hash ` set bs \<union> dom (?p(h := None)) then Some (parent_of W x) else None)" for x
      using k by (auto simp: delete_conv' kept_ok_def)
    moreover have "bo_hash ` set bs \<inter> dom (?p(h := None)) = {}" using k by (auto simp: kept_ok_def)
    moreover have "finite (dom (?p(h := None)))" using fin by simp
    moreover have "\<forall>x ks n. (?p(h := None)) x = Some (ks, n) \<longrightarrow> n > 0" using k by (simp add: kept_ok_def)
    ultimately show ?thesis
      using k True unfolding kept_ok_def release_pin_def by (simp del: fun_upd_apply dom_fun_upd)
  next
    case False
    have "dom (?p(h \<mapsto> (ks, n - 1))) = dom ?p" using h by auto
    then show ?thesis
      using k False h pinned_occurrences_recount [of ?p h ks n "n - 1"] pos
      unfolding kept_ok_def release_pin_def by simp
  qed
  show "unpinned_from s (release_pin h ks n s)"
    using hd by (auto simp: unpinned_from_def release_pin_def)
  show "pin_total (release_pin h ks n s) < pin_total s"
  proof (cases "n - 1 = 0")
    case True
    have "pin_total (release_pin h ks n s) = (\<Sum>x\<in>dom ?p - {h}. snd (the (?p x)))"
      unfolding pin_total_def using True by (auto simp: release_pin_def intro!: sum.cong)
    then show ?thesis using total pos by simp
  next
    case False
    have "dom (?p(h \<mapsto> (ks, n - 1))) = dom ?p" using h by auto
    moreover have "(\<Sum>x\<in>dom ?p. snd (the ((?p(h \<mapsto> (ks, n - 1))) x))) = n - 1 + (\<Sum>x\<in>dom ?p - {h}. snd (the (?p x)))"
      by (subst sum.remove [OF fin hd]) (auto intro!: sum.cong)
    ultimately have "pin_total (release_pin h ks n s) = n - 1 + (\<Sum>x\<in>dom ?p - {h}. snd (the (?p x)))"
      using False by (simp add: pin_total_def release_pin_def)
    then show ?thesis using total pos by simp
  qed
qed

lemma unpin_ancestors_ok:
  assumes "kept_ok W bs s"
  shows "\<exists>s'. unpin_ancestors h s = Some s' \<and> kept_ok W bs s' \<and> unpinned_from s s'"
  using assms
proof (induction "pin_total s" arbitrary: h s rule: less_induct)
  case less
  show ?case
  proof (cases "pinned_insertions s h")
    case None
    then show ?thesis
      using less.prems by (subst unpin_ancestors.simps) (simp add: unpinned_from_def)
  next
    case (Some kn)
    obtain ks n where kn: "pinned_insertions s h = Some (ks, n)" using Some by (cases kn) auto
    let ?s = "release_pin h ks n s"
    note r = release_pin_ok [OF less.prems kn]
    have eq: "unpin_ancestors h s = (case map_of (parents s) h of None \<Rightarrow> Some ?s | Some p \<Rightarrow> unpin_ancestors p ?s)"
      using kn by (subst unpin_ancestors.simps) (auto simp: Let_def release_pin_def split: option.splits)
    show ?thesis
    proof (cases "map_of (parents s) h")
      case None
      then show ?thesis using eq r by simp
    next
      case (Some p)
      from less.hyps [OF r(3,1)] obtain s' where "unpin_ancestors p ?s = Some s'" "kept_ok W bs s'" "unpinned_from ?s s'"
        by blast
      then show ?thesis using eq Some r(2) by (auto simp: unpinned_from_def)
    qed
  qed
qed

lemma overlay_unpin_ok:
  assumes "noncanonical_ok C W s"
  shows "\<exists>s'. overlay_unpin h s = Some s' \<and> noncanonical_ok C W s' \<and> overlay_levels s' = overlay_levels s \<and>
    last_canonicalized s' = last_canonicalized s \<and> pending_canonicalizations s' = pending_canonicalizations s \<and>
    pending_insertions s' = pending_insertions s \<and> dom (pinned_insertions s') \<subseteq> dom (pinned_insertions s)"
proof -
  have fin: "noncanonical_ok C W s'" if "kept_ok W (blocks_in (overlay_levels s)) s'" "overlay_levels s' = overlay_levels s"
    "last_canonicalized s' = last_canonicalized s" "pending_canonicalizations s' = pending_canonicalizations s"
    "pending_insertions s' = pending_insertions s" for s'
    using that assms by (simp add: noncanonical_ok_def kept_levels_ok_def base_def front_block_number_def)
  have k: "kept_ok W (blocks_in (overlay_levels s)) s"
    using assms by (simp add: noncanonical_ok_def kept_levels_ok_def)
  show ?thesis
  proof (cases "\<exists>n. overlay_pinned s h = Some n \<and> n - 1 = 0")
    case True
    then obtain n where n: "overlay_pinned s h = Some n" "n - 1 = 0" by blast
    let ?s = "s\<lparr>overlay_pinned := (overlay_pinned s)(h := None)\<rparr>"
    have "kept_ok W (blocks_in (overlay_levels s)) ?s" using k by simp
    from unpin_ancestors_ok [OF this] obtain s' where s': "unpin_ancestors h ?s = Some s'"
      "kept_ok W (blocks_in (overlay_levels s)) s'" "unpinned_from ?s s'" by blast
    then show ?thesis using n fin [of s'] by (simp add: overlay_unpin_def unpinned_from_def)
  next
    case False
    then show ?thesis
      using fin k by (cases "overlay_pinned s h") (auto simp: overlay_unpin_def)
  qed
qed

end
