(* ===== verification/State_Db_System.thy ===== *)
theory State_Db_System
  imports Noncanonical_Undo
begin

text \<open>
  The state database together with the store it writes to.  A system holds the state database, the
  store, and the store as it will be once the transaction being built is written.  Events are the
  calls of \<open>src/client/db/src/lib.rs\<close>: inserting and canonicalizing blocks within a transaction,
  writing or abandoning the transaction, pinning and unpinning, removing and reverting blocks.  The
  invariant says which states are in the store and what the pruning window still holds.
\<close>

section \<open>Systems and events\<close>

record ('h, 'k) stored_state_db =
  database :: "('h, 'k) state_db"
  store :: "'k node_store"
  next_store :: "'k node_store"

datatype 'h event =
    Insert 'h
  | Canonicalize 'h
  | Pin 'h
  | Unpin 'h
  | Commit
  | Abort
  | RevertOne
  | Remove 'h

definition stage :: "('e state_db_error + 'k commit_set) \<times> ('h, 'k) state_db \<Rightarrow> ('h, 'k) stored_state_db \<Rightarrow> ('h, 'k) stored_state_db" where
  "stage r s =
     s\<lparr>database := snd r,
       next_store := (case fst r of Inl e \<Rightarrow> next_store s | Inr c \<Rightarrow> apply_state_commit c (next_store s))\<rparr>"

definition write_now :: "'k commit_set option \<times> ('h, 'k) state_db \<Rightarrow> ('h, 'k) stored_state_db \<Rightarrow> ('h, 'k) stored_state_db" where
  "write_now r s =
     (case fst r of
        None \<Rightarrow> s\<lparr>database := snd r\<rparr>
      | Some c \<Rightarrow>
          let d = apply_state_commit c (store s) in s\<lparr>database := snd r, store := d, next_store := d\<rparr>)"

fun execute :: "('h, 'k) codec \<Rightarrow> ('h, 'k) world \<Rightarrow> 'h event \<Rightarrow> ('h, 'k) stored_state_db \<Rightarrow> ('h, 'k) stored_state_db option" where
  "execute C W (Insert h) s =
     map_option (\<lambda>r. stage (r :: (unit state_db_error + _) \<times> _) s)
       (insert_block C h (number_of W h) (parent_of W h) (change_of W h) (database s))"
| "execute C W (Canonicalize h) s =
     map_option (\<lambda>r. stage (r :: (unit state_db_error + _) \<times> _) s) (canonicalize_block C h (database s))"
| "execute C W (Pin h) s = Some (s\<lparr>database := snd (pin h (database s))\<rparr>)"
| "execute C W (Unpin h) s = map_option (\<lambda>d. s\<lparr>database := d\<rparr>) (unpin h (database s))"
| "execute C W Commit s =
     map_option (\<lambda>d. s\<lparr>database := d, store := next_store s\<rparr>) (apply_pending (database s))"
| "execute C W Abort s =
     map_option (\<lambda>d. s\<lparr>database := d, next_store := store s\<rparr>) (revert_pending (database s))"
| "execute C W RevertOne s = Some (write_now (revert_one (database s)) s)"
| "execute C W (Remove h) s = map_option (\<lambda>r. write_now r s) (remove_block h (database s))"

definition idle :: "('h, 'k) overlay \<Rightarrow> bool" where
  "idle nc \<longleftrightarrow> pending_insertions nc = [] \<and> pending_canonicalizations nc = []"

text \<open>The calls the client makes.\<close>

fun proper :: "('h, 'k) world \<Rightarrow> 'h event \<Rightarrow> ('h, 'k) stored_state_db \<Rightarrow> bool" where
  "proper W (Insert h) s = insertable W h (non_canonical (database s))"
| "proper W (Canonicalize h) s =
     (let pc = pending_canonicalizations (non_canonical (database s)) in pc \<noteq> [] \<longrightarrow> parent_of W h = last pc)"
| "proper W RevertOne s = idle (non_canonical (database s))"
| "proper W (Remove h) s = idle (non_canonical (database s))"
| "proper W _ s = True"

definition empty_store :: "'k node_store" where
  "empty_store = \<lparr>state_col = Map.empty, meta_col = Map.empty\<rparr>"

inductive state_db_run ::
    "('h, 'k) codec \<Rightarrow> ('h, 'k) world \<Rightarrow> pruning_mode \<Rightarrow> 'h event list \<Rightarrow> ('h, 'k) stored_state_db \<Rightarrow> bool"
  for C :: "('h, 'k) codec" and W :: "('h, 'k) world" and m :: pruning_mode where
  start: "state_db_new C m True (\<lambda>_. Inr None :: unit + _) = Some (Inr d) \<Longrightarrow>
     state_db_run C W m [] \<lparr>database = d, store = empty_store, next_store = empty_store\<rparr>"
| step: "state_db_run C W m evs s \<Longrightarrow> proper W ev s \<Longrightarrow> execute C W ev s = Some s' \<Longrightarrow>
     state_db_run C W m (evs @ [ev]) s'"

section \<open>Reading through the overlay\<close>

lemma overlay_get_value:
  assumes "noncanonical_ok C W nc" "noncanonical_get k nc = Some v"
  shows "v = value_of W k"
proof -
  have "node_values nc k = tally W k (occurrences (blocks_in (overlay_levels nc)) k + pinned_occurrences (pinned_insertions nc) k)"
    using assms(1) by (simp add: noncanonical_ok_def kept_levels_ok_def kept_ok_def)
  then show ?thesis using assms(2) by (auto simp: noncanonical_get_def tally_def split: if_splits)
qed

lemma overlay_get_inserted:
  assumes "noncanonical_ok C W nc" "b \<in> set (level_at (overlay_levels nc) i)" "k \<in> set (bo_inserted b)"
  shows "noncanonical_get k nc = Some (value_of W k)"
proof -
  have "\<exists>c > 0. node_values nc k = tally W k c"
    using assms by (intro kept_value [OF _ level_at_in_blocks]) (auto simp: noncanonical_ok_def kept_levels_ok_def)
  then show ?thesis by (auto simp: noncanonical_get_def tally_def)
qed

lemma overlay_reads:
  assumes s: "noncanonical_ok C W nc" and W: "world_ok W"
    and "b \<in> set (level_at (overlay_levels nc) i)" "k \<in> state_of W (bo_hash b)"
  shows "noncanonical_get k nc = Some (value_of W k) \<or>
    (\<exists>h n. last_canonicalized nc = Some (h, n) \<and> k \<in> state_of W h)"
  using assms(3,4)
proof (induction i arbitrary: b)
  case 0
  show ?case
  proof (cases "k \<in> set (inserted_keys W (bo_hash b))")
    case True
    then have "k \<in> set (bo_inserted b)"
      using s 0(1) by (auto simp: noncanonical_ok_def kept_levels_ok_def shape_ok_def block_ok_def)
    then show ?thesis using overlay_get_inserted [OF s 0(1)] by blast
  next
    case False
    then have p: "k \<in> parent_state W (bo_hash b)" using W 0(2) unfolding world_ok_def by blast
    have b: "number_of W (bo_hash b) = front_block_number nc" "parent_of W (bo_hash b) \<in> base nc"
      using s 0(1) unfolding noncanonical_ok_def kept_levels_ok_def shape_ok_def block_ok_def by (fastforce)+
    show ?thesis
    proof (cases "last_canonicalized nc")
      case None
      then show ?thesis using p b by (simp add: parent_state_def front_block_number_def)
    next
      case (Some hn)
      then show ?thesis using p b by (cases hn) (auto simp: parent_state_def base_def split: if_splits)
    qed
  qed
next
  case (Suc i)
  show ?case
  proof (cases "k \<in> set (inserted_keys W (bo_hash b))")
    case True
    then have "k \<in> set (bo_inserted b)"
      using s Suc.prems(1) by (auto simp: noncanonical_ok_def kept_levels_ok_def shape_ok_def block_ok_def)
    then show ?thesis using overlay_get_inserted [OF s Suc.prems(1)] by blast
  next
    case False
    then have p: "k \<in> parent_state W (bo_hash b)" using W Suc.prems(2) unfolding world_ok_def by blast
    have "parent_of W (bo_hash b) \<in> bo_hash ` set (level_at (overlay_levels nc) i)"
      using s Suc.prems(1) unfolding noncanonical_ok_def kept_levels_ok_def shape_ok_def by fastforce
    then obtain b' where "b' \<in> set (level_at (overlay_levels nc) i)" "parent_of W (bo_hash b) = bo_hash b'" by blast
    then show ?thesis using Suc.IH [of b'] p by (auto simp: parent_state_def split: if_splits)
  qed
qed

section \<open>The prune loop\<close>

lemma prune_one_Some:
  assumes "pending_prunings w < length (death_rows w)"
  shows "snd (prune_one C commit w) = w\<lparr>pending_prunings := pending_prunings w + 1\<rparr>"
    "commit_data (fst (prune_one C commit w)) =
       \<lparr>inserted = inserted (commit_data commit),
        deleted = deleted (commit_data commit) @ row_deleted (death_rows w ! pending_prunings w)\<rparr>"
    "commit_meta (fst (prune_one C commit w)) =
       \<lparr>inserted = inserted (commit_meta commit) @
          [(last_pruned_key C, encode_u64 C (pending_number w + pending_prunings w))],
        deleted = deleted (commit_meta commit) @ [row_journal_key (death_rows w ! pending_prunings w)]\<rparr>"
  using assms
  by (simp_all add: prune_one_def Let_def extend_data_def insert_meta_def delete_meta_def)

definition pruned_keys :: "nat \<Rightarrow> nat \<Rightarrow> ('h, 'k) death_row list \<Rightarrow> 'k list" where
  "pruned_keys p q rows = concat (map (\<lambda>i. row_deleted (rows ! i)) [p..<q])"

definition pruned_meta :: "('h, 'k) codec \<Rightarrow> nat \<Rightarrow> nat \<Rightarrow> ('h, 'k) ref_window \<Rightarrow> bytes change_set \<Rightarrow> bytes change_set" where
  "pruned_meta C p q w c =
     \<lparr>inserted = inserted c @ map (\<lambda>i. (last_pruned_key C, encode_u64 C (pending_number w + i))) [p..<q],
      deleted = deleted c @ map (\<lambda>i. row_journal_key (death_rows w ! i)) [p..<q]\<rparr>"

definition pruned_up_to :: "constraints \<Rightarrow> ('h \<rightharpoonup> nat) \<Rightarrow> ('h, 'k) ref_window \<Rightarrow> bool" where
  "pruned_up_to cons pinned w \<longleftrightarrow>
     window_size w \<le> unwrap_or_default 0 (max_blocks cons) \<or>
     (\<exists>h. next_hash w = Some h \<and> pinned h \<noteq> None)"

lemma prune_loop_ok:
  assumes "pending_prunings w \<le> length (death_rows w)" "max_mem cons = None"
  shows "\<exists>q c. prune_loop C cons pinned commit w = (c, w\<lparr>pending_prunings := q\<rparr>) \<and>
    pending_prunings w \<le> q \<and> q \<le> length (death_rows w) \<and>
    commit_data c = \<lparr>inserted = inserted (commit_data commit),
      deleted = deleted (commit_data commit) @ pruned_keys (pending_prunings w) q (death_rows w)\<rparr> \<and>
    commit_meta c = pruned_meta C (pending_prunings w) q w (commit_meta commit) \<and>
    pruned_up_to cons pinned (w\<lparr>pending_prunings := q\<rparr>)"
  using assms(1)
proof (induction "window_size w" arbitrary: w commit rule: less_induct)
  case less
  let ?p = "pending_prunings w"
  have triv: "pruned_up_to cons pinned w \<Longrightarrow> ?case"
  proof -
    assume a: "pruned_up_to cons pinned w"
    have "prune_loop C cons pinned commit w = (commit, w)"
      using a assms(2) by (subst prune_loop.simps) (auto simp: pruned_up_to_def)
    moreover have "w\<lparr>pending_prunings := ?p\<rparr> = w" by simp
    ultimately show ?case using less.prems a by (intro exI [of _ ?p] exI [of _ commit]) (simp add: pruned_keys_def pruned_meta_def)
  qed
  show ?case
  proof (cases "pruned_up_to cons pinned w")
    case False
    then have p: "?p < length (death_rows w)"
      by (auto simp: pruned_up_to_def window_size_def)
    let ?w = "snd (prune_one C commit w)" and ?c = "fst (prune_one C commit w)"
    have w': "?w = w\<lparr>pending_prunings := ?p + 1\<rparr>" using prune_one_Some(1) [OF p] .
    have eq: "prune_loop C cons pinned commit w = prune_loop C cons pinned ?c ?w"
      using False assms(2) by (subst prune_loop.simps) (auto simp: pruned_up_to_def split: option.splits)
    have "window_size ?w < window_size w" "pending_prunings ?w \<le> length (death_rows ?w)"
      using p by (auto simp: w' window_size_def)
    from less.hyps [OF this, of ?c] obtain q c where q: "prune_loop C cons pinned ?c ?w = (c, ?w\<lparr>pending_prunings := q\<rparr>)"
      "pending_prunings ?w \<le> q" "q \<le> length (death_rows ?w)"
      "commit_data c = \<lparr>inserted = inserted (commit_data ?c),
        deleted = deleted (commit_data ?c) @ pruned_keys (pending_prunings ?w) q (death_rows ?w)\<rparr>"
      "commit_meta c = pruned_meta C (pending_prunings ?w) q ?w (commit_meta ?c)"
      "pruned_up_to cons pinned (?w\<lparr>pending_prunings := q\<rparr>)" by blast
    have upt: "[?p..<q] = ?p # [Suc ?p..<q]" using q(2) w' by (simp add: upt_conv_Cons)
    then have "pruned_keys ?p q (death_rows w) = row_deleted (death_rows w ! ?p) @ pruned_keys (Suc ?p) q (death_rows w)"
      by (simp add: pruned_keys_def)
    moreover have "commit_meta c = pruned_meta C ?p q w (commit_meta commit)"
      using q(5) prune_one_Some(3) [OF p, of C commit] upt unfolding w' by (simp add: pruned_meta_def)
    ultimately show ?thesis
      using q eq prune_one_Some(1,2) [OF p, of C commit] w' by (intro exI [of _ q] exI [of _ c]) simp
  qed (use triv in blast)
qed

section \<open>The invariant\<close>

definition tip_hash :: "('h, 'k) overlay \<Rightarrow> 'h option" where
  "tip_hash nc =
     (if pending_canonicalizations nc \<noteq> [] then Some (last (pending_canonicalizations nc))
      else last_canonicalized_hash nc)"

definition has_state :: "('h, 'k) world \<Rightarrow> ('k \<rightharpoonup> db_value) \<Rightarrow> 'h \<Rightarrow> bool" where
  "has_state W D h \<longleftrightarrow> state_of W h \<subseteq> dom D"

definition right_values :: "('h, 'k) world \<Rightarrow> ('k \<rightharpoonup> db_value) \<Rightarrow> bool" where
  "right_values W D \<longleftrightarrow> (\<forall>k v. D k = Some v \<longrightarrow> v = value_of W k)"

definition canonical_up_to :: "('h, 'k) world \<Rightarrow> 'h \<Rightarrow> 'h set" where
  "canonical_up_to W h = {(parent_of W ^^ i) h |i. i \<le> number_of W h}"

definition rows_linked :: "('h, 'k) overlay \<Rightarrow> ('h, 'k) ref_window \<Rightarrow> bool" where
  "rows_linked nc w \<longleftrightarrow>
     (let pc = pending_canonicalizations nc; r = length (death_rows w); c = length pc
      in rw_pending_canonicalizations w = c \<and> c \<le> r \<and> drop (r - c) (map row_hash (death_rows w)) = pc \<and>
         pending_number w + (r - c) = front_block_number nc \<and>
         (c < r \<longrightarrow> last_canonicalized_hash nc = Some (row_hash (death_rows w ! (r - c - 1)))))"

definition rows_stored ::
    "('h, 'k) world \<Rightarrow> ('k \<rightharpoonup> db_value) \<Rightarrow> ('k \<rightharpoonup> db_value) \<Rightarrow> ('h, 'k) ref_window \<Rightarrow> bool" where
  "rows_stored W D N w \<longleftrightarrow>
     (\<forall>i < length (death_rows w) - rw_pending_canonicalizations w. has_state W D (row_hash (death_rows w ! i))) \<and>
     (\<forall>i < length (death_rows w). pending_prunings w \<le> i \<longrightarrow> has_state W N (row_hash (death_rows w ! i)))"

definition window_part ::
    "('h, 'k) codec \<Rightarrow> ('h, 'k) world \<Rightarrow> ('k \<rightharpoonup> db_value) \<Rightarrow> ('k \<rightharpoonup> db_value) \<Rightarrow> ('h, 'k) state_db \<Rightarrow> bool" where
  "window_part C W D N d \<longleftrightarrow>
     (case mode d of
        ArchiveAll \<Rightarrow> False
      | ArchiveCanonical \<Rightarrow>
          pruning d = None \<and>
          (\<forall>h. last_canonicalized_hash (non_canonical d) = Some h \<longrightarrow> (\<forall>x \<in> canonical_up_to W h. has_state W D x)) \<and>
          (\<forall>h. tip_hash (non_canonical d) = Some h \<longrightarrow> (\<forall>x \<in> canonical_up_to W h. has_state W N x))
      | Constrained cons \<Rightarrow>
          max_mem cons = None \<and>
          (\<exists>w. pruning d = Some w \<and> window_ok C (state_of W) w \<and> rows_linked (non_canonical d) w \<and> rows_stored W D N w))"

definition system_ok :: "('h, 'k) codec \<Rightarrow> ('h, 'k) world \<Rightarrow> ('h, 'k) stored_state_db \<Rightarrow> bool" where
  "system_ok C W s \<longleftrightarrow>
     (let d = database s; nc = non_canonical d; D = state_col (store s); N = state_col (next_store s)
      in noncanonical_ok C W nc \<and> right_values W D \<and> right_values W N \<and>
         (\<forall>h. last_canonicalized_hash nc = Some h \<longrightarrow> has_state W D h) \<and>
         (\<forall>h. tip_hash nc = Some h \<longrightarrow> has_state W N h) \<and>
         (pending_canonicalizations nc = [] \<longrightarrow> D = N) \<and> (idle nc \<longrightarrow> store s = next_store s) \<and>
         window_part C W D N d)"

lemma tip_row:
  assumes "rows_linked nc w" "death_rows w \<noteq> []"
  shows "tip_hash nc = Some (row_hash (last (death_rows w)))"
proof (cases "pending_canonicalizations nc = []")
  case True
  then show ?thesis
    using assms by (auto simp: rows_linked_def Let_def tip_hash_def last_conv_nth)
next
  case False
  let ?r = "length (death_rows w)" and ?c = "length (pending_canonicalizations nc)"
  have d: "drop (?r - ?c) (map row_hash (death_rows w)) = pending_canonicalizations nc"
    using assms(1) by (simp add: rows_linked_def Let_def)
  then have "last (pending_canonicalizations nc) = last (map row_hash (death_rows w))"
    using False last_drop [of "?r - ?c" "map row_hash (death_rows w)"] by fastforce
  then show ?thesis using False assms(2) by (simp add: tip_hash_def last_map)
qed

lemma rows_avoid_tip:
  assumes "rows_linked nc w" "rows_ok st (death_rows w)" "tip_hash nc = Some h" "row \<in> set (death_rows w)"
  shows "set (row_deleted row) \<inter> st h = {}"
proof -
  obtain i where i: "i < length (death_rows w)" "row = death_rows w ! i"
    using assms(4) by (metis in_set_conv_nth)
  then have ne: "death_rows w \<noteq> []" by auto
  then have "h = row_hash (death_rows w ! (length (death_rows w) - 1))"
    using tip_row [OF assms(1)] assms(3) by (simp add: last_conv_nth)
  moreover have "length (death_rows w) - 1 < length (death_rows w)" "i \<le> length (death_rows w) - 1"
    using i(1) by auto
  ultimately show ?thesis using assms(2) i(2) unfolding rows_ok_def by blast
qed

lemma right_values_apply:
  assumes "right_values W N" "\<forall>(k, v) \<in> set (inserted c). v = value_of W k"
  shows "right_values W (apply_change c N)"
  using assms put_all_apply [OF assms(2)]
  by (auto simp: right_values_def apply_change_def remove_all_apply split: if_splits)

lemma dom_apply_change: "dom (apply_change c N) = (dom N \<union> fst ` set (inserted c)) - set (deleted c)"
  by (simp add: apply_change_def)

lemma has_state_parent:
  assumes "world_ok W" "parent_state W h \<subseteq> dom N" "set (inserted_keys W h) \<subseteq> fst ` set (inserted c)"
    and "set (deleted c) \<inter> state_of W h = {}"
  shows "has_state W (apply_change c N) h"
proof -
  have "state_of W h \<subseteq> parent_state W h \<union> set (inserted_keys W h)"
    using assms(1) unfolding world_ok_def by blast
  then show ?thesis
    using assms(2-4) unfolding has_state_def dom_apply_change by blast
qed

section \<open>Preservation\<close>

lemma overlay_empty_ok: "noncanonical_ok C W (overlay_empty None)"
  by (simp add: noncanonical_ok_def kept_levels_ok_def kept_ok_def overlay_empty_def occurrences_def pinned_occurrences_def
      tally_def shape_ok_def path_ok_def)

lemma state_db_new_empty:
  assumes "state_db_new C m True (\<lambda>_. Inr None :: unit + _) = Some (Inr d)"
  shows "mode d = m" "non_canonical d = overlay_empty None"
    "pruning d = None \<or> pruning d = Some (ref_window_empty 0 True)"
    "m = ArchiveCanonical \<Longrightarrow> pruning d = None"
    "\<And>cons. m = Constrained cons \<Longrightarrow> max_mem cons = None \<and> pruning d = Some (ref_window_empty 0 True)"
proof -
  have nc: "overlay_new C (\<lambda>_. Inr None :: unit + _) = Some (Inr (overlay_empty None))"
    by (simp add: overlay_new_def)
  have rw: "ref_window_new C (\<lambda>_. Inr None :: unit + _) True = Some (Inr (ref_window_empty 0 True))"
    by (simp add: ref_window_new_def read_prune_journal.simps)
  show "mode d = m" "non_canonical d = overlay_empty None" "pruning d = None \<or> pruning d = Some (ref_window_empty 0 True)"
    "m = ArchiveCanonical \<Longrightarrow> pruning d = None"
    "\<And>cons. m = Constrained cons \<Longrightarrow> max_mem cons = None \<and> pruning d = Some (ref_window_empty 0 True)"
    using assms nc rw
    by (auto simp: state_db_new_def check_meta_def open_pruning_def split: pruning_mode.splits if_splits)
qed

lemma start_ok:
  assumes "state_db_new C m True (\<lambda>_. Inr None :: unit + _) = Some (Inr d)" "m \<noteq> ArchiveAll"
  shows "system_ok C W \<lparr>database = d, store = empty_store, next_store = empty_store\<rparr>"
proof -
  note d = state_db_new_empty [OF assms(1)]
  have w: "window_ok C (state_of W) (ref_window_empty 0 True)"
    by (simp add: window_ok_def index_ok_def rows_ok_def journal_keys_ok_def ref_window_empty_def)
  have "window_part C W Map.empty Map.empty d"
    using assms(2) d w
    by (cases m) (auto simp: window_part_def overlay_empty_def tip_hash_def last_canonicalized_hash_def rows_linked_def rows_stored_def
        ref_window_empty_def front_block_number_def)
  then show ?thesis
    using overlay_empty_ok d(2)
    by (auto simp: system_ok_def empty_store_def right_values_def overlay_empty_def tip_hash_def last_canonicalized_hash_def)
qed

lemma window_part_frame:
  assumes "mode d' = mode d" "pruning d' = pruning d"
    and "last_canonicalized (non_canonical d') = last_canonicalized (non_canonical d)"
    and "pending_canonicalizations (non_canonical d') = pending_canonicalizations (non_canonical d)"
  shows "window_part C W D N d' \<longleftrightarrow> window_part C W D N d"
  using assms by (simp add: window_part_def tip_hash_def last_canonicalized_hash_def rows_linked_def front_block_number_def cong: pruning_mode.case_cong)

lemma apply_empty_change [simp]: "apply_change empty_change N = N"
  by (simp add: apply_change_def empty_change_def)

lemma not_archive_all: "system_ok C W s \<Longrightarrow> mode (database s) \<noteq> ArchiveAll"
  by (auto simp: system_ok_def Let_def window_part_def)

text \<open>Most events leave the canonical chain, the window and the nodes of the store alone.\<close>

definition steady :: "('h, 'k) stored_state_db \<Rightarrow> ('h, 'k) stored_state_db \<Rightarrow> bool" where
  "steady s s' \<longleftrightarrow>
     pruning (database s') = pruning (database s) \<and>
     last_canonicalized (non_canonical (database s')) = last_canonicalized (non_canonical (database s)) \<and>
     pending_canonicalizations (non_canonical (database s')) = pending_canonicalizations (non_canonical (database s)) \<and>
     state_col (store s') = state_col (store s) \<and> state_col (next_store s') = state_col (next_store s)"

lemma insert_step_ok:
  assumes s: "system_ok C W s" and W: "world_ok W" and p: "proper W (Insert h) s"
  shows "\<exists>s'. execute C W (Insert h) s = Some s' \<and> system_ok C W s' \<and> steady s s'"
proof -
  let ?d = "database s" and ?nc = "non_canonical (database s)"
  have nc: "noncanonical_ok C W ?nc" using s by (simp add: system_ok_def Let_def)
  have h: "insertable W h ?nc" using p by simp
  obtain r nc' where r: "overlay_insert C h (number_of W h) (parent_of W h) (change_of W h) ?nc = Some (r, nc')"
    "case r of Inl (e :: unit state_db_error) \<Rightarrow> nc' = ?nc
     | Inr commit \<Rightarrow> inserted_into C W h ?nc nc' \<and> commit_data commit = empty_change"
    using overlay_insert_ok [OF nc W h, where 'e = unit] by blast
  obtain r' where ib: "insert_block C h (number_of W h) (parent_of W h) (change_of W h) ?d = Some (r', ?d\<lparr>non_canonical := nc'\<rparr>)"
    "case r' of Inl (e :: unit state_db_error) \<Rightarrow> (\<exists>e'. r = Inl e')
     | Inr c \<Rightarrow> (\<exists>c'. r = Inr c' \<and> commit_data c = commit_data c')"
    using r not_archive_all [OF s]
    by (cases "mode ?d"; cases r) (auto simp: insert_block_def Let_def)
  show ?thesis
  proof (cases r')
    case (Inl e)
    then have "nc' = ?nc" using ib(2) r(2) by auto
    then show ?thesis using ib(1) Inl s by (simp add: stage_def steady_def)
  next
    case (Inr c)
    then have i: "inserted_into C W h ?nc nc'" and c: "commit_data c = empty_change" using ib(2) r(2) by auto
    have "window_part C W D N (?d\<lparr>non_canonical := nc'\<rparr>) \<longleftrightarrow> window_part C W D N ?d" for D N
      using i by (intro window_part_frame) (simp_all add: inserted_into_def)
    then show ?thesis
      using ib(1) Inr s i c
      by (simp add: stage_def apply_state_commit_def system_ok_def Let_def inserted_into_def tip_hash_def last_canonicalized_hash_def idle_def
          steady_def)
  qed
qed

lemma commit_step_ok:
  assumes s: "system_ok C W s"
  shows "\<exists>s'. execute C W Commit s = Some s' \<and> system_ok C W s' \<and> store s' = next_store s \<and> next_store s' = next_store s \<and>
    tip_hash (non_canonical (database s')) = tip_hash (non_canonical (database s)) \<and>
    (\<forall>w. pruning (database s) = Some w \<longrightarrow> pruning (database s') = rw_apply_pending w)"
proof -
  let ?d = "database s" and ?nc = "non_canonical (database s)" and ?N = "state_col (next_store s)"
  have nc: "noncanonical_ok C W ?nc" using s by (simp add: system_ok_def Let_def)
  obtain nc' where nc': "overlay_apply_pending ?nc = Some nc'" "noncanonical_ok C W nc'"
    "pending_canonicalizations nc' = []" "pending_insertions nc' = []"
    "last_canonicalized_hash nc' = tip_hash ?nc"
    "front_block_number nc' = front_block_number ?nc + length (pending_canonicalizations ?nc)"
    using overlay_apply_pending_ok [OF nc] by (auto simp: tip_hash_def last_canonicalized_hash_def)
  have tip: "tip_hash nc' = tip_hash ?nc" using nc'(3,5) by (simp add: tip_hash_def)
  have "\<exists>d'. apply_pending ?d = Some d' \<and> non_canonical d' = nc' \<and> mode d' = mode ?d \<and> window_part C W ?N ?N d' \<and>
      (\<forall>w. pruning ?d = Some w \<longrightarrow> pruning d' = rw_apply_pending w)"
  proof (cases "pruning ?d")
    case None
    then have "window_part C W ?N ?N (?d\<lparr>non_canonical := nc'\<rparr>)"
      using s nc'(5) tip by (auto simp: system_ok_def Let_def window_part_def split: pruning_mode.splits)
    then show ?thesis using None nc'(1) by (simp add: apply_pending_def)
  next
    case (Some w)
    then obtain cons where m: "mode ?d = Constrained cons" "max_mem cons = None" and w: "window_ok C (state_of W) w"
      "rows_linked ?nc w" "rows_stored W (state_col (store s)) ?N w"
      using s by (auto simp: system_ok_def Let_def window_part_def split: pruning_mode.splits)
    let ?q = "pending_prunings w"
    obtain w' where w': "rw_apply_pending w = Some w'" "window_ok C (state_of W) w'"
      "death_rows w' = drop ?q (death_rows w)" "pending_number w' = pending_number w + ?q"
      "rw_pending_canonicalizations w' = 0" "pending_prunings w' = 0"
      using rw_apply_pending_ok [OF w(1)] by blast
    have q: "?q \<le> length (death_rows w)" using w(1) by (simp add: window_ok_def)
    have "rows_linked nc' w'"
    proof -
      have "last_canonicalized_hash nc' = Some (row_hash (death_rows w' ! (length (death_rows w') - 1)))"
        if "death_rows w' \<noteq> []"
      proof -
        have "last (death_rows w') = last (death_rows w)" "death_rows w \<noteq> []"
          using that w'(3) by (auto simp: last_drop)
        then show ?thesis using tip_row [OF w(2)] nc'(5) that by (simp add: last_conv_nth)
      qed
      then show ?thesis
        using w(2) w' nc'(3,6) q by (auto simp: rows_linked_def Let_def)
    qed
    moreover have "rows_stored W ?N ?N w'"
      using w(3) w' q by (auto simp: rows_stored_def)
    ultimately have "window_part C W ?N ?N (?d\<lparr>non_canonical := nc', pruning := Some w'\<rparr>)"
      using m w'(2) by (simp add: window_part_def)
    then show ?thesis using Some nc'(1) w'(1) by (simp add: apply_pending_def)
  qed
  then obtain d' where "apply_pending ?d = Some d'" "non_canonical d' = nc'" "window_part C W ?N ?N d'"
    "\<forall>w. pruning ?d = Some w \<longrightarrow> pruning d' = rw_apply_pending w" by blast
  then show ?thesis
    using s nc' tip by (simp add: system_ok_def Let_def)
qed

lemma abort_step_ok:
  assumes s: "system_ok C W s"
  shows "\<exists>s'. execute C W Abort s = Some s' \<and> system_ok C W s' \<and> store s' = store s \<and> next_store s' = store s"
proof -
  let ?d = "database s" and ?nc = "non_canonical (database s)" and ?D = "state_col (store s)"
  have nc: "noncanonical_ok C W ?nc" using s by (simp add: system_ok_def Let_def)
  obtain nc' where nc': "overlay_revert_pending ?nc = Some nc'" "noncanonical_ok C W nc'"
    "pending_canonicalizations nc' = []" "pending_insertions nc' = []"
    "last_canonicalized nc' = last_canonicalized ?nc"
    using overlay_revert_pending_ok [OF nc] by blast
  let ?d' = "?d\<lparr>non_canonical := nc', pruning := map_option rw_revert_pending (pruning ?d)\<rparr>"
  have r: "revert_pending ?d = Some ?d'" using nc'(1) by (simp add: revert_pending_def)
  have "window_part C W ?D ?D ?d'"
  proof (cases "pruning ?d")
    case None
    then show ?thesis
      using s nc'(3,5) by (auto simp: system_ok_def Let_def window_part_def tip_hash_def last_canonicalized_hash_def split: pruning_mode.splits)
  next
    case (Some w)
    then obtain cons where m: "mode ?d = Constrained cons" "max_mem cons = None" and w: "window_ok C (state_of W) w"
      "rows_linked ?nc w" "rows_stored W ?D (state_col (next_store s)) w"
      using s by (auto simp: system_ok_def Let_def window_part_def split: pruning_mode.splits)
    have "rows_linked nc' (rw_revert_pending w)"
      using w(2) nc'(3,5) by (auto simp: rows_linked_def Let_def rw_revert_pending_def front_block_number_def last_canonicalized_hash_def)
    moreover have "rows_stored W ?D ?D (rw_revert_pending w)"
      using w(3) by (auto simp: rows_stored_def rw_revert_pending_def Let_def)
    ultimately show ?thesis
      using m Some rw_revert_pending_ok [OF w(1)] by (simp add: window_part_def)
  qed
  then show ?thesis
    using s r nc' by (simp add: system_ok_def Let_def tip_hash_def last_canonicalized_hash_def)
qed

lemma canonical_parent:
  assumes nc: "noncanonical_ok C W nc" and h: "h \<in> bo_hash ` set (level_at (overlay_levels nc) (length (pending_canonicalizations nc)))"
    and p: "pending_canonicalizations nc \<noteq> [] \<Longrightarrow> parent_of W h = last (pending_canonicalizations nc)"
  shows "number_of W h = 0 \<or> tip_hash nc = Some (parent_of W h)" "number_of W h = 0 \<Longrightarrow> tip_hash nc = None"
    "number_of W h = front_block_number nc + length (pending_canonicalizations nc)"
proof -
  let ?pc = "pending_canonicalizations nc"
  show n: "number_of W h = front_block_number nc + length ?pc"
    using nc h unfolding noncanonical_ok_def kept_levels_ok_def shape_ok_def block_ok_def by fastforce
  show "number_of W h = 0 \<Longrightarrow> tip_hash nc = None"
    using n by (auto simp: front_block_number_def tip_hash_def last_canonicalized_hash_def split: option.splits)
  show "number_of W h = 0 \<or> tip_hash nc = Some (parent_of W h)"
  proof (cases "?pc = []")
    case True
    then have "parent_of W h \<in> base nc"
      using nc h unfolding noncanonical_ok_def kept_levels_ok_def shape_ok_def by fastforce
    then show ?thesis
      using True n by (auto simp: front_block_number_def base_def tip_hash_def last_canonicalized_hash_def split: option.splits)
  next
    case False
    then show ?thesis using p by (simp add: tip_hash_def)
  qed
qed

lemma parent_state_stored:
  assumes "\<And>h. tip_hash nc = Some h \<Longrightarrow> has_state W N h" "number_of W h = 0 \<or> tip_hash nc = Some (parent_of W h)"
  shows "parent_state W h \<subseteq> dom N"
  using assms by (auto simp: parent_state_def has_state_def)

lemma set_pruned_keys: "set (pruned_keys p q rows) = (\<Union>i\<in>{p..<q}. set (row_deleted (rows ! i)))"
  by (simp add: pruned_keys_def)

lemma pruned_keys_avoid:
  assumes "rows_ok st rows" "q \<le> j + 1" "j < length rows"
  shows "set (pruned_keys p q rows) \<inter> st (row_hash (rows ! j)) = {}"
proof -
  have "set (row_deleted (rows ! i)) \<inter> st (row_hash (rows ! j)) = {}" if "i < q" for i
    using assms that unfolding rows_ok_def by auto
  then show ?thesis unfolding set_pruned_keys by fastforce
qed

text \<open>The window and the store after a canonicalization in a mode that prunes.\<close>

lemma canonicalize_window_ok:
  assumes W: "world_ok W" and w: "window_ok C (state_of W) w" "rows_linked nc w" "rows_stored W D N w"
    and tip: "number_of W h = 0 \<or> tip_hash nc = Some (parent_of W h)" "\<And>h. tip_hash nc = Some h \<Longrightarrow> has_state W N h"
    and w1: "w1 = noted C h (inserted_keys W h) (deleted_keys W h) w"
    and q: "pending_prunings w \<le> q" "q \<le> length (death_rows w1)"
    and c: "inserted c = inserted (change_of W h)" "deleted c = pruned_keys (pending_prunings w) q (death_rows w1)"
  shows "window_ok C (state_of W) (w1\<lparr>pending_prunings := q\<rparr>)"
    "rows_linked (nc\<lparr>pending_canonicalizations := pending_canonicalizations nc @ [h]\<rparr>) (w1\<lparr>pending_prunings := q\<rparr>)"
    "rows_stored W D (apply_change c N) (w1\<lparr>pending_prunings := q\<rparr>)"
    "has_state W (apply_change c N) h"
proof -
  let ?rows = "death_rows w" and ?rows1 = "death_rows w1"
  have len: "length ?rows1 = Suc (length ?rows)" and hash: "map row_hash ?rows1 = map row_hash ?rows @ [h]"
    and more: "rw_pending_canonicalizations w1 = rw_pending_canonicalizations w + 1" "pending_number w1 = pending_number w"
    by (simp_all add: w1 noted_def)
  have hash_nth: "row_hash (?rows1 ! i) = row_hash (?rows ! i)" if "i < length ?rows" for i
    using that by (simp add: w1 noted_def nth_append)
  have hash_last: "row_hash (?rows1 ! length ?rows) = h"
    by (simp add: w1 noted_def nth_append)
  have "window_ok C (state_of W) w1"
    unfolding w1
  proof (rule noted_window_ok [OF w(1), of _ "parent_state W h"])
    show "set (row_deleted row) \<inter> parent_state W h = {}" if "row \<in> set (death_rows w)" for row
    proof (cases "number_of W h = 0")
      case False
      then have "tip_hash nc = Some (parent_of W h)" using tip(1) by simp
      then show ?thesis
        using rows_avoid_tip [OF w(2) _ _ that] w(1) False by (simp add: window_ok_def parent_state_def)
    qed (simp add: parent_state_def)
  qed (use W in \<open>simp_all add: world_ok_def\<close>)
  then have wok: "window_ok C (state_of W) w1" "rows_ok (state_of W) ?rows1" by (simp_all add: window_ok_def)
  then show "window_ok C (state_of W) (w1\<lparr>pending_prunings := q\<rparr>)"
    using q(2) by (simp add: window_ok_def index_ok_def journal_keys_ok_def)
  show "rows_linked (nc\<lparr>pending_canonicalizations := pending_canonicalizations nc @ [h]\<rparr>) (w1\<lparr>pending_prunings := q\<rparr>)"
    using w(2) hash more len hash_nth
    by (auto simp: rows_linked_def Let_def front_block_number_def last_canonicalized_hash_def)
  have dom: "dom (apply_change c N) = (dom N \<union> set (inserted_keys W h)) - set (pruned_keys (pending_prunings w) q ?rows1)"
    using c by (simp add: dom_apply_change)
  have "set (pruned_keys (pending_prunings w) q ?rows1) \<inter> state_of W h = {}"
    using pruned_keys_avoid [OF wok(2), of q "length ?rows"] q(2) len hash_last by simp
  then show new: "has_state W (apply_change c N) h"
    using c parent_state_stored [OF tip(2,1)] by (intro has_state_parent [OF W]) simp_all
  have "has_state W (apply_change c N) (row_hash (?rows1 ! i))" if i: "i < length ?rows1" "q \<le> i" for i
  proof (cases "i = length ?rows")
    case True
    then show ?thesis using new hash_last by simp
  next
    case False
    then have "has_state W N (row_hash (?rows1 ! i))"
      using w(3) i len q(1) hash_nth by (simp add: rows_stored_def)
    moreover have "set (pruned_keys (pending_prunings w) q ?rows1) \<inter> state_of W (row_hash (?rows1 ! i)) = {}"
      using i by (intro pruned_keys_avoid [OF wok(2)]) auto
    ultimately show ?thesis unfolding has_state_def dom by blast
  qed
  then show "rows_stored W D (apply_change c N) (w1\<lparr>pending_prunings := q\<rparr>)"
    using w(3) more len hash_nth by (auto simp: rows_stored_def)
qed

lemma canonical_up_to_step:
  assumes "world_ok W"
  shows "canonical_up_to W h = insert h (if number_of W h = 0 then {} else canonical_up_to W (parent_of W h))"
proof (cases "number_of W h = 0")
  case True
  then show ?thesis by (auto simp: canonical_up_to_def)
next
  case False
  then have n: "number_of W h = Suc (number_of W (parent_of W h))" using assms by (simp add: world_ok_def)
  have "x \<in> canonical_up_to W h \<longleftrightarrow> x = h \<or> x \<in> canonical_up_to W (parent_of W h)" for x
  proof
    assume "x \<in> canonical_up_to W h"
    then obtain i where "x = (parent_of W ^^ i) h" "i \<le> number_of W h" by (auto simp: canonical_up_to_def)
    then show "x = h \<or> x \<in> canonical_up_to W (parent_of W h)"
      using n by (cases i) (auto simp: canonical_up_to_def funpow_Suc_right simp del: funpow.simps)
  next
    assume "x = h \<or> x \<in> canonical_up_to W (parent_of W h)"
    then consider "x = h" | i where "x = (parent_of W ^^ i) (parent_of W h)" "i \<le> number_of W (parent_of W h)"
      by (auto simp: canonical_up_to_def)
    then show "x \<in> canonical_up_to W h"
    proof cases
      case 1
      then show ?thesis unfolding canonical_up_to_def by (auto intro!: exI [of _ 0])
    next
      case 2
      then show ?thesis
        using n unfolding canonical_up_to_def by (auto intro!: exI [of _ "Suc i"] simp: funpow_Suc_right simp del: funpow.simps)
    qed
  qed
  then show ?thesis using False by auto
qed

lemma tip_snoc [simp]: "tip_hash (nc\<lparr>pending_canonicalizations := xs @ [h]\<rparr>) = Some h"
  by (simp add: tip_hash_def)

text \<open>The whole of \<open>canonicalize_block\<close> in a mode that prunes.\<close>

definition window_journal ::
    "('h, 'k) codec \<Rightarrow> 'h \<Rightarrow> 'k list \<Rightarrow> 'k list \<Rightarrow> ('h, 'k) ref_window \<Rightarrow> bytes change_set \<Rightarrow> bytes change_set" where
  "window_journal C h ins del w c =
     c\<lparr>inserted := inserted c @ [(prune_journal_key C (pending_number w + length (death_rows w)),
         encode_prune C \<lparr>pj_hash = h, pj_inserted = ins, pj_deleted = del\<rparr>)]\<rparr>"

lemma canonicalize_pruned:
  assumes d: "mode d = Constrained cons" "max_mem cons = None" "pruning d = Some w" "window_ok C st w"
    and nc: "overlay_canonicalize C h empty_commit (non_canonical d) = Some (Inr c :: unit state_db_error + _, nc')"
  defines "ins \<equiv> map fst (inserted (commit_data c))" and "del \<equiv> deleted (commit_data c)"
  defines "w1 \<equiv> noted C h ins del w"
  shows "\<exists>q c'. canonicalize_block C h d = Some (Inr c' :: unit state_db_error + _,
      d\<lparr>non_canonical := nc', pruning := Some (w1\<lparr>pending_prunings := q\<rparr>)\<rparr>) \<and>
    pending_prunings w \<le> q \<and> q \<le> length (death_rows w1) \<and>
    commit_data c' = \<lparr>inserted = inserted (commit_data c), deleted = pruned_keys (pending_prunings w) q (death_rows w1)\<rparr> \<and>
    commit_meta c' = pruned_meta C (pending_prunings w) q w1 (window_journal C h ins del w (commit_meta c)) \<and>
    pruned_up_to cons (db_pinned d) (w1\<lparr>pending_prunings := q\<rparr>)"
proof -
  have e: "(commit_data c)\<lparr>deleted := []\<rparr> = \<lparr>inserted = inserted (commit_data c), deleted = []\<rparr>"
    by (cases "commit_data c") simp
  define c2 where "c2 = insert_meta (prune_journal_key C (pending_number w + length (death_rows w)))
      (encode_prune C \<lparr>pj_hash = h, pj_inserted = ins, pj_deleted = del\<rparr>)
      (c\<lparr>commit_data := (commit_data c)\<lparr>deleted := []\<rparr>\<rparr>)"
  have n: "note_canonical C h c w = Some (c2, w1)"
    "commit_data c2 = \<lparr>inserted = inserted (commit_data c), deleted = []\<rparr>"
    "commit_meta c2 = window_journal C h ins del w (commit_meta c)"
    using d(4) note_canonical_eq [of w C h c]
    by (simp_all add: window_ok_def insert_meta_def window_journal_def c2_def w1_def ins_def del_def e)
  have "pending_prunings w1 \<le> length (death_rows w1)" "pending_prunings w1 = pending_prunings w"
    using d(4) by (simp_all add: window_ok_def noted_def w1_def)
  then obtain q c3 where p: "prune_loop C cons (db_pinned d) c2 w1 = (c3, w1\<lparr>pending_prunings := q\<rparr>)"
    "pending_prunings w \<le> q" "q \<le> length (death_rows w1)"
    "commit_data c3 = \<lparr>inserted = inserted (commit_data c2),
       deleted = deleted (commit_data c2) @ pruned_keys (pending_prunings w) q (death_rows w1)\<rparr>"
    "commit_meta c3 = pruned_meta C (pending_prunings w) q w1 (commit_meta c2)"
    "pruned_up_to cons (db_pinned d) (w1\<lparr>pending_prunings := q\<rparr>)"
    using prune_loop_ok [OF _ d(2), of w1 C "db_pinned d" c2] by auto
  have "canonicalize_block C h d = Some (Inr c3 :: unit state_db_error + _,
      d\<lparr>non_canonical := nc', pruning := Some (w1\<lparr>pending_prunings := q\<rparr>)\<rparr>)"
    using d(1,3) nc n(1) p(1) by (simp add: canonicalize_block_def prune_window_def Let_def)
  then show ?thesis using p n(2,3) by (intro exI [of _ q] exI [of _ c3]) simp
qed

lemma canonicalize_window_part:
  assumes s: "system_ok C W s" and W: "world_ok W"
    and nc: "overlay_canonicalize C h empty_commit (non_canonical (database s)) =
        Some (Inr c :: unit state_db_error + _, nc')"
      "nc' = (non_canonical (database s))\<lparr>pending_canonicalizations := pending_canonicalizations (non_canonical (database s)) @ [h]\<rparr>"
      "commit_data c = \<lparr>inserted = inserted (change_of W h), deleted = deleted_keys W h\<rparr>"
    and tip: "number_of W h = 0 \<or> tip_hash (non_canonical (database s)) = Some (parent_of W h)"
  shows "\<exists>c' d'. canonicalize_block C h (database s) = Some (Inr c' :: unit state_db_error + _, d') \<and> non_canonical d' = nc' \<and>
    inserted (commit_data c') = inserted (change_of W h) \<and>
    has_state W (apply_change (commit_data c') (state_col (next_store s))) h \<and>
    window_part C W (state_col (store s)) (apply_change (commit_data c') (state_col (next_store s))) d'"
proof -
  let ?d = "database s" and ?N = "state_col (next_store s)" and ?nc = "non_canonical (database s)"
  have hs: "\<And>h. tip_hash ?nc = Some h \<Longrightarrow> has_state W ?N h"
    using s by (simp add: system_ok_def Let_def)
  have wp: "window_part C W (state_col (store s)) ?N ?d" using s by (simp add: system_ok_def Let_def)
  show ?thesis
  proof (cases "mode ?d")
    case (Constrained cons)
    then obtain w where m: "max_mem cons = None" and w: "pruning ?d = Some w" "window_ok C (state_of W) w"
      "rows_linked ?nc w" "rows_stored W (state_col (store s)) ?N w"
      using wp by (auto simp: window_part_def)
    let ?w1 = "noted C h (inserted_keys W h) (deleted_keys W h) w"
    have ins: "map fst (inserted (commit_data c)) = inserted_keys W h" "deleted (commit_data c) = deleted_keys W h"
      using nc(3) by simp_all
    obtain q c3 where p: "canonicalize_block C h ?d = Some (Inr c3 :: unit state_db_error + _,
        ?d\<lparr>non_canonical := nc', pruning := Some (?w1\<lparr>pending_prunings := q\<rparr>)\<rparr>)"
      "pending_prunings w \<le> q" "q \<le> length (death_rows ?w1)"
      "commit_data c3 = \<lparr>inserted = inserted (commit_data c), deleted = pruned_keys (pending_prunings w) q (death_rows ?w1)\<rparr>"
      using canonicalize_pruned [OF Constrained m w(1,2) nc(1), unfolded ins] by blast
    note * = canonicalize_window_ok [OF W w(2-4) tip hs refl p(2,3), of "commit_data c3"]
    have "window_part C W (state_col (store s)) (apply_change (commit_data c3) ?N)
        (?d\<lparr>non_canonical := nc', pruning := Some (?w1\<lparr>pending_prunings := q\<rparr>)\<rparr>)"
      using * p(4) nc(3) Constrained m by (simp add: window_part_def nc(2))
    then show ?thesis using * p nc(3) by simp
  next
    case ArchiveAll
    then show ?thesis using wp by (simp add: window_part_def)
  next
    case ArchiveCanonical
    then have np: "pruning ?d = None" using wp by (simp add: window_part_def)
    let ?c = "c\<lparr>commit_data := (commit_data c)\<lparr>deleted := []\<rparr>\<rparr>"
    have r: "canonicalize_block C h ?d = Some (Inr ?c :: unit state_db_error + _, ?d\<lparr>non_canonical := nc'\<rparr>)"
      using ArchiveCanonical np nc(1) by (simp add: canonicalize_block_def prune_window_def)
    let ?N' = "apply_change (commit_data ?c) ?N"
    have dom: "dom ?N \<subseteq> dom ?N'" using nc(3) by (auto simp: dom_apply_change)
    have new: "has_state W ?N' h"
      using nc(3) parent_state_stored [OF hs tip] by (intro has_state_parent [OF W]) simp_all
    have "has_state W ?N' x" if "x \<in> canonical_up_to W h" for x
    proof (cases "x = h")
      case False
      then have "tip_hash ?nc = Some (parent_of W h)" "x \<in> canonical_up_to W (parent_of W h)"
        using that tip canonical_up_to_step [OF W, of h] by (auto split: if_splits)
      then have "has_state W ?N x" using wp ArchiveCanonical by (simp add: window_part_def)
      then show ?thesis using dom by (auto simp: has_state_def)
    qed (use new in simp)
    then have "window_part C W (state_col (store s)) ?N' (?d\<lparr>non_canonical := nc'\<rparr>)"
      using wp ArchiveCanonical by (simp add: window_part_def nc(2) last_canonicalized_hash_def)
    then show ?thesis using r new nc(3) by simp
  qed
qed

lemma empty_commit_data: "inserted (commit_data empty_commit) = []" "deleted (commit_data empty_commit) = []"
  by (simp_all add: empty_commit_def empty_change_def)

lemma canonicalize_step_ok:
  assumes s: "system_ok C W s" and W: "world_ok W" and p: "proper W (Canonicalize h) s"
  shows "\<exists>s'. execute C W (Canonicalize h) s = Some s' \<and> system_ok C W s'"
proof -
  let ?d = "database s" and ?nc = "non_canonical (database s)" and ?N = "state_col (next_store s)"
  have nc: "noncanonical_ok C W ?nc" using s by (simp add: system_ok_def Let_def)
  have par: "pending_canonicalizations ?nc \<noteq> [] \<Longrightarrow> parent_of W h = last (pending_canonicalizations ?nc)"
    using p by (simp add: Let_def)
  obtain r nc' where r: "overlay_canonicalize C h empty_commit ?nc = Some (r, nc')"
    "case r of Inl (e :: unit state_db_error) \<Rightarrow> nc' = ?nc \<and> e = InvalidBlock
     | Inr c \<Rightarrow> nc' = ?nc\<lparr>pending_canonicalizations := pending_canonicalizations ?nc @ [h]\<rparr> \<and> noncanonical_ok C W nc' \<and>
         h \<in> bo_hash ` set (level_at (overlay_levels ?nc) (length (pending_canonicalizations ?nc))) \<and>
         commit_data c = \<lparr>inserted = inserted (change_of W h), deleted = deleted_keys W h\<rparr>"
    using overlay_canonicalize_ok [OF nc W par, of empty_commit, where 'e = unit, unfolded empty_commit_data append_Nil]
    by blast
  show ?thesis
  proof (cases r)
    case (Inl e)
    then have "canonicalize_block C h ?d = Some (Inl e, ?d)"
      using r not_archive_all [OF s] by (simp add: canonicalize_block_def)
    then show ?thesis using s by (simp add: stage_def)
  next
    case (Inr c)
    have c: "nc' = ?nc\<lparr>pending_canonicalizations := pending_canonicalizations ?nc @ [h]\<rparr>" "noncanonical_ok C W nc'"
      "h \<in> bo_hash ` set (level_at (overlay_levels ?nc) (length (pending_canonicalizations ?nc)))"
      "commit_data c = \<lparr>inserted = inserted (change_of W h), deleted = deleted_keys W h\<rparr>"
      using r(2) unfolding Inr sum.case by blast+
    note tip = canonical_parent(1) [OF nc c(3) par]
    obtain c' d' where d': "canonicalize_block C h ?d = Some (Inr c' :: unit state_db_error + _, d')"
      "non_canonical d' = nc'" "inserted (commit_data c') = inserted (change_of W h)"
      "has_state W (apply_change (commit_data c') ?N) h"
      "window_part C W (state_col (store s)) (apply_change (commit_data c') ?N) d'"
      using canonicalize_window_part [OF s W r(1) [unfolded Inr] c(1,4) tip] by blast
    have "right_values W (apply_change (commit_data c') ?N)"
      using s W d'(3) by (intro right_values_apply) (simp_all add: system_ok_def Let_def world_ok_def)
    then show ?thesis
      using s d' c(1,2)
      by (simp add: stage_def apply_state_commit_def system_ok_def Let_def idle_def last_canonicalized_hash_def)
  qed
qed

text \<open>The two outcomes of a canonicalization in a mode that prunes, in full.\<close>

lemma canonicalize_cases:
  assumes s: "system_ok C W s" and W: "world_ok W" and p: "proper W (Canonicalize h) s"
    and e: "execute C W (Canonicalize h) s = Some s'" and w: "pruning (database s) = Some w"
  defines "w1 \<equiv> noted C h (inserted_keys W h) (deleted_keys W h) w"
  obtains "s' = s" | q c c' nc' where
    "overlay_canonicalize C h empty_commit (non_canonical (database s)) = Some (Inr c :: unit state_db_error + _, nc')"
    "number_of W h = front_block_number (non_canonical (database s)) + length (pending_canonicalizations (non_canonical (database s)))"
    "number_of W h = 0 \<longleftrightarrow> tip_hash (non_canonical (database s)) = None"
    "number_of W h \<noteq> 0 \<Longrightarrow> tip_hash (non_canonical (database s)) = Some (parent_of W h)"
    "pending_prunings w \<le> q" "q \<le> length (death_rows w1)"
    "pruning (database s') = Some (w1\<lparr>pending_prunings := q\<rparr>)" "tip_hash (non_canonical (database s')) = Some h"
    "commit_data c' = \<lparr>inserted = inserted (change_of W h), deleted = pruned_keys (pending_prunings w) q (death_rows w1)\<rparr>"
    "commit_meta c' = pruned_meta C (pending_prunings w) q w1
       (window_journal C h (inserted_keys W h) (deleted_keys W h) w (commit_meta c))"
    "next_store s' = apply_state_commit c' (next_store s)" "store s' = store s"
proof -
  let ?d = "database s" and ?nc = "non_canonical (database s)"
  have nc: "noncanonical_ok C W ?nc" using s by (simp add: system_ok_def Let_def)
  have par: "pending_canonicalizations ?nc \<noteq> [] \<Longrightarrow> parent_of W h = last (pending_canonicalizations ?nc)"
    using p by (simp add: Let_def)
  obtain cons where m: "mode ?d = Constrained cons" "max_mem cons = None" "window_ok C (state_of W) w"
    using s w by (auto simp: system_ok_def Let_def window_part_def split: pruning_mode.splits)
  obtain r nc' where r: "overlay_canonicalize C h empty_commit ?nc = Some (r, nc')"
    "case r of Inl (e :: unit state_db_error) \<Rightarrow> nc' = ?nc \<and> e = InvalidBlock
     | Inr c \<Rightarrow> nc' = ?nc\<lparr>pending_canonicalizations := pending_canonicalizations ?nc @ [h]\<rparr> \<and> noncanonical_ok C W nc' \<and>
         h \<in> bo_hash ` set (level_at (overlay_levels ?nc) (length (pending_canonicalizations ?nc))) \<and>
         commit_data c = \<lparr>inserted = inserted (change_of W h), deleted = deleted_keys W h\<rparr>"
    using overlay_canonicalize_ok [OF nc W par, of empty_commit, where 'e = unit, unfolded empty_commit_data append_Nil]
    by blast
  show ?thesis
  proof (cases r)
    case (Inl x)
    then have "canonicalize_block C h ?d = Some (Inl x :: unit state_db_error + _, ?d)"
      using r m(1) by (simp add: canonicalize_block_def)
    then have "s' = s" using e by (simp add: stage_def)
    then show ?thesis by (rule that(1))
  next
    case (Inr c)
    have c: "nc' = ?nc\<lparr>pending_canonicalizations := pending_canonicalizations ?nc @ [h]\<rparr>"
      "h \<in> bo_hash ` set (level_at (overlay_levels ?nc) (length (pending_canonicalizations ?nc)))"
      "commit_data c = \<lparr>inserted = inserted (change_of W h), deleted = deleted_keys W h\<rparr>"
      using r(2) unfolding Inr sum.case by blast+
    have ins: "inserted (commit_data c) = inserted (change_of W h)" "deleted (commit_data c) = deleted_keys W h"
      using c(3) by simp_all
    obtain q c' where q: "canonicalize_block C h ?d = Some (Inr c' :: unit state_db_error + _,
        ?d\<lparr>non_canonical := nc', pruning := Some (w1\<lparr>pending_prunings := q\<rparr>)\<rparr>)"
      "pending_prunings w \<le> q" "q \<le> length (death_rows w1)"
      "commit_data c' = \<lparr>inserted = inserted (change_of W h), deleted = pruned_keys (pending_prunings w) q (death_rows w1)\<rparr>"
      "commit_meta c' = pruned_meta C (pending_prunings w) q w1
         (window_journal C h (inserted_keys W h) (deleted_keys W h) w (commit_meta c))"
      using canonicalize_pruned [OF m(1,2) w m(3) r(1) [unfolded Inr], unfolded ins] w1_def by blast
    have tip: "number_of W h = 0 \<longleftrightarrow> tip_hash ?nc = None" "number_of W h \<noteq> 0 \<Longrightarrow> tip_hash ?nc = Some (parent_of W h)"
      using canonical_parent(1,2) [OF nc c(2) par] by auto
    show ?thesis
      using q(1) e
      by (intro that(2) [OF r(1) [unfolded Inr] canonical_parent(3) [OF nc c(2) par] tip q(2,3) _ _ q(4,5)])
        (auto simp: stage_def c(1))
  qed
qed

lemma system_frame:
  assumes s: "system_ok C W s" and nc: "noncanonical_ok C W (non_canonical d')"
    "last_canonicalized (non_canonical d') = last_canonicalized (non_canonical (database s))"
    "pending_canonicalizations (non_canonical d') = pending_canonicalizations (non_canonical (database s))"
    "pending_insertions (non_canonical d') = pending_insertions (non_canonical (database s))"
    and d: "mode d' = mode (database s)" "pruning d' = pruning (database s)"
  shows "system_ok C W (s\<lparr>database := d'\<rparr>)"
proof -
  have "window_part C W D N d' \<longleftrightarrow> window_part C W D N (database s)" for D N
    using nc d by (intro window_part_frame)
  then show ?thesis
    using s nc by (simp add: system_ok_def Let_def tip_hash_def last_canonicalized_hash_def idle_def)
qed

lemma pin_step_ok:
  assumes s: "system_ok C W s"
  shows "system_ok C W (s\<lparr>database := snd (pin h (database s))\<rparr>)" "steady s (s\<lparr>database := snd (pin h (database s))\<rparr>)"
proof -
  let ?nc = "non_canonical (database s)"
  have nc: "noncanonical_ok C W ?nc" "noncanonical_ok C W (overlay_pin h ?nc)"
    using s overlay_pin_ok by (auto simp: system_ok_def Let_def)
  have f: "last_canonicalized (overlay_pin h ?nc) = last_canonicalized ?nc"
    "pending_canonicalizations (overlay_pin h ?nc) = pending_canonicalizations ?nc"
    "pending_insertions (overlay_pin h ?nc) = pending_insertions ?nc" by (simp_all add: overlay_pin_def)
  show "system_ok C W (s\<lparr>database := snd (pin h (database s))\<rparr>)"
    using nc f by (intro system_frame [OF s])
      (auto simp: pin_def Let_def split: pruning_mode.splits option.splits)
  show "steady s (s\<lparr>database := snd (pin h (database s))\<rparr>)"
    using f by (auto simp: steady_def pin_def Let_def split: pruning_mode.splits option.splits)
qed

lemma unpin_step_ok:
  assumes s: "system_ok C W s"
  shows "\<exists>s'. execute C W (Unpin h) s = Some s' \<and> system_ok C W s' \<and> steady s s'"
proof -
  let ?d = "database s" and ?nc = "non_canonical (database s)"
  have nc: "noncanonical_ok C W ?nc" using s by (simp add: system_ok_def Let_def)
  obtain nc' where nc': "overlay_unpin h ?nc = Some nc'" "noncanonical_ok C W nc'"
    "last_canonicalized nc' = last_canonicalized ?nc" "pending_canonicalizations nc' = pending_canonicalizations ?nc"
    "pending_insertions nc' = pending_insertions ?nc"
    using overlay_unpin_ok [OF nc] by blast
  consider "db_pinned ?d h = None" | n where "db_pinned ?d h = Some n" "n - 1 = 0" | n where "db_pinned ?d h = Some n" "n - 1 \<noteq> 0"
    by (cases "db_pinned ?d h") auto
  then show ?thesis
  proof cases
    case 1
    then show ?thesis using s by (simp add: unpin_def steady_def)
  next
    case 2
    have "system_ok C W (s\<lparr>database := ?d\<lparr>non_canonical := nc', db_pinned := (db_pinned ?d)(h := None)\<rparr>\<rparr>)"
      by (rule system_frame [OF s]) (simp_all add: nc')
    then show ?thesis using 2 nc' by (simp add: unpin_def steady_def)
  next
    case 3
    have "system_ok C W (s\<lparr>database := ?d\<lparr>db_pinned := (db_pinned ?d)(h \<mapsto> n - 1)\<rparr>\<rparr>)"
      by (rule system_frame [OF s]) (simp_all add: nc)
    then show ?thesis using 3 by (simp add: unpin_def steady_def)
  qed
qed

lemma write_now_ok:
  assumes s: "system_ok C W s" and i: "idle (non_canonical (database s))"
    and nc: "noncanonical_ok C W nc'" "static nc' = static (non_canonical (database s))"
    and c: "\<And>x. c = Some x \<Longrightarrow> commit_data x = empty_change"
  shows "system_ok C W (write_now (c, (database s)\<lparr>non_canonical := nc'\<rparr>) s)"
    "steady s (write_now (c, (database s)\<lparr>non_canonical := nc'\<rparr>) s)"
proof -
  let ?d' = "(database s)\<lparr>non_canonical := nc'\<rparr>"
  have ok: "system_ok C W (s\<lparr>database := ?d'\<rparr>)"
    using nc by (intro system_frame [OF s]) simp_all
  have eq: "store s = next_store s" using s i by (simp add: system_ok_def Let_def)
  show "steady s (write_now (c, ?d') s)"
    using c eq nc(2) by (auto simp: steady_def write_now_def apply_state_commit_def Let_def split: option.splits)
  show "system_ok C W (write_now (c, ?d') s)"
  proof (cases c)
    case None
    then show ?thesis using ok by (simp add: write_now_def)
  next
    case (Some x)
    then show ?thesis
      using ok c [OF Some] eq by (simp add: write_now_def apply_state_commit_def system_ok_def Let_def)
  qed
qed

lemma revert_one_step_ok:
  assumes s: "system_ok C W s" and p: "proper W RevertOne s"
  shows "\<exists>s'. execute C W RevertOne s = Some s' \<and> system_ok C W s' \<and> steady s s'"
proof -
  let ?d = "database s" and ?nc = "non_canonical (database s)"
  have nc: "noncanonical_ok C W ?nc" using s by (simp add: system_ok_def Let_def)
  have i: "idle ?nc" using p by simp
  note r = overlay_revert_one_ok [OF nc] i [unfolded idle_def]
  have "revert_one ?d = (fst (overlay_revert_one ?nc), ?d\<lparr>non_canonical := snd (overlay_revert_one ?nc)\<rparr>)"
    using not_archive_all [OF s] by (simp add: revert_one_def split: pruning_mode.splits prod.splits)
  then show ?thesis
    using write_now_ok [OF s i r(1,2) r(4)] i by (simp add: idle_def)
qed

lemma remove_step_ok:
  assumes s: "system_ok C W s" and p: "proper W (Remove h) s"
  shows "\<exists>s'. execute C W (Remove h) s = Some s' \<and> system_ok C W s' \<and> steady s s'"
proof -
  let ?d = "database s" and ?nc = "non_canonical (database s)"
  have nc: "noncanonical_ok C W ?nc" using s by (simp add: system_ok_def Let_def)
  have i: "idle ?nc" using p by simp
  then have "pending_canonicalizations ?nc = []" "pending_insertions ?nc = []" by (simp_all add: idle_def)
  from overlay_remove_ok [OF nc this, of h] obtain c nc' where r:
    "overlay_remove h ?nc = Some (c, nc')" "noncanonical_ok C W nc'" "static nc' = static ?nc"
    "\<And>x. c = Some x \<Longrightarrow> commit_data x = empty_change" by blast
  have "remove_block h ?d = Some (c, ?d\<lparr>non_canonical := nc'\<rparr>)"
    using not_archive_all [OF s] r(1) by (cases "mode ?d") (simp_all add: remove_block_def)
  then have "execute C W (Remove h) s = Some (write_now (c, ?d\<lparr>non_canonical := nc'\<rparr>) s)" by simp
  with write_now_ok [OF s i r(2,3) r(4)] show ?thesis by blast
qed

text \<open>No properly used call panics, and each keeps the invariant.\<close>

lemma execute_ok:
  assumes s: "system_ok C W s" and W: "world_ok W" and p: "proper W ev s"
  shows "\<exists>s'. execute C W ev s = Some s' \<and> system_ok C W s'"
proof (cases ev)
  case (Insert h)
  from insert_step_ok [OF s W p [unfolded Insert]] show ?thesis unfolding Insert by blast
next
  case (Canonicalize h)
  from canonicalize_step_ok [OF s W p [unfolded Canonicalize]] show ?thesis unfolding Canonicalize .
next
  case (Pin h)
  from pin_step_ok(1) [OF s, of h] show ?thesis unfolding Pin by simp
next
  case (Unpin h)
  from unpin_step_ok [OF s, of h] show ?thesis unfolding Unpin by blast
next
  case Commit
  from commit_step_ok [OF s] show ?thesis unfolding Commit by blast
next
  case Abort
  from abort_step_ok [OF s] show ?thesis unfolding Abort by blast
next
  case RevertOne
  from revert_one_step_ok [OF s p [unfolded RevertOne]] show ?thesis unfolding RevertOne by blast
next
  case (Remove h)
  from remove_step_ok [OF s p [unfolded Remove]] show ?thesis unfolding Remove by blast
qed

lemma run_ok:
  assumes "state_db_run C W m evs s" "world_ok W" "m \<noteq> ArchiveAll"
  shows "system_ok C W s"
  using assms(1)
proof (induction rule: state_db_run.induct)
  case (start d)
  then show ?case using start_ok assms(3) by blast
next
  case (step evs s ev s')
  then show ?case using execute_ok [OF step.IH assms(2) step.hyps(2)] by force
qed

lemma insert_block_mode: "insert_block C h n p c d = Some r \<Longrightarrow> mode (snd r) = mode d"
  by (auto simp: insert_block_def Let_def split: pruning_mode.splits prod.splits)

lemma prune_window_mode: "prune_window C c d = (c', d') \<Longrightarrow> mode d' = mode d"
  by (auto simp: prune_window_def split: option.splits pruning_mode.splits prod.splits)

lemma canonicalize_block_mode:
  assumes "canonicalize_block C h d = Some (r :: ('e state_db_error + 'k commit_set) \<times> ('h, 'k) state_db)"
  shows "mode (snd r) = mode d"
proof (cases "mode d = ArchiveAll")
  case True
  then show ?thesis using assms by (auto simp: canonicalize_block_def)
next
  case False
  then obtain x :: "'e state_db_error + 'k commit_set" and nc where x: "overlay_canonicalize C h empty_commit (non_canonical d) = Some (x, nc)"
    using assms by (auto simp: canonicalize_block_def split: option.splits)
  show ?thesis
  proof (cases x)
    case (Inl e)
    then show ?thesis using assms x False by (auto simp: canonicalize_block_def)
  next
    case (Inr c)
    then show ?thesis
      using assms x False
      by (cases "pruning d")
        (auto simp: canonicalize_block_def Let_def dest!: prune_window_mode split: option.splits prod.splits)
  qed
qed

lemma write_now_mode: "mode (database (write_now r s)) = mode (snd r)"
  by (simp add: write_now_def Let_def split: option.splits)

lemma execute_mode:
  assumes "execute C W ev s = Some s'"
  shows "mode (database s') = mode (database s)"
proof (cases ev)
  case (Insert h)
  then show ?thesis using assms by (auto simp: stage_def dest: insert_block_mode)
next
  case (Canonicalize h)
  then show ?thesis using assms by (auto simp: stage_def dest: canonicalize_block_mode)
next
  case (Pin h)
  then show ?thesis using assms by (auto simp: pin_def Let_def split: pruning_mode.splits)
next
  case (Unpin h)
  then show ?thesis using assms by (auto simp: unpin_def split: option.splits if_splits)
next
  case Commit
  then show ?thesis using assms by (auto simp: apply_pending_def split: option.splits)
next
  case Abort
  then show ?thesis using assms by (auto simp: revert_pending_def)
next
  case RevertOne
  then show ?thesis
    using assms by (auto simp: write_now_mode revert_one_def split: pruning_mode.splits prod.splits)
next
  case (Remove h)
  then show ?thesis
    using assms by (auto simp: write_now_mode remove_block_def split: pruning_mode.splits prod.splits)
qed

lemma run_mode:
  assumes "state_db_run C W m evs s"
  shows "mode (database s) = m"
  using assms
proof (induction rule: state_db_run.induct)
  case (start d)
  then show ?case
    by (auto simp: state_db_new_def split: option.splits sum.splits)
next
  case (step evs s ev s')
  then show ?case using execute_mode by metis
qed

end
