(* ===== verification/State_Db_Journal.thy ===== *)
theory State_Db_Journal
  imports State_Db_System
begin

text \<open>
  The pruning journal of the metadata column: what the commits of the state database write there is
  enough to build the pruning window again after a restart.
\<close>

section \<open>Commits that leave the pruning journal alone\<close>

definition window_keys :: "('h, 'k) codec \<Rightarrow> bytes set" where
  "window_keys C = insert (last_pruned_key C) (range (prune_journal_key C))"

definition spares :: "('h, 'k) codec \<Rightarrow> bytes change_set \<Rightarrow> bool" where
  "spares C c \<longleftrightarrow>
     list_all (\<lambda>kv. fst kv \<notin> window_keys C) (inserted c) \<and> list_all (\<lambda>k. k \<notin> window_keys C) (deleted c)"

lemma window_keys_others [simp]:
  "overlay_journal_key C n i \<notin> window_keys C" "last_canonical_key C \<notin> window_keys C"
  "pruning_mode_key C \<notin> window_keys C" "prune_journal_key C b \<in> window_keys C" "last_pruned_key C \<in> window_keys C"
  by (auto simp: window_keys_def meta_key_families meta_key_families [symmetric])

lemma put_all_absent: "k \<notin> fst ` set kvs \<Longrightarrow> put_all kvs m k = m k"
  by (induction kvs arbitrary: m) (auto simp: put_all_def)

lemma spares_apply: "spares C c \<Longrightarrow> k \<in> window_keys C \<Longrightarrow> apply_change c M k = M k"
  unfolding spares_def apply_change_def remove_all_apply list_all_iff
  using put_all_absent [of k "inserted c" M] by auto

lemma collect_member:
  assumes "collect f xs = Some ys" "y \<in> set ys"
  shows "\<exists>x \<in> set xs. \<exists>zs. f x = Some zs \<and> y \<in> set zs"
  using assms by (induction xs arbitrary: ys) (auto split: option.splits)

lemma discard_journals_keys:
  assumes "discard_journals ps h ls = Some js" "j \<in> set js"
  shows "fst j \<in> bo_journal_key ` set (blocks_in ls)"
  using assms
proof (induction ls arbitrary: h js j)
  case (Cons l ls)
  from collect_member [OF Cons.prems(1) [unfolded discard_journals.simps] Cons.prems(2)]
  obtain b where b: "b \<in> set (level_blocks l)"
    and "j = (bo_journal_key b, bo_hash b) \<or> (\<exists>js'. discard_journals ps (bo_hash b) ls = Some js' \<and> j \<in> set js')"
    by (auto split: option.splits if_splits)
  then consider "j = (bo_journal_key b, bo_hash b)"
    | js' where "discard_journals ps (bo_hash b) ls = Some js'" "j \<in> set js'" by blast
  then show ?case
  proof cases
    case 1
    then show ?thesis using b by simp
  next
    case 2
    from Cons.IH [OF this] show ?thesis by auto
  qed
qed simp

lemma journal_keys_spared:
  assumes "noncanonical_ok C W nc" "b \<in> set (blocks_in (overlay_levels nc))"
  shows "bo_journal_key b \<notin> window_keys C"
  using assms unfolding set_blocks_in noncanonical_ok_def kept_levels_ok_def shape_ok_def block_ok_def by fastforce

lemma insert_at_level_spares:
  assumes "insert_at_level C h n p cs l commit s = (Inr c :: 'e state_db_error + _, s')" "spares C (commit_meta commit)"
  shows "spares C (commit_meta c)"
  using assms by (auto simp: insert_at_level_def Let_def insert_meta_def spares_def split: if_splits)

lemma overlay_insert_spares:
  assumes "overlay_insert C h n p cs s = Some (Inr c :: 'e state_db_error + _, s')"
  shows "spares C (commit_meta c)"
proof -
  let ?commit = "if overlay_levels s = [] \<and> last_canonicalized s = None \<and> n > 0
    then insert_meta (last_canonical_key C) (encode_block_id C (p, n - 1)) empty_commit else empty_commit"
  obtain l t where "insert_at_level C h n p cs l ?commit t = (Inr c :: 'e state_db_error + _, s')"
    using assms unfolding overlay_insert_def Let_def by (auto split: sum.splits if_splits)
  then show ?thesis
    by (rule insert_at_level_spares) (simp add: spares_def insert_meta_def empty_commit_def empty_change_def)
qed

lemma overlay_canonicalize_spares:
  assumes s: "noncanonical_ok C W s" and "spares C (commit_meta commit)"
    and c: "overlay_canonicalize C h commit s = Some (Inr c :: 'e state_db_error + _, s')"
  shows "spares C (commit_meta c)"
proof -
  let ?n = "length (pending_canonicalizations s)" and ?ls = "overlay_levels s"
  let ?bs = "level_blocks (?ls ! ?n)"
  let ?f = "\<lambda>index (i, b). map_option (\<lambda>js. js @ [(bo_journal_key b, bo_hash b)])
      (if i \<noteq> index then discard_journals (parents s) (bo_hash b) (drop (?n + 1) ?ls) else Some [])"
  obtain index js where n: "?n < length ?ls" and js: "collect (?f index) (enumerate 0 ?bs) = Some js"
    and meta: "commit_meta c = \<lparr>inserted = inserted (commit_meta commit) @
        [(last_canonical_key C, encode_block_id C (h, front_block_number s + ?n))],
      deleted = deleted (commit_meta commit) @ map fst js\<rparr>"
    using c unfolding overlay_canonicalize_def Let_def
    by (auto simp: insert_meta_def delete_meta_def extend_data_def split: if_splits option.splits)
  have sub: "set ?bs \<subseteq> set (blocks_in ?ls)" "set (blocks_in (drop (?n + 1) ?ls)) \<subseteq> set (blocks_in ?ls)"
    using nth_mem [OF n] by (auto dest: in_set_dropD)
  have "fst j \<notin> window_keys C" if "j \<in> set js" for j
  proof -
    from collect_member [OF js that] obtain x zs where x: "x \<in> set (enumerate 0 ?bs)"
      "?f index x = Some zs" "j \<in> set zs" by blast
    obtain i b where ib: "x = (i, b)" by (cases x)
    note zs = x(2,3) [unfolded ib]
    have b: "b \<in> set ?bs" using x(1) ib by (auto simp: in_set_enumerate_eq)
    from zs have "j = (bo_journal_key b, bo_hash b) \<or>
        (\<exists>js'. discard_journals (parents s) (bo_hash b) (drop (?n + 1) ?ls) = Some js' \<and> j \<in> set js')"
      by (auto split: if_splits)
    then have "fst j \<in> bo_journal_key ` set (blocks_in ?ls)"
    proof (elim disjE exE conjE)
      assume "j = (bo_journal_key b, bo_hash b)"
      then show ?thesis using b sub(1) by auto
    next
      fix js'
      assume "discard_journals (parents s) (bo_hash b) (drop (?n + 1) ?ls) = Some js'" "j \<in> set js'"
      from discard_journals_keys [OF this] show ?thesis using sub(2) by blast
    qed
    then obtain b' where "b' \<in> set (blocks_in ?ls)" "fst j = bo_journal_key b'" by (elim imageE)
    then show ?thesis using journal_keys_spared [OF s] by metis
  qed
  then show ?thesis using assms(2) unfolding meta by (simp add: spares_def list_all_iff ball_Un)
qed

lemma overlay_revert_one_spares:
  assumes "noncanonical_ok C W s" "fst (overlay_revert_one s) = Some c"
  shows "spares C (commit_meta c)"
proof -
  have "c = delete_meta (map bo_journal_key (level_blocks (last (overlay_levels s)))) empty_commit" "overlay_levels s \<noteq> []"
    using assms(2) by (auto simp: overlay_revert_one_def Let_def split: if_splits)
  then show ?thesis
    using journal_keys_spared [OF assms(1)]
    by (fastforce simp: spares_def list_all_iff delete_meta_def empty_commit_def empty_change_def)
qed

lemma overlay_remove_spares:
  assumes "noncanonical_ok C W s" "overlay_remove h s = Some (Some c, s')"
  shows "spares C (commit_meta c)"
proof -
  obtain l i b level where r: "find_from_back h (rev (enumerate 0 (overlay_levels s))) = Some (l, i)"
    "level_remove i (overlay_levels s ! l) = Some (b, level)" "c = delete_meta [bo_journal_key b] empty_commit"
    using assms(2) by (auto simp: overlay_remove_def split: option.splits if_splits)
  have "b \<in> set (blocks_in (overlay_levels s))"
    using r(2) find_from_back_Some(1,2) [OF r(1)] by (auto simp: level_remove_def intro!: bexI [of _ "overlay_levels s ! l"])
  then show ?thesis
    using r(3) journal_keys_spared [OF assms(1)]
    by (simp add: spares_def delete_meta_def empty_commit_def empty_change_def)
qed

section \<open>Replaying the journal\<close>

text \<open>The window that importing the records of a chain of blocks builds.\<close>

definition linked :: "('h, 'k) world \<Rightarrow> 'h list \<Rightarrow> bool" where
  "linked W hs \<longleftrightarrow>
     (\<forall>i. Suc i < length hs \<longrightarrow> number_of W (hs ! Suc i) \<noteq> 0 \<and> parent_of W (hs ! Suc i) = hs ! i)"

definition imported :: "('h, 'k) codec \<Rightarrow> ('h, 'k) world \<Rightarrow> 'h \<Rightarrow> ('h, 'k) ref_window \<Rightarrow> ('h, 'k) ref_window" where
  "imported C W h w =
     (noted C h (inserted_keys W h) (deleted_keys W h) w)\<lparr>rw_pending_canonicalizations := rw_pending_canonicalizations w\<rparr>"

definition replayed :: "('h, 'k) codec \<Rightarrow> ('h, 'k) world \<Rightarrow> nat \<Rightarrow> 'h list \<Rightarrow> ('h, 'k) ref_window" where
  "replayed C W n hs = fold (imported C W) hs (ref_window_empty n True)"

lemma replayed_simps [simp]:
  "replayed C W n [] = ref_window_empty n True"
  "replayed C W n (hs @ [h]) = imported C W h (replayed C W n hs)"
  by (simp_all add: replayed_def)

lemma imported_simps [simp]:
  "map row_hash (death_rows (imported C W h w)) = map row_hash (death_rows w) @ [h]"
  "length (death_rows (imported C W h w)) = Suc (length (death_rows w))"
  "pending_number (imported C W h w) = pending_number w"
  "count_insertions (imported C W h w) = count_insertions w"
  "pending_prunings (imported C W h w) = pending_prunings w"
  "rw_pending_canonicalizations (imported C W h w) = rw_pending_canonicalizations w"
  by (simp_all add: imported_def noted_def)

lemma replayed_fields [simp]:
  "map row_hash (death_rows (replayed C W n hs)) = hs" "length (death_rows (replayed C W n hs)) = length hs"
  "pending_number (replayed C W n hs) = n" "count_insertions (replayed C W n hs)"
  "pending_prunings (replayed C W n hs) = 0" "rw_pending_canonicalizations (replayed C W n hs) = 0"
  by (induction hs rule: rev_induct) (simp_all add: ref_window_empty_def)

lemma linked_snoc:
  "linked W (hs @ [h]) \<longleftrightarrow> linked W hs \<and> (hs \<noteq> [] \<longrightarrow> number_of W h \<noteq> 0 \<and> parent_of W h = last hs)"
proof (cases "hs = []")
  case False
  then have "(\<forall>i. Suc i < Suc (length hs) \<longrightarrow> P i) \<longleftrightarrow> (\<forall>i. Suc i < length hs \<longrightarrow> P i) \<and> P (length hs - 1)" for P
    by (metis Suc_less_eq Suc_pred' length_greater_0_conv less_SucE less_Suc_eq)
  from this [of "\<lambda>i. number_of W ((hs @ [h]) ! Suc i) \<noteq> 0 \<and> parent_of W ((hs @ [h]) ! Suc i) = (hs @ [h]) ! i"] False
  show ?thesis by (simp add: linked_def nth_append last_conv_nth)
qed (simp add: linked_def)

lemma linked_drop: "linked W hs \<Longrightarrow> linked W (drop n hs)"
  by (simp add: linked_def less_diff_conv add.commute)

lemma replayed_hash: "i < length hs \<Longrightarrow> row_hash (death_rows (replayed C W n hs) ! i) = hs ! i"
  by (metis nth_map replayed_fields(1,2))

lemma replayed_avoids:
  assumes "window_ok C (state_of W) (replayed C W n hs)" "linked W (hs @ [h])"
    and "row \<in> set (death_rows (replayed C W n hs))"
  shows "set (row_deleted row) \<inter> parent_state W h = {}"
proof -
  let ?rows = "death_rows (replayed C W n hs)"
  obtain i where i: "i < length hs" "row = ?rows ! i"
    using assms(3) by (metis in_set_conv_nth replayed_fields(2))
  let ?j = "length hs - 1"
  have j: "hs \<noteq> []" "?j < length hs" "i \<le> ?j" using i(1) by auto
  then have "set (row_deleted row) \<inter> state_of W (row_hash (?rows ! ?j)) = {}"
    using assms(1) i(2) unfolding window_ok_def rows_ok_def replayed_fields(2) by blast
  then show ?thesis
    using assms(2) j replayed_hash [OF j(2), of C W n] by (simp add: linked_snoc parent_state_def last_conv_nth)
qed

lemma replayed_ok:
  assumes W: "world_ok W" and "linked W hs"
  shows "window_ok C (state_of W) (replayed C W n hs)"
  using assms(2)
proof (induction hs rule: rev_induct)
  case Nil
  show ?case by (simp add: ref_window_empty_def window_ok_def index_ok_def rows_ok_def journal_keys_ok_def)
next
  case (snoc h hs)
  let ?w = "replayed C W n hs"
  have w: "window_ok C (state_of W) ?w" using snoc by (simp add: linked_snoc)
  have "window_ok C (state_of W) (noted C h (inserted_keys W h) (deleted_keys W h) ?w)"
    by (rule noted_window_ok [OF w, of _ "parent_state W h"])
      (use W replayed_avoids [OF w snoc.prems] in \<open>simp_all add: world_ok_def\<close>)
  then show ?case
    by (simp add: imported_def window_ok_def index_ok_def journal_keys_ok_def)
qed

text \<open>Dropping the oldest row gives the window that starts one block later.\<close>

definition pop_row :: "('h, 'k) ref_window \<Rightarrow> ('h, 'k) ref_window" where
  "pop_row w =
     w\<lparr>death_rows := tl (death_rows w), death_index := remove_all (row_deleted (hd (death_rows w))) (death_index w),
       pending_number := pending_number w + 1\<rparr>"

lemma pop_pruned_rows:
  assumes "count_insertions w" "n \<le> length (death_rows w)"
  shows "pop_pruned n w = Some ((pop_row ^^ n) w)"
  using assms
proof (induction n arbitrary: w)
  case (Suc n)
  then obtain row rows where "death_rows w = row # rows" by (cases "death_rows w") auto
  then show ?case
    using Suc.prems Suc.IH [of "pop_row w"] by (simp add: pop_row_def funpow_Suc_right del: funpow.simps)
qed simp

lemma pop_imported:
  assumes "death_rows w \<noteq> []" "set (deleted_keys W h) \<inter> set (row_deleted (hd (death_rows w))) = {}"
  shows "pop_row (imported C W h w) = imported C W h (pop_row w)"
proof -
  obtain row rows where r: "death_rows w = row # rows" using assms(1) by (cases "death_rows w") auto
  have "remove_all (filter (\<lambda>k. k \<notin> set (inserted_keys W h)) (row_deleted row))
        (index_deleted (deleted_keys W h) b (remove_all (inserted_keys W h) m)) =
      index_deleted (deleted_keys W h) b (remove_all (inserted_keys W h) (remove_all (row_deleted row) m))" for b m
    using assms(2) r by (auto simp: remove_all_apply index_deleted_apply fun_eq_iff)
  then show ?thesis
    using r by (cases w) (simp add: pop_row_def imported_def noted_def forget_rows_def)
qed

lemma replayed_pop:
  assumes W: "world_ok W" and "linked W (h # hs)"
  shows "pop_row (replayed C W n (h # hs)) = replayed C W (n + 1) hs"
  using assms(2)
proof (induction hs rule: rev_induct)
  case Nil
  have "remove_all (remdups ks) (index_deleted ks b (remove_all ins Map.empty)) = Map.empty" for ks ins :: "'b list" and b
    by (auto simp: fun_eq_iff remove_all_apply index_deleted_apply)
  then show ?case
    by (simp add: replayed_def imported_def noted_def pop_row_def ref_window_empty_def forget_rows_def)
next
  case (snoc x hs)
  let ?w = "replayed C W n (h # hs)"
  have l: "linked W (h # hs)" "linked W ((h # hs) @ [x])" using snoc.prems linked_snoc [of W "h # hs" x] by simp_all
  have ne: "death_rows ?w \<noteq> []" by (metis length_0_conv list.distinct(1) replayed_fields(2))
  have "set (row_deleted (hd (death_rows ?w))) \<inter> parent_state W x = {}"
    using ne by (intro replayed_avoids [OF replayed_ok [OF W l(1)] l(2), of _ C n]) simp
  moreover have "set (deleted_keys W x) \<subseteq> parent_state W x" using W by (simp add: world_ok_def)
  ultimately have "pop_row (imported C W x ?w) = imported C W x (pop_row ?w)"
    using ne by (intro pop_imported) auto
  then show ?case
    using snoc.IH [OF l(1)] replayed_simps(2) [of C W n "h # hs" x] by simp
qed

lemma replayed_pops:
  assumes W: "world_ok W" and "linked W hs" "q \<le> length hs"
  shows "(pop_row ^^ q) (replayed C W n hs) = replayed C W (n + q) (drop q hs)"
  using assms(2,3)
proof (induction q arbitrary: n hs)
  case (Suc q)
  then obtain h hs' where hs: "hs = h # hs'" by (cases hs) auto
  have "linked W hs'" using linked_drop [OF Suc.prems(1), of 1] hs by simp
  then show ?case
    using Suc.IH [of hs' "n + 1"] Suc.prems hs replayed_pop [OF W]
    by (simp add: funpow_Suc_right del: funpow.simps)
qed simp

lemma pop_row_frame: "(pop_row ^^ n) (w\<lparr>pending_prunings := q\<rparr>) = ((pop_row ^^ n) w)\<lparr>pending_prunings := q\<rparr>"
  by (induction n) (simp_all add: pop_row_def)

lemma rw_apply_pending_replayed:
  assumes W: "world_ok W" "linked W hs" and q: "q \<le> length hs"
    and w: "w\<lparr>rw_pending_canonicalizations := 0, pending_prunings := 0\<rparr> = replayed C W n hs" "pending_prunings w = q"
  shows "rw_apply_pending w = Some (replayed C W (n + q) (drop q hs))"
proof -
  have e: "w\<lparr>rw_pending_canonicalizations := 0\<rparr> = (replayed C W n hs)\<lparr>pending_prunings := q\<rparr>"
    unfolding w(1) [symmetric] w(2) [symmetric] by simp
  have "pop_pruned q (w\<lparr>rw_pending_canonicalizations := 0\<rparr>) =
      Some ((replayed C W (n + q) (drop q hs))\<lparr>pending_prunings := q\<rparr>)"
    using q unfolding e by (subst pop_pruned_rows) (simp_all add: pop_row_frame replayed_pops [OF W])
  moreover have "(replayed C W (n + q) (drop q hs))\<lparr>pending_prunings := 0\<rparr> = replayed C W (n + q) (drop q hs)"
    by (metis replayed_fields(5) ref_window.surjective ref_window.update_convs(5))
  ultimately show ?thesis using w(2) by (simp add: rw_apply_pending_def)
qed

section \<open>The journal in the store\<close>

definition record_of :: "('h, 'k) world \<Rightarrow> 'h \<Rightarrow> ('h, 'k) prune_journal" where
  "record_of W h = \<lparr>pj_hash = h, pj_inserted = inserted_keys W h, pj_deleted = deleted_keys W h\<rparr>"

definition journaled ::
    "('h, 'k) codec \<Rightarrow> ('h, 'k) world \<Rightarrow> ('h, 'k) ref_window \<Rightarrow> (bytes \<rightharpoonup> db_value) \<Rightarrow> bool" where
  "journaled C W w M \<longleftrightarrow>
     (let hs = map row_hash (death_rows w); n = pending_number w; q = pending_prunings w
      in n + length hs < 2 ^ 64 \<and> linked W hs \<and>
         w\<lparr>rw_pending_canonicalizations := 0, pending_prunings := 0\<rparr> = replayed C W n hs \<and>
         (rw_pending_canonicalizations w = 0 \<longrightarrow> q = 0) \<and>
         M (last_pruned_key C) = (if n + q = 0 then None else Some (encode_u64 C (n + q - 1))) \<and>
         (\<forall>b < 2 ^ 64. M (prune_journal_key C b) =
            (if n + q \<le> b \<and> b < n + length hs then Some (encode_prune C (record_of W (hs ! (b - n)))) else None)))"

lemma rw_import_record:
  assumes "index_ok w" "count_insertions w" "b = pending_number w + length (death_rows w)"
  shows "rw_import (pj_hash (record_of W h)) (prune_journal_key C b) (pj_inserted (record_of W h)) (pj_deleted (record_of W h)) w =
    Some (imported C W h w)"
  using assms by (simp add: rw_import_def forget_reinserted_ok imported_def noted_def record_of_def)

lemma read_prune_journal_replays:
  assumes C: "codec_ok C" and W: "world_ok W" "linked W hs" and b: "n + length hs < 2 ^ 64"
    and M: "\<And>b. b < 2 ^ 64 \<Longrightarrow> M (prune_journal_key C b) =
      (if n \<le> b \<and> b < n + length hs then Some (encode_prune C (record_of W (hs ! (b - n)))) else None)"
    and "j \<le> length hs"
  shows "read_prune_journal C (\<lambda>k. Inr (M k) :: 'e + _) (n + j) (replayed C W n (take j hs)) = Some (Inr (replayed C W n hs))"
  using \<open>j \<le> length hs\<close>
proof (induction "length hs - j" arbitrary: j)
  case 0
  then have "j = length hs" by simp
  then show ?case using M [of "n + j"] b by (subst read_prune_journal.simps) simp
next
  case (Suc d)
  then have j: "j < length hs" by simp
  have "linked W (take j hs)" using W(2) by (simp add: linked_def)
  then have "index_ok (replayed C W n (take j hs))" using replayed_ok [OF W(1)] by (auto simp: window_ok_def)
  note imp = rw_import_record [OF this replayed_fields(4), of "n + j" W "hs ! j" C]
  have "replayed C W n (take (Suc j) hs) = imported C W (hs ! j) (replayed C W n (take j hs))"
    using j by (simp add: take_Suc_conv_app_nth)
  moreover have "M (prune_journal_key C (n + j)) = Some (encode_prune C (record_of W (hs ! j)))"
    using M [of "n + j"] b j by simp
  moreover have "read_prune_journal C (\<lambda>k. Inr (M k) :: 'e + _) (n + Suc j) (replayed C W n (take (Suc j) hs)) =
      Some (Inr (replayed C W n hs))"
    using Suc.hyps(1) [of "Suc j"] Suc.hyps(2) j by simp
  ultimately show ?case
    using C imp j by (subst read_prune_journal.simps) (simp add: codec_ok_def)
qed

lemma ref_window_new_journaled:
  assumes C: "codec_ok C" and W: "world_ok W" and j: "journaled C W w M" and p: "rw_pending_canonicalizations w = 0"
  shows "ref_window_new C (\<lambda>k. Inr (M k) :: 'e + _) True = Some (Inr w)"
proof -
  let ?hs = "map row_hash (death_rows w)" and ?n = "pending_number w"
  have q: "pending_prunings w = 0" using j p by (simp add: journaled_def Let_def)
  have h: "linked W ?hs" "?n + length ?hs < 2 ^ 64"
    and w: "w\<lparr>rw_pending_canonicalizations := 0, pending_prunings := 0\<rparr> = replayed C W ?n ?hs"
    and l: "M (last_pruned_key C) = (if ?n = 0 then None else Some (encode_u64 C (?n - 1)))"
    and m: "\<And>b. b < 2 ^ 64 \<Longrightarrow> M (prune_journal_key C b) =
      (if ?n \<le> b \<and> b < ?n + length ?hs then Some (encode_prune C (record_of W (?hs ! (b - ?n)))) else None)"
    using j q by (simp_all add: journaled_def Let_def)
  have "w\<lparr>rw_pending_canonicalizations := 0, pending_prunings := 0\<rparr> = w" using p q by (cases w) simp
  then have "read_prune_journal C (\<lambda>k. Inr (M k) :: 'e + _) ?n (ref_window_empty ?n True) = Some (Inr w)"
    using read_prune_journal_replays [OF C W h m, of 0, where 'e = 'e] w by simp
  then show ?thesis
    using l C h(2) by (cases ?n) (simp_all add: ref_window_new_def codec_ok_def)
qed

lemma put_all_same_key:
  "put_all (map (\<lambda>i. (k, f i)) [p..<q]) m k = (if p < q then Some (f (q - 1)) else m k)"
  by (induction q) (auto simp: put_all_append put_all_def)

lemma put_all_other_key: "k \<noteq> k' \<Longrightarrow> put_all (map (\<lambda>i. (k', f i)) is) m k = m k"
  by (rule put_all_absent) auto

text \<open>What a canonicalization writes to the journal.\<close>

lemma canonicalize_meta:
  assumes C: "codec_ok C" and c: "spares C c" and w1: "journal_keys_ok C w1" "pending_number w1 = pending_number w"
    and q: "q \<le> length (death_rows w1)" "pending_number w + length (death_rows w1) \<le> 2 ^ 64"
    and len: "length (death_rows w1) = Suc (length (death_rows w))"
    and M': "M' = apply_change (pruned_meta C p q w1 (window_journal C h ins del w c)) M"
  shows "M' (last_pruned_key C) = (if p < q then Some (encode_u64 C (pending_number w + (q - 1))) else M (last_pruned_key C))"
    and "b < 2 ^ 64 \<Longrightarrow> M' (prune_journal_key C b) =
      (if pending_number w + p \<le> b \<and> b < pending_number w + q then None
       else if b = pending_number w + length (death_rows w)
       then Some (encode_prune C \<lparr>pj_hash = h, pj_inserted = ins, pj_deleted = del\<rparr>) else M (prune_journal_key C b))"
proof -
  let ?n = "pending_number w" and ?r = "length (death_rows w)"
  let ?rec = "encode_prune C \<lparr>pj_hash = h, pj_inserted = ins, pj_deleted = del\<rparr>"
  have keys: "map (\<lambda>i. row_journal_key (death_rows w1 ! i)) [p..<q] = map (\<lambda>i. prune_journal_key C (?n + i)) [p..<q]"
    using w1 q by (auto simp: journal_keys_ok_def)
  have ins: "inserted (pruned_meta C p q w1 (window_journal C h ins del w c)) =
      inserted c @ (prune_journal_key C (?n + ?r), ?rec) # map (\<lambda>i. (last_pruned_key C, encode_u64 C (?n + i))) [p..<q]"
    and del: "deleted (pruned_meta C p q w1 (window_journal C h ins del w c)) =
      deleted c @ map (\<lambda>i. prune_journal_key C (?n + i)) [p..<q]"
    using keys w1(2) by (simp_all add: pruned_meta_def window_journal_def)
  have c': "k \<notin> set (deleted c)" "put_all (inserted c) M k = M k" if "k \<in> window_keys C" for k
    using c that put_all_absent [of k "inserted c" M] by (auto simp: spares_def list_all_iff)
  have cons: "put_all (x # xs) m = put_all xs (m(fst x \<mapsto> snd x))" for x and xs :: "(bytes \<times> db_value) list" and m
    by (cases x) (simp add: put_all_def)
  show "M' (last_pruned_key C) = (if p < q then Some (encode_u64 C (?n + (q - 1))) else M (last_pruned_key C))"
    using c' [of "last_pruned_key C"]
    by (auto simp: M' apply_change_def remove_all_apply ins del put_all_append cons put_all_same_key
        meta_key_families meta_key_families [symmetric])
  show "M' (prune_journal_key C b) =
      (if ?n + p \<le> b \<and> b < ?n + q then None else if b = ?n + ?r then Some ?rec else M (prune_journal_key C b))"
    if b: "b < 2 ^ 64"
  proof -
    have "prune_journal_key C b = prune_journal_key C (?n + i) \<longleftrightarrow> b = ?n + i" if "i \<le> ?r" for i
      using prune_journal_key_inject [OF C b, of "?n + i"] that q(2) len by simp
    moreover have "i \<in> set [p..<q] \<Longrightarrow> i \<le> ?r" for i using q(1) len by auto
    ultimately have "prune_journal_key C b \<in> set (map (\<lambda>i. prune_journal_key C (?n + i)) [p..<q]) \<longleftrightarrow>
        ?n + p \<le> b \<and> b < ?n + q" "prune_journal_key C b = prune_journal_key C (?n + ?r) \<longleftrightarrow> b = ?n + ?r"
      by (auto simp: image_iff le_iff_add)
    then show ?thesis
      using c' [of "prune_journal_key C b"]
      by (simp add: M' apply_change_def remove_all_apply ins del put_all_append cons put_all_other_key
          meta_key_families)
  qed
qed

lemma journaled_canonicalize:
  assumes C: "codec_ok C" and c: "spares C c" and j: "journaled C W w M"
    and w1: "w1 = noted C h (inserted_keys W h) (deleted_keys W h) w" "journal_keys_ok C w1"
    and h: "death_rows w \<noteq> [] \<Longrightarrow> number_of W h \<noteq> 0 \<and> parent_of W h = row_hash (last (death_rows w))"
    and q: "pending_prunings w \<le> q" "q \<le> length (death_rows w1)" "pending_number w + length (death_rows w) + 1 < 2 ^ 64"
      "pending_prunings w \<le> length (death_rows w)"
    and M': "M' = apply_change (pruned_meta C (pending_prunings w) q w1
      (window_journal C h (inserted_keys W h) (deleted_keys W h) w c)) M"
  shows "journaled C W (w1\<lparr>pending_prunings := q\<rparr>) M'"
proof -
  let ?n = "pending_number w" and ?r = "length (death_rows w)" and ?p = "pending_prunings w"
  let ?hs = "map row_hash (death_rows w)"
  have f: "length (death_rows w1) = Suc ?r" "pending_number w1 = ?n" "map row_hash (death_rows w1) = ?hs @ [h]"
    "rw_pending_canonicalizations w1 \<noteq> 0" by (simp_all add: w1(1) noted_def)
  note meta = canonicalize_meta [OF C c w1(2) f(2) q(2) _ f(1) M']
  have old: "linked W ?hs" "w\<lparr>rw_pending_canonicalizations := 0, pending_prunings := 0\<rparr> = replayed C W ?n ?hs"
    "M (last_pruned_key C) = (if ?n + ?p = 0 then None else Some (encode_u64 C (?n + ?p - 1)))"
    "\<And>b. b < 2 ^ 64 \<Longrightarrow> M (prune_journal_key C b) =
       (if ?n + ?p \<le> b \<and> b < ?n + ?r then Some (encode_prune C (record_of W (?hs ! (b - ?n)))) else None)"
    using j by (simp_all add: journaled_def Let_def)
  have "linked W (?hs @ [h])" using old(1) h by (simp add: linked_snoc last_map)
  moreover have "w1\<lparr>pending_prunings := q\<rparr>\<lparr>rw_pending_canonicalizations := 0, pending_prunings := 0\<rparr> =
      replayed C W ?n (?hs @ [h])"
    unfolding replayed_simps(2) old(2) [symmetric] by (cases w) (simp add: w1(1) imported_def noted_def)
  moreover have "M' (last_pruned_key C) = (if ?n + q = 0 then None else Some (encode_u64 C (?n + q - 1)))"
    using meta(1) old(3) q f(1) by auto
  moreover have "M' (prune_journal_key C b) = (if ?n + q \<le> b \<and> b < ?n + Suc ?r
      then Some (encode_prune C (record_of W ((?hs @ [h]) ! (b - ?n)))) else None)" if b: "b < 2 ^ 64" for b
  proof -
    have "M' (prune_journal_key C b) = (if ?n + ?p \<le> b \<and> b < ?n + q then None
       else if b = ?n + ?r then Some (encode_prune C (record_of W h)) else M (prune_journal_key C b))"
      using meta(2) [OF _ b] q f(1) by (simp add: record_of_def)
    then show ?thesis
      using old(4) [OF b] q(1,2,4) f(1) by (auto simp: nth_append)
  qed
  ultimately show ?thesis
    using q(3) f by (simp add: journaled_def Let_def)
qed

lemma replayed_reset: "(replayed C W n hs)\<lparr>rw_pending_canonicalizations := 0, pending_prunings := 0\<rparr> = replayed C W n hs"
  using replayed_fields(5,6) [of C W n hs] by (cases "replayed C W n hs") simp

lemma journaled_apply:
  assumes W: "world_ok W" and j: "journaled C W w M" and q: "pending_prunings w \<le> length (death_rows w)"
    and a: "rw_apply_pending w = Some w'"
  shows "journaled C W w' M"
proof -
  let ?n = "pending_number w" and ?q = "pending_prunings w" and ?hs = "map row_hash (death_rows w)"
  have l: "linked W ?hs" "w\<lparr>rw_pending_canonicalizations := 0, pending_prunings := 0\<rparr> = replayed C W ?n ?hs"
    using j by (simp_all add: journaled_def Let_def)
  then have "w' = replayed C W (?n + ?q) (drop ?q ?hs)"
    using rw_apply_pending_replayed [OF W l(1) _ l(2) refl] q a by simp
  then show ?thesis
    using j q linked_drop [OF l(1), of ?q] by (auto simp: journaled_def Let_def replayed_reset)
qed

lemma journaled_frame:
  assumes "journaled C W w M" "\<And>k. k \<in> window_keys C \<Longrightarrow> M' k = M k"
  shows "journaled C W w M'"
  using assms by (simp add: journaled_def Let_def)

section \<open>The invariant of the journal\<close>

definition journal_ok :: "('h, 'k) codec \<Rightarrow> ('h, 'k) world \<Rightarrow> ('h, 'k) stored_state_db \<Rightarrow> bool" where
  "journal_ok C W s \<longleftrightarrow>
     (\<forall>w. pruning (database s) = Some w \<longrightarrow> journaled C W w (meta_col (next_store s)))"

definition keeps_journal :: "('h, 'k) codec \<Rightarrow> ('h, 'k) stored_state_db \<Rightarrow> ('h, 'k) stored_state_db \<Rightarrow> bool" where
  "keeps_journal C s s' \<longleftrightarrow> (\<forall>k \<in> window_keys C. meta_col (next_store s') k = meta_col (next_store s) k)"

lemma insert_keeps_journal:
  assumes s: "system_ok C W s" and e: "execute C W (Insert h) s = Some s'"
  shows "keeps_journal C s s'"
proof -
  obtain r d where r: "insert_block C h (number_of W h) (parent_of W h) (change_of W h) (database s) =
      Some (r :: unit state_db_error + _, d)" "s' = stage (r, d) s"
    using e by auto
  show ?thesis
  proof (cases r)
    case (Inl x)
    then show ?thesis using r(2) by (simp add: keeps_journal_def stage_def)
  next
    case (Inr c)
    obtain r0 :: "unit state_db_error + 'b commit_set" and nc where
      o: "overlay_insert C h (number_of W h) (parent_of W h) (change_of W h) (non_canonical (database s)) = Some (r0, nc)"
      and r0: "r = (case r0 of Inl e \<Rightarrow> Inl e
        | Inr c \<Rightarrow> Inr (c\<lparr>commit_meta := (commit_meta c)\<lparr>inserted := inserted (commit_meta c) @
            (if number_of W h = 0 then [(pruning_mode_key C, mode_id (mode (database s)))] else [])\<rparr>\<rparr>))"
      using r(1) not_archive_all [OF s] by (cases "mode (database s)") (auto simp: insert_block_def Let_def)
    obtain c1 where c1: "r0 = Inr c1"
      "commit_meta c = (commit_meta c1)\<lparr>inserted := inserted (commit_meta c1) @
         (if number_of W h = 0 then [(pruning_mode_key C, mode_id (mode (database s)))] else [])\<rparr>"
      using r0 Inr by (cases r0) auto
    from overlay_insert_spares [OF o [unfolded c1(1)]] c1(2) have "spares C (commit_meta c)"
      by (simp add: spares_def)
    then show ?thesis using r(2) Inr by (simp add: keeps_journal_def stage_def apply_state_commit_def spares_apply)
  qed
qed

lemma write_now_keeps_journal:
  assumes s: "system_ok C W s" and i: "idle (non_canonical (database s))"
    and c: "\<And>x. fst r = Some x \<Longrightarrow> spares C (commit_meta x)"
  shows "keeps_journal C s (write_now r s)"
proof -
  have "store s = next_store s" using s i by (simp add: system_ok_def Let_def)
  then show ?thesis
    using c by (auto simp: keeps_journal_def write_now_def Let_def apply_state_commit_def spares_apply split: option.splits)
qed

lemma revert_one_keeps_journal:
  assumes s: "system_ok C W s" and p: "proper W RevertOne s" and e: "execute C W RevertOne s = Some s'"
  shows "keeps_journal C s s'"
proof -
  have nc: "noncanonical_ok C W (non_canonical (database s))" using s by (simp add: system_ok_def Let_def)
  have "spares C (commit_meta x)" if "fst (revert_one (database s)) = Some x" for x
    using that not_archive_all [OF s] overlay_revert_one_spares [OF nc]
    by (auto simp: revert_one_def split: pruning_mode.splits prod.splits)
  then show ?thesis using e p write_now_keeps_journal [OF s, of "revert_one (database s)"] by simp
qed

lemma remove_keeps_journal:
  assumes s: "system_ok C W s" and p: "proper W (Remove h) s" and e: "execute C W (Remove h) s = Some s'"
  shows "keeps_journal C s s'"
proof -
  have nc: "noncanonical_ok C W (non_canonical (database s))" using s by (simp add: system_ok_def Let_def)
  obtain r where r: "remove_block h (database s) = Some r" "s' = write_now r s" using e by auto
  have "spares C (commit_meta x)" if "fst r = Some x" for x
    using that r(1) not_archive_all [OF s] overlay_remove_spares [OF nc]
    by (auto simp: remove_block_def split: pruning_mode.splits)
  then show ?thesis using r(2) p write_now_keeps_journal [OF s, of r] by simp
qed

lemma journal_frame:
  assumes "journal_ok C W s" "keeps_journal C s s'" "pruning (database s') = pruning (database s)"
  shows "journal_ok C W s'"
  unfolding journal_ok_def
proof (intro allI impI)
  fix w
  assume "pruning (database s') = Some w"
  then have "journaled C W w (meta_col (next_store s))" using assms(1,3) by (simp add: journal_ok_def)
  then show "journaled C W w (meta_col (next_store s'))"
    by (rule journaled_frame) (rule bspec [OF assms(2) [unfolded keeps_journal_def]])
qed

lemma journal_steady:
  assumes "journal_ok C W s" "keeps_journal C s s'" "steady s s'"
  shows "journal_ok C W s'"
  by (rule journal_frame [OF assms(1,2)]) (use assms(3) in \<open>simp add: steady_def\<close>)

lemma canonicalize_journal_ok:
  assumes C: "codec_ok C" and W: "world_ok W" "\<And>h. number_of W h + 1 < 2 ^ 64" and s: "system_ok C W s"
    and p: "proper W (Canonicalize h) s" and e: "execute C W (Canonicalize h) s = Some s'"
    and j: "journal_ok C W s" and w: "pruning (database s) = Some w"
  shows "journal_ok C W s'"
proof (rule canonicalize_cases [OF s W(1) p e w])
  assume "s' = s"
  then show ?thesis using j by simp
next
  let ?nc = "non_canonical (database s)" and ?w1 = "noted C h (inserted_keys W h) (deleted_keys W h) w"
  fix q c c' nc'
  assume nc: "overlay_canonicalize C h empty_commit ?nc = Some (Inr c :: unit state_db_error + _, nc')"
    and n: "number_of W h = front_block_number ?nc + length (pending_canonicalizations ?nc)"
    and t: "number_of W h = 0 \<longleftrightarrow> tip_hash ?nc = None" "number_of W h \<noteq> 0 \<Longrightarrow> tip_hash ?nc = Some (parent_of W h)"
    and q: "pending_prunings w \<le> q" "q \<le> length (death_rows ?w1)"
    and w': "pruning (database s') = Some (?w1\<lparr>pending_prunings := q\<rparr>)"
    and m: "commit_meta c' = pruned_meta C (pending_prunings w) q ?w1
      (window_journal C h (inserted_keys W h) (deleted_keys W h) w (commit_meta c))"
    and st: "next_store s' = apply_state_commit c' (next_store s)"
  have ok': "system_ok C W s'" using execute_ok [OF s W(1) p] e by (metis option.inject)
  have wok: "window_ok C (state_of W) w" "rows_linked ?nc w"
    using s w by (auto simp: system_ok_def Let_def window_part_def split: pruning_mode.splits)
  have "window_ok C (state_of W) (?w1\<lparr>pending_prunings := q\<rparr>)"
    using ok' w' by (auto simp: system_ok_def Let_def window_part_def split: pruning_mode.splits)
  then have keys: "journal_keys_ok C ?w1" by (simp add: window_ok_def journal_keys_ok_def)
  have "noncanonical_ok C W ?nc" using s by (simp add: system_ok_def Let_def)
  then have spares: "spares C (commit_meta c)"
    using overlay_canonicalize_spares [OF _ _ nc] by (simp add: spares_def empty_commit_def empty_change_def)
  have "pending_number w + length (death_rows w) = number_of W h"
    using wok(2) n by (auto simp: rows_linked_def Let_def)
  then have bound: "pending_number w + length (death_rows w) + 1 < 2 ^ 64" using W(2) [of h] by simp
  have "number_of W h \<noteq> 0 \<and> parent_of W h = row_hash (last (death_rows w))" if "death_rows w \<noteq> []"
    using tip_row [OF wok(2) that] t by auto
  from journaled_canonicalize [OF C spares _ refl keys this q bound _ refl]
  have "journaled C W (?w1\<lparr>pending_prunings := q\<rparr>) (meta_col (next_store s'))"
    using j w wok(1) by (simp add: journal_ok_def st m apply_state_commit_def window_ok_def)
  then show ?thesis using w' by (simp add: journal_ok_def)
qed

lemma commit_journal_ok:
  assumes W: "world_ok W" and s: "system_ok C W s" and e: "execute C W Commit s = Some s'"
    and j: "journal_ok C W s" and w: "pruning (database s) = Some w"
  shows "journal_ok C W s'"
proof -
  have s': "next_store s' = next_store s" "pruning (database s') = rw_apply_pending w"
    using commit_step_ok [OF s] e w by auto
  have "pending_prunings w \<le> length (death_rows w)"
    using s w by (auto simp: system_ok_def Let_def window_part_def window_ok_def split: pruning_mode.splits)
  then show ?thesis
    using journaled_apply [OF W] j w s' by (auto simp: journal_ok_def)
qed

lemma journal_step:
  assumes C: "codec_ok C" and W: "world_ok W" "\<And>h. number_of W h + 1 < 2 ^ 64" and s: "system_ok C W s"
    and p: "proper W ev s" and e: "execute C W ev s = Some s'" and j: "journal_ok C W s"
    and w: "pruning (database s) = Some w" and a: "ev \<noteq> Abort"
  shows "journal_ok C W s'"
proof (cases ev)
  case (Insert h)
  have "steady s s'" using insert_step_ok [OF s W(1) p [unfolded Insert]] e Insert by force
  then show ?thesis using journal_steady [OF j insert_keeps_journal [OF s e [unfolded Insert]]] by simp
next
  case (Canonicalize h)
  then show ?thesis using canonicalize_journal_ok [OF C W s _ _ j w] p e by blast
next
  case (Pin h)
  have "keeps_journal C s s'" "steady s s'" using e Pin pin_step_ok(2) [OF s, of h] by (auto simp: keeps_journal_def)
  then show ?thesis using j journal_steady by blast
next
  case (Unpin h)
  have "steady s s'" using unpin_step_ok [OF s, of h] e Unpin by force
  moreover have "keeps_journal C s s'" using e Unpin by (auto simp: keeps_journal_def)
  ultimately show ?thesis using j journal_steady by blast
next
  case Commit
  then show ?thesis using commit_journal_ok [OF W(1) s _ j w] e by blast
next
  case RevertOne
  have "steady s s'" using revert_one_step_ok [OF s p [unfolded RevertOne]] e RevertOne by force
  then show ?thesis
    using journal_steady [OF j revert_one_keeps_journal [OF s p [unfolded RevertOne] e [unfolded RevertOne]]] by simp
next
  case (Remove h)
  have "steady s s'" using remove_step_ok [OF s p [unfolded Remove]] e Remove by force
  then show ?thesis
    using journal_steady [OF j remove_keeps_journal [OF s p [unfolded Remove] e [unfolded Remove]]] by simp
qed (use a in simp)

lemma run_journal_ok:
  assumes "state_db_run C W (Constrained cons) evs s" "Abort \<notin> set evs"
    and C: "codec_ok C" and W: "world_ok W" "\<And>h. number_of W h + 1 < 2 ^ 64"
  shows "journal_ok C W s"
  using assms(1,2)
proof (induction rule: state_db_run.induct)
  case (start d)
  have "pruning d = Some (ref_window_empty 0 True)" using state_db_new_empty(5) [OF start(1) refl] by simp
  then show ?case
    by (simp add: journal_ok_def journaled_def ref_window_empty_def linked_def empty_store_def)
next
  case (step evs s ev s')
  have ok: "system_ok C W s" using run_ok [OF step.hyps(1) W(1)] by simp
  have "mode (database s) = Constrained cons" using run_mode [OF step.hyps(1)] .
  then obtain w where w: "pruning (database s) = Some w"
    using ok by (auto simp: system_ok_def Let_def window_part_def)
  show ?case
    using journal_step [OF C W ok step.hyps(2,3) _ w] step.IH step.prems by auto
qed

end
