(* ===== verification/State_Db_Safety.thy ===== *)
theory State_Db_Safety
  imports State_Db_Journal
begin

text \<open>
  The properties of the state database: the state of every block that is neither pruned nor
  discarded can be read in full, after any history of proper insertions and canonicalizations, of pins
  and of failed transactions; what the store holds beyond the state of the last canonical block is what the
  pruning window will delete; the window keeps to its size and is read back from its journal.  The
  last ones say where the database does less than it means to: what a pin leaves of a discarded fork,
  the child of a discarded block, and the best canonical number before genesis is written.
\<close>

section \<open>Running lists of events\<close>

fun run_events :: "('h, 'k) codec \<Rightarrow> ('h, 'k) world \<Rightarrow> 'h event list \<Rightarrow> ('h, 'k) stored_state_db \<Rightarrow> ('h, 'k) stored_state_db option" where
  "run_events C W [] s = Some s"
| "run_events C W (ev # evs) s =
     (if proper W ev s then (case execute C W ev s of None \<Rightarrow> None | Some s' \<Rightarrow> run_events C W evs s') else None)"


definition open_system :: "('h, 'k) codec \<Rightarrow> pruning_mode \<Rightarrow> ('h, 'k) stored_state_db option" where
  "open_system C m =
     (case state_db_new C m True (\<lambda>_. Inr None :: unit + _) of
        Some (Inr d) \<Rightarrow> Some \<lparr>database = d, store = empty_store, next_store = empty_store\<rparr>
      | _ \<Rightarrow> None)"

lemma run_events_sound:
  "run_events C W evs s = Some s' \<Longrightarrow> state_db_run C W m evs0 s \<Longrightarrow> state_db_run C W m (evs0 @ evs) s'"
proof (induction evs arbitrary: s evs0)
  case (Cons ev evs)
  then obtain s1 where "proper W ev s" "execute C W ev s = Some s1" "run_events C W evs s1 = Some s'"
    by (auto split: if_splits option.splits)
  then show ?case
    using Cons.IH [of s1 "evs0 @ [ev]"] state_db_run.step [OF Cons.prems(2)] by simp
qed simp

lemma open_system_run:
  assumes "open_system C m = Some s0" "run_events C W evs s0 = Some s"
  shows "state_db_run C W m evs s"
proof -
  have "state_db_run C W m [] s0"
    using assms(1) by (auto simp: open_system_def intro: state_db_run.start split: option.splits sum.splits)
  from run_events_sound [OF assms(2) this] show ?thesis by simp
qed

section \<open>Availability\<close>

definition db_get :: "('h, 'k) stored_state_db \<Rightarrow> 'k \<Rightarrow> unit + db_value option" where
  "db_get s k = Inr (state_col (store s) k)"

abbreviation read_key :: "'k \<Rightarrow> ('h, 'k) stored_state_db \<Rightarrow> unit state_db_error + db_value option" where
  "read_key k s \<equiv> state_get k (db_get s) (database s)"

lemma read_stored:
  assumes "system_ok C W s" "k \<in> dom (state_col (store s))"
  shows "read_key k s = Inr (Some (value_of W k))"
proof -
  obtain v where v: "state_col (store s) k = Some v" using assms(2) by blast
  then have "v = value_of W k" using assms(1) by (auto simp: system_ok_def Let_def right_values_def)
  moreover have "noncanonical_get k (non_canonical (database s)) = Some u \<Longrightarrow> u = value_of W k" for u
    using assms(1) overlay_get_value by (fastforce simp: system_ok_def Let_def)
  ultimately show ?thesis
    using v by (auto simp: state_get_def db_get_def split: option.splits)
qed

lemma read_in_levels:
  assumes s: "system_ok C W s" and W: "world_ok W"
    and h: "h \<in> bo_hash ` set (level_at (overlay_levels (non_canonical (database s))) i)" and k: "k \<in> state_of W h"
  shows "read_key k s = Inr (Some (value_of W k))"
proof -
  let ?nc = "non_canonical (database s)"
  have nc: "noncanonical_ok C W ?nc" using s by (simp add: system_ok_def Let_def)
  obtain b where b: "b \<in> set (level_at (overlay_levels ?nc) i)" "h = bo_hash b" using h by blast
  have "k \<in> state_of W (bo_hash b)" using k b(2) by simp
  from overlay_reads [OF nc W b(1) this] show ?thesis
  proof (elim disjE exE conjE)
    assume "noncanonical_get k ?nc = Some (value_of W k)"
    then show ?thesis by (simp add: state_get_def)
  next
    fix h n
    assume "last_canonicalized ?nc = Some (h, n)" "k \<in> state_of W h"
    then have "k \<in> dom (state_col (store s))"
      using s by (auto simp: system_ok_def Let_def last_canonicalized_hash_def has_state_def)
    then show ?thesis by (rule read_stored [OF s])
  qed
qed

lemma undoable_in_levels:
  assumes "undoable W hs f" "h \<in> set hs"
  shows "\<exists>i. h \<in> bo_hash ` set (f i)"
  using assms
proof (induction hs arbitrary: f)
  case (Cons x hs)
  then obtain l where l: "f l \<noteq> []" "bo_hash (last (f l)) = x" "undoable W hs (f(l := butlast (f l)))" by auto
  show ?case
  proof (cases "h = x")
    case True
    then show ?thesis using l(1,2) by (metis imageI last_in_set)
  next
    case False
    then obtain i where "h \<in> bo_hash ` set ((f(l := butlast (f l))) i)"
      using Cons.IH [OF l(3)] Cons.prems(2) by auto
    then show ?thesis by (auto split: if_splits dest: in_set_butlastD)
  qed
qed simp

lemma parents_kept:
  assumes "noncanonical_ok C W nc"
  shows "map_of (parents nc) h \<noteq> None \<longleftrightarrow>
    (\<exists>i. h \<in> bo_hash ` set (level_at (overlay_levels nc) i)) \<or> pinned_insertions nc h \<noteq> None"
proof -
  have "map_of (parents nc) h \<noteq> None \<longleftrightarrow> h \<in> bo_hash ` set (blocks_in (overlay_levels nc)) \<union> dom (pinned_insertions nc)"
    using assms unfolding noncanonical_ok_def kept_levels_ok_def kept_ok_def by simp
  then show ?thesis unfolding set_blocks_in by blast
qed

lemma have_block_kept:
  assumes nc: "noncanonical_ok C W nc" and h: "overlay_have_block h nc"
  shows "(\<exists>i. h \<in> bo_hash ` set (level_at (overlay_levels nc) i)) \<or> pinned_insertions nc h \<noteq> None"
proof (cases "h \<in> set (pending_insertions nc)")
  case True
  then show ?thesis using nc undoable_in_levels [of W "rev (pending_insertions nc)"] by (simp add: noncanonical_ok_def)
next
  case False
  then show ?thesis using h parents_kept [OF nc] by (simp add: overlay_have_block_def)
qed

lemma read_in_window:
  assumes s: "system_ok C W s" and W: "world_ok W" and w: "pruning (database s) = Some w"
    and h: "rw_have_block h w" and k: "k \<in> state_of W h"
  shows "read_key k s = Inr (Some (value_of W k))"
proof -
  let ?nc = "non_canonical (database s)"
  let ?rows = "death_rows w" and ?pc = "pending_canonicalizations ?nc"
  let ?n = "length ?rows - length ?pc"
  have wp: "rows_linked ?nc w" "rows_stored W (state_col (store s)) (state_col (next_store s)) w"
    and path: "path_ok W ?pc (level_at (overlay_levels ?nc))"
    using s w by (auto simp: system_ok_def Let_def window_part_def noncanonical_ok_def split: pruning_mode.splits)
  obtain row where "row \<in> set ?rows" "row_hash row = h"
    using h by (auto simp: rw_have_block_def list_ex_iff dest: in_set_dropD)
  then obtain i where i: "i < length ?rows" "row_hash (?rows ! i) = h"
    by (auto simp: in_set_conv_nth)
  show ?thesis
  proof (cases "i < ?n")
    case True
    then have "has_state W (state_col (store s)) h"
      using wp i(2) by (auto simp: rows_stored_def rows_linked_def Let_def)
    then show ?thesis using read_stored [OF s] k by (auto simp: has_state_def)
  next
    case False
    have d: "drop ?n (map row_hash ?rows) = ?pc" using wp(1) by (simp add: rows_linked_def Let_def)
    have "i - ?n < length ?pc"
      using False i(1) wp(1) by (auto simp: rows_linked_def Let_def)
    moreover have "drop ?n (map row_hash ?rows) ! (i - ?n) = h"
      using False i by simp
    then have "?pc ! (i - ?n) = h" unfolding d .
    ultimately have "h \<in> bo_hash ` set (level_at (overlay_levels ?nc) (i - ?n))"
      using path by (auto simp: path_ok_def)
    then show ?thesis using read_in_levels [OF s W _ k] by blast
  qed
qed

text \<open>
  A block that lost against the canonical chain and that only its pin keeps: a pinned block that was
  canonicalized is in the pruning window.
\<close>

definition discarded_fork :: "'h \<Rightarrow> ('h, 'k) state_db \<Rightarrow> bool" where
  "discarded_fork h d \<longleftrightarrow> pinned_insertions (non_canonical d) h \<noteq> None \<and>
     (case pruning d of None \<Rightarrow> True | Some w \<Rightarrow> \<not> rw_have_block h w)"

text \<open>
  C2. With a limited pruning window, the state of every block that the database does not report as
  pruned, and that is not a discarded fork kept by a pin alone, can be read in full: every node of the
  state of the block is found in the overlay or in the store, with its value.  This holds after any
  history of insertions, canonicalizations, pins, commits, failed transactions, removals and reverts in
  which blocks are inserted on the last canonical block or on a block of the levels of the overlay,
  canonicalizations of one transaction follow each other, and blocks are removed and levels reverted
  with nothing pending.
\<close>

theorem state_available:
  assumes W: "world_ok W" and s: "state_db_run C W (Constrained cons) evs s"
    and h: "\<not> is_pruned h (number_of W h) (database s)" "\<not> discarded_fork h (database s)"
    and k: "k \<in> state_of W h"
  shows "read_key k s = Inr (Some (value_of W k))"
proof -
  have ok: "system_ok C W s" using run_ok [OF s W] by simp
  have m: "mode (database s) = Constrained cons" using run_mode [OF s] .
  obtain w where w: "pruning (database s) = Some w"
    using ok m by (auto simp: system_ok_def Let_def window_part_def)
  have nc: "noncanonical_ok C W (non_canonical (database s))" using ok by (simp add: system_ok_def Let_def)
  from h(1) have "overlay_have_block h (non_canonical (database s)) \<or> rw_have_block h w"
    by (auto simp: is_pruned_def m w split: if_splits)
  then consider i where "h \<in> bo_hash ` set (level_at (overlay_levels (non_canonical (database s))) i)" | "rw_have_block h w"
    using have_block_kept [OF nc, of h] h(2) w by (auto simp: discarded_fork_def)
  then show ?thesis
  proof cases
    case 1
    then show ?thesis by (rule read_in_levels [OF ok W _ k])
  next
    case 2
    show ?thesis by (rule read_in_window [OF ok W w 2 k])
  qed
qed

text \<open>
  C14. With the mode that archives the canonical chain, the state of every canonical block up to the
  last canonicalized one stays readable.
\<close>

theorem archive_keeps_canonical:
  assumes W: "world_ok W" and s: "state_db_run C W ArchiveCanonical evs s"
    and h: "last_canonicalized_hash (non_canonical (database s)) = Some tip" "h \<in> canonical_up_to W tip"
    and k: "k \<in> state_of W h"
  shows "read_key k s = Inr (Some (value_of W k))"
proof -
  have ok: "system_ok C W s" using run_ok [OF s W] by simp
  have "has_state W (state_col (store s)) h"
    using ok h run_mode [OF s] by (auto simp: system_ok_def Let_def window_part_def)
  then show ?thesis using read_stored [OF ok] k by (auto simp: has_state_def)
qed

text \<open>
  C13. Properly used, no call of the state database panics, after any history.
\<close>

theorem state_db_never_panics:
  assumes "world_ok W" "state_db_run C W m evs s" "m \<noteq> ArchiveAll" "proper W ev s"
  shows "execute C W ev s \<noteq> None"
  using execute_ok [OF run_ok [OF assms(2,1,3)] assms(1,4)] by blast

text \<open>
  C31. After a canonicalization the pruning window has at most the configured number of blocks, unless
  the next block to prune is pinned.
\<close>

theorem window_bounded:
  assumes W: "world_ok W" and s: "state_db_run C W (Constrained cons) evs s" and p: "proper W (Canonicalize h) s"
    and c: "canonicalize_block C h (database s) = Some (Inr c :: unit state_db_error + _, d)"
  shows "\<exists>w. pruning d = Some w \<and>
    (window_size w \<le> unwrap_or_default 0 (max_blocks cons) \<or> (\<exists>x. next_hash w = Some x \<and> db_pinned d x \<noteq> None))"
proof -
  have ok: "system_ok C W s" using run_ok [OF s W] by simp
  have m: "mode (database s) = Constrained cons" using run_mode [OF s] .
  obtain w where w: "pruning (database s) = Some w" "max_mem cons = None" "window_ok C (state_of W) w"
    using ok m by (auto simp: system_ok_def Let_def window_part_def)
  obtain c1 nc where nc: "overlay_canonicalize C h empty_commit (non_canonical (database s)) = Some (Inr c1 :: unit state_db_error + _, nc)"
    using c m by (auto simp: canonicalize_block_def split: option.splits sum.splits)
  from canonicalize_pruned [OF m w(2,1,3) nc] c show ?thesis
    by (auto simp: pruned_up_to_def)
qed

section \<open>What the store holds\<close>

lemma canonicalize_block_window:
  assumes "canonicalize_block C h d = Some (r :: (unit state_db_error + 'k commit_set) \<times> ('h, 'k) state_db)" "pruning d = None"
  shows "pruning (snd r) = None"
  using assms by (auto simp: canonicalize_block_def prune_window_def Let_def split: option.splits sum.splits if_splits)

definition waiting :: "('h, 'k) ref_window \<Rightarrow> 'k set" where
  "waiting w = (\<Union>i\<in>{pending_prunings w..<length (death_rows w)}. set (row_deleted (death_rows w ! i)))"

lemma waiting_rows: "waiting w = (\<Union>row\<in>set (drop (pending_prunings w) (death_rows w)). set (row_deleted row))"
proof -
  have "drop (pending_prunings w) (death_rows w) =
      map ((!) (death_rows w)) [pending_prunings w..<length (death_rows w)]"
    by (metis add_0 drop_map drop_upt map_nth)
  then show ?thesis by (simp add: waiting_def)
qed

definition tip_state :: "('h, 'k) world \<Rightarrow> ('h, 'k) overlay \<Rightarrow> 'k set" where
  "tip_state W nc = (case tip_hash nc of None \<Rightarrow> {} | Some h \<Rightarrow> state_of W h)"

definition tight :: "('h, 'k) world \<Rightarrow> ('h, 'k) stored_state_db \<Rightarrow> bool" where
  "tight W s \<longleftrightarrow>
     (\<forall>w. pruning (database s) = Some w \<longrightarrow>
        dom (state_col (next_store s)) = tip_state W (non_canonical (database s)) \<union> waiting w)"

lemma tight_canonicalize:
  assumes W: "world_ok W" and w: "window_ok C (state_of W) w"
    and N: "dom N = parent_state W h \<union> waiting w"
    and w1: "w1 = noted C h (inserted_keys W h) (deleted_keys W h) w" "window_ok C (state_of W) (w1\<lparr>pending_prunings := q\<rparr>)"
    and q: "pending_prunings w \<le> q" "q \<le> length (death_rows w1)"
    and c: "fst ` set (inserted c) = set (inserted_keys W h)" "deleted c = pruned_keys (pending_prunings w) q (death_rows w1)"
  shows "dom (apply_change c N) = state_of W h \<union> waiting (w1\<lparr>pending_prunings := q\<rparr>)"
proof -
  let ?p = "pending_prunings w" and ?r = "length (death_rows w)" and ?rows = "death_rows w1"
  let ?del = "\<lambda>i. set (row_deleted (?rows ! i))"
  have len: "length ?rows = Suc ?r" and p: "?p \<le> ?r" using w by (simp_all add: w1(1) noted_def window_ok_def)
  have old: "?del i = set (row_deleted (death_rows w ! i)) - set (inserted_keys W h)" if "i < ?r" for i
    using that by (auto simp: w1(1) noted_def nth_append)
  have new: "?del ?r = set (deleted_keys W h)" by (simp add: w1(1) noted_def nth_append)
  have "{?p..<Suc ?r} = insert ?r {?p..<?r}" using p by auto
  then have U: "(\<Union>i\<in>{?p..<Suc ?r}. ?del i) = set (deleted_keys W h) \<union> (waiting w - set (inserted_keys W h))"
    using old new by (auto simp: waiting_def)
  have st: "state_of W h = (parent_state W h - set (deleted_keys W h)) \<union> set (inserted_keys W h)"
    "set (deleted_keys W h) \<subseteq> parent_state W h" "set (inserted_keys W h) \<inter> set (deleted_keys W h) = {}"
    using W unfolding world_ok_def by blast+
  have "dom N \<union> set (inserted_keys W h) = state_of W h \<union> (\<Union>i\<in>{?p..<Suc ?r}. ?del i)"
    unfolding N U st(1) using st(2) by blast
  then have dom: "dom (apply_change c N) = (state_of W h \<union> (\<Union>i\<in>{?p..<Suc ?r}. ?del i)) - (\<Union>i\<in>{?p..<q}. ?del i)"
    unfolding dom_apply_change c set_pruned_keys by simp
  have avoid: "?del i \<inter> state_of W h = {}" if "i \<le> ?r" for i
  proof -
    have "row_hash (?rows ! ?r) = h" by (simp add: w1(1) noted_def nth_append)
    then show ?thesis using w1(2) that len by (auto simp: window_ok_def rows_ok_def)
  qed
  have disj: "?del i \<inter> ?del j = {}" if "i < Suc ?r" "j < Suc ?r" "i \<noteq> j" for i j
    using index_ok_unique [of "w1\<lparr>pending_prunings := q\<rparr>" i _ j] w1(2) that len by (auto simp: window_ok_def)
  have split: "{?p..<Suc ?r} = {?p..<q} \<union> {q..<Suc ?r}" using q len by auto
  have "(\<Union>i\<in>{q..<Suc ?r}. ?del i) \<inter> (\<Union>i\<in>{?p..<q}. ?del i) = {}"
  proof -
    have "?del i \<inter> ?del j = {}" if "i \<in> {q..<Suc ?r}" "j \<in> {?p..<q}" for i j
      using disj [of i j] that q(2) len by simp
    then show ?thesis by blast
  qed
  moreover have "state_of W h \<inter> (\<Union>i\<in>{?p..<q}. ?del i) = {}"
  proof -
    have "?del i \<inter> state_of W h = {}" if "i \<in> {?p..<q}" for i
      using avoid [of i] that q(2) len by simp
    then show ?thesis by blast
  qed
  ultimately show ?thesis
    unfolding dom split waiting_def by (auto simp: len)
qed

lemma tight_steady: "steady s s' \<Longrightarrow> tight W s \<Longrightarrow> tight W s'"
  by (simp add: steady_def tight_def tip_state_def tip_hash_def last_canonicalized_hash_def)

lemma tight_step:
  assumes s: "system_ok C W s" and W: "world_ok W" and p: "proper W ev s" and e: "execute C W ev s = Some s'"
    and t: "tight W s" and a: "ev \<noteq> Abort"
  shows "tight W s'"
proof (cases ev)
  case (Insert h)
  have "steady s s'" using insert_step_ok [OF s W p [unfolded Insert]] e Insert by force
  then show ?thesis using t by (rule tight_steady)
next
  case (Canonicalize h)
  show ?thesis
  proof (cases "pruning (database s)")
    case None
    then have "pruning (database s') = None"
      using canonicalize_block_window [of C h "database s"] e Canonicalize by (auto simp: stage_def)
    then show ?thesis by (simp add: tight_def)
  next
    case (Some w)
    then have wok: "window_ok C (state_of W) w"
      using s by (auto simp: system_ok_def Let_def window_part_def split: pruning_mode.splits)
    have ok': "system_ok C W s'" using execute_ok [OF s W p] e by simp
    show ?thesis
    proof (rule canonicalize_cases [OF s W p [unfolded Canonicalize] e [unfolded Canonicalize] Some])
      assume "s' = s"
      then show ?thesis using t by simp
    next
      let ?w1 = "noted C h (inserted_keys W h) (deleted_keys W h) w"
      fix q c c' nc'
      assume tip: "number_of W h = 0 \<longleftrightarrow> tip_hash (non_canonical (database s)) = None"
        "number_of W h \<noteq> 0 \<Longrightarrow> tip_hash (non_canonical (database s)) = Some (parent_of W h)"
      have parent: "parent_state W h = tip_state W (non_canonical (database s))"
        using tip by (auto simp: parent_state_def tip_state_def)
      assume r: "pending_prunings w \<le> q" "q \<le> length (death_rows ?w1)"
        "pruning (database s') = Some (?w1\<lparr>pending_prunings := q\<rparr>)" "tip_hash (non_canonical (database s')) = Some h"
        "commit_data c' = \<lparr>inserted = inserted (change_of W h), deleted = pruned_keys (pending_prunings w) q (death_rows ?w1)\<rparr>"
        "next_store s' = apply_state_commit c' (next_store s)"
      have "window_ok C (state_of W) (?w1\<lparr>pending_prunings := q\<rparr>)"
        using ok' r(3) by (auto simp: system_ok_def Let_def window_part_def split: pruning_mode.splits)
      moreover have "dom (state_col (next_store s)) = parent_state W h \<union> waiting w"
        using t Some parent by (simp add: tight_def)
      ultimately have "dom (apply_change (commit_data c') (state_col (next_store s))) =
          state_of W h \<union> waiting (?w1\<lparr>pending_prunings := q\<rparr>)"
        using r(5) by (intro tight_canonicalize [OF W wok _ refl _ r(1,2)]) simp_all
      then show ?thesis
        using r(3,4,6) by (simp add: tight_def tip_state_def apply_state_commit_def)
    qed
  qed
next
  case (Pin h)
  then show ?thesis using pin_step_ok(2) [OF s, of h] e t by (auto intro: tight_steady)
next
  case (Unpin h)
  have "steady s s'" using unpin_step_ok [OF s, of h] e Unpin by force
  then show ?thesis using t by (rule tight_steady)
next
  case Commit
  obtain s1 where s1: "execute C W Commit s = Some s1" "next_store s1 = next_store s"
    "tip_hash (non_canonical (database s1)) = tip_hash (non_canonical (database s))"
    "\<forall>w. pruning (database s) = Some w \<longrightarrow> pruning (database s1) = rw_apply_pending w"
    using commit_step_ok [OF s] by blast
  have "s1 = s'" using s1(1) e unfolding Commit by (simp only: option.inject)
  show ?thesis
  proof (cases "pruning (database s)")
    case None
    then have "pruning (database s') = None"
      using e Commit by (auto simp: apply_pending_def split: option.splits)
    then show ?thesis by (simp add: tight_def)
  next
    case (Some w)
    then have "window_ok C (state_of W) w"
      using s by (auto simp: system_ok_def Let_def window_part_def split: pruning_mode.splits)
    then obtain w' where w': "rw_apply_pending w = Some w'" "death_rows w' = drop (pending_prunings w) (death_rows w)"
      "pending_prunings w' = 0" "pending_prunings w \<le> length (death_rows w)"
      using rw_apply_pending_ok [of C "state_of W" w] by (auto simp: window_ok_def)
    have "waiting w' = waiting w" using w'(2,3) by (simp add: waiting_rows)
    then show ?thesis
      using t Some s1 w'(1) \<open>s1 = s'\<close> by (simp add: tight_def tip_state_def)
  qed
next
  case RevertOne
  have "steady s s'" using revert_one_step_ok [OF s p [unfolded RevertOne]] e RevertOne by force
  then show ?thesis using t by (rule tight_steady)
next
  case (Remove h)
  have "steady s s'" using remove_step_ok [OF s p [unfolded Remove]] e Remove by force
  then show ?thesis using t by (rule tight_steady)
qed (use a in simp)

lemma run_tight:
  assumes "state_db_run C W m evs s" "world_ok W" "m \<noteq> ArchiveAll" "Abort \<notin> set evs"
  shows "tight W s"
  using assms(1,4)
proof (induction rule: state_db_run.induct)
  case (start d)
  have "pruning d = None \<or> pruning d = Some (ref_window_empty 0 True)" "non_canonical d = overlay_empty None"
    using state_db_new_empty [OF start(1)] by blast+
  then show ?case
    by (auto simp: tight_def tip_state_def tip_hash_def last_canonicalized_hash_def overlay_empty_def waiting_def
        ref_window_empty_def empty_store_def)
next
  case (step evs s ev s')
  then show ?case
    using tight_step [OF run_ok [OF step.hyps(1) assms(2,3)] assms(2) step.hyps(2,3)] by auto
qed

text \<open>
  C4. Pruning loses nothing and leaks nothing: as long as no transaction failed, and while no
  canonicalization is pending, the nodes in the store are exactly those of the state of the last
  canonical block and those that wait in the pruning window for their deletion.
\<close>

theorem store_is_exact:
  assumes W: "world_ok W" and s: "state_db_run C W (Constrained cons) evs s" "Abort \<notin> set evs"
    and p: "pending_canonicalizations (non_canonical (database s)) = []"
      "last_canonicalized_hash (non_canonical (database s)) = Some tip"
    and w: "pruning (database s) = Some w"
  shows "dom (state_col (store s)) =
    state_of W tip \<union> (\<Union>row\<in>set (drop (pending_prunings w) (death_rows w)). set (row_deleted row))"
proof -
  have "system_ok C W s" using run_ok [OF s(1) W] by simp
  then have "state_col (store s) = state_col (next_store s)" using p(1) by (simp add: system_ok_def Let_def)
  moreover have "tight W s" using run_tight [OF s(1) W] s(2) by simp
  ultimately show ?thesis using w p by (simp add: tight_def tip_state_def tip_hash_def waiting_rows)
qed


section \<open>Restarts\<close>

text \<open>
  C5. The pruning window survives a restart: once nothing is pending, reading the journal from the
  store gives back the window in memory, row by row and with its index, as long as no transaction
  failed.
\<close>

theorem window_survives_restart:
  assumes C: "codec_ok C" and W: "world_ok W" "\<And>h. number_of W h + 1 < 2 ^ 64"
    and s: "state_db_run C W (Constrained cons) evs s" "Abort \<notin> set evs" "idle (non_canonical (database s))"
    and w: "pruning (database s) = Some w"
  shows "ref_window_new C (\<lambda>k. Inr (meta_col (store s) k) :: unit + _) True = Some (Inr w)"
proof -
  have ok: "system_ok C W s" using run_ok [OF s(1) W(1)] by simp
  then have "store s = next_store s" using s(3) by (simp add: system_ok_def Let_def)
  moreover have "rw_pending_canonicalizations w = 0"
    using ok w s(3)
    by (auto simp: system_ok_def Let_def window_part_def rows_linked_def idle_def split: pruning_mode.splits)
  ultimately show ?thesis
    using ref_window_new_journaled [OF C W(1)] run_journal_ok [OF s(1,2) C W] w by (simp add: journal_ok_def)
qed

section \<open>An example\<close>

definition holds_after ::
    "('h, 'k) codec \<Rightarrow> ('h, 'k) world \<Rightarrow> pruning_mode \<Rightarrow> 'h event list \<Rightarrow> (('h, 'k) stored_state_db \<Rightarrow> bool) \<Rightarrow> bool" where
  "holds_after C W m evs P =
     (case open_system C m of
        None \<Rightarrow> False
      | Some s0 \<Rightarrow> (case run_events C W evs s0 of None \<Rightarrow> False | Some s \<Rightarrow> P s))"

lemma case_SomeD: "(case x of None \<Rightarrow> False | Some y \<Rightarrow> P y) \<Longrightarrow> \<exists>y. x = Some y \<and> P y"
  by (cases x) simp_all

lemma holds_afterD: "holds_after C W m evs P \<Longrightarrow> \<exists>s. state_db_run C W m evs s \<and> P s"
  by (auto simp: holds_after_def intro: open_system_run split: option.splits)

text \<open>
  A genesis block, two children of it, a grandchild of each and a block on the second of these.  The first child deletes a node that
  its own child inserts again.
\<close>

definition ex_nodes :: "nat \<Rightarrow> nat change_set" where
  "ex_nodes h =
     (if h = 0 then \<lparr>inserted = [(10, [10]), (11, [11])], deleted = []\<rparr>
      else if h = 1 then \<lparr>inserted = [(12, [12])], deleted = [10]\<rparr>
      else if h = 2 then \<lparr>inserted = [(13, [13])], deleted = []\<rparr>
      else if h = 3 then \<lparr>inserted = [(10, [10])], deleted = [11]\<rparr>
      else if h = 4 then \<lparr>inserted = [(14, [14])], deleted = [13]\<rparr>
       else if h = 5 then \<lparr>inserted = [(15, [15])], deleted = []\<rparr>
      else empty_change)"

definition ex_world :: "(nat, nat) world" where
  "ex_world =
     \<lparr>parent_of = (\<lambda>h. if h = 3 then 1 else if h = 4 then 2 else if h = 5 then 4 else 0),
      number_of = (\<lambda>h. if h = 1 \<or> h = 2 then 1 else if h = 3 \<or> h = 4 then 2 else if h = 5 then 3 else 0),
      change_of = ex_nodes,
      state_of = (\<lambda>h. if h = 0 then {10, 11} else if h = 1 then {11, 12} else if h = 2 then {10, 11, 13}
                      else if h = 3 then {10, 12} else if h = 4 then {10, 11, 14}
                      else if h = 5 then {10, 11, 14, 15} else {}),
      value_of = (\<lambda>k. [of_nat k])\<rparr>"

lemma ex_world_ok: "world_ok ex_world"
  unfolding world_ok_def
proof
  fix h :: nat
  consider "h = 0" | "h = 1" | "h = 2" | "h = 3" | "h = 4" | "h = 5" | "h > 5" by linarith
  then show "state_of ex_world h = (parent_state ex_world h - set (deleted_keys ex_world h)) \<union> set (inserted_keys ex_world h) \<and>
      set (deleted_keys ex_world h) \<subseteq> parent_state ex_world h \<and>
      set (inserted_keys ex_world h) \<inter> set (deleted_keys ex_world h) = {} \<and>
      (\<forall>(k, v) \<in> set (inserted (change_of ex_world h)). v = value_of ex_world k) \<and>
      (number_of ex_world h \<noteq> 0 \<longrightarrow> number_of ex_world h = Suc (number_of ex_world (parent_of ex_world h)))"
    by cases (auto simp: ex_world_def ex_nodes_def parent_state_def empty_change_def)
qed

text \<open>Bytes that hold a list of numbers, each as so many ones and a zero.\<close>

definition enc_nats :: "nat list \<Rightarrow> bytes" where
  "enc_nats ns = concat (map (\<lambda>n. replicate n 1 @ [0]) ns)"

fun dec_nats :: "nat \<Rightarrow> bytes \<Rightarrow> nat list" where
  "dec_nats acc [] = []"
| "dec_nats acc (b # bs) = (if b = 0 then acc # dec_nats 0 bs else dec_nats (Suc acc) bs)"

lemma dec_nats_replicate: "dec_nats acc (replicate n 1 @ 0 # bs) = (acc + n) # dec_nats 0 bs"
  by (induction n arbitrary: acc) simp_all

lemma dec_enc_nats [simp]: "dec_nats 0 (enc_nats ns) = ns"
  by (induction ns) (simp_all add: enc_nats_def dec_nats_replicate)

definition ex_codec :: "(nat, nat) codec" where
  "ex_codec =
     \<lparr>encode_unit = [],
      encode_u64 = (\<lambda>n. enc_nats [n]),
      decode_u64 = (\<lambda>bs. case dec_nats 0 bs of [n] \<Rightarrow> Some n | _ \<Rightarrow> None),
      encode_u64_pair = (\<lambda>(a, b). enc_nats [a, b]),
      encode_block_id = (\<lambda>(h, n). enc_nats [h, n]),
      decode_block_id = (\<lambda>bs. case dec_nats 0 bs of [h, n] \<Rightarrow> Some (h, n) | _ \<Rightarrow> None),
      encode_prune = (\<lambda>r. enc_nats (pj_hash r # length (pj_inserted r) # pj_inserted r @ pj_deleted r)),
      decode_prune = (\<lambda>bs. case dec_nats 0 bs of
          h # n # ks \<Rightarrow> Some \<lparr>pj_hash = h, pj_inserted = take n ks, pj_deleted = drop n ks\<rparr>
        | _ \<Rightarrow> None),
      encode_overlay = (\<lambda>r. enc_nats (oj_hash r # oj_parent_hash r # map fst (oj_inserted r))),
      decode_overlay = (\<lambda>_. None)\<rparr>"

lemma ex_codec_ok: "codec_ok ex_codec"
  by (simp add: codec_ok_def ex_codec_def)

definition ex_history :: "nat event list" where
  "ex_history =
     [Insert 0, Canonicalize 0, Commit, Insert 1, Commit, Insert 2, Commit, Insert 3, Abort, Insert 3, Insert 4, Commit,
      Pin 4, Canonicalize 1, Commit]"

theorem state_available_witness:
  "\<exists>s. state_db_run ex_codec ex_world (keep_blocks 1) ex_history s \<and> read_key 10 s = Inr (Some [10])"
proof -
  have "holds_after ex_codec ex_world (keep_blocks 1) ex_history
      (\<lambda>s. \<not> is_pruned 3 2 (database s) \<and> \<not> discarded_fork 3 (database s))"
    by code_simp
  from holds_afterD [OF this] obtain s where s: "state_db_run ex_codec ex_world (keep_blocks 1) ex_history s"
    "\<not> is_pruned 3 2 (database s)" "\<not> discarded_fork 3 (database s)" by blast
  have "\<not> is_pruned 3 (number_of ex_world 3) (database s)" "10 \<in> state_of ex_world 3" "value_of ex_world 10 = [10]"
    using s(2) by (simp_all add: ex_world_def)
  with s state_available [OF ex_world_ok s(1) [unfolded keep_blocks_def] _ s(3), of 10] show ?thesis by auto
qed

theorem archive_keeps_canonical_witness:
  "\<exists>s. state_db_run ex_codec ex_world ArchiveCanonical ex_history s \<and> read_key 10 s = Inr (Some [10])"
proof -
  have "holds_after ex_codec ex_world ArchiveCanonical ex_history
      (\<lambda>s. last_canonicalized_hash (non_canonical (database s)) = Some 1)"
    by code_simp
  from holds_afterD [OF this] obtain s where s: "state_db_run ex_codec ex_world ArchiveCanonical ex_history s"
    "last_canonicalized_hash (non_canonical (database s)) = Some 1" by blast
  have "0 \<in> canonical_up_to ex_world 1" "10 \<in> state_of ex_world 0" "value_of ex_world 10 = [10]"
    by (auto simp: canonical_up_to_def ex_world_def intro!: exI [of _ 1])
  with s archive_keeps_canonical [OF ex_world_ok s(1,2), of 0 10] show ?thesis by auto
qed

theorem state_db_never_panics_witness:
  "\<exists>s. state_db_run ex_codec ex_world (keep_blocks 1) ex_history s \<and> execute ex_codec ex_world (Canonicalize 3) s \<noteq> None"
proof -
  have "holds_after ex_codec ex_world (keep_blocks 1) ex_history (\<lambda>s. proper ex_world (Canonicalize 3) s)"
    by code_simp
  from holds_afterD [OF this] obtain s where s: "state_db_run ex_codec ex_world (keep_blocks 1) ex_history s"
    "proper ex_world (Canonicalize 3) s" by blast
  have "keep_blocks 1 \<noteq> ArchiveAll" by (simp add: keep_blocks_def)
  with s state_db_never_panics [OF ex_world_ok s(1) _ s(2)] show ?thesis by blast
qed

theorem window_bounded_witness:
  "\<exists>s d w. state_db_run ex_codec ex_world (keep_blocks 1) ex_history s \<and>
     map_option snd (canonicalize_block ex_codec 3 (database s) :: ((unit state_db_error + _) \<times> _) option) = Some d \<and>
     pruning d = Some w \<and> (window_size w \<le> 1 \<or> (\<exists>x. next_hash w = Some x \<and> db_pinned d x \<noteq> None))"
proof -
  have "holds_after ex_codec ex_world (keep_blocks 1) ex_history
      (\<lambda>s. proper ex_world (Canonicalize 3) s \<and>
         (case canonicalize_block ex_codec 3 (database s) of
            Some (Inr c :: unit state_db_error + _, d) \<Rightarrow> True | _ \<Rightarrow> False))"
    by code_simp
  from holds_afterD [OF this] obtain s where s: "state_db_run ex_codec ex_world (keep_blocks 1) ex_history s"
    "proper ex_world (Canonicalize 3) s"
    and r: "case canonicalize_block ex_codec 3 (database s) of
      Some (Inr c :: unit state_db_error + _, d) \<Rightarrow> True | _ \<Rightarrow> False" by blast
  from r obtain c d where c: "canonicalize_block ex_codec 3 (database s) = Some (Inr c :: unit state_db_error + _, d)"
    by (auto split: option.splits prod.splits sum.splits)
  from window_bounded [OF ex_world_ok s(1) [unfolded keep_blocks_def] s(2) c] s(1) c show ?thesis by auto
qed

definition ex_quiet_history :: "nat event list" where
  "ex_quiet_history =
     [Insert 0, Canonicalize 0, Commit, Insert 1, Insert 2, Commit, Insert 4, Commit, Pin 4, Canonicalize 1, Commit]"

theorem store_is_exact_witness:
  "\<exists>s. state_db_run ex_codec ex_world (keep_blocks 1) ex_quiet_history s \<and> dom (state_col (store s)) = {10, 11, 12}"
proof -
  have "holds_after ex_codec ex_world (keep_blocks 1) ex_quiet_history
      (\<lambda>s. pending_canonicalizations (non_canonical (database s)) = [] \<and>
         last_canonicalized_hash (non_canonical (database s)) = Some 1 \<and>
         (case pruning (database s) of
            Some w \<Rightarrow> map row_deleted (drop (pending_prunings w) (death_rows w)) = [[10]] | None \<Rightarrow> False))"
    by code_simp
  from holds_afterD [OF this] obtain s w where s: "state_db_run ex_codec ex_world (keep_blocks 1) ex_quiet_history s"
    "pending_canonicalizations (non_canonical (database s)) = []"
    "last_canonicalized_hash (non_canonical (database s)) = Some 1" "pruning (database s) = Some w"
    and w: "map row_deleted (drop (pending_prunings w) (death_rows w)) = [[10]]"
    by (auto split: option.splits)
  have "Abort \<notin> set ex_quiet_history" by (simp add: ex_quiet_history_def)
  note e = store_is_exact [OF ex_world_ok s(1) [unfolded keep_blocks_def] this s(2-4)]
  have "(\<Union>row\<in>set (drop (pending_prunings w) (death_rows w)). set (row_deleted row)) =
      \<Union> (set (map set (map row_deleted (drop (pending_prunings w) (death_rows w)))))" by simp
  also have "\<dots> = {10}" unfolding w by simp
  finally have "dom (state_col (store s)) = {10, 11, 12}"
    using e by (auto simp: ex_world_def)
  with s(1) show ?thesis by blast
qed

theorem window_survives_restart_witness:
  "\<exists>s w. state_db_run ex_codec ex_world (keep_blocks 1) ex_quiet_history s \<and> map row_hash (death_rows w) = [1] \<and>
     ref_window_new ex_codec (\<lambda>k. Inr (meta_col (store s) k) :: unit + _) True = Some (Inr w)"
proof -
  have "holds_after ex_codec ex_world (keep_blocks 1) ex_quiet_history
      (\<lambda>s. idle (non_canonical (database s)) \<and>
         (case pruning (database s) of None \<Rightarrow> False | Some w \<Rightarrow> map row_hash (death_rows w) = [1]))"
    by code_simp
  from holds_afterD [OF this] obtain s where s: "state_db_run ex_codec ex_world (keep_blocks 1) ex_quiet_history s"
    "idle (non_canonical (database s))"
    and c: "case pruning (database s) of None \<Rightarrow> False | Some w \<Rightarrow> map row_hash (death_rows w) = [1]" by blast
  obtain w where w: "pruning (database s) = Some w" "map row_hash (death_rows w) = [1]"
    using case_SomeD [OF c] by (elim exE conjE)
  have n: "number_of ex_world h + 1 < 2 ^ 64" for h by (simp add: ex_world_def)
  have "Abort \<notin> set ex_quiet_history" by (simp add: ex_quiet_history_def)
  from window_survives_restart [OF ex_codec_ok ex_world_ok n s(1) [unfolded keep_blocks_def] this s(2) w(1)] s(1) w(2)
  show ?thesis by (intro exI conjI)
qed









end
