(* ===== verification/Spec2Isabelle.thy ===== *)
theory Spec2Isabelle
  imports Balances_Safety Overlayed_Lockstep Grandpa_Safety Freeing_Bump_Safety State_Db_Safety
begin

text \<open>
  A verification library for parts of Substrate: the runtime modules that keep balances, the overlay the
  state machine collects a block's changes in, the client structures that follow the tree of blocks, the
  authority sets of the finality gadget built on them, the state database that keeps and prunes the states
  of blocks, and the allocator of the Wasm heap.

  \<^bold>\<open>Conventions.\<close>  \<open>Rust_Prelude\<close> and \<open>Rust_Collections\<close> hold what the models share of the
  language and its standard library: words at their width with checked and saturating operations, the
  plain operators wrapping as in release builds; \<open>Result\<close> as a sum with the error on the left; vectors as
  lists; \<open>BTreeMap\<close> as a sorted association list with the invariant \<open>bt_inv\<close>; \<open>Reverse\<close>.  A
  stateful operation takes and returns its state, also when it fails.  Where the code can panic or run
  forever the result is an option and \<open>None\<close> stands for either; the theorems then show that a result
  is returned.  Block numbers of the client structures, which are generic in the code, are natural
  numbers.

  \<^bold>\<open>System and Balances.\<close>  \<open>Runtime_Types\<close> has the error and origin types of
  \<open>primitives/runtime\<close>.  \<open>Frame_System\<close> models the account registry of \<open>frame/system\<close>
  (reference counters, the \<open>StoredMap\<close> interface, events).  \<open>Balances_Model\<close> models
  \<open>frame/balances\<close>: the \<open>Currency\<close>, \<open>ReservableCurrency\<close>, \<open>NamedReservableCurrency\<close>,
  \<open>LockableCurrency\<close> and \<open>fungible\<close> implementations, the dispatchable calls and genesis, with
  imbalances whose drop changes the issuance.  \<open>Balances_Issuance\<close> has the accounting of one account
  mutation, \<open>Balances_Ops\<close> lifts it to every operation, \<open>Balances_Safety\<close> has the calls of
  the pallet as a datatype, which of them are safe (\<open>safe_call\<close>: what the code does not check itself and
  issuance depends on), the invariant that issuance is what is held after every sequence of safe calls,
  refused ones included, the exact effect of transfers, locks, slashes and reserves, and the behaviours
  that differ from what the code means to do.

  \<^bold>\<open>Overlay.\<close>  \<open>Overlayed_Changeset\<close> models the transactional map of
  \<open>primitives/state-machine/src/overlayed_changes/changeset.rs\<close>, \<open>Overlayed_Changes\<close> the
  overlays of a block (\<open>mod.rs\<close>, \<open>offchain.rs\<close>).  \<open>Overlay_Refinement\<close> states what a
  transactional store promises (a stack of plain maps), with the interface \<open>tx_store\<close> and its
  interpretation; rollback, commit and leaving the runtime are proved in it for every well-nested sequence
  of operations.  \<open>Overlayed_Lockstep\<close> shows that the main, child and offchain overlays open and close
  transactions together, so that none of the \<open>expect\<close> calls can fail as long as the changes are drained
  only outside every transaction and outside the runtime (\<open>oc_allowed\<close>).

  \<^bold>\<open>Blocks.\<close>  \<open>Header_Metadata\<close> models \<open>primitives/blockchain/src/header_metadata.rs\<close> and the
  ancestry test of \<open>client/api\<close>: loops over parent and ancestor links as partial functions, with the
  interface \<open>header_backend\<close> under which they end with the lowest common ancestor and the tree route.
  \<open>Leaf_Set\<close> models \<open>client/api/src/leaves.rs\<close>; \<open>In_Mem_Chain\<close> the in-memory blockchain
  (\<open>client/api/src/in_mem.rs\<close>) with the invariant that its number index is the ancestry of the best
  block and its leaf set the childless blocks; \<open>Chain_Db\<close> the header metadata of the database backend
  with its cache, over an LRU map given by its operations and laws.  Both backends interpret
  \<open>header_backend\<close>.

  \<^bold>\<open>Fork tree.\<close>  \<open>Fork_Tree\<close> models \<open>utils/fork-tree\<close>.  \<open>Fork_Tree_Shape\<close> has what holds
  for any ancestry test, \<open>Fork_Tree_Safety\<close> the interface \<open>ancestry\<close> with the laws the tree relies
  on and the effect of import, the finalisations and the search under it, \<open>Fork_Tree_Chain\<close> its
  interpretation on the ancestry test of the database: there a tree that follows the chain has a node below
  another exactly when its block is a descendant.

  \<^bold>\<open>GRANDPA authority sets.\<close>  \<open>Grandpa_Authorities\<close> models
  \<open>client/finality-grandpa/src/authorities.rs\<close> over the fork tree; \<open>Grandpa_Safety\<close> has the
  invariant over every history, for ancestry tests that may fail at any time, the exact effect of a
  finalised block on the authority set and its pending changes, and the set a block is looked up in; the
  recorded ends are shown to increase for histories without forced changes in which no ancestry test
  fails.

  \<^bold>\<open>State database.\<close>  \<open>State_Db_Types\<close>, \<open>Pruning_Window\<close>, \<open>Noncanonical\<close> and \<open>State_Db\<close>
  model \<open>client/state-db\<close>: change and commit sets, the pruning window of \<open>pruning.rs\<close>, the overlay of
  non-canonical blocks of \<open>noncanonical.rs\<close> and the database over both (\<open>StateDbSync\<close> of
  \<open>lib.rs\<close>).  The codec is a record of functions, with the law that decoding inverts
  encoding where the journal is read back.  Block numbers and reference counters are natural
  numbers, the mask of journal indices is a 64-bit word, debug assertions are left out.
  \<open>Noncanonical_Shape\<close>, \<open>Noncanonical_Growth\<close> and \<open>Noncanonical_Undo\<close> have the invariant of
  the overlay, relative to a tree of blocks with their states: every counter is the number of blocks that
  inserted the node, and levels are generations.  \<open>State_Db_System\<close> adds the store and the calls the
  backend of \<open>client/db\<close> makes, as events; its invariant says which states are in the store.
  \<open>State_Db_Journal\<close> follows the pruning journal through the commits.
  \<open>State_Db_Safety\<close> shows that states which are not reported as pruned can be read in full, except
  those of discarded forks that only a pin keeps, in histories of proper calls (\<open>proper\<close>: blocks go on the
  last canonical block or on a block of the levels, canonicalizations of one transaction follow each
  other, removals and reverts happen with nothing pending), that
  pruning deletes what it should and nothing else, that the window is read back from its journal after a
  restart, that no call panics, what is left of the state of a discarded fork under a pin, that a child
  of such a block is still accepted, and that the best canonical number is one too high while the
  canonicalization of genesis is pending.  Its histories open the database
  with reference counting by the window (\<open>count_insertions\<close>), which is what stores without counters of
  their own use.  The overlay of non-canonical blocks that a restart reads back is modelled, but not
  compared with the one in memory.

  \<^bold>\<open>Allocator.\<close>  \<open>Freeing_Bump\<close> models \<open>client/allocator/src/freeing_bump.rs\<close> over a memory
  of bytes, headers included.  \<open>Freeing_Bump_Safety\<close> shows that live blocks never overlap and when a
  request is served, for histories in which the client writes into its blocks and the memory grows, and
  that a bumper carried past 4 GiB wraps.

  \<^bold>\<open>Bounds.\<close>  No fuel is used: loops are structural, have a termination proof, or are partial
  functions shown to return.  The allocator theorems bound the memory by 32 MiB less than 4 GiB, because
  beyond it the checks of the code can wrap; a theorem shows when they do.

  \<^bold>\<open>Not modelled.\<close>  Storage columns, tries and the codec are other crates or generated code: what is
  stored is modelled as the decoded value, except for the journals of the state database.  Networking, the executors, the transaction pool, RPC, telemetry
  and logging are input and output around what is modelled.  The macro-generated dispatch and storage of
  \<open>frame/support\<close> appears only through the operations of the modelled modules.  The other runtime
  modules (staking, elections, contracts, democracy and so on) and BABE are left for later.
\<close>

end
